(* ===== verification/Prelude.thy ===== *)
theory Prelude
  imports Main
begin

text \<open>
  Shared vocabulary of the development: results as sums, JavaScript numbers and the few string
  operations the code uses, decimal printing and parsing, tables as lists of rows with the
  statements the repositories issue, and transactions that roll back on a throw.
  The collections \<open>row_simps\<close> and \<open>result_simps\<close> gather the simplification rules that the
  component theories add to \<open>simp\<close> and \<open>auto\<close>.
\<close>

named_theorems row_simps "updates, look-ups and counts over tables"

named_theorems result_simps "sequencing of results and of transactions"


section \<open>Results\<close>

text \<open>A throw is the value \<open>Inl e\<close>; sequencing stops at the first one.\<close>

fun ebind :: "'e + 'a \<Rightarrow> ('a \<Rightarrow> 'e + 'b) \<Rightarrow> 'e + 'b" where
  "ebind (Inl e) f = Inl e"
| "ebind (Inr a) f = f a"

definition ensure :: "bool \<Rightarrow> 'e \<Rightarrow> 'e + unit" where
  "ensure b e = (if b then Inr () else Inl e)"

lemma ebind_Inr_iff [result_simps]:
  "ebind r f = Inr b \<longleftrightarrow> (\<exists>a. r = Inr a \<and> f a = Inr b)"
  by (cases r) auto

lemma ebind_Inl_iff [result_simps]:
  "ebind r f = Inl e \<longleftrightarrow> r = Inl e \<or> (\<exists>a. r = Inr a \<and> f a = Inl e)"
  by (cases r) auto

lemma ensure_Inr_iff [result_simps]: "ensure b e = Inr u \<longleftrightarrow> b"
  by (simp add: ensure_def)

lemma ensure_Inl_iff [result_simps]: "ensure b e = Inl e' \<longleftrightarrow> \<not> b \<and> e' = e"
  by (auto simp: ensure_def)

fun traverse :: "('a \<Rightarrow> 'e + 'b) \<Rightarrow> 'a list \<Rightarrow> 'e + 'b list" where
  "traverse f [] = Inr []"
| "traverse f (x # xs) = ebind (f x) (\<lambda>y. ebind (traverse f xs) (\<lambda>ys. Inr (y # ys)))"

lemma traverse_Inr_length: "traverse f xs = Inr ys \<Longrightarrow> length ys = length xs"
  by (induction xs arbitrary: ys) (auto simp: result_simps)

lemma traverse_Inr_all:
  "traverse f xs = Inr ys \<Longrightarrow> \<forall>y \<in> set ys. \<exists>x \<in> set xs. f x = Inr y"
proof (induction xs arbitrary: ys)
  case Nil
  then show ?case by simp
next
  case (Cons x xs)
  then obtain y zs where "f x = Inr y" "traverse f xs = Inr zs" "ys = y # zs"
    by (auto simp: result_simps)
  with Cons.IH [of zs] show ?case by auto
qed

text \<open>
  A stateful operation that may throw takes the state and returns the result with the new state.
  A database transaction keeps the state it started from when its body throws.
\<close>

type_synonym ('s, 'e, 'a) act = "'s \<Rightarrow> ('e + 'a) \<times> 's"

definition act_bind :: "('s, 'e, 'a) act \<Rightarrow> ('a \<Rightarrow> ('s, 'e, 'b) act) \<Rightarrow> ('s, 'e, 'b) act" where
  "act_bind m f = (\<lambda>s. case m s of (Inl e, s') \<Rightarrow> (Inl e, s') | (Inr a, s') \<Rightarrow> f a s')"

definition in_tx :: "('s, 'e, 'a) act \<Rightarrow> ('s, 'e, 'a) act" where
  "in_tx m = (\<lambda>s. case m s of (Inl e, _) \<Rightarrow> (Inl e, s) | (Inr a, s') \<Rightarrow> (Inr a, s'))"

definition act_return :: "'a \<Rightarrow> ('s, 'e, 'a) act" where
  "act_return a = (\<lambda>s. (Inr a, s))"

definition act_throw :: "'e \<Rightarrow> ('s, 'e, 'a) act" where
  "act_throw e = (\<lambda>s. (Inl e, s))"

definition act_get :: "('s \<Rightarrow> 'a) \<Rightarrow> ('s, 'e, 'a) act" where
  "act_get f = (\<lambda>s. (Inr (f s), s))"

definition act_lift :: "'e + 'a \<Rightarrow> ('s, 'e, 'a) act" where
  "act_lift r = (\<lambda>s. (r, s))"

definition act_modify :: "('s \<Rightarrow> 's) \<Rightarrow> ('s, 'e, unit) act" where
  "act_modify f = (\<lambda>s. (Inr (), f s))"

definition act_state :: "('s \<Rightarrow> 'a \<times> 's) \<Rightarrow> ('s, 'e, 'a) act" where
  "act_state f = (\<lambda>s. let (a, s') = f s in (Inr a, s'))"

definition act_try :: "('s \<Rightarrow> 'e + 's) \<Rightarrow> ('s, 'e, unit) act" where
  "act_try f = (\<lambda>s. case f s of Inl e \<Rightarrow> (Inl e, s) | Inr s' \<Rightarrow> (Inr (), s'))"

lemma act_bind_Inr:
  "act_bind m f s = (Inr b, s2) \<longleftrightarrow> (\<exists>a s1. m s = (Inr a, s1) \<and> f a s1 = (Inr b, s2))"
  by (auto simp: act_bind_def split: prod.splits sum.splits)

lemma act_bind_simps [simp]:
  "m s = (Inl e, s1) \<Longrightarrow> act_bind m f s = (Inl e, s1)"
  "m s = (Inr a, s1) \<Longrightarrow> act_bind m f s = f a s1"
  by (simp_all add: act_bind_def)

lemma act_simps [simp]:
  "act_return a s = (Inr a, s)"
  "act_throw e s = (Inl e, s)"
  "act_get g s = (Inr (g s), s)"
  "act_lift r s = (r, s)"
  "act_modify h s = (Inr (), h s)"
  "act_state k s = (Inr (fst (k s)), snd (k s))"
  by (simp_all add: act_return_def act_throw_def act_get_def act_lift_def act_modify_def
      act_state_def split: prod.splits)

text \<open>A step kept by each part is kept by the whole.\<close>

lemma act_bind_keeps:
  assumes "\<And>r s'. m s = (r, s') \<Longrightarrow> P s'"
    and "\<And>a s1 r s'. m s = (Inr a, s1) \<Longrightarrow> P s1 \<Longrightarrow> f a s1 = (r, s') \<Longrightarrow> P s'"
    and "act_bind m f s = (r, s')"
  shows "P s'"
  using assms by (auto simp: act_bind_def split: prod.splits sum.splits)

lemma in_tx_Inl: "in_tx m s = (Inl e, s') \<Longrightarrow> s' = s"
  by (auto simp: in_tx_def split: prod.splits sum.splits)

lemma in_tx_Inr [result_simps]: "in_tx m s = (Inr a, s') \<longleftrightarrow> m s = (Inr a, s')"
  by (auto simp: in_tx_def split: prod.splits sum.splits)

lemma in_tx_keeps:
  assumes "in_tx m s = (r, s')" and "P s"
    and "\<And>a t. m s = (Inr a, t) \<Longrightarrow> P t"
  shows "P s'"
  using assms by (cases r) (auto simp: result_simps dest: in_tx_Inl)


section \<open>JavaScript numbers\<close>

text \<open>
  A Number where the code calls \<open>Number.isInteger\<close> or \<open>Number.isSafeInteger\<close> on it:
  \<open>JNonInt\<close> stands for every fraction, NaN and the infinities. Everywhere else the code works
  on integers inside the safe range, where doubles are exact, and the model uses \<open>int\<close>.
\<close>

datatype js_number = JInt int | JNonInt

definition MAX_SAFE_INTEGER :: int where
  "MAX_SAFE_INTEGER = 2 ^ 53 - 1"

fun is_safe_integer :: "js_number \<Rightarrow> bool" where
  "is_safe_integer (JInt n) \<longleftrightarrow> - MAX_SAFE_INTEGER \<le> n \<and> n \<le> MAX_SAFE_INTEGER"
| "is_safe_integer JNonInt \<longleftrightarrow> False"

text \<open>A value from outside the type system, of which the code asks only whether it is a string.\<close>

datatype js_value = JStr string | JOther


section \<open>Strings\<close>

text \<open>Strings are lists of ASCII characters; the code's case mapping and trimming are those of ASCII.\<close>

definition is_space :: "char \<Rightarrow> bool" where
  "is_space c \<longleftrightarrow> (let n = (of_char c :: nat) in n = 32 \<or> 9 \<le> n \<and> n \<le> 13)"

definition js_trim :: "string \<Rightarrow> string" where
  "js_trim s = rev (dropWhile is_space (rev (dropWhile is_space s)))"

definition upper_char :: "char \<Rightarrow> char" where
  "upper_char c =
     (let n = (of_char c :: nat) in if 97 \<le> n \<and> n \<le> 122 then char_of (n - 32) else c)"

definition lower_char :: "char \<Rightarrow> char" where
  "lower_char c =
     (let n = (of_char c :: nat) in if 65 \<le> n \<and> n \<le> 90 then char_of (n + 32) else c)"

definition js_upper :: "string \<Rightarrow> string" where
  "js_upper s = map upper_char s"

definition js_lower :: "string \<Rightarrow> string" where
  "js_lower s = map lower_char s"

lemma of_char_less: "(of_char c :: nat) < 256"
  using of_char_mod_256 [of c, where 'a = nat]
  by (metis mod_less_divisor zero_less_numeral)

lemma of_char_upper:
  "(of_char (upper_char c) :: nat) =
     (let n = of_char c in if 97 \<le> n \<and> n \<le> 122 then n - 32 else n)"
  using of_char_less [of c] by (auto simp: upper_char_def Let_def)

lemma of_char_lower:
  "(of_char (lower_char c) :: nat) =
     (let n = of_char c in if 65 \<le> n \<and> n \<le> 90 then n + 32 else n)"
  using of_char_less [of c] by (auto simp: lower_char_def Let_def)

lemma upper_char_idem [simp]: "upper_char (upper_char c) = upper_char c"
proof -
  have "(of_char (upper_char c) :: nat) < 97 \<or> 122 < (of_char (upper_char c) :: nat)"
    by (auto simp: of_char_upper Let_def)
  then show ?thesis
    unfolding upper_char_def [of "upper_char c"] by (auto simp: Let_def)
qed

lemma lower_char_idem [simp]: "lower_char (lower_char c) = lower_char c"
proof -
  have "(of_char (lower_char c) :: nat) < 65 \<or> 90 < (of_char (lower_char c) :: nat)"
    by (auto simp: of_char_lower Let_def)
  then show ?thesis
    unfolding lower_char_def [of "lower_char c"] by (auto simp: Let_def)
qed

lemma is_space_upper [simp]: "is_space (upper_char c) \<longleftrightarrow> is_space c"
  by (auto simp: is_space_def of_char_upper Let_def)

lemma is_space_lower [simp]: "is_space (lower_char c) \<longleftrightarrow> is_space c"
  by (auto simp: is_space_def of_char_lower Let_def)

lemma dropWhile_fixed: "(s \<noteq> [] \<Longrightarrow> \<not> P (hd s)) \<Longrightarrow> dropWhile P s = s"
  by (cases s) auto

lemma js_trim_ends:
  assumes "js_trim s \<noteq> []"
  shows "\<not> is_space (hd (js_trim s)) \<and> \<not> is_space (last (js_trim s))"
proof -
  let ?t = "dropWhile is_space s"
  let ?r = "dropWhile is_space (rev ?t)"
  have r: "?r \<noteq> []" using assms by (simp add: js_trim_def)
  have lst: "\<not> is_space (hd ?r)" using r by (rule hd_dropWhile)
  obtain us where us: "rev ?t = us @ ?r"
    by (metis takeWhile_dropWhile_id)
  then have t: "?t = rev ?r @ rev us"
    by (metis rev_append rev_rev_ident)
  have "?t \<noteq> []" using r by (metis dropWhile.simps(1) rev.simps(1))
  then have "\<not> is_space (hd ?t)" by (rule hd_dropWhile)
  with t r have "\<not> is_space (hd (rev ?r))"
    by (metis hd_append rev_is_Nil_conv)
  with lst r show ?thesis by (simp add: js_trim_def last_rev)
qed

lemma js_trim_fixed:
  "s = [] \<or> \<not> is_space (hd s) \<and> \<not> is_space (last s) \<Longrightarrow> js_trim s = s"
  by (auto simp: js_trim_def dropWhile_fixed hd_rev)

lemma js_trim_idem [simp]: "js_trim (js_trim s) = js_trim s"
  using js_trim_ends by (intro js_trim_fixed) blast

lemma js_trim_map:
  "(\<And>c. is_space (f c) \<longleftrightarrow> is_space c) \<Longrightarrow> js_trim (map f s) = map f (js_trim s)"
  by (simp add: js_trim_def dropWhile_map rev_map comp_def)

lemma js_upper_idem [simp]: "js_upper (js_upper s) = js_upper s"
  by (simp add: js_upper_def)

lemma js_lower_idem [simp]: "js_lower (js_lower s) = js_lower s"
  by (simp add: js_lower_def)

lemma js_trim_upper: "js_trim (js_upper s) = js_upper (js_trim s)"
  by (simp add: js_upper_def js_trim_map)

lemma js_trim_lower: "js_trim (js_lower s) = js_lower (js_trim s)"
  by (simp add: js_lower_def js_trim_map)

lemma length_js_upper [simp]: "length (js_upper s) = length s"
  by (simp add: js_upper_def)


subsection \<open>Decimal numerals\<close>

definition digit_char :: "nat \<Rightarrow> char" where
  "digit_char d = char_of (48 + d)"

definition is_digit :: "char \<Rightarrow> bool" where
  "is_digit c \<longleftrightarrow> 48 \<le> (of_char c :: nat) \<and> (of_char c :: nat) \<le> 57"

definition digit_val :: "char \<Rightarrow> nat" where
  "digit_val c = of_char c - 48"

fun dec_of_nat :: "nat \<Rightarrow> string" where
  "dec_of_nat n = (if n < 10 then [digit_char n] else dec_of_nat (n div 10) @ [digit_char (n mod 10)])"

declare dec_of_nat.simps [simp del]

definition nat_of_dec :: "string \<Rightarrow> nat" where
  "nat_of_dec s = foldl (\<lambda>a c. 10 * a + digit_val c) 0 s"

lemma digit_val_char [simp]: "d < 10 \<Longrightarrow> digit_val (digit_char d) = d"
  by (simp add: digit_val_def digit_char_def of_char_of)

lemma is_digit_char [simp]: "d < 10 \<Longrightarrow> is_digit (digit_char d)"
  by (simp add: is_digit_def digit_char_def of_char_of)

lemma digit_char_val: "is_digit c \<Longrightarrow> digit_char (digit_val c) = c"
  by (simp add: is_digit_def digit_val_def digit_char_def)

lemma digit_val_less: "is_digit c \<Longrightarrow> digit_val c < 10"
  by (simp add: is_digit_def digit_val_def) linarith

lemma digit_char_zero: "d < 10 \<Longrightarrow> digit_char d = CHR ''0'' \<longleftrightarrow> d = 0"
proof -
  assume d: "d < 10"
  have "digit_char 0 = CHR ''0''" by (simp add: digit_char_def char_of_def bit_iff_odd)
  with d show ?thesis by (metis digit_val_char zero_less_numeral)
qed

lemma nat_of_dec_Nil [simp]: "nat_of_dec [] = 0"
  by (simp add: nat_of_dec_def)

lemma nat_of_dec_snoc: "nat_of_dec (s @ [c]) = 10 * nat_of_dec s + digit_val c"
  by (simp add: nat_of_dec_def)

lemma nat_of_dec_of_nat [simp]: "nat_of_dec (dec_of_nat n) = n"
proof (induction n rule: dec_of_nat.induct)
  case (1 n)
  show ?case
  proof (cases "n < 10")
    case True
    then show ?thesis
      using nat_of_dec_snoc [of "[]"] by (simp add: dec_of_nat.simps)
  next
    case False
    with "1.IH" show ?thesis
      by (subst dec_of_nat.simps) (simp add: nat_of_dec_snoc)
  qed
qed

lemma dec_of_nat_inj [simp]: "dec_of_nat m = dec_of_nat n \<longleftrightarrow> m = n"
  by (metis nat_of_dec_of_nat)

lemma dec_of_nat_nonempty [simp]: "dec_of_nat n \<noteq> []"
  by (subst dec_of_nat.simps) simp

lemma dec_of_nat_digits: "\<forall>c \<in> set (dec_of_nat n). is_digit c"
proof (induction n rule: dec_of_nat.induct)
  case (1 n)
  then show ?case by (subst dec_of_nat.simps) auto
qed

lemma dec_of_nat_hd: "0 < n \<Longrightarrow> hd (dec_of_nat n) \<noteq> CHR ''0''"
proof (induction n rule: dec_of_nat.induct)
  case (1 n)
  show ?case
  proof (cases "n < 10")
    case True
    with "1.prems" show ?thesis by (simp add: dec_of_nat.simps digit_char_zero)
  next
    case False
    then have "0 < n div 10" by simp
    with False "1.IH" show ?thesis by (subst dec_of_nat.simps) simp
  qed
qed

lemma dec_of_nat_length: "0 < k \<Longrightarrow> length (dec_of_nat n) \<le> k \<longleftrightarrow> n < 10 ^ k"
proof (induction n arbitrary: k rule: dec_of_nat.induct)
  case (1 n)
  show ?case
  proof (cases "n < 10")
    case True
    moreover have "(10::nat) \<le> 10 ^ k" using "1.prems" by (simp add: self_le_power)
    ultimately show ?thesis using "1.prems" by (simp add: dec_of_nat.simps)
  next
    case False
    then obtain j where k: "k = Suc j" using "1.prems" gr0_implies_Suc by blast
    have len: "length (dec_of_nat n) = Suc (length (dec_of_nat (n div 10)))"
      using False by (subst dec_of_nat.simps) simp
    show ?thesis
    proof (cases j)
      case 0
      then show ?thesis using False k len by (simp add: leD)
    next
      case (Suc i)
      then have "length (dec_of_nat (n div 10)) \<le> j \<longleftrightarrow> n div 10 < 10 ^ j"
        using "1.IH" [OF False, of j] by simp
      also have "\<dots> \<longleftrightarrow> n < 10 ^ k"
        by (simp add: k div_less_iff_less_mult mult.commute)
      finally show ?thesis using len k by simp
    qed
  qed
qed

text \<open>The printed form is the only canonical spelling of its value.\<close>

lemma dec_of_nat_of_dec:
  assumes "s \<noteq> []" and "\<forall>c \<in> set s. is_digit c" and "hd s \<noteq> CHR ''0''"
  shows "dec_of_nat (nat_of_dec s) = s \<and> 0 < nat_of_dec s"
  using assms
proof (induction s rule: rev_induct)
  case Nil
  then show ?case by simp
next
  case (snoc c s)
  let ?d = "digit_val c"
  have c: "is_digit c" and d: "?d < 10" using snoc.prems digit_val_less by auto
  show ?case
  proof (cases "s = []")
    case True
    then have "c \<noteq> CHR ''0''" using snoc.prems by simp
    then have "0 < ?d" using digit_char_zero [OF d] digit_char_val [OF c] by auto
    with True c d show ?thesis
      using nat_of_dec_snoc [of "[]" c] by (simp add: dec_of_nat.simps digit_char_val)
  next
    case False
    then have IH: "dec_of_nat (nat_of_dec s) = s" "0 < nat_of_dec s"
      using snoc by (auto simp: hd_append)
    let ?n = "10 * nat_of_dec s + ?d"
    have "\<not> ?n < 10" "?n div 10 = nat_of_dec s" "?n mod 10 = ?d" using IH(2) d by auto
    then have "dec_of_nat ?n = dec_of_nat (nat_of_dec s) @ [digit_char ?d]"
      by (subst dec_of_nat.simps) simp
    then show ?thesis using IH c by (simp add: nat_of_dec_snoc digit_char_val)
  qed
qed


section \<open>Orders of rows\<close>

text \<open>Sorting by one key and then, stably, by another is sorting by the pair: ORDER BY two columns.\<close>

definition sorted_by :: "('a \<Rightarrow> 'b::linorder) \<Rightarrow> ('a \<Rightarrow> 'c::linorder) \<Rightarrow> 'a list \<Rightarrow> bool" where
  "sorted_by f g xs \<longleftrightarrow> sorted_wrt (\<lambda>a b. f a < f b \<or> f a = f b \<and> g a \<le> g b) xs"

lemma insort_sorted_by:
  "sorted_by f g ys \<Longrightarrow> \<forall>y \<in> set ys. g x \<le> g y \<Longrightarrow> sorted_by f g (insort_key f x ys)"
  unfolding sorted_by_def by (induction ys) (fastforce simp: set_insort_key)+

lemma sort_sorted_by: "sorted (map g xs) \<Longrightarrow> sorted_by f g (sort_key f xs)"
proof (induction xs)
  case (Cons x xs)
  then show ?case by (simp add: insort_sorted_by)
qed (simp add: sorted_by_def)

lemma sorted_by_sort_key [simp]: "sorted_by f g (sort_key f (sort_key g xs))"
  by (rule sort_sorted_by) simp

text \<open>A strictly ordered list is determined by its elements.\<close>

lemma sorted_wrt_unique:
  assumes asym: "\<And>a b. R a b \<Longrightarrow> \<not> R b a"
  shows "sorted_wrt R xs \<Longrightarrow> sorted_wrt R ys \<Longrightarrow> set xs = set ys \<Longrightarrow> xs = ys"
proof (induction xs arbitrary: ys)
  case (Cons x xs)
  then obtain y zs where ys: "ys = y # zs" by (cases ys) auto
  have "x = y" using Cons.prems ys asym by (metis list.set_intros(1) set_ConsD sorted_wrt.simps(2))
  moreover have "\<not> R a a" for a using asym by blast
  then have "x \<notin> set xs" "y \<notin> set zs" using Cons.prems ys by auto
  then have "set xs = set zs" using Cons.prems(3) ys \<open>x = y\<close> by auto
  ultimately show ?case using Cons ys by simp
qed simp


section \<open>Tables\<close>

text \<open>
  A table is the list of its rows in insertion order. \<open>update_where\<close> is an UPDATE with its WHERE
  clause, \<open>find_where\<close> a SELECT of the first matching row, \<open>count_where\<close> a SELECT count.
\<close>

definition update_where :: "('r \<Rightarrow> bool) \<Rightarrow> ('r \<Rightarrow> 'r) \<Rightarrow> 'r list \<Rightarrow> 'r list" where
  "update_where p f rs = map (\<lambda>r. if p r then f r else r) rs"

definition find_where :: "('r \<Rightarrow> bool) \<Rightarrow> 'r list \<Rightarrow> 'r option" where
  "find_where p rs = List.find p rs"

definition count_where :: "('r \<Rightarrow> bool) \<Rightarrow> 'r list \<Rightarrow> nat" where
  "count_where p rs = length (filter p rs)"

lemma update_where_simps [row_simps]:
  "update_where p f [] = []"
  "update_where p f (r # rs) = (if p r then f r else r) # update_where p f rs"
  by (simp_all add: update_where_def)

lemma find_where_simps [row_simps]:
  "find_where p [] = None"
  "find_where p (r # rs) = (if p r then Some r else find_where p rs)"
  by (simp_all add: find_where_def)

lemma count_where_simps [row_simps]:
  "count_where p [] = 0"
  "count_where p (r # rs) = (if p r then 1 else 0) + count_where p rs"
  by (simp_all add: count_where_def)

lemma length_update_where [simp]: "length (update_where p f rs) = length rs"
  by (simp add: update_where_def)

lemma find_where_Some: "find_where p rs = Some r \<Longrightarrow> p r \<and> r \<in> set rs"
  by (induction rs) (auto simp: row_simps split: if_splits)

lemma find_where_None: "find_where p rs = None \<longleftrightarrow> (\<forall>r \<in> set rs. \<not> p r)"
  by (induction rs) (auto simp: row_simps)

lemma find_where_append [row_simps]:
  "find_where p (xs @ ys) = (case find_where p xs of None \<Rightarrow> find_where p ys | Some r \<Rightarrow> Some r)"
  by (induction xs) (auto simp: row_simps)

lemma set_update_where: "r \<in> set (update_where p f rs) \<longleftrightarrow> (\<exists>q \<in> set rs. r = (if p q then f q else q))"
  by (auto simp: update_where_def)

lemma map_update_where:
  "(\<And>r. p r \<Longrightarrow> k (f r) = k r) \<Longrightarrow> map k (update_where p f rs) = map k rs"
  by (simp add: update_where_def)

lemma update_where_none: "\<forall>r \<in> set rs. \<not> p r \<Longrightarrow> update_where p f rs = rs"
  by (induction rs) (auto simp: row_simps)

lemma find_update_where:
  assumes "\<And>r. q (f r) \<longleftrightarrow> q r"
  shows "find_where q (update_where p f rs) =
           map_option (\<lambda>r. if p r then f r else r) (find_where q rs)"
  using assms by (induction rs) (auto simp: row_simps)

lemma count_update_where:
  assumes "\<And>r. r \<in> set rs \<Longrightarrow> q (if p r then f r else r) \<longleftrightarrow> q r"
  shows "count_where q (update_where p f rs) = count_where q rs"
  using assms by (induction rs) (auto simp: row_simps)

lemma count_where_append [row_simps]: "count_where q (xs @ ys) = count_where q xs + count_where q ys"
  by (simp add: count_where_def)

text \<open>Rows under a unique key: the row found under a key is the only one.\<close>

lemma unique_key_row:
  assumes "distinct (map k rs)" "r \<in> set rs" "r' \<in> set rs" "k r = k r'"
  shows "r = r'"
  using assms by (induction rs) (auto simp: image_iff)

lemma distinct_rekeyed:
  assumes "\<forall>r \<in> set rs. k (g r) = k r"
  shows "distinct (map (k \<circ> g) rs) \<longleftrightarrow> distinct (map k rs)"
proof -
  have "map (k \<circ> g) rs = map k rs" using assms by simp
  then show ?thesis by (rule arg_cong)
qed

lemma find_where_key:
  assumes "distinct (map k rs)" and "r \<in> set rs"
  shows "find_where (\<lambda>q. k q = k r) rs = Some r"
  using assms by (induction rs) (auto simp: row_simps image_iff)

text \<open>An UPDATE of the one row under a unique key.\<close>

lemma update_where_single:
  assumes "distinct (map k rs)" and "r \<in> set rs" and "\<And>x. x \<in> set rs \<Longrightarrow> p x \<longleftrightarrow> k x = k r"
  shows "\<exists>xs ys. rs = xs @ r # ys \<and> update_where p f rs = xs @ f r # ys"
proof -
  obtain xs ys where rs: "rs = xs @ r # ys" using assms(2) by (meson split_list)
  have "\<forall>x \<in> set xs \<union> set ys. \<not> p x"
    using assms(1,3) rs by (auto simp: image_iff)
  then have "update_where p f xs = xs" "update_where p f ys = ys"
    by (auto intro: update_where_none)
  moreover have "p r" using assms(2,3) by blast
  ultimately have "update_where p f rs = xs @ f r # ys" by (simp add: rs update_where_def)
  with rs show ?thesis by blast
qed

lemma find_where_unique:
  assumes "\<And>x. x \<in> set xs \<and> p x \<longleftrightarrow> x \<in> set ys \<and> q x"
    and "\<And>x y. x \<in> set xs \<Longrightarrow> p x \<Longrightarrow> y \<in> set xs \<Longrightarrow> p y \<Longrightarrow> x = y"
  shows "find_where p xs = find_where q ys"
proof (cases "find_where p xs")
  case None
  then have "find_where q ys = None" using assms(1) by (auto simp: find_where_None)
  with None show ?thesis by simp
next
  case (Some x)
  then have x: "x \<in> set xs" "p x" by (auto dest: find_where_Some)
  then have "find_where q ys \<noteq> None" using assms(1) by (auto simp: find_where_None)
  then obtain y where y: "find_where q ys = Some y" by blast
  then have "y \<in> set ys" "q y" by (auto dest: find_where_Some)
  then have "y = x" using assms x by blast
  with Some y show ?thesis by simp
qed

end
