(* ===== verification/Kernel_Values.thy ===== *)
theory Kernel_Values
  imports Prelude
begin

text \<open>
  The shared kernel (\<^verbatim>\<open>packages/kernel/src\<close>): the guards that throw \<open>DomainError\<close>, the
  \<open>Money\<close> value object (an exact count of minor units with a canonical currency code), duration
  strings and e-mail normalisation. Lemmas: money arithmetic is exact inside the safe range and
  closed under it, the currency code is canonical, a duration is positive exactly when it says so,
  and normalising twice changes nothing.
\<close>

datatype domain_error = DomainError string

type_synonym 'a checked = "domain_error + 'a"


section \<open>Guards\<close>

definition assertNonEmpty :: "string option \<Rightarrow> string \<Rightarrow> unit checked" where
  "assertNonEmpty value label =
     (case value of
        None \<Rightarrow> Inl (DomainError (label @ '' must not be empty''))
      | Some s \<Rightarrow> if js_trim s = [] then Inl (DomainError (label @ '' must not be empty'')) else Inr ())"

definition assertInteger :: "js_number \<Rightarrow> string \<Rightarrow> unit checked" where
  "assertInteger value label =
     (if is_safe_integer value then Inr () else Inl (DomainError (label @ '' must be a safe integer'')))"

text \<open>
  \<open>!(value > 0)\<close> also rejects NaN; a positive fraction passes. The model's \<open>JNonInt\<close> does not say
  which, so this guard is modelled on integers, which is all its callers pass after \<open>assertInteger\<close>.
\<close>

definition assertPositive :: "int \<Rightarrow> string \<Rightarrow> unit checked" where
  "assertPositive value label =
     (if \<not> 0 < value then Inl (DomainError (label @ '' must be positive'')) else Inr ())"

definition assertMaxLen :: "string \<Rightarrow> nat \<Rightarrow> string \<Rightarrow> unit checked" where
  "assertMaxLen value mx label =
     (if mx < length value
      then Inl (DomainError (label @ '' must be at most '' @ dec_of_nat mx @ '' characters''))
      else Inr ())"

lemma assertNonEmpty_Inr [result_simps]:
  "assertNonEmpty v l = Inr u \<longleftrightarrow> (\<exists>s. v = Some s \<and> js_trim s \<noteq> [])"
  by (auto simp: assertNonEmpty_def split: option.splits if_splits)

lemma assertInteger_Inr [result_simps]: "assertInteger v l = Inr u \<longleftrightarrow> is_safe_integer v"
  by (simp add: assertInteger_def)

lemma assertPositive_Inr [result_simps]: "assertPositive n l = Inr u \<longleftrightarrow> 0 < n"
  by (simp add: assertPositive_def)

lemma assertMaxLen_Inr [result_simps]: "assertMaxLen s m l = Inr u \<longleftrightarrow> length s \<le> m"
  by (auto simp: assertMaxLen_def)


section \<open>Money\<close>

record money =
  amountMinor :: int
  currency :: string

definition normalizeCurrency :: "string \<Rightarrow> string checked" where
  "normalizeCurrency cur =
     ebind (assertNonEmpty (Some cur) ''Money.currency'') (\<lambda>_.
       let code = js_upper (js_trim cur)
       in if length code \<noteq> 3
          then Inl (DomainError ''Money.currency must be a 3-letter ISO-4217 code'')
          else Inr code)"

definition money_of :: "js_number \<Rightarrow> string \<Rightarrow> money checked" where
  "money_of amount cur =
     ebind (assertInteger amount ''Money.amountMinor'') (\<lambda>_.
     ebind (normalizeCurrency cur) (\<lambda>code.
       case amount of
         JInt n \<Rightarrow> Inr \<lparr>amountMinor = n, currency = code\<rparr>
       | JNonInt \<Rightarrow> Inl (DomainError ''Money.amountMinor must be a safe integer'')))"

definition money_zero :: "string \<Rightarrow> money checked" where
  "money_zero cur = money_of (JInt 0) cur"

definition assertSameCurrency :: "money \<Rightarrow> money \<Rightarrow> unit checked" where
  "assertSameCurrency a b =
     (if currency a \<noteq> currency b
      then Inl (DomainError (''Money currency mismatch: '' @ currency a @ '' vs '' @ currency b))
      else Inr ())"

definition money_add :: "money \<Rightarrow> money \<Rightarrow> money checked" where
  "money_add a b =
     ebind (assertSameCurrency a b) (\<lambda>_. money_of (JInt (amountMinor a + amountMinor b)) (currency a))"

definition money_multiply :: "money \<Rightarrow> js_number \<Rightarrow> money checked" where
  "money_multiply a qty =
     ebind (assertInteger qty ''Money.multiply factor'') (\<lambda>_.
       case qty of
         JInt q \<Rightarrow> money_of (JInt (amountMinor a * q)) (currency a)
       | JNonInt \<Rightarrow> Inl (DomainError ''Money.multiply factor must be a safe integer''))"

text \<open>What a constructed amount satisfies: a safe integer and a canonical three-letter code.\<close>

definition canonical_currency :: "string \<Rightarrow> bool" where
  "canonical_currency c \<longleftrightarrow> length c = 3 \<and> js_trim c = c \<and> js_upper c = c"

definition valid_money :: "money \<Rightarrow> bool" where
  "valid_money m \<longleftrightarrow> is_safe_integer (JInt (amountMinor m)) \<and> canonical_currency (currency m)"

lemma canonical_nonempty: "canonical_currency c \<Longrightarrow> c \<noteq> []"
  by (auto simp: canonical_currency_def)

lemma normalizeCurrency_canonical:
  "normalizeCurrency cur = Inr code \<Longrightarrow> canonical_currency code"
  by (auto simp: normalizeCurrency_def canonical_currency_def result_simps Let_def
      js_trim_upper split: if_splits)

lemma normalizeCurrency_id: "canonical_currency c \<Longrightarrow> normalizeCurrency c = Inr c"
  using canonical_nonempty [of c]
  by (auto simp: normalizeCurrency_def canonical_currency_def assertNonEmpty_def Let_def)

lemma upper_lower_char: "upper_char (lower_char c) = upper_char c"
proof (rule of_char_eqI)
  show "(of_char (upper_char (lower_char c)) :: nat) = of_char (upper_char c)"
    by (auto simp: of_char_upper of_char_lower Let_def)
qed

lemma normalizeCurrency_case: "normalizeCurrency (js_lower cur) = normalizeCurrency cur"
proof -
  have "js_upper (js_lower s) = js_upper s" for s
    by (simp add: js_upper_def js_lower_def upper_lower_char)
  moreover have "js_lower s = [] \<longleftrightarrow> s = []" for s
    by (simp add: js_lower_def)
  ultimately show ?thesis
    by (simp add: normalizeCurrency_def assertNonEmpty_def js_trim_lower)
qed

lemma money_of_Inr [result_simps]:
  "money_of a cur = Inr m \<longleftrightarrow>
     (\<exists>n code. a = JInt n \<and> is_safe_integer a \<and> normalizeCurrency cur = Inr code \<and>
        m = \<lparr>amountMinor = n, currency = code\<rparr>)"
  by (cases a) (auto simp: money_of_def result_simps)

lemma money_of_valid: "money_of a cur = Inr m \<Longrightarrow> valid_money m"
  by (auto simp: result_simps valid_money_def dest: normalizeCurrency_canonical)

lemma money_zero_Inr:
  "money_zero cur = Inr m \<longleftrightarrow> (\<exists>code. normalizeCurrency cur = Inr code \<and> m = \<lparr>amountMinor = 0, currency = code\<rparr>)"
  by (auto simp: money_zero_def result_simps MAX_SAFE_INTEGER_def)

lemma money_add_Inr:
  assumes "valid_money a"
  shows "money_add a b = Inr m \<longleftrightarrow>
    currency a = currency b \<and> is_safe_integer (JInt (amountMinor a + amountMinor b)) \<and>
    m = \<lparr>amountMinor = amountMinor a + amountMinor b, currency = currency a\<rparr>"
  using assms
  by (auto simp: money_add_def assertSameCurrency_def result_simps valid_money_def normalizeCurrency_id
      split: if_splits)

lemma money_multiply_Inr:
  assumes "valid_money a"
  shows "money_multiply a (JInt q) = Inr m \<longleftrightarrow>
    is_safe_integer (JInt q) \<and> is_safe_integer (JInt (amountMinor a * q)) \<and>
    m = \<lparr>amountMinor = amountMinor a * q, currency = currency a\<rparr>"
  using assms
  by (auto simp: money_multiply_def result_simps valid_money_def normalizeCurrency_id)

lemma money_add_valid: "valid_money a \<Longrightarrow> money_add a b = Inr m \<Longrightarrow> valid_money m"
  by (auto simp: money_add_Inr valid_money_def)

lemma money_multiply_valid: "valid_money a \<Longrightarrow> money_multiply a q = Inr m \<Longrightarrow> valid_money m"
  by (auto simp: money_multiply_def ebind_Inr_iff split: js_number.splits dest: money_of_valid)


section \<open>Durations and e-mail addresses\<close>

fun unit_to_ms :: "string \<Rightarrow> int option" where
  "unit_to_ms u =
     (if u = ''ms'' then Some 1
      else if u = ''s'' then Some 1000
      else if u = ''m'' then Some 60000
      else if u = ''h'' then Some 3600000
      else if u = ''d'' then Some 86400000
      else None)"

datatype duration_error = InvalidDuration string | DurationPastSafeRange string

definition durationToMs :: "string \<Rightarrow> duration_error + int" where
  "durationToMs value =
     (let t = js_trim value;
          digits = takeWhile is_digit t;
          unit = js_lower (dropWhile is_digit t)
      in case (digits, unit_to_ms unit) of
           ([], _) \<Rightarrow> Inl (InvalidDuration value)
         | (_, None) \<Rightarrow> Inl (InvalidDuration value)
         | (_, Some factor) \<Rightarrow>
             let ms = int (nat_of_dec digits) * factor
             in if is_safe_integer (JInt ms) then Inr ms else Inl (DurationPastSafeRange value))"

definition normalizeEmail :: "string \<Rightarrow> string" where
  "normalizeEmail raw = js_lower (js_trim raw)"

lemma durationToMs_bounds: "durationToMs v = Inr ms \<Longrightarrow> 0 \<le> ms \<and> ms \<le> MAX_SAFE_INTEGER"
  by (auto simp: durationToMs_def Let_def split: list.splits option.splits if_splits)

text \<open>A bare number is refused: the unit is mandatory.\<close>

lemma durationToMs_needs_unit:
  "\<forall>c \<in> set (js_trim v). is_digit c \<Longrightarrow> durationToMs v = Inl (InvalidDuration v)"
  by (simp add: durationToMs_def Let_def js_lower_def dropWhile_eq_Nil_conv [THEN iffD2] split: list.splits)

lemma is_digit_not_lower: "is_digit c \<Longrightarrow> lower_char c = c"
  by (auto simp: is_digit_def lower_char_def Let_def)

lemma normalizeEmail_idem: "normalizeEmail (normalizeEmail e) = normalizeEmail e"
  by (simp add: normalizeEmail_def js_trim_lower)

end
