(* ===== verification/Lifecycle.thy ===== *)
theory Lifecycle
  imports Prelude
begin

text \<open>
  The contract of a status machine: a table of allowed moves, a set of terminal statuses nothing
  leaves, and a rank that every move raises. The order and the payment status machines provide it.
  Inside the locale: a terminal status is final along any run, no status is ever revisited, and
  every run can still be brought to a terminal status.
\<close>

locale lifecycle =
  fixes can :: "'s \<Rightarrow> 's \<Rightarrow> bool"
    and terminal :: "'s \<Rightarrow> bool"
    and rank :: "'s \<Rightarrow> nat"
    and top :: nat
  assumes stuck: "terminal s \<Longrightarrow> \<not> can s t"
    and exits: "\<not> terminal s \<Longrightarrow> \<exists>t. can s t"
    and climbs: "can s t \<Longrightarrow> rank s < rank t"
    and bounded: "rank s \<le> top"
begin

lemma terminal_final: "can\<^sup>*\<^sup>* s t \<Longrightarrow> terminal s \<Longrightarrow> t = s"
  by (induction rule: converse_rtranclp_induct) (auto dest: stuck)

lemma run_climbs: "can\<^sup>+\<^sup>+ s t \<Longrightarrow> rank s < rank t"
  by (induction rule: tranclp_induct) (auto dest: climbs)

lemma never_revisits: "\<not> can\<^sup>+\<^sup>+ s s"
  using run_climbs by blast

lemma reaches_terminal: "\<exists>t. can\<^sup>*\<^sup>* s t \<and> terminal t"
proof (induction "top - rank s" arbitrary: s rule: less_induct)
  case less
  show ?case
  proof (cases "terminal s")
    case True
    then show ?thesis by blast
  next
    case False
    then obtain u where u: "can s u" using exits by blast
    then have "top - rank u < top - rank s"
      using climbs [OF u] bounded [of u] by linarith
    from less.hyps [OF this] obtain t where "can\<^sup>*\<^sup>* u t" "terminal t" by blast
    with u show ?thesis by (meson converse_rtranclp_into_rtranclp)
  qed
qed

text \<open>A run is a list of statuses, each reached from the one before by an allowed move.\<close>

fun run_from :: "'s \<Rightarrow> 's list \<Rightarrow> bool" where
  "run_from s [] = True"
| "run_from s (t # ts) = (can s t \<and> run_from t ts)"

lemma run_length: "run_from s ts \<Longrightarrow> length ts + rank s \<le> top"
proof (induction ts arbitrary: s)
  case Nil
  then show ?case using bounded by simp
next
  case (Cons t ts)
  then have "length ts + rank t \<le> top" "rank s < rank t" by (auto dest: climbs)
  then show ?case by simp
qed

end

end
