(* ===== verification/Contracts.thy ===== *)
theory Contracts
  imports Prelude
begin

text \<open>
  The internal HTTP contracts (\<^verbatim>\<open>packages/internal-contracts/src\<close>): the outcome and status vocabularies
  of the stock and the payment participant, the status code each outcome is answered with, and the guards
  by which a caller reads an answer. A JSON value is the \<open>json\<close> datatype; an object is the list of its
  own properties. The last section holds the fence tables the contract cases spell out, the abstract
  specification that the two participants implement.
\<close>


section \<open>JSON\<close>

datatype json =
    JNull
  | JBool bool
  | JNum js_number
  | JString string
  | JArray "json list"
  | JObject "(string \<times> json) list"

text \<open>\<open>body[key]\<close> of a record, \<open>None\<close> where JavaScript gives undefined (no such property, or no record).\<close>

fun jget :: "json \<Rightarrow> string \<Rightarrow> json option" where
  "jget (JObject fs) k = map_of fs k"
| "jget _ k = None"

fun isRecord :: "json \<Rightarrow> bool" where
  "isRecord (JObject _) = True"
| "isRecord _ = False"

definition isOneOf :: "('a \<Rightarrow> string) \<Rightarrow> 'a list \<Rightarrow> json option \<Rightarrow> 'a option" where
  "isOneOf name values v =
     (case v of Some (JString s) \<Rightarrow> List.find (\<lambda>x. name x = s) values | _ \<Rightarrow> None)"

definition isNonEmptyString :: "json option \<Rightarrow> bool" where
  "isNonEmptyString v = (case v of Some (JString s) \<Rightarrow> s \<noteq> [] | _ \<Rightarrow> False)"

lemma isOneOf_name:
  assumes "x \<in> set xs" and "\<And>a b. name a = name b \<longleftrightarrow> a = b"
  shows "isOneOf name xs (Some (JString (name x))) = Some x"
  using assms by (induction xs) (auto simp: isOneOf_def)

lemma isOneOf_sound: "isOneOf name xs v = Some x \<Longrightarrow> v = Some (JString (name x)) \<and> x \<in> set xs"
  unfolding isOneOf_def by (auto simp: find_Some_iff split: option.splits json.splits)


section \<open>The stock participant's vocabulary\<close>

datatype reservation_order_status = R_HELD | R_COMMITTED | R_RELEASED | R_FENCED | R_RESTOCKED

datatype try_outcome = Try_RESERVED | Try_OUT_OF_STOCK | Try_CONTENDED | Try_CONFLICT

datatype command_outcome = Cmd_APPLIED | Cmd_IDEMPOTENT | Cmd_CONFLICT

datatype reservation_command = Op_commit | Op_release | Op_restock

definition RESERVATION_ORDER_STATUSES :: "reservation_order_status list" where
  "RESERVATION_ORDER_STATUSES = [R_HELD, R_COMMITTED, R_RELEASED, R_FENCED, R_RESTOCKED]"

definition TRY_OUTCOMES :: "try_outcome list" where
  "TRY_OUTCOMES = [Try_RESERVED, Try_OUT_OF_STOCK, Try_CONTENDED, Try_CONFLICT]"

definition COMMAND_OUTCOMES :: "command_outcome list" where
  "COMMAND_OUTCOMES = [Cmd_APPLIED, Cmd_IDEMPOTENT, Cmd_CONFLICT]"

fun reservation_status_name :: "reservation_order_status \<Rightarrow> string" where
  "reservation_status_name R_HELD = ''HELD''"
| "reservation_status_name R_COMMITTED = ''COMMITTED''"
| "reservation_status_name R_RELEASED = ''RELEASED''"
| "reservation_status_name R_FENCED = ''FENCED''"
| "reservation_status_name R_RESTOCKED = ''RESTOCKED''"

fun try_name :: "try_outcome \<Rightarrow> string" where
  "try_name Try_RESERVED = ''RESERVED''"
| "try_name Try_OUT_OF_STOCK = ''OUT_OF_STOCK''"
| "try_name Try_CONTENDED = ''CONTENDED''"
| "try_name Try_CONFLICT = ''CONFLICT''"

fun command_name :: "command_outcome \<Rightarrow> string" where
  "command_name Cmd_APPLIED = ''APPLIED''"
| "command_name Cmd_IDEMPOTENT = ''IDEMPOTENT''"
| "command_name Cmd_CONFLICT = ''CONFLICT''"

fun TRY_OUTCOME_STATUS :: "try_outcome \<Rightarrow> int" where
  "TRY_OUTCOME_STATUS Try_RESERVED = 201"
| "TRY_OUTCOME_STATUS Try_OUT_OF_STOCK = 409"
| "TRY_OUTCOME_STATUS Try_CONTENDED = 409"
| "TRY_OUTCOME_STATUS Try_CONFLICT = 409"

fun COMMAND_OUTCOME_STATUS :: "command_outcome \<Rightarrow> int" where
  "COMMAND_OUTCOME_STATUS Cmd_APPLIED = 200"
| "COMMAND_OUTCOME_STATUS Cmd_IDEMPOTENT = 200"
| "COMMAND_OUTCOME_STATUS Cmd_CONFLICT = 409"

definition LOCK_BUDGET_EXHAUSTED_STATUS :: int where "LOCK_BUDGET_EXHAUSTED_STATUS = 503"

definition LOCK_BUDGET_EXHAUSTED :: string where "LOCK_BUDGET_EXHAUSTED = ''LOCK_BUDGET_EXHAUSTED''"

definition ID_SERVICE_UNAVAILABLE :: string where "ID_SERVICE_UNAVAILABLE = ''ID_SERVICE_UNAVAILABLE''"


section \<open>Reading the stock participant's answers\<close>

definition tryOutcomeOf :: "int \<Rightarrow> json \<Rightarrow> try_outcome option" where
  "tryOutcomeOf status body =
     (case isOneOf try_name TRY_OUTCOMES (jget body ''outcome'') of
        Some o1 \<Rightarrow> if TRY_OUTCOME_STATUS o1 = status then Some o1 else None
      | None \<Rightarrow> None)"

definition commandOutcomeOf :: "int \<Rightarrow> json \<Rightarrow> command_outcome option" where
  "commandOutcomeOf status body =
     (case isOneOf command_name COMMAND_OUTCOMES (jget body ''outcome'') of
        Some o1 \<Rightarrow> if COMMAND_OUTCOME_STATUS o1 = status then Some o1 else None
      | None \<Rightarrow> None)"

definition isLockBudgetExhausted :: "int \<Rightarrow> json \<Rightarrow> bool" where
  "isLockBudgetExhausted status body \<longleftrightarrow>
     status = LOCK_BUDGET_EXHAUSTED_STATUS \<and> isRecord body \<and>
     jget body ''code'' = Some (JString LOCK_BUDGET_EXHAUSTED)"

definition isIdServiceUnavailable :: "int \<Rightarrow> json \<Rightarrow> bool" where
  "isIdServiceUnavailable status body \<longleftrightarrow>
     status = LOCK_BUDGET_EXHAUSTED_STATUS \<and> isRecord body \<and>
     jget body ''code'' = Some (JString ID_SERVICE_UNAVAILABLE)"

text \<open>A status entry: null, or one of the header statuses.\<close>

definition status_entry :: "json \<Rightarrow> reservation_order_status option option" where
  "status_entry v =
     (case v of JNull \<Rightarrow> Some None
      | _ \<Rightarrow> map_option Some (isOneOf reservation_status_name RESERVATION_ORDER_STATUSES (Some v)))"

definition isStatusResponse :: "json \<Rightarrow> bool" where
  "isStatusResponse body =
     (case jget body ''statuses'' of
        Some (JObject fs) \<Rightarrow> list_all (\<lambda>(_, v). status_entry v \<noteq> None) fs
      | _ \<Rightarrow> False)"

definition statusesOf :: "json \<Rightarrow> string list \<Rightarrow> (string \<times> reservation_order_status option) list option" where
  "statusesOf body orderIds =
     (if \<not> isStatusResponse body then None
      else case jget body ''statuses'' of
        Some (JObject fs) \<Rightarrow>
          if list_all (\<lambda>i. map_of fs i \<noteq> None) orderIds
          then Some (map (\<lambda>i. (i, the (status_entry (the (map_of fs i))))) orderIds)
          else None
      | _ \<Rightarrow> None)"

lemma try_name_eq [simp]: "try_name a = try_name b \<longleftrightarrow> a = b"
  by (cases a; cases b) simp_all

lemma command_name_eq [simp]: "command_name a = command_name b \<longleftrightarrow> a = b"
  by (cases a; cases b) simp_all

lemma reservation_status_name_eq [simp]: "reservation_status_name a = reservation_status_name b \<longleftrightarrow> a = b"
  by (cases a; cases b) simp_all

lemma TRY_OUTCOMES_all [simp]: "o1 \<in> set TRY_OUTCOMES"
  by (cases o1) (simp_all add: TRY_OUTCOMES_def)

lemma COMMAND_OUTCOMES_all [simp]: "o1 \<in> set COMMAND_OUTCOMES"
  by (cases o1) (simp_all add: COMMAND_OUTCOMES_def)

lemma RESERVATION_ORDER_STATUSES_all [simp]: "s \<in> set RESERVATION_ORDER_STATUSES"
  by (cases s) (simp_all add: RESERVATION_ORDER_STATUSES_def)

lemma tryOutcomeOf_iff:
  "tryOutcomeOf status body = Some o1 \<longleftrightarrow>
     jget body ''outcome'' = Some (JString (try_name o1)) \<and> status = TRY_OUTCOME_STATUS o1"
  unfolding tryOutcomeOf_def
  by (auto split: option.splits if_splits dest!: isOneOf_sound
      simp: isOneOf_name [OF TRY_OUTCOMES_all])

lemma commandOutcomeOf_iff:
  "commandOutcomeOf status body = Some o1 \<longleftrightarrow>
     jget body ''outcome'' = Some (JString (command_name o1)) \<and> status = COMMAND_OUTCOME_STATUS o1"
  unfolding commandOutcomeOf_def
  by (auto split: option.splits if_splits dest!: isOneOf_sound
      simp: isOneOf_name [OF COMMAND_OUTCOMES_all])


section \<open>The payment participant's vocabulary\<close>

datatype payment_order_status = P_OPEN | P_AUTHORIZED | P_CAPTURED | P_CANCELLED | P_FENCED

datatype session_outcome = Ses_OPENED | Ses_CLOSED

datatype capture_outcome = Cap_CAPTURED | Cap_IDEMPOTENT | Cap_NOT_CAPTURABLE | Cap_CONFLICT

datatype cancel_outcome = Can_CANCELLED | Can_FENCED | Can_IDEMPOTENT | Can_CAPTURED_CONFLICT

definition PAYMENT_ORDER_STATUSES :: "payment_order_status list" where
  "PAYMENT_ORDER_STATUSES = [P_OPEN, P_AUTHORIZED, P_CAPTURED, P_CANCELLED, P_FENCED]"

definition CAPTURE_OUTCOMES :: "capture_outcome list" where
  "CAPTURE_OUTCOMES = [Cap_CAPTURED, Cap_IDEMPOTENT, Cap_NOT_CAPTURABLE, Cap_CONFLICT]"

definition CANCEL_OUTCOMES :: "cancel_outcome list" where
  "CANCEL_OUTCOMES = [Can_CANCELLED, Can_FENCED, Can_IDEMPOTENT, Can_CAPTURED_CONFLICT]"

fun payment_status_name :: "payment_order_status \<Rightarrow> string" where
  "payment_status_name P_OPEN = ''OPEN''"
| "payment_status_name P_AUTHORIZED = ''AUTHORIZED''"
| "payment_status_name P_CAPTURED = ''CAPTURED''"
| "payment_status_name P_CANCELLED = ''CANCELLED''"
| "payment_status_name P_FENCED = ''FENCED''"

fun capture_name :: "capture_outcome \<Rightarrow> string" where
  "capture_name Cap_CAPTURED = ''CAPTURED''"
| "capture_name Cap_IDEMPOTENT = ''IDEMPOTENT''"
| "capture_name Cap_NOT_CAPTURABLE = ''NOT_CAPTURABLE''"
| "capture_name Cap_CONFLICT = ''CONFLICT''"

fun cancel_name :: "cancel_outcome \<Rightarrow> string" where
  "cancel_name Can_CANCELLED = ''CANCELLED''"
| "cancel_name Can_FENCED = ''FENCED''"
| "cancel_name Can_IDEMPOTENT = ''IDEMPOTENT''"
| "cancel_name Can_CAPTURED_CONFLICT = ''CAPTURED_CONFLICT''"

fun SESSION_OUTCOME_STATUS :: "session_outcome \<Rightarrow> int" where
  "SESSION_OUTCOME_STATUS Ses_OPENED = 200"
| "SESSION_OUTCOME_STATUS Ses_CLOSED = 409"

fun CAPTURE_OUTCOME_STATUS :: "capture_outcome \<Rightarrow> int" where
  "CAPTURE_OUTCOME_STATUS Cap_CAPTURED = 200"
| "CAPTURE_OUTCOME_STATUS Cap_IDEMPOTENT = 200"
| "CAPTURE_OUTCOME_STATUS Cap_NOT_CAPTURABLE = 409"
| "CAPTURE_OUTCOME_STATUS Cap_CONFLICT = 409"

fun CANCEL_OUTCOME_STATUS :: "cancel_outcome \<Rightarrow> int" where
  "CANCEL_OUTCOME_STATUS Can_CANCELLED = 200"
| "CANCEL_OUTCOME_STATUS Can_FENCED = 200"
| "CANCEL_OUTCOME_STATUS Can_IDEMPOTENT = 200"
| "CANCEL_OUTCOME_STATUS Can_CAPTURED_CONFLICT = 409"

definition PROVIDER_UNAVAILABLE_STATUS :: int where "PROVIDER_UNAVAILABLE_STATUS = 503"

definition PROVIDER_UNAVAILABLE :: string where "PROVIDER_UNAVAILABLE = ''PROVIDER_UNAVAILABLE''"


section \<open>Reading the payment participant's answers\<close>

record opened_session =
  os_paymentId :: string
  os_providerSessionId :: string
  os_redirectUrl :: "string option"
  os_clientSecret :: "string option"

datatype session_answer = Opened opened_session | Closed

fun json_string :: "json option \<Rightarrow> string option" where
  "json_string (Some (JString s)) = Some s"
| "json_string _ = None"

definition isOptionalString :: "json option \<Rightarrow> bool" where
  "isOptionalString v = (case v of None \<Rightarrow> True | Some (JString _) \<Rightarrow> True | _ \<Rightarrow> False)"

definition isOpenSessionResponse :: "json \<Rightarrow> session_outcome option" where
  "isOpenSessionResponse body =
     (if jget body ''outcome'' = Some (JString ''CLOSED'') then Some Ses_CLOSED
      else if jget body ''outcome'' = Some (JString ''OPENED'') \<and>
              isNonEmptyString (jget body ''paymentId'') \<and>
              isNonEmptyString (jget body ''providerSessionId'') \<and>
              isOptionalString (jget body ''redirectUrl'') \<and>
              isOptionalString (jget body ''clientSecret'')
      then Some Ses_OPENED else None)"

definition sessionOutcomeOf :: "int \<Rightarrow> json \<Rightarrow> session_answer option" where
  "sessionOutcomeOf status body =
     (case isOpenSessionResponse body of
        None \<Rightarrow> None
      | Some o1 \<Rightarrow>
          if SESSION_OUTCOME_STATUS o1 \<noteq> status then None
          else if o1 = Ses_CLOSED then Some Closed
          else Some (Opened \<lparr>
            os_paymentId = the (json_string (jget body ''paymentId'')),
            os_providerSessionId = the (json_string (jget body ''providerSessionId'')),
            os_redirectUrl = json_string (jget body ''redirectUrl''),
            os_clientSecret = json_string (jget body ''clientSecret'')\<rparr>))"

definition captureOutcomeOf :: "int \<Rightarrow> json \<Rightarrow> capture_outcome option" where
  "captureOutcomeOf status body =
     (case isOneOf capture_name CAPTURE_OUTCOMES (jget body ''outcome'') of
        Some o1 \<Rightarrow> if CAPTURE_OUTCOME_STATUS o1 = status then Some o1 else None
      | None \<Rightarrow> None)"

definition cancelOutcomeOf :: "int \<Rightarrow> json \<Rightarrow> cancel_outcome option" where
  "cancelOutcomeOf status body =
     (case isOneOf cancel_name CANCEL_OUTCOMES (jget body ''outcome'') of
        Some o1 \<Rightarrow> if CANCEL_OUTCOME_STATUS o1 = status then Some o1 else None
      | None \<Rightarrow> None)"

definition isProviderUnavailable :: "int \<Rightarrow> json \<Rightarrow> bool" where
  "isProviderUnavailable status body \<longleftrightarrow>
     status = PROVIDER_UNAVAILABLE_STATUS \<and> isRecord body \<and>
     jget body ''code'' = Some (JString PROVIDER_UNAVAILABLE)"

record payment_status_entry =
  pse_header :: "payment_order_status option"
  pse_authorizedPaymentId :: "string option"
  pse_hasAuthorizedAttempt :: bool
  pse_hasSucceededAttempt :: bool

text \<open>\<open>isPaymentStatusEntry\<close> and the projection to the contract's fields in one: the entry, when well formed.\<close>

definition isPaymentStatusEntry :: "json \<Rightarrow> payment_status_entry option" where
  "isPaymentStatusEntry e =
     (case (case jget e ''header'' of
              Some JNull \<Rightarrow> Some None
            | v \<Rightarrow> map_option Some (isOneOf payment_status_name PAYMENT_ORDER_STATUSES v),
            case jget e ''authorizedPaymentId'' of
              Some JNull \<Rightarrow> Some None
            | v \<Rightarrow> if isNonEmptyString v then Some (json_string v) else None,
            jget e ''hasAuthorizedAttempt'', jget e ''hasSucceededAttempt'') of
        (Some h, Some p, Some (JBool a), Some (JBool s)) \<Rightarrow>
          Some \<lparr>pse_header = h, pse_authorizedPaymentId = p, pse_hasAuthorizedAttempt = a,
                pse_hasSucceededAttempt = s\<rparr>
      | _ \<Rightarrow> None)"

definition paymentStatusesOf :: "json \<Rightarrow> string list \<Rightarrow> (string \<times> payment_status_entry) list option" where
  "paymentStatusesOf body orderIds =
     (case jget body ''statuses'' of
        Some (JObject fs) \<Rightarrow>
          if list_all (\<lambda>(_, v). isPaymentStatusEntry v \<noteq> None) fs \<and>
             list_all (\<lambda>i. map_of fs i \<noteq> None) orderIds
          then Some (map (\<lambda>i. (i, the (isPaymentStatusEntry (the (map_of fs i))))) orderIds)
          else None
      | _ \<Rightarrow> None)"

lemma capture_name_eq [simp]: "capture_name a = capture_name b \<longleftrightarrow> a = b"
  by (cases a; cases b) simp_all

lemma cancel_name_eq [simp]: "cancel_name a = cancel_name b \<longleftrightarrow> a = b"
  by (cases a; cases b) simp_all

lemma CAPTURE_OUTCOMES_all [simp]: "o1 \<in> set CAPTURE_OUTCOMES"
  by (cases o1) (simp_all add: CAPTURE_OUTCOMES_def)

lemma CANCEL_OUTCOMES_all [simp]: "o1 \<in> set CANCEL_OUTCOMES"
  by (cases o1) (simp_all add: CANCEL_OUTCOMES_def)

lemma captureOutcomeOf_iff:
  "captureOutcomeOf status body = Some o1 \<longleftrightarrow>
     jget body ''outcome'' = Some (JString (capture_name o1)) \<and> status = CAPTURE_OUTCOME_STATUS o1"
  unfolding captureOutcomeOf_def
  by (auto split: option.splits if_splits dest!: isOneOf_sound
      simp: isOneOf_name [OF CAPTURE_OUTCOMES_all])

lemma cancelOutcomeOf_iff:
  "cancelOutcomeOf status body = Some o1 \<longleftrightarrow>
     jget body ''outcome'' = Some (JString (cancel_name o1)) \<and> status = CANCEL_OUTCOME_STATUS o1"
  unfolding cancelOutcomeOf_def
  by (auto split: option.splits if_splits dest!: isOneOf_sound
      simp: isOneOf_name [OF CANCEL_OUTCOMES_all])


section \<open>The fence tables of the contract\<close>

text \<open>
  \<open>FENCE\<close> of the two \<^verbatim>\<open>contract-cases.ts\<close>: what each operation answers on an order whose header is as
  given (\<open>None\<close>: never seen), and the header it leaves.
\<close>

fun stock_fence_try :: "reservation_order_status option \<Rightarrow> try_outcome \<times> reservation_order_status option" where
  "stock_fence_try None = (Try_RESERVED, Some R_HELD)"
| "stock_fence_try (Some R_HELD) = (Try_RESERVED, Some R_HELD)"
| "stock_fence_try (Some R_COMMITTED) = (Try_CONFLICT, Some R_COMMITTED)"
| "stock_fence_try (Some R_RELEASED) = (Try_CONFLICT, Some R_RELEASED)"
| "stock_fence_try (Some R_FENCED) = (Try_CONFLICT, Some R_FENCED)"
| "stock_fence_try (Some R_RESTOCKED) = (Try_CONFLICT, Some R_RESTOCKED)"

fun stock_fence ::
    "reservation_command \<Rightarrow> reservation_order_status option \<Rightarrow> command_outcome \<times> reservation_order_status option" where
  "stock_fence Op_commit None = (Cmd_CONFLICT, None)"
| "stock_fence Op_release None = (Cmd_APPLIED, Some R_FENCED)"
| "stock_fence Op_restock None = (Cmd_CONFLICT, None)"
| "stock_fence Op_commit (Some R_HELD) = (Cmd_APPLIED, Some R_COMMITTED)"
| "stock_fence Op_release (Some R_HELD) = (Cmd_APPLIED, Some R_RELEASED)"
| "stock_fence Op_restock (Some R_HELD) = (Cmd_CONFLICT, Some R_HELD)"
| "stock_fence Op_commit (Some R_COMMITTED) = (Cmd_IDEMPOTENT, Some R_COMMITTED)"
| "stock_fence Op_release (Some R_COMMITTED) = (Cmd_CONFLICT, Some R_COMMITTED)"
| "stock_fence Op_restock (Some R_COMMITTED) = (Cmd_APPLIED, Some R_RESTOCKED)"
| "stock_fence Op_commit (Some R_RELEASED) = (Cmd_CONFLICT, Some R_RELEASED)"
| "stock_fence Op_release (Some R_RELEASED) = (Cmd_IDEMPOTENT, Some R_RELEASED)"
| "stock_fence Op_restock (Some R_RELEASED) = (Cmd_CONFLICT, Some R_RELEASED)"
| "stock_fence Op_commit (Some R_FENCED) = (Cmd_CONFLICT, Some R_FENCED)"
| "stock_fence Op_release (Some R_FENCED) = (Cmd_IDEMPOTENT, Some R_FENCED)"
| "stock_fence Op_restock (Some R_FENCED) = (Cmd_CONFLICT, Some R_FENCED)"
| "stock_fence Op_commit (Some R_RESTOCKED) = (Cmd_CONFLICT, Some R_RESTOCKED)"
| "stock_fence Op_release (Some R_RESTOCKED) = (Cmd_CONFLICT, Some R_RESTOCKED)"
| "stock_fence Op_restock (Some R_RESTOCKED) = (Cmd_IDEMPOTENT, Some R_RESTOCKED)"

fun payment_fence_open :: "payment_order_status option \<Rightarrow> session_outcome \<times> payment_order_status option" where
  "payment_fence_open None = (Ses_OPENED, Some P_OPEN)"
| "payment_fence_open (Some P_OPEN) = (Ses_OPENED, Some P_OPEN)"
| "payment_fence_open (Some s) = (Ses_CLOSED, Some s)"

fun payment_fence_capture :: "payment_order_status option \<Rightarrow> capture_outcome \<times> payment_order_status option" where
  "payment_fence_capture None = (Cap_CONFLICT, None)"
| "payment_fence_capture (Some P_OPEN) = (Cap_CONFLICT, Some P_OPEN)"
| "payment_fence_capture (Some P_AUTHORIZED) = (Cap_CAPTURED, Some P_CAPTURED)"
| "payment_fence_capture (Some P_CAPTURED) = (Cap_IDEMPOTENT, Some P_CAPTURED)"
| "payment_fence_capture (Some P_CANCELLED) = (Cap_NOT_CAPTURABLE, Some P_CANCELLED)"
| "payment_fence_capture (Some P_FENCED) = (Cap_NOT_CAPTURABLE, Some P_FENCED)"

fun payment_fence_cancel :: "payment_order_status option \<Rightarrow> cancel_outcome \<times> payment_order_status option" where
  "payment_fence_cancel None = (Can_FENCED, Some P_FENCED)"
| "payment_fence_cancel (Some P_OPEN) = (Can_CANCELLED, Some P_CANCELLED)"
| "payment_fence_cancel (Some P_AUTHORIZED) = (Can_CANCELLED, Some P_CANCELLED)"
| "payment_fence_cancel (Some P_CAPTURED) = (Can_CAPTURED_CONFLICT, Some P_CAPTURED)"
| "payment_fence_cancel (Some P_CANCELLED) = (Can_IDEMPOTENT, Some P_CANCELLED)"
| "payment_fence_cancel (Some P_FENCED) = (Can_IDEMPOTENT, Some P_FENCED)"

text \<open>How a stock header can move without a command: a Try starts a hold, the sweep releases a lapsed one.\<close>

definition hold_started :: "reservation_order_status option \<Rightarrow> reservation_order_status option \<Rightarrow> bool" where
  "hold_started h h' \<longleftrightarrow> h' = h \<or> h = None \<and> h' = Some R_HELD"

definition hold_lapsed :: "reservation_order_status option \<Rightarrow> reservation_order_status option \<Rightarrow> bool" where
  "hold_lapsed h h' \<longleftrightarrow> h' = h \<or> h = Some R_HELD \<and> h' = Some R_RELEASED"

end
