(* ===== verification/Order_Domain.thy ===== *)
theory Order_Domain
  imports Kernel_Values Lifecycle Contracts
begin

text \<open>
  The order aggregate of the order-service (\<^verbatim>\<open>apps/order-service/src/modules/order/domain\<close>): its
  statuses and state machine, the price-snapshot line, the aggregate with its moves, the events it
  produces and the outbox records they become, and the cross-participant invariants a settled
  checkout is checked against. Lemmas: the machine is a lifecycle, the total is the exact sum of the
  snapshot lines, every move keeps the snapshot and the stamps consistent, and what an empty
  invariant report says.
\<close>


section \<open>Statuses and the state machine\<close>

datatype order_status =
    DRAFT | RESERVING | PENDING | CONFIRMING | PAID | FAILED | EXPIRED | CANCELLED | REJECTED

definition ORDER_STATUSES :: "order_status list" where
  "ORDER_STATUSES = [DRAFT, RESERVING, PENDING, CONFIRMING, PAID, FAILED, EXPIRED, CANCELLED, REJECTED]"

record order_edge =
  edge_from :: order_status
  edge_to :: order_status
  edge_wired :: bool

definition ORDER_TRANSITIONS :: "order_edge list" where
  "ORDER_TRANSITIONS =
     [\<lparr>edge_from = DRAFT, edge_to = CANCELLED, edge_wired = True\<rparr>,
      \<lparr>edge_from = PENDING, edge_to = EXPIRED, edge_wired = True\<rparr>,
      \<lparr>edge_from = PENDING, edge_to = CANCELLED, edge_wired = True\<rparr>,
      \<lparr>edge_from = DRAFT, edge_to = RESERVING, edge_wired = True\<rparr>,
      \<lparr>edge_from = RESERVING, edge_to = PENDING, edge_wired = True\<rparr>,
      \<lparr>edge_from = RESERVING, edge_to = REJECTED, edge_wired = True\<rparr>,
      \<lparr>edge_from = PENDING, edge_to = CONFIRMING, edge_wired = True\<rparr>,
      \<lparr>edge_from = CONFIRMING, edge_to = PAID, edge_wired = True\<rparr>,
      \<lparr>edge_from = CONFIRMING, edge_to = FAILED, edge_wired = True\<rparr>]"

definition order_canTransition :: "order_status \<Rightarrow> order_status \<Rightarrow> bool" where
  "order_canTransition f t =
     list_ex (\<lambda>e. edge_from e = f \<and> edge_to e = t \<and> edge_wired e) ORDER_TRANSITIONS"

definition order_isTerminal :: "order_status \<Rightarrow> bool" where
  "order_isTerminal s \<longleftrightarrow> s \<in> {PAID, FAILED, EXPIRED, CANCELLED, REJECTED}"

datatype order_error =
    ODomain domain_error
  | OrderTransitionError order_status order_status
  | OPlain string

type_synonym 'a order_result = "order_error + 'a"

definition lift_domain :: "'a checked \<Rightarrow> 'a order_result" where
  "lift_domain r = map_sum ODomain id r"

lemma lift_domain_Inr [result_simps]: "lift_domain r = Inr a \<longleftrightarrow> r = Inr a"
  by (cases r) (auto simp: lift_domain_def)

definition order_assertTransition :: "order_status \<Rightarrow> order_status \<Rightarrow> unit order_result" where
  "order_assertTransition f t =
     (if \<not> order_canTransition f t then Inl (OrderTransitionError f t) else Inr ())"

fun order_rank :: "order_status \<Rightarrow> nat" where
  "order_rank DRAFT = 0"
| "order_rank RESERVING = 1"
| "order_rank PENDING = 2"
| "order_rank CONFIRMING = 3"
| "order_rank _ = 4"

lemma order_can_cases:
  "order_canTransition f t \<longleftrightarrow>
     (f, t) \<in> {(DRAFT, CANCELLED), (PENDING, EXPIRED), (PENDING, CANCELLED), (DRAFT, RESERVING),
       (RESERVING, PENDING), (RESERVING, REJECTED), (PENDING, CONFIRMING), (CONFIRMING, PAID),
       (CONFIRMING, FAILED)}"
  by (cases f; cases t; simp add: order_canTransition_def ORDER_TRANSITIONS_def)

lemma all_order_statuses: "s \<in> set ORDER_STATUSES"
  by (cases s) (simp_all add: ORDER_STATUSES_def)

interpretation order_machine: lifecycle order_canTransition order_isTerminal order_rank 4
proof
  fix s t :: order_status
  show "order_isTerminal s \<Longrightarrow> \<not> order_canTransition s t"
    by (auto simp: order_can_cases order_isTerminal_def)
  show "\<not> order_isTerminal s \<Longrightarrow> \<exists>t. order_canTransition s t"
    by (cases s) (auto simp: order_can_cases order_isTerminal_def)
  show "order_canTransition s t \<Longrightarrow> order_rank s < order_rank t"
    by (auto simp: order_can_cases)
  show "order_rank s \<le> 4" by (cases s) auto
qed


section \<open>Lines\<close>

record order_item =
  oi_skuId :: string
  oi_productName :: string
  oi_unitPriceMinor :: int
  oi_quantity :: int

definition MAX_PENDING_ORDERS_PER_USER :: nat where
  "MAX_PENDING_ORDERS_PER_USER = 3"

definition MAX_QUANTITY_PER_ORDER_LINE :: int where
  "MAX_QUANTITY_PER_ORDER_LINE = 10"

definition orderItem_of :: "string \<Rightarrow> string \<Rightarrow> js_number \<Rightarrow> js_number \<Rightarrow> order_item checked" where
  "orderItem_of skuId productName unitPriceMinor quantity =
     ebind (assertNonEmpty (Some skuId) ''OrderItem.skuId'') (\<lambda>_.
     ebind (assertNonEmpty (Some productName) ''OrderItem.productName'') (\<lambda>_.
     ebind (assertInteger unitPriceMinor ''OrderItem.unitPriceMinor'') (\<lambda>_.
       case unitPriceMinor of
         JNonInt \<Rightarrow> Inl (DomainError ''OrderItem.unitPriceMinor must be a safe integer'')
       | JInt price \<Rightarrow>
           if price < 0 then Inl (DomainError ''OrderItem.unitPriceMinor must not be negative'')
           else ebind (assertInteger quantity ''OrderItem.quantity'') (\<lambda>_.
             case quantity of
               JNonInt \<Rightarrow> Inl (DomainError ''OrderItem.quantity must be a safe integer'')
             | JInt q \<Rightarrow>
                 ebind (assertPositive q ''OrderItem.quantity'') (\<lambda>_.
                   Inr \<lparr>oi_skuId = skuId, oi_productName = productName,
                        oi_unitPriceMinor = price, oi_quantity = q\<rparr>)))))"

definition lineTotal :: "order_item \<Rightarrow> string \<Rightarrow> money checked" where
  "lineTotal item cur =
     ebind (money_of (JInt (oi_unitPriceMinor item)) cur) (\<lambda>m.
       money_multiply m (JInt (oi_quantity item)))"

definition valid_item :: "order_item \<Rightarrow> bool" where
  "valid_item i \<longleftrightarrow> js_trim (oi_skuId i) \<noteq> [] \<and> js_trim (oi_productName i) \<noteq> [] \<and>
     0 \<le> oi_unitPriceMinor i \<and> is_safe_integer (JInt (oi_unitPriceMinor i)) \<and>
     0 < oi_quantity i \<and> is_safe_integer (JInt (oi_quantity i))"

definition item_amount :: "order_item \<Rightarrow> int" where
  "item_amount i = oi_unitPriceMinor i * oi_quantity i"

lemma orderItem_of_valid: "orderItem_of s p u q = Inr i \<Longrightarrow> valid_item i"
  by (cases u; cases q)
     (auto simp: orderItem_of_def valid_item_def assertNonEmpty_def assertInteger_def assertPositive_def
       split: if_splits)

lemma orderItem_of_Inr:
  "valid_item i \<Longrightarrow>
   orderItem_of (oi_skuId i) (oi_productName i) (JInt (oi_unitPriceMinor i)) (JInt (oi_quantity i)) = Inr i"
  by (simp add: orderItem_of_def valid_item_def assertNonEmpty_def assertInteger_def assertPositive_def)

lemma lineTotal_Inr:
  assumes "canonical_currency c"
  shows "lineTotal i c = Inr m \<longleftrightarrow>
    is_safe_integer (JInt (oi_unitPriceMinor i)) \<and> is_safe_integer (JInt (oi_quantity i)) \<and>
    is_safe_integer (JInt (item_amount i)) \<and> m = \<lparr>amountMinor = item_amount i, currency = c\<rparr>"
proof (cases "is_safe_integer (JInt (oi_unitPriceMinor i))")
  case True
  let ?u = "\<lparr>amountMinor = oi_unitPriceMinor i, currency = c\<rparr>"
  have u: "money_of (JInt (oi_unitPriceMinor i)) c = Inr ?u"
    using True assms by (simp add: money_of_Inr normalizeCurrency_id del: is_safe_integer.simps)
  have "valid_money ?u" using True assms by (simp add: valid_money_def)
  from money_multiply_Inr [OF this] u True show ?thesis
    by (simp add: lineTotal_def item_amount_def del: is_safe_integer.simps)
next
  case False
  then show ?thesis by (auto simp: lineTotal_def ebind_Inr_iff money_of_Inr simp del: is_safe_integer.simps)
qed


section \<open>The aggregate\<close>

record order =
  ord_id :: "string option"
  ord_userId :: string
  ord_status :: order_status
  ord_currency :: string
  ord_items :: "order_item list"
  ord_totalAmountMinor :: int
  ord_placedAt :: "int option"
  ord_finalizedAt :: "int option"
  ord_finalizeReason :: "string option"
  ord_paymentRef :: "string option"
  ord_paymentDeadlineAt :: "int option"

text \<open>The reduce over the lines, left to right, each addition checked.\<close>

fun sum_lines :: "money \<Rightarrow> order_item list \<Rightarrow> money checked" where
  "sum_lines acc [] = Inr acc"
| "sum_lines acc (i # is) =
     ebind (lineTotal i (currency acc)) (\<lambda>m. ebind (money_add acc m) (\<lambda>acc'. sum_lines acc' is))"

definition order_create :: "string \<Rightarrow> string \<Rightarrow> order_item list \<Rightarrow> order checked" where
  "order_create userId cur items =
     ebind (assertNonEmpty (Some userId) ''Order.userId'') (\<lambda>_.
       if items = [] then Inl (DomainError ''Order must have at least one item'')
       else case List.find (\<lambda>i. MAX_QUANTITY_PER_ORDER_LINE < oi_quantity i) items of
         Some oversized \<Rightarrow>
           Inl (DomainError (''Order line quantity must not exceed 10 per SKU: '' @ oi_skuId oversized))
       | None \<Rightarrow>
           ebind (money_zero cur) (\<lambda>z.
           ebind (sum_lines z items) (\<lambda>total.
             Inr \<lparr>ord_id = None, ord_userId = userId, ord_status = DRAFT,
                  ord_currency = currency z, ord_items = items,
                  ord_totalAmountMinor = amountMinor total, ord_placedAt = None,
                  ord_finalizedAt = None, ord_finalizeReason = None, ord_paymentRef = None,
                  ord_paymentDeadlineAt = None\<rparr>)))"

definition order_total :: "order \<Rightarrow> money checked" where
  "order_total ord = money_of (JInt (ord_totalAmountMinor ord)) (ord_currency ord)"

text \<open>
  \<open>moveTo\<close> is the only place a status changes: the transition is asserted first, then the changes
  are laid over the current stamps.
\<close>

definition moveTo :: "order \<Rightarrow> order_status \<Rightarrow> (order \<Rightarrow> order) \<Rightarrow> order order_result" where
  "moveTo ord st changes =
     ebind (order_assertTransition (ord_status ord) st) (\<lambda>_. Inr (changes (ord\<lparr>ord_status := st\<rparr>)))"

definition order_reserve :: "order \<Rightarrow> int \<Rightarrow> int \<Rightarrow> order order_result" where
  "order_reserve ord now deadline =
     moveTo ord RESERVING (\<lambda>x. x\<lparr>ord_placedAt := Some now, ord_paymentDeadlineAt := Some deadline\<rparr>)"

definition order_confirmPlaced :: "order \<Rightarrow> order order_result" where
  "order_confirmPlaced ord = moveTo ord PENDING id"

definition order_reject :: "order \<Rightarrow> string \<Rightarrow> int \<Rightarrow> order order_result" where
  "order_reject ord reason now =
     moveTo ord REJECTED (\<lambda>x. x\<lparr>ord_finalizedAt := Some now, ord_finalizeReason := Some reason\<rparr>)"

definition order_beginConfirming :: "order \<Rightarrow> order order_result" where
  "order_beginConfirming ord = moveTo ord CONFIRMING id"

definition order_finalize ::
    "order \<Rightarrow> order_status \<Rightarrow> int \<Rightarrow> string option \<Rightarrow> string option \<Rightarrow> order order_result" where
  "order_finalize ord outcome now reason paymentRef =
     moveTo ord outcome (\<lambda>x. x\<lparr>ord_finalizedAt := Some now, ord_finalizeReason := reason,
                               ord_paymentRef := paymentRef\<rparr>)"


section \<open>Events and their outbox records\<close>

datatype order_event =
    OrderPlaced (ev_order: string) (ev_user: string) (ev_total: int) (ev_currency: string) (ev_at: int)
  | OrderPaid (ev_order: string) (ev_user: string) (ev_total: int) (ev_currency: string)
      (ev_paymentRef: "string option") (ev_at: int)
  | OrderFailed (ev_order: string) (ev_user: string) (ev_reason: "string option") (ev_at: int)
  | OrderExpired (ev_order: string) (ev_user: string) (ev_reason: "string option") (ev_at: int)
  | OrderCancelled (ev_order: string) (ev_user: string) (ev_reason: "string option") (ev_at: int)

definition toPlacedEvent :: "order \<Rightarrow> order_event order_result" where
  "toPlacedEvent ord =
     (case (ord_id ord, ord_placedAt ord) of
        (Some i, Some at) \<Rightarrow>
          Inr (OrderPlaced i (ord_userId ord) (ord_totalAmountMinor ord) (ord_currency ord) at)
      | _ \<Rightarrow> Inl (ODomain (DomainError ''Only a placed order can produce an OrderPlacedEvent'')))"

definition toFinalizedEvent :: "order \<Rightarrow> order_event order_result" where
  "toFinalizedEvent ord =
     (case (ord_id ord, ord_finalizedAt ord) of
        (Some i, Some at) \<Rightarrow>
          (case ord_status ord of
             PAID \<Rightarrow> Inr (OrderPaid i (ord_userId ord) (ord_totalAmountMinor ord) (ord_currency ord)
                            (ord_paymentRef ord) at)
           | FAILED \<Rightarrow> Inr (OrderFailed i (ord_userId ord) (ord_finalizeReason ord) at)
           | EXPIRED \<Rightarrow> Inr (OrderExpired i (ord_userId ord) (ord_finalizeReason ord) at)
           | CANCELLED \<Rightarrow> Inr (OrderCancelled i (ord_userId ord) (ord_finalizeReason ord) at)
           | _ \<Rightarrow> Inl (ODomain (DomainError ''Order status has no finalization event'')))
      | _ \<Rightarrow> Inl (ODomain (DomainError ''Only a finalized order can produce a finalization event'')))"

record outbox_record =
  ob_aggregateType :: string
  ob_aggregateId :: string
  ob_eventType :: string
  ob_payload :: order_event

fun event_name :: "order_event \<Rightarrow> string" where
  "event_name (OrderPlaced _ _ _ _ _) = ''order.placed''"
| "event_name (OrderPaid _ _ _ _ _ _) = ''order.paid''"
| "event_name (OrderFailed _ _ _ _) = ''order.failed''"
| "event_name (OrderExpired _ _ _ _) = ''order.expired''"
| "event_name (OrderCancelled _ _ _ _) = ''order.cancelled''"

definition toPlacedOutboxRecord :: "order_event \<Rightarrow> outbox_record" where
  "toPlacedOutboxRecord e =
     \<lparr>ob_aggregateType = ''Order'', ob_aggregateId = ev_order e, ob_eventType = ''order.placed'',
      ob_payload = e\<rparr>"

definition toFinalizedOutboxRecord :: "order_event \<Rightarrow> outbox_record" where
  "toFinalizedOutboxRecord e =
     \<lparr>ob_aggregateType = ''Order'', ob_aggregateId = ev_order e, ob_eventType = event_name e,
      ob_payload = e\<rparr>"


section \<open>What the aggregate keeps\<close>

lemma moveTo_Inr [result_simps]:
  "moveTo ord st f = Inr ord' \<longleftrightarrow>
     order_canTransition (ord_status ord) st \<and> ord' = f (ord\<lparr>ord_status := st\<rparr>)"
  by (auto simp: moveTo_def order_assertTransition_def)

lemma moveTo_Inl [result_simps]:
  "moveTo ord st f = Inl e \<longleftrightarrow>
     \<not> order_canTransition (ord_status ord) st \<and> e = OrderTransitionError (ord_status ord) st"
  by (auto simp: moveTo_def order_assertTransition_def)

lemmas order_move_defs =
  order_reserve_def order_confirmPlaced_def order_reject_def order_beginConfirming_def order_finalize_def

text \<open>
  The stamps agree with the status: the settlement stamp is there exactly in a terminal status, and
  every status past DRAFT, other than a discarded draft's CANCELLED, carries the placement stamp.
\<close>

definition order_wf :: "order \<Rightarrow> bool" where
  "order_wf ord \<longleftrightarrow>
     (order_isTerminal (ord_status ord) \<longleftrightarrow> ord_finalizedAt ord \<noteq> None) \<and>
     (ord_status ord \<notin> {DRAFT, CANCELLED} \<longrightarrow> ord_placedAt ord \<noteq> None)"

text \<open>The snapshot no move touches.\<close>

definition order_snapshot :: "order \<Rightarrow> string option \<times> string \<times> string \<times> order_item list \<times> int" where
  "order_snapshot ord =
     (ord_id ord, ord_userId ord, ord_currency ord, ord_items ord, ord_totalAmountMinor ord)"

lemma sum_lines_Inr:
  assumes "valid_money acc" "sum_lines acc is = Inr m"
  shows "m = \<lparr>amountMinor = amountMinor acc + sum_list (map item_amount is), currency = currency acc\<rparr> \<and>
    valid_money m"
  using assms
proof (induction "is" arbitrary: acc)
  case Nil
  then show ?case by simp
next
  case (Cons i "is")
  then obtain l a where l: "lineTotal i (currency acc) = Inr l" and a: "money_add acc l = Inr a"
    and rest: "sum_lines a is = Inr m" by (auto simp: ebind_Inr_iff)
  have "amountMinor l = item_amount i"
    using l Cons.prems(1) by (auto simp: lineTotal_Inr valid_money_def)
  then have "a = \<lparr>amountMinor = amountMinor acc + item_amount i, currency = currency acc\<rparr>" "valid_money a"
    using a money_add_valid [OF Cons.prems(1) a] Cons.prems(1) by (auto simp: money_add_Inr)
  with Cons.IH [OF _ rest] show ?case by auto
qed

lemma sum_list_amount_nonneg: "\<forall>i \<in> set is. valid_item i \<Longrightarrow> 0 \<le> sum_list (map item_amount is)"
  by (intro sum_list_nonneg) (auto simp: item_amount_def valid_item_def)

lemma order_create_Inr:
  assumes "order_create u c items = Inr ord"
  shows "ord_totalAmountMinor ord = sum_list (map item_amount items)" (is ?total)
    and "is_safe_integer (JInt (ord_totalAmountMinor ord))" (is ?safe)
    and "canonical_currency (ord_currency ord)" (is ?cur)
    and "ord_items ord = items" "ord_status ord = DRAFT" "ord_id ord = None" "ord_userId ord = u"
    and "items \<noteq> []" "\<forall>i \<in> set items. oi_quantity i \<le> MAX_QUANTITY_PER_ORDER_LINE"
    and "order_wf ord"
proof -
  obtain z total where z: "money_zero c = Inr z" and t: "sum_lines z items = Inr total"
    and ne: "items \<noteq> []" and f: "List.find (\<lambda>i. MAX_QUANTITY_PER_ORDER_LINE < oi_quantity i) items = None"
    and ord: "ord = \<lparr>ord_id = None, ord_userId = u, ord_status = DRAFT,
                  ord_currency = currency z, ord_items = items,
                  ord_totalAmountMinor = amountMinor total, ord_placedAt = None,
                  ord_finalizedAt = None, ord_finalizeReason = None, ord_paymentRef = None,
                  ord_paymentDeadlineAt = None\<rparr>"
    using assms by (auto simp: order_create_def ebind_Inr_iff split: if_splits option.splits)
  have vz: "valid_money z" "amountMinor z = 0"
    using z by (auto simp: money_zero_def money_of_Inr dest: money_of_valid)
       (auto simp: valid_money_def MAX_SAFE_INTEGER_def dest: normalizeCurrency_canonical)
  note s = sum_lines_Inr [OF vz(1) t]
  show ?total ?safe ?cur using s vz ord by (auto simp: valid_money_def)
  show "ord_items ord = items" "ord_status ord = DRAFT" "ord_id ord = None" "ord_userId ord = u"
    "items \<noteq> []" "order_wf ord"
    using ord ne by (auto simp: order_wf_def order_isTerminal_def)
  show "\<forall>i \<in> set items. oi_quantity i \<le> MAX_QUANTITY_PER_ORDER_LINE"
    using f by (auto simp: find_None_iff not_less)
qed


text \<open>The aggregate's public moves, as one relation: which order a use case can turn into which.\<close>

inductive order_step :: "order \<Rightarrow> order \<Rightarrow> bool" where
  reserve: "order_reserve ord now deadline = Inr ord' \<Longrightarrow> order_step ord ord'"
| confirm: "order_confirmPlaced ord = Inr ord' \<Longrightarrow> order_step ord ord'"
| reject: "order_reject ord reason now = Inr ord' \<Longrightarrow> order_step ord ord'"
| begin_confirming: "order_beginConfirming ord = Inr ord' \<Longrightarrow> order_step ord ord'"
| finalize: "st \<in> {PAID, FAILED, EXPIRED, CANCELLED} \<Longrightarrow>
    order_finalize ord st now reason ref = Inr ord' \<Longrightarrow> order_step ord ord'"

lemma order_step_can: "order_step ord ord' \<Longrightarrow> order_canTransition (ord_status ord) (ord_status ord')"
  by (induction rule: order_step.induct) (auto simp: order_move_defs moveTo_Inr)

lemma order_step_snapshot: "order_step ord ord' \<Longrightarrow> order_snapshot ord' = order_snapshot ord"
  by (induction rule: order_step.induct) (auto simp: order_move_defs moveTo_Inr order_snapshot_def)

lemma order_step_wf: "order_step ord ord' \<Longrightarrow> order_wf ord \<Longrightarrow> order_wf ord'"
proof (induction rule: order_step.induct)
  case (finalize st ord now reason ref ord')
  then have "order_canTransition (ord_status ord) st"
    "ord' = ord\<lparr>ord_status := st, ord_finalizedAt := Some now, ord_finalizeReason := reason,
       ord_paymentRef := ref\<rparr>"
    by (auto simp: order_finalize_def moveTo_Inr)
  with finalize show ?case by (auto simp: order_wf_def order_isTerminal_def order_can_cases)
qed (auto simp: order_move_defs moveTo_Inr order_wf_def order_isTerminal_def order_can_cases)

lemma order_steps_machine:
  "order_step\<^sup>*\<^sup>* ord ord' \<Longrightarrow> order_canTransition\<^sup>*\<^sup>* (ord_status ord) (ord_status ord')"
  by (induction rule: rtranclp_induct) (auto dest: order_step_can intro: rtranclp.rtrancl_into_rtrancl)

lemma order_steps_snapshot: "order_step\<^sup>*\<^sup>* ord ord' \<Longrightarrow> order_snapshot ord' = order_snapshot ord"
  by (induction rule: rtranclp_induct) (auto dest: order_step_snapshot)

lemma order_steps_wf: "order_step\<^sup>*\<^sup>* ord ord' \<Longrightarrow> order_wf ord \<Longrightarrow> order_wf ord'"
  by (induction rule: rtranclp_induct) (auto dest: order_step_wf)

text \<open>A stored order that settles with anything but REJECTED has its event, under the event's own name.\<close>

lemma finalized_event:
  assumes "order_finalize ord st now reason ref = Inr ord'" "ord_id ord = Some i"
    and "st \<in> {PAID, FAILED, EXPIRED, CANCELLED}"
  shows "\<exists>e. toFinalizedEvent ord' = Inr e \<and> ev_order e = i \<and> ev_at e = now"
  using assms by (auto simp: order_finalize_def moveTo_Inr toFinalizedEvent_def)


section \<open>The invariants a settled checkout is checked against\<close>

datatype invariant_kind =
    captured_without_paid | paid_without_capture | paid_without_commit | orphan_hold
  | authorized_on_dead_order

definition TERMINAL_SAGA_STATUSES :: "order_status list" where
  "TERMINAL_SAGA_STATUSES = [PAID, FAILED, EXPIRED, CANCELLED, REJECTED]"

record payment_standing =
  ps_header :: "payment_order_status option"
  ps_authorizedPaymentId :: "string option"
  ps_hasAuthorizedAttempt :: bool
  ps_hasSucceededAttempt :: bool

record settled_checkout =
  sc_status :: order_status
  sc_stock :: "reservation_order_status option"
  sc_payment :: payment_standing

definition evaluateCheckoutInvariants :: "settled_checkout \<Rightarrow> string + invariant_kind list" where
  "evaluateCheckoutInvariants c =
     (if sc_status c \<notin> set TERMINAL_SAGA_STATUSES
      then Inl ''Checkout invariants apply to settled orders''
      else let paid = (sc_status c = PAID); p = sc_payment c in
        Inr ((if \<not> paid \<and> (ps_header p = Some P_CAPTURED \<or> ps_hasSucceededAttempt p)
              then [captured_without_paid] else []) @
             (if paid \<and> ps_header p \<noteq> Some P_CAPTURED then [paid_without_capture] else []) @
             (if paid \<and> sc_stock c \<noteq> Some R_COMMITTED then [paid_without_commit] else []) @
             (if \<not> paid \<and> sc_stock c = Some R_HELD then [orphan_hold] else []) @
             (if \<not> paid \<and> ps_hasAuthorizedAttempt p then [authorized_on_dead_order] else [])))"

lemma invariants_clean:
  "evaluateCheckoutInvariants c = Inr [] \<longleftrightarrow>
     order_isTerminal (sc_status c) \<and>
     (if sc_status c = PAID
      then ps_header (sc_payment c) = Some P_CAPTURED \<and> sc_stock c = Some R_COMMITTED
      else ps_header (sc_payment c) \<noteq> Some P_CAPTURED \<and> \<not> ps_hasSucceededAttempt (sc_payment c) \<and>
        sc_stock c \<noteq> Some R_HELD \<and> \<not> ps_hasAuthorizedAttempt (sc_payment c))"
  by (auto simp: evaluateCheckoutInvariants_def TERMINAL_SAGA_STATUSES_def order_isTerminal_def Let_def)

end
