(* ===== verification/Checkout_Saga.thy ===== *)
theory Checkout_Saga
  imports Order_Domain
begin

text \<open>
  The pure transitions of the checkout saga
  (\<^verbatim>\<open>apps/order-service/src/modules/order/domain/checkout-saga.ts\<close>): the state, the commands a
  transition returns for the workflow body to execute, one definition per handler, and the runs of
  the machine over any order of events. Lemmas: the state invariant every handler keeps, what can
  have been commanded by the time the machine is in a given step, and that every compensation
  command is issued once and settles.
\<close>


section \<open>Vocabulary\<close>

datatype checkout_step =
    S_RESERVING | S_AWAITING_AUTH | S_COMMITTING_STOCK | S_CAPTURING | S_COMPLETED
  | S_COMPENSATING | S_COMPENSATED

datatype saga_mode = M_checkout | M_lateAuthorization

datatype reserve_outcome = HELD | OUT_OF_STOCK | CONTENDED | CONFLICT | TIMEOUT | ERROR | ABANDONED

datatype settled_capture = Sc_CAPTURED | Sc_IDEMPOTENT | Sc_NOT_CAPTURABLE

datatype auth_verdict = VERIFIED | NOT_AUTHORIZED | PAYMENT_MISMATCH

datatype ignored_reason = Ign_AMOUNT_MISMATCH | Ign_NOT_AUTHORIZED | Ign_PAYMENT_MISMATCH

datatype cancel_by = buyer | admin

datatype compensation_reason =
    TRY_FAILED | TRY_TIMEOUT | CR_ABANDONED | CR_EXPIRED | CR_CANCELLED | COMMIT_CONFLICT
  | CAPTURE_FAILED | LATE_AUTHORIZATION

record payment_authorization =
  pa_paymentId :: string
  pa_amountMinor :: int
  pa_currency :: string
  pa_authorizedAt :: int

datatype compensation_type = RELEASE_STOCK | RESTOCK | CANCEL_PAYMENT

record compensation =
  co_type :: compensation_type
  co_id :: nat
  co_reason :: compensation_reason

record order_change =
  oc_from :: "order_status list"
  oc_to :: order_status
  oc_reason :: "string option"
  oc_paymentRef :: "string option"

datatype saga_command =
    CHANGE_ORDER order_change
  | VERIFY_AUTHORIZATION payment_authorization
  | COMMIT_STOCK
  | CAPTURE_PAYMENT
  | COMPENSATION compensation

record saga_state =
  ss_mode :: saga_mode
  ss_step :: checkout_step
  ss_orderStatus :: "order_status option"
  ss_tryOutcome :: "reserve_outcome option"
  ss_authorization :: "payment_authorization option"
  ss_verifying :: "string list"
  ss_voided :: "string list"
  ss_pending :: "compensation list"
  ss_nextCommandId :: nat

type_synonym transition = "saga_state \<times> saga_command list"

type_synonym auth_transition = "transition \<times> ignored_reason option"


section \<open>Transitions\<close>

definition initialCheckoutSagaState :: "saga_mode \<Rightarrow> saga_state" where
  "initialCheckoutSagaState mode =
     \<lparr>ss_mode = mode,
      ss_step = (if mode = M_checkout then S_RESERVING else S_COMPENSATING),
      ss_orderStatus = (if mode = M_checkout then Some RESERVING else None),
      ss_tryOutcome = None, ss_authorization = None, ss_verifying = [], ss_voided = [],
      ss_pending = [], ss_nextCommandId = 1\<rparr>"

text \<open>\<open>Date.parse\<close> of an unreadable stamp is NaN, which fails the comparison: the Try is abandoned.\<close>

definition planTry :: "int option \<Rightarrow> int \<Rightarrow> int \<Rightarrow> int option" where
  "planTry startedAt tryTimeoutMs nowMs =
     (case startedAt of
        None \<Rightarrow> None
      | Some t0 \<Rightarrow> let remaining = t0 + tryTimeoutMs - nowMs in if 0 < remaining then Some remaining else None)"

fun toReserveOutcome :: "try_outcome \<Rightarrow> reserve_outcome" where
  "toReserveOutcome Try_RESERVED = HELD"
| "toReserveOutcome Try_OUT_OF_STOCK = OUT_OF_STOCK"
| "toReserveOutcome Try_CONTENDED = CONTENDED"
| "toReserveOutcome Try_CONFLICT = CONFLICT"

fun compensationReasonForTry :: "reserve_outcome \<Rightarrow> compensation_reason" where
  "compensationReasonForTry TIMEOUT = TRY_TIMEOUT"
| "compensationReasonForTry ERROR = TRY_TIMEOUT"
| "compensationReasonForTry ABANDONED = CR_ABANDONED"
| "compensationReasonForTry _ = TRY_FAILED"

fun reason_name :: "compensation_reason \<Rightarrow> string" where
  "reason_name TRY_FAILED = ''TRY_FAILED''"
| "reason_name TRY_TIMEOUT = ''TRY_TIMEOUT''"
| "reason_name CR_ABANDONED = ''ABANDONED''"
| "reason_name CR_EXPIRED = ''EXPIRED''"
| "reason_name CR_CANCELLED = ''CANCELLED''"
| "reason_name COMMIT_CONFLICT = ''COMMIT_CONFLICT''"
| "reason_name CAPTURE_FAILED = ''CAPTURE_FAILED''"
| "reason_name LATE_AUTHORIZATION = ''LATE_AUTHORIZATION''"

definition finalizeReasonOf :: "compensation_reason \<Rightarrow> string" where
  "finalizeReasonOf reason = ''saga:'' @ js_lower (reason_name reason)"

definition changeOrder :: "order_status \<Rightarrow> order_status \<Rightarrow> string option \<Rightarrow> saga_command" where
  "changeOrder f t reason =
     CHANGE_ORDER \<lparr>oc_from = [f], oc_to = t, oc_reason = reason, oc_paymentRef = None\<rparr>"

definition noop :: "saga_state \<Rightarrow> transition" where
  "noop st = (st, [])"

definition ignored :: "saga_state \<Rightarrow> ignored_reason option \<Rightarrow> auth_transition" where
  "ignored st reason = ((st, []), reason)"

fun issue :: "nat \<Rightarrow> (compensation_type \<times> compensation_reason) list \<Rightarrow> compensation list" where
  "issue n [] = []"
| "issue n ((t, r) # cs) = \<lparr>co_type = t, co_id = n, co_reason = r\<rparr> # issue (Suc n) cs"

definition saga_compensate ::
    "saga_state \<Rightarrow> saga_command list \<Rightarrow> (compensation_type \<times> compensation_reason) list \<Rightarrow> transition" where
  "saga_compensate st first cs =
     (let issued = issue (ss_nextCommandId st) cs
      in (st\<lparr>ss_step := S_COMPENSATING, ss_pending := ss_pending st @ issued,
            ss_nextCommandId := ss_nextCommandId st + length cs\<rparr>,
          first @ map COMPENSATION issued))"

definition onTryResult :: "saga_state \<Rightarrow> reserve_outcome \<Rightarrow> transition" where
  "onTryResult st outcome =
     (if ss_step st \<noteq> S_RESERVING then noop st
      else if outcome = HELD
      then (st\<lparr>ss_step := S_AWAITING_AUTH, ss_orderStatus := Some PENDING, ss_tryOutcome := Some outcome\<rparr>, [])
      else saga_compensate (st\<lparr>ss_orderStatus := Some REJECTED, ss_tryOutcome := Some outcome\<rparr>) []
             [(RELEASE_STOCK, compensationReasonForTry outcome)])"

definition onAuthorized :: "saga_state \<Rightarrow> payment_authorization \<Rightarrow> int \<Rightarrow> string \<Rightarrow> auth_transition" where
  "onAuthorized st authorization totalMinor cur =
     (let paymentId = pa_paymentId authorization in
      if ss_step st = S_COMPENSATING \<or> ss_step st = S_COMPENSATED then
        (if paymentId \<in> set (ss_voided st) then ignored st None
         else let seen = st\<lparr>ss_voided := ss_voided st @ [paymentId]\<rparr> in
           if ss_mode st = M_lateAuthorization \<and> ss_orderStatus st = None then ignored seen None
           else (saga_compensate seen [] [(CANCEL_PAYMENT, LATE_AUTHORIZATION)], None))
      else if ss_step st \<noteq> S_AWAITING_AUTH then ignored st None
      else if pa_amountMinor authorization \<noteq> totalMinor \<or> pa_currency authorization \<noteq> cur
      then ignored st (Some Ign_AMOUNT_MISMATCH)
      else if paymentId \<in> set (ss_verifying st) then ignored st None
      else ((st\<lparr>ss_verifying := ss_verifying st @ [paymentId]\<rparr>, [VERIFY_AUTHORIZATION authorization]), None))"

fun verdict_reason :: "auth_verdict \<Rightarrow> ignored_reason option" where
  "verdict_reason VERIFIED = None"
| "verdict_reason NOT_AUTHORIZED = Some Ign_NOT_AUTHORIZED"
| "verdict_reason PAYMENT_MISMATCH = Some Ign_PAYMENT_MISMATCH"

definition onAuthorizationVerified ::
    "saga_state \<Rightarrow> payment_authorization \<Rightarrow> auth_verdict \<Rightarrow> auth_transition" where
  "onAuthorizationVerified st authorization verdict =
     (let settled = st\<lparr>ss_verifying := filter (\<lambda>i. i \<noteq> pa_paymentId authorization) (ss_verifying st)\<rparr> in
      if ss_step st \<noteq> S_AWAITING_AUTH then ignored st None
      else if verdict \<noteq> VERIFIED then ignored settled (verdict_reason verdict)
      else ((settled\<lparr>ss_step := S_COMMITTING_STOCK, ss_orderStatus := Some CONFIRMING,
                    ss_authorization := Some authorization\<rparr>,
             [changeOrder PENDING CONFIRMING None, COMMIT_STOCK]), None))"

definition onCommitResult :: "saga_state \<Rightarrow> command_outcome \<Rightarrow> transition" where
  "onCommitResult st outcome =
     (if ss_step st \<noteq> S_COMMITTING_STOCK then noop st
      else if outcome = Cmd_CONFLICT
      then saga_compensate (st\<lparr>ss_orderStatus := Some FAILED\<rparr>)
             [changeOrder CONFIRMING FAILED (Some (finalizeReasonOf COMMIT_CONFLICT))]
             [(CANCEL_PAYMENT, COMMIT_CONFLICT)]
      else (st\<lparr>ss_step := S_CAPTURING\<rparr>, [CAPTURE_PAYMENT]))"

definition onCaptureResult :: "saga_state \<Rightarrow> settled_capture \<Rightarrow> transition" where
  "onCaptureResult st outcome =
     (if ss_step st \<noteq> S_CAPTURING then noop st
      else if outcome = Sc_NOT_CAPTURABLE
      then saga_compensate (st\<lparr>ss_orderStatus := Some FAILED\<rparr>)
             [changeOrder CONFIRMING FAILED (Some (finalizeReasonOf CAPTURE_FAILED))]
             [(RESTOCK, CAPTURE_FAILED), (CANCEL_PAYMENT, CAPTURE_FAILED)]
      else (st\<lparr>ss_step := S_COMPLETED, ss_orderStatus := Some PAID\<rparr>,
            [CHANGE_ORDER \<lparr>oc_from = [CONFIRMING], oc_to = PAID, oc_reason = Some ''saga:captured'',
                           oc_paymentRef = map_option pa_paymentId (ss_authorization st)\<rparr>]))"

definition onDeadline :: "saga_state \<Rightarrow> transition" where
  "onDeadline st =
     (if ss_step st \<noteq> S_AWAITING_AUTH then noop st
      else saga_compensate (st\<lparr>ss_orderStatus := Some EXPIRED\<rparr>)
             [changeOrder PENDING EXPIRED (Some (finalizeReasonOf CR_EXPIRED))]
             [(RELEASE_STOCK, CR_EXPIRED), (CANCEL_PAYMENT, CR_EXPIRED)])"

definition canCancel :: "saga_state \<Rightarrow> bool" where
  "canCancel st \<longleftrightarrow> ss_step st = S_AWAITING_AUTH \<or> ss_orderStatus st = Some CANCELLED"

definition onCancelRequested :: "saga_state \<Rightarrow> cancel_by \<Rightarrow> transition" where
  "onCancelRequested st by_whom =
     (if ss_step st \<noteq> S_AWAITING_AUTH then noop st
      else saga_compensate (st\<lparr>ss_orderStatus := Some CANCELLED\<rparr>)
             [changeOrder PENDING CANCELLED
                (Some (if by_whom = buyer then ''user:cancel'' else ''admin:cancel''))]
             [(RELEASE_STOCK, CR_CANCELLED), (CANCEL_PAYMENT, CR_CANCELLED)])"

definition onCompensationDone :: "saga_state \<Rightarrow> nat \<Rightarrow> transition" where
  "onCompensationDone st i =
     (if \<not> list_ex (\<lambda>c. co_id c = i) (ss_pending st) then noop st
      else let pending = filter (\<lambda>c. co_id c \<noteq> i) (ss_pending st)
        in (st\<lparr>ss_pending := pending,
              ss_step := (if pending = [] then S_COMPENSATED else ss_step st)\<rparr>, []))"

definition onLateAuthorizationContext :: "saga_state \<Rightarrow> order_status option \<Rightarrow> transition" where
  "onLateAuthorizationContext st orderStatus =
     (if ss_mode st \<noteq> M_lateAuthorization \<or> ss_orderStatus st \<noteq> None then noop st
      else let known = st\<lparr>ss_orderStatus := Some (case orderStatus of None \<Rightarrow> REJECTED | Some s \<Rightarrow> s)\<rparr> in
        if orderStatus = Some PAID then (known\<lparr>ss_step := S_COMPLETED\<rparr>, [])
        else saga_compensate known [] [(CANCEL_PAYMENT, LATE_AUTHORIZATION)])"


section \<open>Runs\<close>

text \<open>
  Everything that can reach the machine, in any order and any number of times; \<open>saga_step\<close> is the
  handler the workflow calls for it, given the total and currency the run was started with.
\<close>

datatype saga_event =
    TryResult reserve_outcome
  | Authorized payment_authorization
  | AuthorizationVerified payment_authorization auth_verdict
  | CommitResult command_outcome
  | CaptureResult settled_capture
  | Deadline
  | CancelRequested cancel_by
  | CompensationDone nat
  | LateContext "order_status option"

fun saga_step :: "int \<Rightarrow> string \<Rightarrow> saga_state \<Rightarrow> saga_event \<Rightarrow> transition" where
  "saga_step tot cur st (TryResult r) = onTryResult st r"
| "saga_step tot cur st (Authorized a) = fst (onAuthorized st a tot cur)"
| "saga_step tot cur st (AuthorizationVerified a v) = fst (onAuthorizationVerified st a v)"
| "saga_step tot cur st (CommitResult r) = onCommitResult st r"
| "saga_step tot cur st (CaptureResult r) = onCaptureResult st r"
| "saga_step tot cur st Deadline = onDeadline st"
| "saga_step tot cur st (CancelRequested b) = onCancelRequested st b"
| "saga_step tot cur st (CompensationDone i) = onCompensationDone st i"
| "saga_step tot cur st (LateContext s) = onLateAuthorizationContext st s"

fun saga_run :: "int \<Rightarrow> string \<Rightarrow> saga_state \<Rightarrow> saga_event list \<Rightarrow> transition" where
  "saga_run tot cur st [] = (st, [])"
| "saga_run tot cur st (e # es) =
     (let (st1, cs) = saga_step tot cur st e; (st2, ds) = saga_run tot cur st1 es in (st2, cs @ ds))"

lemmas saga_defs =
  onTryResult_def onAuthorized_def onAuthorizationVerified_def onCommitResult_def onCaptureResult_def
  onDeadline_def onCancelRequested_def onCompensationDone_def onLateAuthorizationContext_def
  saga_compensate_def noop_def ignored_def changeOrder_def Let_def

lemma saga_run_append:
  "saga_run tot cur st (es @ fs) =
     (let (st1, cs) = saga_run tot cur st es; (st2, ds) = saga_run tot cur st1 fs in (st2, cs @ ds))"
  by (induction es arbitrary: st) (auto simp: Let_def split: prod.splits)

text \<open>
  A predicate on the state and everything commanded so far that each step keeps holds of every run:
  induction on the events with the state and the log generalised.
\<close>

lemma saga_run_invariant:
  assumes run: "saga_run tot cur st es = (st', cs)" and start: "P st log"
    and step: "\<And>st log e st' cs. P st log \<Longrightarrow> saga_step tot cur st e = (st', cs) \<Longrightarrow> P st' (log @ cs)"
  shows "P st' (log @ cs)"
  using run start
proof (induction es arbitrary: st log cs)
  case Nil
  then show ?case by simp
next
  case (Cons e es)
  obtain st1 cs1 where s: "saga_step tot cur st e = (st1, cs1)" by fastforce
  obtain cs2 where r: "saga_run tot cur st1 es = (st', cs2)" and cs: "cs = cs1 @ cs2"
    using Cons.prems(1) s by (auto simp: Let_def split: prod.splits)
  have "P st1 (log @ cs1)" using Cons.prems(2) s by (rule step)
  from Cons.IH [OF r this] cs show ?case by simp
qed


section \<open>The state invariant\<close>

definition settled_badly :: "order_status option \<Rightarrow> bool" where
  "settled_badly s \<longleftrightarrow> s \<in> Some ` {REJECTED, FAILED, EXPIRED, CANCELLED}"

text \<open>How the step, the recorded order status, the verified authorization and the pending list agree.\<close>

fun step_agrees :: "checkout_step \<Rightarrow> saga_state \<Rightarrow> bool" where
  "step_agrees S_RESERVING st \<longleftrightarrow> ss_mode st = M_checkout \<and> ss_orderStatus st = Some RESERVING \<and>
     ss_authorization st = None \<and> ss_pending st = []"
| "step_agrees S_AWAITING_AUTH st \<longleftrightarrow> ss_mode st = M_checkout \<and> ss_orderStatus st = Some PENDING \<and>
     ss_tryOutcome st = Some HELD \<and> ss_authorization st = None \<and> ss_pending st = []"
| "step_agrees S_COMMITTING_STOCK st \<longleftrightarrow> ss_mode st = M_checkout \<and> ss_orderStatus st = Some CONFIRMING \<and>
     ss_tryOutcome st = Some HELD \<and> ss_authorization st \<noteq> None \<and> ss_pending st = []"
| "step_agrees S_CAPTURING st \<longleftrightarrow> ss_mode st = M_checkout \<and> ss_orderStatus st = Some CONFIRMING \<and>
     ss_tryOutcome st = Some HELD \<and> ss_authorization st \<noteq> None \<and> ss_pending st = []"
| "step_agrees S_COMPLETED st \<longleftrightarrow> ss_orderStatus st = Some PAID \<and> ss_pending st = [] \<and>
     (ss_mode st = M_checkout \<longrightarrow> ss_tryOutcome st = Some HELD \<and> ss_authorization st \<noteq> None)"
| "step_agrees S_COMPENSATING st \<longleftrightarrow> ss_orderStatus st \<noteq> Some PAID \<and>
     (ss_mode st = M_checkout \<longrightarrow> settled_badly (ss_orderStatus st)) \<and>
     (ss_pending st = [] \<longleftrightarrow> ss_orderStatus st = None)"
| "step_agrees S_COMPENSATED st \<longleftrightarrow> ss_orderStatus st \<noteq> Some PAID \<and> ss_orderStatus st \<noteq> None \<and>
     (ss_mode st = M_checkout \<longrightarrow> settled_badly (ss_orderStatus st)) \<and> ss_pending st = []"

definition ids_fresh :: "saga_state \<Rightarrow> bool" where
  "ids_fresh st \<longleftrightarrow> distinct (map co_id (ss_pending st)) \<and>
     (\<forall>c \<in> set (ss_pending st). co_id c < ss_nextCommandId st)"

definition saga_inv :: "saga_state \<Rightarrow> bool" where
  "saga_inv st \<longleftrightarrow> step_agrees (ss_step st) st \<and> ids_fresh st \<and>
     distinct (ss_verifying st) \<and> distinct (ss_voided st)"

lemma saga_inv_initial: "saga_inv (initialCheckoutSagaState mode)"
  by (cases mode) (auto simp: saga_inv_def ids_fresh_def initialCheckoutSagaState_def)

lemmas inv_simps = saga_inv_def ids_fresh_def settled_badly_def

lemma onTryResult_inv: "saga_inv st \<Longrightarrow> saga_inv (fst (onTryResult st r))"
  by (auto simp: saga_defs inv_simps)

lemma onAuthorized_inv: "saga_inv st \<Longrightarrow> saga_inv (fst (fst (onAuthorized st a tot cur)))"
  by (cases "ss_step st"; cases "ss_mode st") (auto simp: saga_defs inv_simps)

lemma onAuthorizationVerified_inv:
  "saga_inv st \<Longrightarrow> saga_inv (fst (fst (onAuthorizationVerified st a v)))"
  by (auto simp: saga_defs inv_simps)

lemma onCommitResult_inv: "saga_inv st \<Longrightarrow> saga_inv (fst (onCommitResult st r))"
  by (auto simp: saga_defs inv_simps)

lemma onCaptureResult_inv: "saga_inv st \<Longrightarrow> saga_inv (fst (onCaptureResult st r))"
  by (auto simp: saga_defs inv_simps)

lemma onDeadline_inv: "saga_inv st \<Longrightarrow> saga_inv (fst (onDeadline st))"
  by (auto simp: saga_defs inv_simps)

lemma onCancelRequested_inv: "saga_inv st \<Longrightarrow> saga_inv (fst (onCancelRequested st b))"
  by (auto simp: saga_defs inv_simps)

lemma pending_steps:
  "saga_inv st \<Longrightarrow> ss_pending st \<noteq> [] \<Longrightarrow> ss_step st = S_COMPENSATING"
  by (cases "ss_step st") (auto simp: inv_simps)

lemma onCompensationDone_inv: "saga_inv st \<Longrightarrow> saga_inv (fst (onCompensationDone st i))"
proof -
  assume inv: "saga_inv st"
  show ?thesis
  proof (cases "list_ex (\<lambda>c. co_id c = i) (ss_pending st)")
    case True
    then have "ss_pending st \<noteq> []" by auto
    then have "ss_step st = S_COMPENSATING" using inv by (rule pending_steps [rotated])
    with True inv show ?thesis
      by (auto simp: onCompensationDone_def Let_def inv_simps distinct_map_filter)
  next
    case False
    with inv show ?thesis by (simp add: onCompensationDone_def noop_def)
  qed
qed

lemma onLateAuthorizationContext_inv:
  "saga_inv st \<Longrightarrow> saga_inv (fst (onLateAuthorizationContext st s))"
  by (cases "ss_step st"; cases s) (auto simp: saga_defs inv_simps)

lemma saga_step_inv: "saga_inv st \<Longrightarrow> saga_inv (fst (saga_step tot cur st e))"
  by (cases e)
     (simp_all add: onTryResult_inv onAuthorized_inv onAuthorizationVerified_inv onCommitResult_inv
       onCaptureResult_inv onDeadline_inv onCancelRequested_inv onCompensationDone_inv
       onLateAuthorizationContext_inv)

lemma saga_run_inv:
  assumes "saga_run tot cur st es = (st', cs)" "saga_inv st"
  shows "saga_inv st'"
  using saga_run_invariant [where P = "\<lambda>st _. saga_inv st", OF assms]
  by (metis fst_conv saga_step_inv)

lemma saga_step_mode: "ss_mode (fst (saga_step tot cur st e)) = ss_mode st"
  by (cases e) (auto simp: saga_defs)


section \<open>What has been commanded\<close>

text \<open>Readings of a command log: the compensations, the order moves, and how often each is there.\<close>

fun compensations :: "saga_command list \<Rightarrow> compensation list" where
  "compensations [] = []"
| "compensations (COMPENSATION c # cs) = c # compensations cs"
| "compensations (_ # cs) = compensations cs"

fun order_path :: "saga_command list \<Rightarrow> order_status list" where
  "order_path [] = []"
| "order_path (CHANGE_ORDER c # cs) = oc_to c # order_path cs"
| "order_path (_ # cs) = order_path cs"

definition n_type :: "compensation_type \<Rightarrow> saga_command list \<Rightarrow> nat" where
  "n_type t cs = length (filter (\<lambda>c. co_type c = t) (compensations cs))"

definition n_late :: "saga_command list \<Rightarrow> nat" where
  "n_late cs = length (filter (\<lambda>c. co_reason c = LATE_AUTHORIZATION) (compensations cs))"

lemma compensations_append [simp]: "compensations (xs @ ys) = compensations xs @ compensations ys"
  by (induction xs rule: compensations.induct) auto

lemma order_path_append [simp]: "order_path (xs @ ys) = order_path xs @ order_path ys"
  by (induction xs rule: order_path.induct) auto

lemma n_type_append [simp]: "n_type t (xs @ ys) = n_type t xs + n_type t ys"
  by (simp add: n_type_def)

lemma n_late_append [simp]: "n_late (xs @ ys) = n_late xs + n_late ys"
  by (simp add: n_late_def)

text \<open>
  By the time the checkout run is in a step, exactly this much has been commanded: how many stock
  commits and captures, which moves of the order, how many releases, restocks and voids.
\<close>

definition commanded ::
    "saga_command list \<Rightarrow> nat \<Rightarrow> nat \<Rightarrow> order_status list \<Rightarrow> nat \<Rightarrow> nat \<Rightarrow> nat \<Rightarrow> bool" where
  "commanded log commits captures path releases restocks voids \<longleftrightarrow>
     count_list log COMMIT_STOCK = commits \<and> count_list log CAPTURE_PAYMENT = captures \<and>
     order_path log = path \<and> n_type RELEASE_STOCK log = releases \<and> n_type RESTOCK log = restocks \<and>
     n_type CANCEL_PAYMENT log = voids"

fun log_agrees :: "checkout_step \<Rightarrow> saga_state \<Rightarrow> saga_command list \<Rightarrow> bool" where
  "log_agrees S_RESERVING st log \<longleftrightarrow> commanded log 0 0 [] 0 0 0"
| "log_agrees S_AWAITING_AUTH st log \<longleftrightarrow> commanded log 0 0 [] 0 0 0"
| "log_agrees S_COMMITTING_STOCK st log \<longleftrightarrow> commanded log 1 0 [CONFIRMING] 0 0 0"
| "log_agrees S_CAPTURING st log \<longleftrightarrow> commanded log 1 1 [CONFIRMING] 0 0 0"
| "log_agrees S_COMPLETED st log \<longleftrightarrow> commanded log 1 1 [CONFIRMING, PAID] 0 0 0"
| "log_agrees _ st log \<longleftrightarrow>
     (let late = length (ss_voided st) in
      case ss_orderStatus st of
        Some REJECTED \<Rightarrow> commanded log 0 0 [] 1 0 late
      | Some EXPIRED \<Rightarrow> commanded log 0 0 [EXPIRED] 1 0 (1 + late)
      | Some CANCELLED \<Rightarrow> commanded log 0 0 [CANCELLED] 1 0 (1 + late)
      | Some FAILED \<Rightarrow> commanded log 1 0 [CONFIRMING, FAILED] 0 0 (1 + late) \<or>
          commanded log 1 1 [CONFIRMING, FAILED] 0 1 (1 + late)
      | _ \<Rightarrow> False)"

definition log_inv :: "saga_state \<Rightarrow> saga_command list \<Rightarrow> bool" where
  "log_inv st log \<longleftrightarrow> saga_inv st \<and> ss_mode st = M_checkout \<and>
     log_agrees (ss_step st) st log \<and>
     (ss_step st \<notin> {S_COMPENSATING, S_COMPENSATED} \<longrightarrow> ss_voided st = [])"

lemmas log_simps = log_inv_def commanded_def n_type_def Let_def

lemma log_inv_initial: "log_inv (initialCheckoutSagaState M_checkout) []"
  unfolding log_inv_def using saga_inv_initial [of M_checkout]
  by (simp add: initialCheckoutSagaState_def commanded_def n_type_def)

lemma compensations_map [simp]: "compensations (map COMPENSATION xs) = xs"
  by (induction xs) auto

lemma order_path_map [simp]: "order_path (map COMPENSATION xs) = []"
  by (induction xs) auto

lemma log_inv_step:
  assumes "log_inv st log" and "saga_step tot cur st e = (st', cs)"
  shows "log_inv st' (log @ cs)"
proof -
  have inv: "saga_inv st'" and mode: "ss_mode st' = M_checkout"
    using assms saga_step_inv [of st tot cur e] saga_step_mode [of tot cur st e]
    by (auto simp: log_inv_def)
  have step: "step_agrees (ss_step st) st" using assms(1) by (simp add: log_inv_def saga_inv_def)
  have "log_agrees (ss_step st') st' (log @ cs) \<and>
      (ss_step st' \<notin> {S_COMPENSATING, S_COMPENSATED} \<longrightarrow> ss_voided st' = [])"
  proof (cases "ss_step st")
    case S_COMPENSATING
    then show ?thesis using assms step
      by (cases e; cases "ss_orderStatus st")
         (auto simp: saga_defs log_simps settled_badly_def split: order_status.splits if_splits)
  next
    case S_COMPENSATED
    then show ?thesis using assms step
      by (cases e; cases "ss_orderStatus st")
         (auto simp: saga_defs log_simps settled_badly_def split: order_status.splits if_splits)
  qed (use assms step in \<open>cases e; auto simp: saga_defs log_simps split: if_splits\<close>)+
  with inv mode show ?thesis by (simp add: log_inv_def)
qed

lemma checkout_run_log:
  assumes "saga_run tot cur (initialCheckoutSagaState M_checkout) es = (st, cs)"
  shows "log_inv st cs"
  using saga_run_invariant [where P = log_inv, OF assms log_inv_initial log_inv_step] by simp


lemma n_type_total:
  "length (compensations cs) = n_type RELEASE_STOCK cs + n_type RESTOCK cs + n_type CANCEL_PAYMENT cs"
proof -
  have "length xs = length (filter (\<lambda>c. co_type c = RELEASE_STOCK) xs) +
      length (filter (\<lambda>c. co_type c = RESTOCK) xs) + length (filter (\<lambda>c. co_type c = CANCEL_PAYMENT) xs)"
    for xs
  proof (induction xs)
    case (Cons c xs)
    then show ?case by (cases "co_type c") auto
  qed simp
  then show ?thesis by (simp add: n_type_def)
qed

text \<open>A path of order statuses every step of which the order's state machine allows.\<close>

fun legal_path :: "order_status \<Rightarrow> order_status list \<Rightarrow> bool" where
  "legal_path s [] \<longleftrightarrow> True"
| "legal_path s (t # ts) \<longleftrightarrow> order_canTransition s t \<and> legal_path t ts"

lemma log_inv_path:
  assumes "log_inv st cs"
  shows "legal_path PENDING (order_path cs)"
    and "ss_orderStatus st \<notin> {Some RESERVING, Some REJECTED} \<Longrightarrow>
      ss_orderStatus st = Some (last (PENDING # order_path cs))"
proof -
  have "legal_path PENDING (order_path cs) \<and> (ss_orderStatus st \<notin> {Some RESERVING, Some REJECTED} \<longrightarrow>
      ss_orderStatus st = Some (last (PENDING # order_path cs)))"
    using assms
    by (cases "ss_step st"; cases "ss_orderStatus st")
       (auto simp: log_inv_def saga_inv_def commanded_def settled_badly_def Let_def order_can_cases
         split: order_status.splits)
  then show "legal_path PENDING (order_path cs)"
    and "ss_orderStatus st \<notin> {Some RESERVING, Some REJECTED} \<Longrightarrow>
      ss_orderStatus st = Some (last (PENDING # order_path cs))" by blast+
qed

text \<open>Acknowledging compensations drops exactly those from the pending list, in any order.\<close>

lemma drain_pending:
  assumes "ss_pending st \<noteq> []" "ss_step st = S_COMPENSATING"
    and "saga_run tot cur st (map CompensationDone ids) = (st', cs)"
  shows "cs = [] \<and> ss_pending st' = filter (\<lambda>c. co_id c \<notin> set ids) (ss_pending st) \<and>
    ss_step st' = (if ss_pending st' = [] then S_COMPENSATED else S_COMPENSATING) \<and>
    ss_orderStatus st' = ss_orderStatus st"
  using assms
proof (induction ids arbitrary: st cs)
  case Nil
  then show ?case by simp
next
  case (Cons i ids)
  let ?st1 = "fst (onCompensationDone st i)"
  have one: "snd (onCompensationDone st i) = []" "ss_orderStatus ?st1 = ss_orderStatus st"
    "ss_pending ?st1 = filter (\<lambda>c. co_id c \<noteq> i) (ss_pending st)"
    "ss_step ?st1 = (if ss_pending ?st1 = [] then S_COMPENSATED else S_COMPENSATING)"
    using Cons.prems(1,2)
    by (auto simp: onCompensationDone_def noop_def Let_def list_ex_iff filter_empty_conv filter_id_conv)
  obtain cs2 where r: "saga_run tot cur ?st1 (map CompensationDone ids) = (st', cs2)" and cs: "cs = cs2"
    using Cons.prems(3) one(1) by (auto simp: Let_def split: prod.splits)
  show ?case
  proof (cases "ss_pending ?st1 = []")
    case False
    with Cons.IH [of ?st1 cs2] r one cs show ?thesis
      by (auto simp: filter_filter conj_commute)
  next
    case True
    have stays: "saga_run tot cur s (map CompensationDone js) = (s, [])" if "ss_pending s = []" for s js
      using that by (induction js) (auto simp: onCompensationDone_def noop_def)
    from stays [OF True] r have "st' = ?st1" "cs2 = []" by auto
    moreover have "filter (\<lambda>c. co_id c \<notin> set (i # ids)) (ss_pending st) = []"
      using True one(3) by (auto simp: filter_empty_conv)
    ultimately show ?thesis using True one cs by simp
  qed
qed

text \<open>A late-authorization run only ever voids, and never once it has seen the order paid.\<close>

definition late_inv :: "saga_state \<Rightarrow> saga_command list \<Rightarrow> bool" where
  "late_inv st log \<longleftrightarrow> ss_mode st = M_lateAuthorization \<and>
     (case ss_step st of
        S_COMPLETED \<Rightarrow> ss_orderStatus st = Some PAID \<and> log = []
      | S_COMPENSATING \<Rightarrow> ss_orderStatus st \<noteq> Some PAID \<and> (ss_orderStatus st = None \<longrightarrow> log = [])
      | S_COMPENSATED \<Rightarrow> ss_orderStatus st \<noteq> Some PAID \<and> ss_orderStatus st \<noteq> None
      | _ \<Rightarrow> False) \<and>
     (\<forall>c \<in> set log. \<exists>i. c = COMPENSATION \<lparr>co_type = CANCEL_PAYMENT, co_id = i, co_reason = LATE_AUTHORIZATION\<rparr>) \<and>
     (ss_orderStatus st \<in> {None, Some PAID} \<longrightarrow> ss_pending st = [])"

lemma late_inv_initial: "late_inv (initialCheckoutSagaState M_lateAuthorization) []"
  by (simp add: late_inv_def initialCheckoutSagaState_def)

lemma late_inv_step:
  assumes "late_inv st log" and "saga_step tot cur st e = (st', cs)"
  shows "late_inv st' (log @ cs)"
proof (cases "ss_step st")
  case S_COMPENSATING
  with assms show ?thesis
    by (cases e) (auto simp: saga_defs late_inv_def split: if_splits option.splits)
next
  case S_COMPENSATED
  with assms show ?thesis
    by (cases e) (auto simp: saga_defs late_inv_def split: if_splits)
next
  case S_COMPLETED
  with assms show ?thesis
    by (cases e) (auto simp: saga_defs late_inv_def split: if_splits)
qed (use assms in \<open>auto simp: late_inv_def\<close>)

lemma late_run_inv:
  assumes "saga_run tot cur (initialCheckoutSagaState M_lateAuthorization) es = (st, cs)"
  shows "late_inv st cs"
  using saga_run_invariant [where P = late_inv, OF assms late_inv_initial late_inv_step] by simp


section \<open>Properties\<close>

text \<open>
  C8: However the events of a checkout run are ordered or repeated, a settled run has settled one way:
  paid, with exactly one stock commit and one capture and nothing compensated; or rejected, expired
  or cancelled, with one release and no commit or capture; or failed after confirming, with the
  captured attempt's stock put back. Every payment authorized too late is voided once.
\<close>

theorem checkout_settles_one_way:
  assumes "saga_run tot cur (initialCheckoutSagaState M_checkout) es = (st, cs)"
    and "ss_step st \<in> {S_COMPLETED, S_COMPENSATED}"
  shows "ss_orderStatus st = Some PAID \<and> commanded cs 1 1 [CONFIRMING, PAID] 0 0 0 \<or>
    ss_orderStatus st = Some REJECTED \<and> commanded cs 0 0 [] 1 0 (card (set (ss_voided st))) \<or>
    ss_orderStatus st = Some EXPIRED \<and> commanded cs 0 0 [EXPIRED] 1 0 (1 + card (set (ss_voided st))) \<or>
    ss_orderStatus st = Some CANCELLED \<and> commanded cs 0 0 [CANCELLED] 1 0 (1 + card (set (ss_voided st))) \<or>
    ss_orderStatus st = Some FAILED \<and>
      (commanded cs 1 0 [CONFIRMING, FAILED] 0 0 (1 + card (set (ss_voided st))) \<or>
       commanded cs 1 1 [CONFIRMING, FAILED] 0 1 (1 + card (set (ss_voided st))))"
proof -
  have log: "log_inv st cs" using assms(1) by (rule checkout_run_log)
  then have card: "card (set (ss_voided st)) = length (ss_voided st)"
    by (simp add: log_inv_def saga_inv_def distinct_card)
  have agree: "step_agrees (ss_step st) st" "log_agrees (ss_step st) st cs" "ss_mode st = M_checkout"
    using log by (auto simp: log_inv_def saga_inv_def)
  from assms(2) consider "ss_step st = S_COMPLETED" | "ss_step st = S_COMPENSATED" by auto
  then show ?thesis
  proof cases
    case 1
    then show ?thesis using agree by simp
  next
    case 2
    then show ?thesis using agree unfolding card
      by (auto simp: settled_badly_def Let_def)
  qed
qed

theorem checkout_settles_one_way_witness:
  "let a = \<lparr>pa_paymentId = ''p'', pa_amountMinor = 5, pa_currency = ''VND'', pa_authorizedAt = 0\<rparr>;
       st = fst (saga_run 5 ''VND'' (initialCheckoutSagaState M_checkout)
         [TryResult HELD, Authorized a, Deadline, AuthorizationVerified a VERIFIED, CompensationDone 2,
          CompensationDone 1])
   in ss_step st = S_COMPENSATED \<and> ss_orderStatus st = Some EXPIRED"
proof -
  let ?a = "\<lparr>pa_paymentId = ''p'', pa_amountMinor = 5, pa_currency = ''VND'', pa_authorizedAt = 0\<rparr>"
  let ?r = "saga_run 5 ''VND'' (initialCheckoutSagaState M_checkout)
    [TryResult HELD, Authorized ?a, Deadline, AuthorizationVerified ?a VERIFIED, CompensationDone 2,
     CompensationDone 1]"
  have step: "ss_step (fst ?r) = S_COMPENSATED" "ss_orderStatus (fst ?r) = Some EXPIRED"
    by (simp_all add: saga_defs initialCheckoutSagaState_def)
  have "?r = (fst ?r, snd ?r)" by (rule prod.collapse [symmetric])
  from checkout_settles_one_way [OF this] step show ?thesis unfolding Let_def by simp
qed

text \<open>
  No event order makes a checkout run both take the money and undo anything: once a capture has
  been commanded after a stock commit and the order is moved to PAID, no release, restock or void is
  ever commanded.
\<close>

lemma paid_run_never_compensates:
  assumes "saga_run tot cur (initialCheckoutSagaState M_checkout) es = (st, cs)"
    and "PAID \<in> set (order_path cs)"
  shows "compensations cs = [] \<and> ss_step st = S_COMPLETED \<and> count_list cs CAPTURE_PAYMENT = 1"
proof -
  have log: "log_inv st cs" using assms(1) by (rule checkout_run_log)
  then have agree: "step_agrees (ss_step st) st" "log_agrees (ss_step st) st cs" "ss_mode st = M_checkout"
    by (auto simp: log_inv_def saga_inv_def)
  have "ss_step st = S_COMPLETED \<and> n_type RELEASE_STOCK cs = 0 \<and> n_type RESTOCK cs = 0 \<and>
      n_type CANCEL_PAYMENT cs = 0 \<and> count_list cs CAPTURE_PAYMENT = 1"
    using agree assms(2)
    by (cases "ss_step st") (auto simp: commanded_def settled_badly_def Let_def)
  then show ?thesis using n_type_total [of cs] by simp
qed

lemma paid_run_never_compensates_witness:
  "let a = \<lparr>pa_paymentId = ''p'', pa_amountMinor = 5, pa_currency = ''VND'', pa_authorizedAt = 0\<rparr>;
       cs = snd (saga_run 5 ''VND'' (initialCheckoutSagaState M_checkout)
         [TryResult HELD, Authorized a, AuthorizationVerified a VERIFIED, CommitResult Cmd_APPLIED,
          CaptureResult Sc_CAPTURED, CancelRequested buyer, Deadline])
   in PAID \<in> set (order_path cs) \<and> compensations cs = []"
proof -
  let ?a = "\<lparr>pa_paymentId = ''p'', pa_amountMinor = 5, pa_currency = ''VND'', pa_authorizedAt = 0\<rparr>"
  let ?r = "saga_run 5 ''VND'' (initialCheckoutSagaState M_checkout)
    [TryResult HELD, Authorized ?a, AuthorizationVerified ?a VERIFIED, CommitResult Cmd_APPLIED,
     CaptureResult Sc_CAPTURED, CancelRequested buyer, Deadline]"
  have paid: "PAID \<in> set (order_path (snd ?r))"
    by (simp add: saga_defs initialCheckoutSagaState_def)
  have "?r = (fst ?r, snd ?r)" by (rule prod.collapse [symmetric])
  from paid_run_never_compensates [OF this paid] paid show ?thesis unfolding Let_def by simp
qed

text \<open>
  C14: The order moves a checkout run commands, in the order it commands them, are a path of the
  order's state machine starting at PENDING, and the status the saga records is the end of that path
  (unless the Try refused, which the order learns from the Try result and not from a command).
\<close>

theorem saga_moves_order_legally:
  assumes "saga_run tot cur (initialCheckoutSagaState M_checkout) es = (st, cs)"
  shows "legal_path PENDING (order_path cs) \<and>
    (ss_orderStatus st \<notin> {Some RESERVING, Some REJECTED} \<longrightarrow>
       ss_orderStatus st = Some (last (PENDING # order_path cs)))"
  using log_inv_path [OF checkout_run_log [OF assms]] by blast

theorem saga_moves_order_legally_witness:
  "legal_path PENDING (order_path (snd (saga_run 5 ''VND'' (initialCheckoutSagaState M_checkout)
     [TryResult HELD, CancelRequested admin])))"
proof -
  let ?r = "saga_run 5 ''VND'' (initialCheckoutSagaState M_checkout) [TryResult HELD, CancelRequested admin]"
  have "?r = (fst ?r, snd ?r)" by (rule prod.collapse [symmetric])
  from saga_moves_order_legally [OF this]
  have "legal_path PENDING (order_path (snd ?r))" "ss_orderStatus (fst ?r) \<notin> {Some RESERVING, Some REJECTED} \<Longrightarrow>
      ss_orderStatus (fst ?r) = Some (last (PENDING # order_path (snd ?r)))" by blast+
  then show ?thesis by blast
qed

text \<open>
  C15: Compensation ends: from any consistent compensating state, once every pending command has been
  acknowledged, in any order and with repetitions or unknown ids in between, the run is COMPENSATED
  with nothing pending, and acknowledging commands nothing further.
\<close>

theorem compensation_drains:
  assumes "saga_inv st" and "ss_pending st \<noteq> []"
    and "set (map co_id (ss_pending st)) \<subseteq> set ids"
  shows "saga_run tot cur st (map CompensationDone ids) =
    (st\<lparr>ss_pending := [], ss_step := S_COMPENSATED\<rparr>, [])"
proof -
  have step: "ss_step st = S_COMPENSATING" using assms(1,2) by (rule pending_steps)
  have keep: "(fst (saga_run tot cur s (map CompensationDone js)))\<lparr>ss_pending := [], ss_step := S_COMPENSATED\<rparr> =
      s\<lparr>ss_pending := [], ss_step := S_COMPENSATED\<rparr>" for s js
  proof (induction js arbitrary: s)
    case (Cons j js)
    have "(fst (onCompensationDone s j))\<lparr>ss_pending := [], ss_step := S_COMPENSATED\<rparr> =
        s\<lparr>ss_pending := [], ss_step := S_COMPENSATED\<rparr>"
      by (auto simp: onCompensationDone_def noop_def Let_def)
    with Cons [of "fst (onCompensationDone s j)"] show ?case by (auto simp: Let_def split: prod.splits)
  qed simp
  obtain st' cs where r: "saga_run tot cur st (map CompensationDone ids) = (st', cs)" by fastforce
  note d = drain_pending [OF assms(2) step r]
  have "filter (\<lambda>c. co_id c \<notin> set ids) (ss_pending st) = []"
    using assms(3) by (auto simp: filter_empty_conv)
  with d have "cs = []" "ss_pending st' = []" "ss_step st' = S_COMPENSATED" by auto
  then have "st' = st'\<lparr>ss_pending := [], ss_step := S_COMPENSATED\<rparr>" by simp
  with keep [of st ids] r \<open>cs = []\<close> show ?thesis by simp
qed

theorem compensation_drains_witness:
  "let st = fst (saga_run 5 ''VND'' (initialCheckoutSagaState M_checkout) [TryResult HELD, Deadline])
   in ss_pending st \<noteq> [] \<and> ss_step (fst (saga_run 5 ''VND'' st (map CompensationDone [2, 7, 1]))) = S_COMPENSATED"
proof -
  let ?r = "saga_run 5 ''VND'' (initialCheckoutSagaState M_checkout) [TryResult HELD, Deadline]"
  have inv: "saga_inv (fst ?r)"
    by (rule saga_run_inv [OF prod.collapse [symmetric] saga_inv_initial])
  have p: "ss_pending (fst ?r) = [\<lparr>co_type = RELEASE_STOCK, co_id = 1, co_reason = CR_EXPIRED\<rparr>,
      \<lparr>co_type = CANCEL_PAYMENT, co_id = 2, co_reason = CR_EXPIRED\<rparr>]"
    by (simp add: saga_defs initialCheckoutSagaState_def)
  then have ne: "ss_pending (fst ?r) \<noteq> []" and sub: "set (map co_id (ss_pending (fst ?r))) \<subseteq> set [2, 7, 1]"
    by auto
  show ?thesis unfolding Let_def compensation_drains [OF inv ne sub] using ne by simp
qed

text \<open>
  C16: A late-authorization run can only void payments: it commands no stock commit, capture, release,
  restock or order move whatever events reach it, and once it has read that the order was paid it has
  commanded nothing and commands nothing.
\<close>

theorem late_run_only_voids:
  assumes "saga_run tot cur (initialCheckoutSagaState M_lateAuthorization) es = (st, cs)"
  shows "order_path cs = [] \<and> (\<forall>c \<in> set cs. \<exists>i. c = COMPENSATION
      \<lparr>co_type = CANCEL_PAYMENT, co_id = i, co_reason = LATE_AUTHORIZATION\<rparr>) \<and>
    (ss_orderStatus st = Some PAID \<longrightarrow> cs = [])"
proof -
  have inv: "late_inv st cs" using assms by (rule late_run_inv)
  then have all: "\<forall>c \<in> set cs. \<exists>i. c = COMPENSATION
      \<lparr>co_type = CANCEL_PAYMENT, co_id = i, co_reason = LATE_AUTHORIZATION\<rparr>"
    by (simp add: late_inv_def)
  have "order_path xs = []" if "\<forall>c \<in> set xs. \<exists>i. c = COMPENSATION
      \<lparr>co_type = CANCEL_PAYMENT, co_id = i, co_reason = LATE_AUTHORIZATION\<rparr>" for xs
    using that by (induction xs) auto
  moreover have "ss_orderStatus st = Some PAID \<longrightarrow> cs = []"
    using inv by (auto simp: late_inv_def split: checkout_step.splits)
  ultimately show ?thesis using all by blast
qed

theorem late_run_only_voids_witness:
  "let r = saga_run 5 ''VND'' (initialCheckoutSagaState M_lateAuthorization)
     [TryResult HELD, LateContext (Some PAID), CancelRequested buyer]
   in ss_orderStatus (fst r) = Some PAID \<and> snd r = []"
proof -
  let ?r = "saga_run 5 ''VND'' (initialCheckoutSagaState M_lateAuthorization)
    [TryResult HELD, LateContext (Some PAID), CancelRequested buyer]"
  have paid: "ss_orderStatus (fst ?r) = Some PAID"
    by (simp add: saga_defs initialCheckoutSagaState_def)
  with late_run_only_voids [OF prod.collapse [symmetric], of 5 "''VND''"
      "[TryResult HELD, LateContext (Some PAID), CancelRequested buyer]"]
  show ?thesis unfolding Let_def by blast
qed

end
