(* ===== verification/Order_Store.thy ===== *)
theory Order_Store
  imports Order_Domain "HOL-Library.Multiset"
begin

text \<open>
  The order-service's tables and repositories
  (\<^verbatim>\<open>apps/order-service/src/modules/order/infrastructure\<close>: \<^verbatim>\<open>schema/order.schema.ts\<close>,
  \<^verbatim>\<open>schema/idempotency-key.schema.ts\<close>, \<^verbatim>\<open>drizzle-order.repository.ts\<close>,
  \<^verbatim>\<open>drizzle-idempotency-key.repository.ts\<close>) with the view frozen into an idempotency key. A table is the
  list of its rows; a method's transaction is one atomic operation, undone when it throws. The minted
  ids come as a parameter, \<open>None\<close> when the id service does not answer; \<open>od_clock\<close> is \<open>new Date()\<close>.
\<close>


section \<open>Views\<close>

record order_item_view =
  iv_skuId :: string
  iv_productName :: string
  iv_unitPriceMinor :: int
  iv_quantity :: int
  iv_lineTotalMinor :: int

record order_view =
  ov_id :: string
  ov_status :: order_status
  ov_currency :: string
  ov_totalAmountMinor :: int
  ov_placedAt :: "int option"
  ov_finalizeReason :: "string option"
  ov_items :: "order_item_view list"

definition item_view :: "string \<Rightarrow> order_item \<Rightarrow> order_item_view checked" where
  "item_view cur i = ebind (lineTotal i cur) (\<lambda>m.
     Inr \<lparr>iv_skuId = oi_skuId i, iv_productName = oi_productName i, iv_unitPriceMinor = oi_unitPriceMinor i,
          iv_quantity = oi_quantity i, iv_lineTotalMinor = amountMinor m\<rparr>)"

definition order_toView :: "order \<Rightarrow> order_view checked" where
  "order_toView ord =
     ebind (order_total ord) (\<lambda>total.
     ebind (traverse (item_view (ord_currency ord)) (ord_items ord)) (\<lambda>items.
       Inr \<lparr>ov_id = the (ord_id ord), ov_status = ord_status ord, ov_currency = ord_currency ord,
            ov_totalAmountMinor = amountMinor total, ov_placedAt = ord_placedAt ord,
            ov_finalizeReason = ord_finalizeReason ord, ov_items = items\<rparr>))"


section \<open>Tables\<close>

record order_row =
  or_id :: string
  or_userId :: string
  or_status :: order_status
  or_currency :: string
  or_totalAmount :: int
  or_idempotencyKey :: "string option"
  or_placedAt :: "int option"
  or_finalizedAt :: "int option"
  or_finalizeReason :: "string option"
  or_paymentRef :: "string option"
  or_paymentDeadlineAt :: "int option"
  or_createdAt :: int

record item_row =
  ir_id :: string
  ir_orderId :: string
  ir_skuId :: string
  ir_productName :: string
  ir_unitPrice :: int
  ir_quantity :: int
  ir_createdAt :: int

datatype idempotency_status = IN_PROGRESS | COMPLETED

record idempotency_row =
  ik_id :: string
  ik_scope :: string
  ik_key :: string
  ik_requestHash :: string
  ik_status :: idempotency_status
  ik_responseStatus :: "int option"
  ik_responseBody :: "order_view option"
  ik_orderId :: "string option"
  ik_method :: string
  ik_path :: string
  ik_expiresAt :: int
  ik_createdAt :: int

record order_db =
  od_orders :: "order_row list"
  od_items :: "item_row list"
  od_keys :: "idempotency_row list"
  od_outbox :: "(string \<times> outbox_record) list"
  od_clock :: int

datatype store_error =
    StOrder order_error
  | TooManyPendingOrders nat
  | StMint
  | StDuplicateKey
  | StUnsaved

type_synonym 'a order_act = "(order_db, store_error, 'a) act"

definition st_lift :: "'a order_result \<Rightarrow> store_error + 'a" where
  "st_lift r = map_sum StOrder id r"

lemma st_lift_Inr [result_simps]: "st_lift r = Inr a \<longleftrightarrow> r = Inr a"
  by (cases r) (auto simp: st_lift_def)


section \<open>Rehydration\<close>

definition item_of_row :: "item_row \<Rightarrow> order_item checked" where
  "item_of_row i = orderItem_of (ir_skuId i) (ir_productName i) (JInt (ir_unitPrice i)) (JInt (ir_quantity i))"

definition itemRowsOf :: "string \<Rightarrow> order_db \<Rightarrow> item_row list" where
  "itemRowsOf orderId db =
     sort_key ir_createdAt (sort_key (\<lambda>i. nat_of_dec (ir_id i)) (filter (\<lambda>i. ir_orderId i = orderId) (od_items db)))"

definition toDomainOrder :: "order_row \<Rightarrow> item_row list \<Rightarrow> order order_result" where
  "toDomainOrder row items =
     ebind (lift_domain (traverse item_of_row items)) (\<lambda>is.
       Inr \<lparr>ord_id = Some (or_id row), ord_userId = or_userId row, ord_status = or_status row,
            ord_currency = or_currency row, ord_items = is, ord_totalAmountMinor = or_totalAmount row,
            ord_placedAt = or_placedAt row, ord_finalizedAt = or_finalizedAt row,
            ord_finalizeReason = or_finalizeReason row, ord_paymentRef = or_paymentRef row,
            ord_paymentDeadlineAt = or_paymentDeadlineAt row\<rparr>)"

definition withId :: "order \<Rightarrow> string \<Rightarrow> order" where
  "withId ord i = ord\<lparr>ord_id := Some i\<rparr>"

definition IN_FLIGHT_STATUSES :: "order_status list" where
  "IN_FLIGHT_STATUSES = [RESERVING, PENDING, CONFIRMING]"

definition HIDDEN_FROM_BUYER :: "order_status list" where
  "HIDDEN_FROM_BUYER = [RESERVING, REJECTED]"

definition visibleToBuyer :: "string \<Rightarrow> order_row \<Rightarrow> bool" where
  "visibleToBuyer userId r \<longleftrightarrow> or_userId r = userId \<and> or_status r \<notin> set HIDDEN_FROM_BUYER"

definition in_flight :: "string \<Rightarrow> order_row \<Rightarrow> bool" where
  "in_flight userId r \<longleftrightarrow> or_userId r = userId \<and> or_status r \<in> set IN_FLIGHT_STATUSES"


section \<open>Writes\<close>

definition userIdempotencyScope :: "string \<Rightarrow> string" where
  "userIdempotencyScope userId = ''user:'' @ userId"

definition markCompleted ::
    "string \<Rightarrow> string \<Rightarrow> int \<Rightarrow> order_view \<Rightarrow> string option \<Rightarrow> order_db \<Rightarrow> order_db" where
  "markCompleted scope key responseStatus body orderId db =
     db\<lparr>od_keys := update_where (\<lambda>k. ik_scope k = scope \<and> ik_key k = key)
          (\<lambda>k. k\<lparr>ik_status := COMPLETED, ik_responseStatus := Some responseStatus,
                 ik_responseBody := Some body, ik_orderId := orderId\<rparr>) (od_keys db)\<rparr>"

definition insert_order :: "order_row \<Rightarrow> order_db \<Rightarrow> store_error + order_db" where
  "insert_order row db =
     (if list_ex (\<lambda>r. or_id r = or_id row \<or>
            (or_userId r = or_userId row \<and> or_idempotencyKey row \<noteq> None \<and>
             or_idempotencyKey r = or_idempotencyKey row)) (od_orders db)
      then Inl StDuplicateKey
      else Inr (db\<lparr>od_orders := od_orders db @ [row]\<rparr>))"

definition insert_items :: "item_row list \<Rightarrow> order_db \<Rightarrow> store_error + order_db" where
  "insert_items rows db =
     (if \<not> distinct (map ir_id (od_items db @ rows)) then Inl StDuplicateKey
      else Inr (db\<lparr>od_items := od_items db @ rows\<rparr>))"

definition new_order_row :: "order \<Rightarrow> string \<Rightarrow> string option \<Rightarrow> int \<Rightarrow> order_row" where
  "new_order_row ord orderId key now =
     \<lparr>or_id = orderId, or_userId = ord_userId ord, or_status = ord_status ord,
      or_currency = ord_currency ord, or_totalAmount = ord_totalAmountMinor ord, or_idempotencyKey = key,
      or_placedAt = ord_placedAt ord, or_finalizedAt = None, or_finalizeReason = None,
      or_paymentRef = None, or_paymentDeadlineAt = ord_paymentDeadlineAt ord, or_createdAt = now\<rparr>"

definition new_item_rows :: "order \<Rightarrow> string \<Rightarrow> string list \<Rightarrow> int \<Rightarrow> item_row list" where
  "new_item_rows ord orderId itemIds now =
     map (\<lambda>(i, item). \<lparr>ir_id = i, ir_orderId = orderId, ir_skuId = oi_skuId item,
            ir_productName = oi_productName item, ir_unitPrice = oi_unitPriceMinor item,
            ir_quantity = oi_quantity item, ir_createdAt = now\<rparr>) (zip itemIds (ord_items ord))"

text \<open>The minted ids, one for the order and one per line, are taken before the transaction.\<close>

definition createReserving ::
    "string list option \<Rightarrow> order \<Rightarrow> string option \<Rightarrow> (bool \<times> order) order_act" where
  "createReserving minted ord idempotencyKey =
     (case minted of
        Some (orderId # itemIds) \<Rightarrow> in_tx (
          act_bind (act_get (\<lambda>db. case idempotencyKey of
              Some (c # cs) \<Rightarrow> find_where (\<lambda>r. or_idempotencyKey r = Some (c # cs) \<and> or_userId r = ord_userId ord) (od_orders db)
            | _ \<Rightarrow> None)) (\<lambda>existing.
          case existing of
            Some row \<Rightarrow>
              act_bind (act_get (itemRowsOf (or_id row))) (\<lambda>items.
              act_bind (act_lift (st_lift (toDomainOrder row items))) (\<lambda>found. act_return (False, found)))
          | None \<Rightarrow>
              act_bind (act_get (\<lambda>db. count_where (in_flight (ord_userId ord)) (od_orders db))) (\<lambda>inFlight.
              if MAX_PENDING_ORDERS_PER_USER \<le> inFlight then act_throw (TooManyPendingOrders inFlight)
              else
                act_bind (act_get od_clock) (\<lambda>now.
                act_bind (act_try (insert_order (new_order_row ord orderId idempotencyKey now))) (\<lambda>_.
                act_bind (act_try (insert_items (new_item_rows ord orderId itemIds now))) (\<lambda>_.
                  act_return (True, withId ord orderId)))))))
      | _ \<Rightarrow> act_throw StMint)"

definition lockOrder :: "string \<Rightarrow> (order \<times> string option) option order_act" where
  "lockOrder orderId =
     act_bind (act_get (\<lambda>db. find_where (\<lambda>r. or_id r = orderId) (od_orders db))) (\<lambda>found.
       case found of
         None \<Rightarrow> act_return None
       | Some row \<Rightarrow>
           act_bind (act_get (itemRowsOf orderId)) (\<lambda>items.
           act_bind (act_lift (st_lift (toDomainOrder row items))) (\<lambda>ord.
             act_return (Some (ord, or_idempotencyKey row)))))"

definition update_order :: "string \<Rightarrow> (order_row \<Rightarrow> order_row) \<Rightarrow> order_db \<Rightarrow> order_db" where
  "update_order orderId f db = db\<lparr>od_orders := update_where (\<lambda>r. or_id r = orderId) f (od_orders db)\<rparr>"

definition writeStatusChange :: "order \<Rightarrow> unit order_act" where
  "writeStatusChange ord =
     (case ord_id ord of
        None \<Rightarrow> act_throw StUnsaved
      | Some i \<Rightarrow> act_modify (update_order i (\<lambda>r. r\<lparr>or_status := ord_status ord,
          or_finalizedAt := ord_finalizedAt ord, or_finalizeReason := ord_finalizeReason ord,
          or_paymentRef := ord_paymentRef ord\<rparr>)))"

definition append_outbox :: "string \<Rightarrow> outbox_record \<Rightarrow> order_db \<Rightarrow> order_db" where
  "append_outbox i rec db = db\<lparr>od_outbox := od_outbox db @ [(i, rec)]\<rparr>"

datatype saga_write = Sw_applied | Sw_already | Sw_stale

text \<open>\<open>held\<close>, or the reason of an outcome that is not HELD.\<close>

datatype try_result_input = Try_held string | Try_refused string string

definition applyTryResult :: "string option \<Rightarrow> try_result_input \<Rightarrow> saga_write order_act" where
  "applyTryResult minted inp =
     (case inp of
        Try_refused orderId reason \<Rightarrow> in_tx (
          act_bind (lockOrder orderId) (\<lambda>locked.
          case locked of
            None \<Rightarrow> act_return Sw_stale
          | Some (ord, key) \<Rightarrow>
              if ord_status ord = REJECTED then act_return Sw_already
              else if ord_status ord \<noteq> RESERVING then act_return Sw_stale
              else
                act_bind (act_get od_clock) (\<lambda>now.
                act_bind (act_lift (st_lift (order_reject ord reason now))) (\<lambda>rejected.
                act_bind (act_modify (update_order orderId (\<lambda>r. r\<lparr>or_status := ord_status rejected,
                  or_finalizedAt := ord_finalizedAt rejected, or_finalizeReason := ord_finalizeReason rejected,
                  or_idempotencyKey := None\<rparr>))) (\<lambda>_. act_return Sw_applied)))))
      | Try_held orderId \<Rightarrow>
          (case minted of
             None \<Rightarrow> act_throw StMint
           | Some outboxId \<Rightarrow> in_tx (
               act_bind (lockOrder orderId) (\<lambda>locked.
               case locked of
                 None \<Rightarrow> act_return Sw_stale
               | Some (ord, key) \<Rightarrow>
                   if ord_status ord = PENDING then act_return Sw_already
                   else if ord_status ord \<noteq> RESERVING then act_return Sw_stale
                   else
                     act_bind (act_lift (st_lift (order_confirmPlaced ord))) (\<lambda>placed.
                     act_bind (act_modify (update_order orderId (\<lambda>r. r\<lparr>or_status := ord_status placed\<rparr>))) (\<lambda>_.
                     act_bind (act_lift (st_lift (toPlacedEvent placed))) (\<lambda>ev.
                     act_bind (act_modify (append_outbox outboxId (toPlacedOutboxRecord ev))) (\<lambda>_.
                     act_bind
                       (case key of
                          None \<Rightarrow> act_return ()
                        | Some k \<Rightarrow>
                            act_bind (act_lift (st_lift (lift_domain (order_toView placed)))) (\<lambda>view.
                            act_modify (markCompleted (userIdempotencyScope (ord_userId placed)) k 201 view
                              (Some orderId)))) (\<lambda>_. act_return Sw_applied)))))))))"

definition moveForSaga :: "order \<Rightarrow> order_status \<Rightarrow> int \<Rightarrow> string option \<Rightarrow> string option \<Rightarrow> order order_result" where
  "moveForSaga ord st now reason paymentRef =
     (if st = CONFIRMING then order_beginConfirming ord
      else if st \<in> {PAID, FAILED, EXPIRED, CANCELLED} then order_finalize ord st now reason paymentRef
      else Inl (OPlain ''A saga order change cannot target this status''))"

record order_change_input =
  ci_orderId :: string
  ci_from :: "order_status list"
  ci_to :: order_status
  ci_reason :: "string option"
  ci_paymentRef :: "string option"

definition applyOrderChange :: "string option \<Rightarrow> order_change_input \<Rightarrow> saga_write order_act" where
  "applyOrderChange minted inp =
     (let emitsEvent = (ci_to inp \<noteq> CONFIRMING) in
      if emitsEvent \<and> minted = None then act_throw StMint
      else in_tx (
        act_bind (lockOrder (ci_orderId inp)) (\<lambda>locked.
        case locked of
          None \<Rightarrow> act_return Sw_stale
        | Some (ord, _) \<Rightarrow>
            if ord_status ord = ci_to inp then act_return Sw_already
            else if ord_status ord \<notin> set (ci_from inp) then act_return Sw_stale
            else
              act_bind (act_get od_clock) (\<lambda>now.
              act_bind (act_lift (st_lift (moveForSaga ord (ci_to inp) now (ci_reason inp) (ci_paymentRef inp)))) (\<lambda>changed.
              act_bind (writeStatusChange changed) (\<lambda>_.
              act_bind
                (if emitsEvent
                 then act_bind (act_lift (st_lift (toFinalizedEvent changed))) (\<lambda>ev.
                      act_modify (append_outbox (the minted) (toFinalizedOutboxRecord ev)))
                 else act_return ()) (\<lambda>_. act_return Sw_applied)))))))"

section \<open>Reads and the sweep\<close>

definition withItems :: "order_db \<Rightarrow> order_row list \<Rightarrow> order list order_result" where
  "withItems db rows = traverse (\<lambda>r. toDomainOrder r (itemRowsOf (or_id r) db)) rows"

definition read_order :: "(order_row \<Rightarrow> bool) \<Rightarrow> order_db \<Rightarrow> order option order_result" where
  "read_order p db =
     (case find_where p (od_orders db) of
        None \<Rightarrow> Inr None
      | Some row \<Rightarrow> ebind (toDomainOrder row (itemRowsOf (or_id row) db)) (\<lambda>ord. Inr (Some ord)))"

definition findForUser :: "string \<Rightarrow> string \<Rightarrow> order_db \<Rightarrow> order option order_result" where
  "findForUser orderId userId = read_order (\<lambda>r. or_id r = orderId \<and> visibleToBuyer userId r)"

definition order_findById :: "string \<Rightarrow> order_db \<Rightarrow> order option order_result" where
  "order_findById orderId = read_order (\<lambda>r. or_id r = orderId)"

text \<open>ORDER BY \<open>created_at\<close> DESC, \<open>id\<close> DESC: both keys negated under a stable sort.\<close>

definition newest_first :: "order_row list \<Rightarrow> order_row list" where
  "newest_first rs = sort_key (\<lambda>r. - or_createdAt r) (sort_key (\<lambda>r. - int (nat_of_dec (or_id r))) rs)"

definition page_rows :: "(order_row \<Rightarrow> bool) \<Rightarrow> nat \<Rightarrow> nat \<Rightarrow> order_db \<Rightarrow> order_row list" where
  "page_rows p page pageSize db =
     take pageSize (drop ((page - 1) * pageSize) (newest_first (filter p (od_orders db))))"

definition readPage ::
    "(order_row \<Rightarrow> bool) \<Rightarrow> nat \<Rightarrow> nat \<Rightarrow> order_db \<Rightarrow> (order list \<times> nat) order_result" where
  "readPage p page pageSize db =
     ebind (withItems db (page_rows p page pageSize db)) (\<lambda>items. Inr (items, count_where p (od_orders db)))"

definition findPageForUser :: "string \<Rightarrow> nat \<Rightarrow> nat \<Rightarrow> order_db \<Rightarrow> (order list \<times> nat) order_result" where
  "findPageForUser userId = readPage (visibleToBuyer userId)"

definition findPage ::
    "order_status option \<Rightarrow> string option \<Rightarrow> nat \<Rightarrow> nat \<Rightarrow> order_db \<Rightarrow> (order list \<times> nat) order_result" where
  "findPage st userId =
     readPage (\<lambda>r. (case st of None \<Rightarrow> True | Some s \<Rightarrow> or_status r = s) \<and>
                   (case userId of None \<Rightarrow> True | Some u \<Rightarrow> or_userId r = u))"

definition findReservingOlderThan :: "int \<Rightarrow> nat \<Rightarrow> order_db \<Rightarrow> order list order_result" where
  "findReservingOlderThan cutoff limit db =
     withItems db (take limit (sort_key (\<lambda>r. the (or_placedAt r)) (sort_key (\<lambda>r. nat_of_dec (or_id r))
       (filter (\<lambda>r. or_status r = RESERVING \<and> (case or_placedAt r of None \<Rightarrow> False | Some t \<Rightarrow> t < cutoff))
         (od_orders db)))))"

record settled_order =
  so_id :: string
  so_status :: order_status
  so_finalizedAt :: int

text \<open>
  Stamps are milliseconds here, so \<open>date_trunc\<close> changes nothing. Rows in (stamp, id) order after the
  cursor, if there is one.
\<close>

definition settled_key :: "settled_order \<Rightarrow> int \<times> nat" where
  "settled_key s = (so_finalizedAt s, nat_of_dec (so_id s))"

definition key_less :: "int \<times> nat \<Rightarrow> int \<times> nat \<Rightarrow> bool" where
  "key_less a b \<longleftrightarrow> fst a < fst b \<or> fst a = fst b \<and> snd a < snd b"

definition settled_row :: "order_row \<Rightarrow> settled_order" where
  "settled_row r = \<lparr>so_id = or_id r, so_status = or_status r, so_finalizedAt = the (or_finalizedAt r)\<rparr>"

definition settled_window :: "int option \<Rightarrow> int \<Rightarrow> order_db \<Rightarrow> settled_order list" where
  "settled_window from_t to_t db =
     map settled_row (filter (\<lambda>r. or_status r \<in> set TERMINAL_SAGA_STATUSES \<and> or_paymentDeadlineAt r \<noteq> None \<and>
       (case or_finalizedAt r of
          None \<Rightarrow> False
        | Some t \<Rightarrow> (case from_t of None \<Rightarrow> True | Some f \<Rightarrow> f \<le> t) \<and> t \<le> to_t)) (od_orders db))"

definition settled_sorted :: "settled_order list \<Rightarrow> settled_order list" where
  "settled_sorted ss = sort_key so_finalizedAt (sort_key (\<lambda>s. nat_of_dec (so_id s)) ss)"

definition findTerminalSagaOrdersInWindow ::
    "int option \<Rightarrow> int \<Rightarrow> (int \<times> nat) option \<Rightarrow> nat \<Rightarrow> order_db \<Rightarrow> settled_order list" where
  "findTerminalSagaOrdersInWindow from_t to_t after limit db =
     take limit (settled_sorted (filter (\<lambda>s. case after of None \<Rightarrow> True | Some k \<Rightarrow> key_less k (settled_key s))
       (settled_window from_t to_t db)))"

definition deleteRejectedBefore :: "int \<Rightarrow> nat \<Rightarrow> order_db \<Rightarrow> nat \<times> order_db" where
  "deleteRejectedBefore cutoff limit db =
     (let doomed = map or_id (take limit (filter (\<lambda>r. or_status r = REJECTED \<and>
            (case or_finalizedAt r of None \<Rightarrow> False | Some t \<Rightarrow> t < cutoff)) (od_orders db)))
      in (length (filter (\<lambda>r. or_id r \<in> set doomed) (od_orders db)),
          db\<lparr>od_orders := filter (\<lambda>r. or_id r \<notin> set doomed) (od_orders db),
             od_items := filter (\<lambda>i. ir_orderId i \<notin> set doomed) (od_items db)\<rparr>))"


section \<open>Idempotency keys\<close>

record idempotency_claim =
  cl_scope :: string
  cl_key :: string
  cl_requestHash :: string
  cl_method :: string
  cl_path :: string
  cl_expiresAt :: int

definition same_key :: "string \<Rightarrow> string \<Rightarrow> idempotency_row \<Rightarrow> bool" where
  "same_key scope key k \<longleftrightarrow> ik_scope k = scope \<and> ik_key k = key"

definition tryInsertInProgress ::
    "string option \<Rightarrow> idempotency_claim \<Rightarrow> idempotency_row option order_act" where
  "tryInsertInProgress minted c =
     (case minted of
        None \<Rightarrow> act_throw StMint
      | Some i \<Rightarrow> (\<lambda>db.
          if list_ex (same_key (cl_scope c) (cl_key c)) (od_keys db) then (Inr None, db)
          else if list_ex (\<lambda>k. ik_id k = i) (od_keys db) then (Inl StDuplicateKey, db)
          else let row = \<lparr>ik_id = i, ik_scope = cl_scope c, ik_key = cl_key c,
                 ik_requestHash = cl_requestHash c, ik_status = IN_PROGRESS, ik_responseStatus = None,
                 ik_responseBody = None, ik_orderId = None, ik_method = cl_method c, ik_path = cl_path c,
                 ik_expiresAt = cl_expiresAt c, ik_createdAt = od_clock db\<rparr>
               in (Inr (Some row), db\<lparr>od_keys := od_keys db @ [row]\<rparr>)))"

definition findByScopeAndKey :: "string \<Rightarrow> string \<Rightarrow> order_db \<Rightarrow> idempotency_row option" where
  "findByScopeAndKey scope key db = find_where (same_key scope key) (od_keys db)"

definition deleteInProgress :: "string \<Rightarrow> order_db \<Rightarrow> order_db" where
  "deleteInProgress claimId db =
     db\<lparr>od_keys := filter (\<lambda>k. \<not> (ik_id k = claimId \<and> ik_status k = IN_PROGRESS)) (od_keys db)\<rparr>"

definition deleteExpiredInProgress :: "string \<Rightarrow> string \<Rightarrow> int \<Rightarrow> order_db \<Rightarrow> nat \<times> order_db" where
  "deleteExpiredInProgress scope key cutoff db =
     (let gone = (\<lambda>k. same_key scope key k \<and> ik_status k = IN_PROGRESS \<and> ik_createdAt k < cutoff)
      in (count_where gone (od_keys db), db\<lparr>od_keys := filter (\<lambda>k. \<not> gone k) (od_keys db)\<rparr>))"

definition deleteExpiredKeys :: "int \<Rightarrow> nat \<Rightarrow> order_db \<Rightarrow> nat \<times> order_db" where
  "deleteExpiredKeys now limit db =
     (let doomed = map ik_id (take limit (filter (\<lambda>k. ik_expiresAt k < now) (od_keys db)))
      in (count_where (\<lambda>k. ik_id k \<in> set doomed) (od_keys db),
          db\<lparr>od_keys := filter (\<lambda>k. ik_id k \<notin> set doomed) (od_keys db)\<rparr>))"

section \<open>What the store keeps\<close>

text \<open>How many of an order's events its status says were written.\<close>

fun placed_mark :: "order_status \<Rightarrow> nat" where
  "placed_mark DRAFT = 0"
| "placed_mark RESERVING = 0"
| "placed_mark REJECTED = 0"
| "placed_mark _ = 1"

fun final_mark :: "order_status \<Rightarrow> nat" where
  "final_mark PAID = 1"
| "final_mark FAILED = 1"
| "final_mark EXPIRED = 1"
| "final_mark CANCELLED = 1"
| "final_mark _ = 0"

definition placed_events :: "string \<Rightarrow> (string \<times> outbox_record) list \<Rightarrow> nat" where
  "placed_events o1 out = count_where (\<lambda>e. ob_aggregateId (snd e) = o1 \<and> ob_eventType (snd e) = ''order.placed'') out"

definition final_events :: "string \<Rightarrow> (string \<times> outbox_record) list \<Rightarrow> nat" where
  "final_events o1 out = count_where (\<lambda>e. ob_aggregateId (snd e) = o1 \<and> ob_eventType (snd e) \<noteq> ''order.placed'') out"

definition order_row_ok :: "order_db \<Rightarrow> order_row \<Rightarrow> bool" where
  "order_row_ok db r \<longleftrightarrow>
     placed_events (or_id r) (od_outbox db) = placed_mark (or_status r) \<and>
     final_events (or_id r) (od_outbox db) = final_mark (or_status r) \<and>
     or_status r \<noteq> DRAFT \<and> or_placedAt r \<noteq> None \<and>
     (order_isTerminal (or_status r) \<longleftrightarrow> or_finalizedAt r \<noteq> None)"

definition one_per_key :: "order_row list \<Rightarrow> bool" where
  "one_per_key rs \<longleftrightarrow> (\<forall>r \<in> set rs. \<forall>q \<in> set rs. or_userId r = or_userId q \<longrightarrow> or_idempotencyKey r \<noteq> None \<longrightarrow>
     or_idempotencyKey r = or_idempotencyKey q \<longrightarrow> r = q)"

definition orders_ok :: "order_db \<Rightarrow> bool" where
  "orders_ok db \<longleftrightarrow>
     distinct (map or_id (od_orders db)) \<and> one_per_key (od_orders db) \<and>
     (\<forall>u. count_where (in_flight u) (od_orders db) \<le> MAX_PENDING_ORDERS_PER_USER) \<and>
     (\<forall>r \<in> set (od_orders db). order_row_ok db r) \<and>
     (\<forall>e \<in> set (od_outbox db). \<exists>r \<in> set (od_orders db). or_id r = ob_aggregateId (snd e))"

text \<open>How a stored order may change: its status along the machine, its settlement, its key cleared.\<close>

definition order_moved :: "order_row \<Rightarrow> order_row \<Rightarrow> bool" where
  "order_moved r q \<longleftrightarrow>
     or_id q = or_id r \<and> or_userId q = or_userId r \<and> or_currency q = or_currency r \<and>
     or_totalAmount q = or_totalAmount r \<and> or_placedAt q = or_placedAt r \<and>
     or_paymentDeadlineAt q = or_paymentDeadlineAt r \<and> or_createdAt q = or_createdAt r \<and>
     order_canTransition\<^sup>*\<^sup>* (or_status r) (or_status q) \<and>
     (or_idempotencyKey q = or_idempotencyKey r \<or> or_status q = REJECTED \<and> or_idempotencyKey q = None)"

definition orders_grow :: "order_db \<Rightarrow> order_db \<Rightarrow> bool" where
  "orders_grow db db' \<longleftrightarrow>
     (\<forall>r \<in> set (od_orders db). (\<exists>q \<in> set (od_orders db'). order_moved r q) \<or>
        order_canTransition\<^sup>*\<^sup>* (or_status r) REJECTED) \<and>
     (\<exists>new. od_outbox db' = od_outbox db @ new)"

definition orders_evolve :: "order_db \<Rightarrow> order_db \<Rightarrow> bool" where
  "orders_evolve db db' \<longleftrightarrow> (orders_ok db \<longrightarrow> orders_ok db' \<and> orders_grow db db')"

lemma order_moved_refl [simp]: "order_moved r r"
  by (simp add: order_moved_def)

lemma order_moved_trans:
  assumes "order_moved r q" "order_moved q s"
  shows "order_moved r s"
proof -
  have "or_status q = REJECTED \<Longrightarrow> or_status s = REJECTED"
    using assms(2) order_machine.terminal_final
    by (auto simp: order_moved_def order_isTerminal_def)
  with assms show ?thesis unfolding order_moved_def by (auto intro: rtranclp_trans)
qed

lemma orders_grow_trans:
  assumes 1: "orders_grow a b" and 2: "orders_grow b c"
  shows "orders_grow a c"
  unfolding orders_grow_def
proof (intro conjI ballI)
  fix r assume "r \<in> set (od_orders a)"
  then consider (kept) q where "q \<in> set (od_orders b)" "order_moved r q"
    | (gone) "order_canTransition\<^sup>*\<^sup>* (or_status r) REJECTED"
    using 1 unfolding orders_grow_def by blast
  then show "(\<exists>q \<in> set (od_orders c). order_moved r q) \<or> order_canTransition\<^sup>*\<^sup>* (or_status r) REJECTED"
  proof cases
    case kept
    then consider s where "s \<in> set (od_orders c)" "order_moved q s" | "order_canTransition\<^sup>*\<^sup>* (or_status q) REJECTED"
      using 2 unfolding orders_grow_def by blast
    then show ?thesis
    proof cases
      case 1
      then show ?thesis using kept order_moved_trans by blast
    next
      case 2
      then show ?thesis using kept by (auto simp: order_moved_def intro: rtranclp_trans)
    qed
  qed simp
next
  show "\<exists>new. od_outbox c = od_outbox a @ new" using 1 2 unfolding orders_grow_def by force
qed

lemma orders_evolve_trans [trans]: "orders_evolve a b \<Longrightarrow> orders_evolve b c \<Longrightarrow> orders_evolve a c"
  unfolding orders_evolve_def by (blast intro: orders_grow_trans)

lemma orders_evolve_same:
  assumes "od_orders db' = od_orders db" "od_outbox db' = od_outbox db"
  shows "orders_evolve db db'"
proof -
  have "orders_grow db db'" unfolding orders_grow_def assms by (auto intro: order_moved_refl)
  then show ?thesis using assms by (simp add: orders_evolve_def orders_ok_def order_row_ok_def)
qed

lemma orders_evolve_refl [simp]: "orders_evolve db db"
  by (rule orders_evolve_same) simp_all

text \<open>One row rewritten along the machine, with the events that mark it.\<close>

definition order_restep :: "(string \<times> outbox_record) list \<Rightarrow> order_row \<Rightarrow> order_row \<Rightarrow> bool" where
  "order_restep new r q \<longleftrightarrow> order_moved r q \<and>
     placed_mark (or_status q) = placed_mark (or_status r) + placed_events (or_id r) new \<and>
     final_mark (or_status q) = final_mark (or_status r) + final_events (or_id r) new \<and>
     (order_isTerminal (or_status q) \<longleftrightarrow> or_finalizedAt q \<noteq> None) \<and> or_status q \<noteq> DRAFT \<and>
     (or_status q \<in> set IN_FLIGHT_STATUSES \<longrightarrow> or_status r \<in> set IN_FLIGHT_STATUSES)"

lemma count_where_mono:
  "(\<And>r. r \<in> set rs \<Longrightarrow> p (g r) \<Longrightarrow> p r) \<Longrightarrow> count_where p (map g rs) \<le> count_where p rs"
  by (induction rs) (auto simp: row_simps)

lemma orders_rewritten:
  assumes ok: "orders_ok db" and g: "\<And>r. r \<in> set (od_orders db) \<Longrightarrow> order_restep new r (g r)"
    and new: "\<forall>e \<in> set new. \<exists>r \<in> set (od_orders db). or_id r = ob_aggregateId (snd e)"
    and db': "od_orders db' = map g (od_orders db)" "od_outbox db' = od_outbox db @ new"
  shows "orders_ok db' \<and> orders_grow db db'"
proof
  have moved: "order_moved r (g r)" if "r \<in> set (od_orders db)" for r
    using g [OF that] by (simp add: order_restep_def)
  have same: "or_id (g r) = or_id r" "or_userId (g r) = or_userId r" if "r \<in> set (od_orders db)" for r
    using moved [OF that] by (simp_all add: order_moved_def)
  have in': "g r \<in> set (od_orders db')" if "r \<in> set (od_orders db)" for r using that by (simp add: db')
  show "orders_grow db db'"
    unfolding orders_grow_def using moved in' db'(2) by blast
  show "orders_ok db'"
    unfolding orders_ok_def
  proof (intro conjI allI ballI)
    have "distinct (map or_id (od_orders db))" using ok unfolding orders_ok_def by blast
    then have "distinct (map (or_id \<circ> g) (od_orders db))" using same by (simp add: distinct_rekeyed)
    then show "distinct (map or_id (od_orders db'))" by (simp add: db')
  next
    show "one_per_key (od_orders db')"
      unfolding one_per_key_def
    proof (intro ballI impI)
      fix r' q' assume r': "r' \<in> set (od_orders db')" and q': "q' \<in> set (od_orders db')"
        and eq: "or_userId r' = or_userId q'" "or_idempotencyKey r' \<noteq> None" "or_idempotencyKey r' = or_idempotencyKey q'"
      obtain r q where rq: "r \<in> set (od_orders db)" "r' = g r" "q \<in> set (od_orders db)" "q' = g q"
        using r' q' by (auto simp: db')
      have "or_idempotencyKey r = or_idempotencyKey r'" "or_idempotencyKey q = or_idempotencyKey q'"
        using moved rq eq(2,3) unfolding order_moved_def by metis+
      then have "r = q" using ok rq eq same unfolding orders_ok_def one_per_key_def by metis
      with rq show "r' = q'" by simp
    qed
  next
    fix u
    have "count_where (in_flight u) (map g (od_orders db)) \<le> count_where (in_flight u) (od_orders db)"
      using g same by (intro count_where_mono) (auto simp: in_flight_def order_restep_def)
    also have "\<dots> \<le> MAX_PENDING_ORDERS_PER_USER" using ok unfolding orders_ok_def by blast
    finally show "count_where (in_flight u) (od_orders db') \<le> MAX_PENDING_ORDERS_PER_USER" by (simp add: db')
  next
    fix r' assume "r' \<in> set (od_orders db')"
    then obtain r where r: "r \<in> set (od_orders db)" "r' = g r" by (auto simp: db')
    have "order_row_ok db r" using ok r(1) unfolding orders_ok_def by blast
    then show "order_row_ok db' r'"
      using g [OF r(1)] moved [OF r(1)] r(2)
      by (simp add: order_row_ok_def order_restep_def order_moved_def db' placed_events_def final_events_def row_simps)
  next
    fix e assume "e \<in> set (od_outbox db')"
    then obtain r where "r \<in> set (od_orders db)" "or_id r = ob_aggregateId (snd e)"
      using ok new unfolding orders_ok_def db' by auto
    then show "\<exists>r \<in> set (od_orders db'). or_id r = ob_aggregateId (snd e)"
      using same in' by (intro bexI [of _ "g r"]) simp_all
  qed
qed

section \<open>Every write keeps it\<close>

lemma events_of_none:
  assumes "orders_ok db" and "\<forall>r \<in> set (od_orders db). or_id r \<noteq> i"
  shows "placed_events i (od_outbox db) = 0 \<and> final_events i (od_outbox db) = 0"
proof -
  have "\<forall>e \<in> set (od_outbox db). ob_aggregateId (snd e) \<noteq> i"
    using assms unfolding orders_ok_def by blast
  then show ?thesis by (auto simp: placed_events_def final_events_def count_where_def filter_empty_conv)
qed

lemma order_inserted:
  assumes ins: "insert_order row db = Inr db'" and st: "or_status row = RESERVING"
    and stamps: "or_placedAt row \<noteq> None" "or_finalizedAt row = None"
    and room: "count_where (in_flight (or_userId row)) (od_orders db) < MAX_PENDING_ORDERS_PER_USER"
  shows "orders_evolve db db'"
  unfolding orders_evolve_def
proof
  assume ok: "orders_ok db"
  have db': "db' = db\<lparr>od_orders := od_orders db @ [row]\<rparr>"
    and fresh: "\<forall>r \<in> set (od_orders db). or_id r \<noteq> or_id row"
    and key: "\<forall>r \<in> set (od_orders db). or_userId r = or_userId row \<longrightarrow> or_idempotencyKey row \<noteq> None \<longrightarrow>
        or_idempotencyKey r \<noteq> or_idempotencyKey row"
    using ins by (auto simp: insert_order_def list_ex_iff split: if_splits)
  have "orders_grow db db'" by (auto simp: orders_grow_def db' intro: order_moved_refl)
  moreover have "orders_ok db'"
    unfolding orders_ok_def
  proof (intro conjI allI)
    show "distinct (map or_id (od_orders db'))" using ok fresh by (force simp: orders_ok_def db')
    show "one_per_key (od_orders db')"
      using ok key unfolding orders_ok_def one_per_key_def db' by auto
    fix u
    show "count_where (in_flight u) (od_orders db') \<le> MAX_PENDING_ORDERS_PER_USER"
      using ok room by (auto simp: orders_ok_def db' row_simps in_flight_def [of u row])
  next
    have "order_row_ok db' row"
      using events_of_none [OF ok fresh] st stamps
      by (simp add: order_row_ok_def db' order_isTerminal_def)
    then show "\<forall>r \<in> set (od_orders db'). order_row_ok db' r"
      using ok by (auto simp: orders_ok_def order_row_ok_def db')
    show "\<forall>e \<in> set (od_outbox db'). \<exists>r \<in> set (od_orders db'). or_id r = ob_aggregateId (snd e)"
      using ok by (auto simp: orders_ok_def db')
  qed
  ultimately show "orders_ok db' \<and> orders_grow db db'" by blast
qed

lemma insert_items_orders:
  "insert_items rows db = Inr db' \<Longrightarrow> od_orders db' = od_orders db \<and> od_outbox db' = od_outbox db"
  by (auto simp: insert_items_def split: if_splits)

lemma in_tx_evolves:
  assumes "\<And>a s. m db = (Inr a, s) \<Longrightarrow> orders_evolve db s" and "in_tx m db = (r, db')"
  shows "orders_evolve db db'"
  using assms(2) by (rule in_tx_keeps [where P = "orders_evolve db"]) (simp_all add: assms(1))

lemma createReserving_evolves:
  assumes ord: "ord_status ord = RESERVING" "ord_placedAt ord \<noteq> None"
    and run: "createReserving minted ord key db = (r, db')"
  shows "orders_evolve db db'"
proof -
  have new: "orders_evolve db db2"
    if "insert_order (new_order_row ord i k (od_clock db)) db = Inr db1" "insert_items rows db1 = Inr db2"
      "\<not> MAX_PENDING_ORDERS_PER_USER \<le> count_where (in_flight (ord_userId ord)) (od_orders db)" for i k rows db1 db2
  proof -
    have "orders_evolve db db1"
      using that(1,3) ord by (intro order_inserted [OF that(1)]) (simp_all add: new_order_row_def)
    also have "orders_evolve db1 db2" using insert_items_orders [OF that(2)] by (intro orders_evolve_same) simp_all
    finally show ?thesis .
  qed
  show ?thesis
  proof (cases minted)
    case (Some ids)
    then show ?thesis
      using run
      by (cases ids)
         (auto simp: createReserving_def act_bind_Inr act_try_def elim!: in_tx_evolves [rotated]
           split: option.splits list.splits if_splits sum.splits intro: new)
  qed (use run in \<open>auto simp: createReserving_def\<close>)
qed

lemma toDomainOrder_Inr:
  "toDomainOrder row items = Inr ord \<Longrightarrow>
     ord_id ord = Some (or_id row) \<and> ord_userId ord = or_userId row \<and> ord_status ord = or_status row \<and>
     ord_placedAt ord = or_placedAt row \<and> ord_finalizedAt ord = or_finalizedAt row \<and>
     ord_totalAmountMinor ord = or_totalAmount row"
  by (auto simp: toDomainOrder_def result_simps)

lemma lockOrder_Inr:
  assumes "lockOrder i db = (Inr x, db')"
  shows "db' = db \<and> (case x of None \<Rightarrow> True | Some (ord, key) \<Rightarrow>
    (\<exists>row \<in> set (od_orders db). or_id row = i \<and> key = or_idempotencyKey row \<and>
      ord_id ord = Some i \<and> ord_userId ord = or_userId row \<and> ord_status ord = or_status row \<and>
      ord_placedAt ord = or_placedAt row \<and> ord_finalizedAt ord = or_finalizedAt row))"
  using assms
  by (auto simp: lockOrder_def act_bind_Inr result_simps split: option.splits
      dest!: find_where_Some toDomainOrder_Inr)

lemma locked_bind:
  assumes "act_bind (lockOrder i) (\<lambda>locked. case locked of None \<Rightarrow> n | Some (ord, key) \<Rightarrow> f ord key) db = (Inr a, s)"
  obtains "n db = (Inr a, s)"
  | ord row where "row \<in> set (od_orders db)" "or_id row = i" "ord_id ord = Some i" "ord_userId ord = or_userId row"
      "ord_status ord = or_status row" "ord_placedAt ord = or_placedAt row" "ord_finalizedAt ord = or_finalizedAt row"
      "f ord (or_idempotencyKey row) db = (Inr a, s)"
proof -
  obtain locked db1 where l: "lockOrder i db = (Inr locked, db1)"
      "(case locked of None \<Rightarrow> n | Some (ord, key) \<Rightarrow> f ord key) db1 = (Inr a, s)"
    using assms by (auto simp: act_bind_Inr)
  show thesis
  proof (cases locked)
    case None
    then show thesis using l lockOrder_Inr [OF l(1)] that(1) by simp
  next
    case (Some p)
    obtain ord key where "p = (ord, key)" by fastforce
    then show thesis using Some l lockOrder_Inr [OF l(1)] that(2) by auto
  qed
qed

text \<open>An UPDATE of one order, given the events that go with it.\<close>

lemma order_updated:
  assumes ok: "orders_ok db" and row: "row \<in> set (od_orders db)" "or_id row = i"
    and step: "order_restep new row (f row)" and new: "\<forall>e \<in> set new. ob_aggregateId (snd e) = i"
    and db': "od_orders db' = update_where (\<lambda>r. or_id r = i) f (od_orders db)" "od_outbox db' = od_outbox db @ new"
  shows "orders_ok db' \<and> orders_grow db db'"
proof (rule orders_rewritten [OF ok, where new = new and g = "\<lambda>r. if or_id r = i then f r else r"])
  fix r assume r: "r \<in> set (od_orders db)"
  show "order_restep new r (if or_id r = i then f r else r)"
  proof (cases "or_id r = i")
    case True
    then have "r = row" using r row ok unfolding orders_ok_def by (metis unique_key_row)
    with True step show ?thesis by simp
  next
    case False
    then have "placed_events (or_id r) new = 0" "final_events (or_id r) new = 0"
      using new by (auto simp: placed_events_def final_events_def count_where_def filter_empty_conv)
    moreover have "order_row_ok db r" using ok r unfolding orders_ok_def by blast
    ultimately show ?thesis using False by (simp add: order_restep_def order_row_ok_def)
  qed
qed (use row new db' in \<open>auto simp: update_where_def\<close>)

lemma event_counts [simp]:
  "placed_events i [] = 0" "final_events i [] = 0"
  "placed_events i [(x, r)] = (if ob_aggregateId r = i \<and> ob_eventType r = ''order.placed'' then 1 else 0)"
  "final_events i [(x, r)] = (if ob_aggregateId r = i \<and> ob_eventType r \<noteq> ''order.placed'' then 1 else 0)"
  by (simp_all add: placed_events_def final_events_def row_simps)

lemma applyTryResult_evolves:
  assumes run: "applyTryResult minted inp db = (r, db')"
  shows "orders_evolve db db'"
proof -
  have rejects: "orders_evolve db (update_order i f db)"
    if "row \<in> set (od_orders db)" "or_id row = i" "or_status row = RESERVING"
      "f = (\<lambda>r. r\<lparr>or_status := REJECTED, or_finalizedAt := Some t, or_finalizeReason := rs, or_idempotencyKey := None\<rparr>)"
    for i row t rs f
    unfolding orders_evolve_def
  proof
    assume ok: "orders_ok db"
    have "order_canTransition RESERVING REJECTED" by (simp add: order_can_cases)
    then have "order_restep [] row (f row)"
      using that(3) by (auto simp: that(4) order_restep_def order_moved_def order_isTerminal_def IN_FLIGHT_STATUSES_def)
    then show "orders_ok (update_order i f db) \<and> orders_grow db (update_order i f db)"
      by (rule order_updated [OF ok that(1,2)]) (simp_all add: update_order_def)
  qed
  have places: "orders_evolve db (append_outbox x (toPlacedOutboxRecord ev) (update_order i f db))"
    if "row \<in> set (od_orders db)" "or_id row = i" "or_status row = RESERVING" "ev_order ev = i"
      "f = (\<lambda>r. r\<lparr>or_status := PENDING\<rparr>)" for i row ev x f
    unfolding orders_evolve_def
  proof
    assume ok: "orders_ok db"
    have "order_canTransition RESERVING PENDING" by (simp add: order_can_cases)
    moreover have "order_row_ok db row" using ok that(1) unfolding orders_ok_def by blast
    ultimately have "order_restep [(x, toPlacedOutboxRecord ev)] row (f row)"
      using that(2-4)
      by (auto simp: that(5) order_restep_def order_moved_def order_row_ok_def order_isTerminal_def
          IN_FLIGHT_STATUSES_def toPlacedOutboxRecord_def)
    then show "orders_ok (append_outbox x (toPlacedOutboxRecord ev) (update_order i f db)) \<and>
        orders_grow db (append_outbox x (toPlacedOutboxRecord ev) (update_order i f db))"
      by (rule order_updated [OF ok that(1,2)])
         (simp_all add: update_order_def append_outbox_def toPlacedOutboxRecord_def that(4))
  qed
  have placed_order: "ev_order ev = i" if "toPlacedEvent placed = Inr ev" "ord_id placed = Some i" for placed ev i
    using that by (auto simp: toPlacedEvent_def split: option.splits)
  have keyed: "orders_evolve db (markCompleted s k st v o1 db1)" if "orders_evolve db db1" for s k st v o1 db1
    by (rule orders_evolve_trans [OF that]) (rule orders_evolve_same, simp_all add: markCompleted_def)
  show ?thesis
  proof (cases inp)
    case (Try_held i)
    show ?thesis
    proof (cases minted)
      case None
      then show ?thesis using run Try_held by (simp add: applyTryResult_def)
    next
      case (Some x)
      show ?thesis
        using run [unfolded applyTryResult_def Try_held Some, simplified]
      proof (elim in_tx_evolves [rotated] locked_bind, goal_cases)
        case (2 a s ord row)
        then show ?case
          by (auto simp: act_bind_Inr result_simps order_confirmPlaced_def split: option.splits if_splits
              intro!: keyed places dest: placed_order)
      qed simp
    qed
  next
    case (Try_refused i rs)
    show ?thesis
      using run [unfolded applyTryResult_def Try_refused, simplified]
    proof (elim in_tx_evolves [rotated] locked_bind, goal_cases)
      case (2 a s ord row)
      then show ?case
        by (auto simp: act_bind_Inr result_simps order_reject_def split: if_splits intro!: rejects)
    qed simp
  qed
qed

lemma moveForSaga_Inr:
  "moveForSaga ord st now reason ref = Inr ord' \<Longrightarrow>
     order_canTransition (ord_status ord) st \<and> ord_status ord' = st \<and> ord_id ord' = ord_id ord \<and>
     st \<in> {CONFIRMING, PAID, FAILED, EXPIRED, CANCELLED} \<and>
     (st = CONFIRMING \<longrightarrow> ord_finalizedAt ord' = ord_finalizedAt ord) \<and>
     (st \<noteq> CONFIRMING \<longrightarrow> ord_finalizedAt ord' = Some now)"
  by (auto simp: moveForSaga_def order_beginConfirming_def order_finalize_def result_simps split: if_splits)

lemma finalized_event_of:
  "toFinalizedEvent ord = Inr ev \<Longrightarrow> ord_id ord = Some i \<Longrightarrow> ev_order ev = i \<and> event_name ev \<noteq> ''order.placed''"
  by (auto simp: toFinalizedEvent_def split: option.splits order_status.splits)

lemma applyOrderChange_evolves:
  assumes run: "applyOrderChange minted inp db = (r, db')"
  shows "orders_evolve db db'"
proof -
  have change: "orders_evolve db db2"
    if row: "row \<in> set (od_orders db)" "or_id row = i" and st: "order_canTransition (or_status row) st"
        "st \<in> {CONFIRMING, PAID, FAILED, EXPIRED, CANCELLED}"
      and fin: "st = CONFIRMING \<longrightarrow> fa = or_finalizedAt row" "st \<noteq> CONFIRMING \<longrightarrow> fa \<noteq> None"
      and new: "if st = CONFIRMING then new = [] else \<exists>x ev. new = [(x, toFinalizedOutboxRecord ev)] \<and>
          ev_order ev = i \<and> event_name ev \<noteq> ''order.placed''"
      and db2: "db2 = (update_order i (\<lambda>r. r\<lparr>or_status := st, or_finalizedAt := fa, or_finalizeReason := rs,
          or_paymentRef := ref\<rparr>) db)\<lparr>od_outbox := od_outbox db @ new\<rparr>"
    for row i st fa new rs ref db2
    unfolding orders_evolve_def
  proof
    assume ok: "orders_ok db"
    have "order_row_ok db row" using ok row(1) unfolding orders_ok_def by blast
    then have "order_restep new row (row\<lparr>or_status := st, or_finalizedAt := fa, or_finalizeReason := rs, or_paymentRef := ref\<rparr>)"
      using row(2) st fin new
      by (auto simp: order_restep_def order_moved_def order_row_ok_def order_isTerminal_def IN_FLIGHT_STATUSES_def
          order_can_cases toFinalizedOutboxRecord_def intro: r_into_rtranclp split: if_splits)
    then show "orders_ok db2 \<and> orders_grow db db2"
      by (rule order_updated [OF ok row])
         (use new in \<open>auto simp: db2 update_order_def toFinalizedOutboxRecord_def split: if_splits\<close>)
  qed
  show ?thesis
    using run [unfolded applyOrderChange_def Let_def]
  proof (cases "ci_to inp \<noteq> CONFIRMING \<and> minted = None")
    case False
    then have "in_tx (act_bind (lockOrder (ci_orderId inp)) (\<lambda>locked.
        case locked of
          None \<Rightarrow> act_return Sw_stale
        | Some (ord, _) \<Rightarrow>
            if ord_status ord = ci_to inp then act_return Sw_already
            else if ord_status ord \<notin> set (ci_from inp) then act_return Sw_stale
            else
              act_bind (act_get od_clock) (\<lambda>now.
              act_bind (act_lift (st_lift (moveForSaga ord (ci_to inp) now (ci_reason inp) (ci_paymentRef inp)))) (\<lambda>changed.
              act_bind (writeStatusChange changed) (\<lambda>_.
              act_bind
                (if ci_to inp \<noteq> CONFIRMING
                 then act_bind (act_lift (st_lift (toFinalizedEvent changed))) (\<lambda>ev.
                      act_modify (append_outbox (the minted) (toFinalizedOutboxRecord ev)))
                 else act_return ()) (\<lambda>_. act_return Sw_applied)))))) db = (r, db')"
      using run unfolding applyOrderChange_def Let_def by (simp only: if_False)
    then show ?thesis
    proof (elim in_tx_evolves [rotated] locked_bind, goal_cases)
      case (2 a s ord row)
      show ?case
      proof (cases "ord_status ord = ci_to inp \<or> ord_status ord \<notin> set (ci_from inp)")
        case True
        then show ?thesis using 2 by (auto split: if_splits)
      next
        case False
        then obtain ord' where m: "moveForSaga ord (ci_to inp) (od_clock db) (ci_reason inp) (ci_paymentRef inp) = Inr ord'"
          and tail: "act_bind (writeStatusChange ord') (\<lambda>_.
              act_bind
                (if ci_to inp \<noteq> CONFIRMING
                 then act_bind (act_lift (st_lift (toFinalizedEvent ord'))) (\<lambda>ev.
                      act_modify (append_outbox (the minted) (toFinalizedOutboxRecord ev)))
                 else act_return ()) (\<lambda>_. act_return Sw_applied)) db = (Inr a, s)"
          using 2(8) by (auto simp: act_bind_Inr result_simps)
        have "ord_id ord' = Some (ci_orderId inp)" using moveForSaga_Inr [OF m] 2(3) by simp
        then have rest: "\<exists>new. (if ci_to inp = CONFIRMING then new = [] else
              \<exists>x ev. new = [(x, toFinalizedOutboxRecord ev)] \<and> toFinalizedEvent ord' = Inr ev) \<and>
            s = (update_order (ci_orderId inp) (\<lambda>r. r\<lparr>or_status := ord_status ord', or_finalizedAt := ord_finalizedAt ord',
              or_finalizeReason := ord_finalizeReason ord', or_paymentRef := ord_paymentRef ord'\<rparr>) db)
              \<lparr>od_outbox := od_outbox db @ new\<rparr>"
          using tail
          by (cases "toFinalizedEvent ord'"; intro exI [of _ "if ci_to inp = CONFIRMING then []
                else [(the minted, toFinalizedOutboxRecord (projr (toFinalizedEvent ord')))]"])
             (auto simp: act_bind_Inr result_simps writeStatusChange_def append_outbox_def update_order_def
                split: if_splits)
        note mv = moveForSaga_Inr [OF m]
        from rest show ?thesis
        proof (rule exE, elim conjE)
          fix new assume new: "if ci_to inp = CONFIRMING then new = [] else
              \<exists>x ev. new = [(x, toFinalizedOutboxRecord ev)] \<and> toFinalizedEvent ord' = Inr ev"
            and s: "s = (update_order (ci_orderId inp) (\<lambda>r. r\<lparr>or_status := ord_status ord',
              or_finalizedAt := ord_finalizedAt ord', or_finalizeReason := ord_finalizeReason ord',
              or_paymentRef := ord_paymentRef ord'\<rparr>) db)\<lparr>od_outbox := od_outbox db @ new\<rparr>"
          have "if ci_to inp = CONFIRMING then new = [] else \<exists>x ev. new = [(x, toFinalizedOutboxRecord ev)] \<and>
              ev_order ev = ci_orderId inp \<and> event_name ev \<noteq> ''order.placed''"
            using new finalized_event_of mv 2(3) by (metis (no_types, lifting))
          then show ?thesis
            using mv 2(5,7) by (intro change [OF 2(1,2) _ _ _ _ _ s]) auto
        qed
      qed
    qed simp
  qed (use run in \<open>simp add: applyOrderChange_def\<close>)
qed

lemma deleteRejectedBefore_evolves: "orders_evolve db (snd (deleteRejectedBefore cutoff limit db))"
  unfolding orders_evolve_def
proof
  assume ok: "orders_ok db"
  define doomed where "doomed = or_id ` set (take limit (filter (\<lambda>r. or_status r = REJECTED \<and>
            (case or_finalizedAt r of None \<Rightarrow> False | Some t \<Rightarrow> t < cutoff)) (od_orders db)))"
  have doomed: "\<forall>i \<in> doomed. \<exists>r \<in> set (od_orders db). or_id r = i \<and> or_status r = REJECTED"
    by (auto simp: doomed_def dest!: in_set_takeD)
  have db': "od_orders (snd (deleteRejectedBefore cutoff limit db)) = filter (\<lambda>r. or_id r \<notin> doomed) (od_orders db)"
      "od_outbox (snd (deleteRejectedBefore cutoff limit db)) = od_outbox db"
    by (simp_all add: deleteRejectedBefore_def Let_def doomed_def)
  let ?db = "snd (deleteRejectedBefore cutoff limit db)"
  have gone: "or_status r = REJECTED" if "r \<in> set (od_orders db)" "or_id r \<in> doomed" for r
    using that doomed ok unfolding orders_ok_def by (metis unique_key_row)
  have "orders_grow db ?db"
    unfolding orders_grow_def
  proof (intro conjI ballI)
    fix r assume r: "r \<in> set (od_orders db)"
    show "(\<exists>q \<in> set (od_orders ?db). order_moved r q) \<or> order_canTransition\<^sup>*\<^sup>* (or_status r) REJECTED"
    proof (cases "or_id r \<in> doomed")
      case False
      then show ?thesis using r db'(1) order_moved_refl by fastforce
    qed (simp add: gone r)
  qed (simp add: db')
  moreover have "orders_ok ?db"
    unfolding orders_ok_def
  proof (intro conjI allI)
    show "distinct (map or_id (od_orders ?db))"
      using ok unfolding orders_ok_def db' by (simp add: distinct_map_filter)
    show "one_per_key (od_orders ?db)" using ok unfolding orders_ok_def one_per_key_def db' by auto
    fix u
    have "count_where (in_flight u) (od_orders ?db) \<le> count_where (in_flight u) (od_orders db)"
      unfolding db' count_where_def
      by (metis (no_types, lifting) filter_filter length_filter_le filter_cong conj_commute)
    then show "count_where (in_flight u) (od_orders ?db) \<le> MAX_PENDING_ORDERS_PER_USER"
      using ok unfolding orders_ok_def by (meson le_trans)
  next
    show "\<forall>r \<in> set (od_orders ?db). order_row_ok ?db r"
      using ok unfolding orders_ok_def order_row_ok_def db' by auto
    show "\<forall>e \<in> set (od_outbox ?db). \<exists>r \<in> set (od_orders ?db). or_id r = ob_aggregateId (snd e)"
    proof
      fix e assume e: "e \<in> set (od_outbox ?db)"
      then obtain r where r: "r \<in> set (od_orders db)" "or_id r = ob_aggregateId (snd e)"
        using ok unfolding orders_ok_def db' by blast
      have "0 < placed_events (or_id r) (od_outbox db) + final_events (or_id r) (od_outbox db)"
        using e r(2) unfolding db' placed_events_def final_events_def count_where_def
        by (cases "ob_eventType (snd e) = ''order.placed''") (auto simp: length_greater_0_conv filter_empty_conv)
      moreover have "order_row_ok db r" using ok r(1) unfolding orders_ok_def by blast
      ultimately have "or_status r \<noteq> REJECTED" by (auto simp: order_row_ok_def)
      then have "or_id r \<notin> doomed" using gone r(1) by blast
      with r show "\<exists>r \<in> set (od_orders ?db). or_id r = ob_aggregateId (snd e)" by (auto simp: db')
    qed
  qed
  ultimately show "orders_ok ?db \<and> orders_grow db ?db" by blast
qed

section \<open>The store over any requests\<close>

datatype order_op =
    Op_create "string list option" order "string option"
  | Op_try_result "string option" try_result_input
  | Op_change "string option" order_change_input
  | Op_sweep_rejected int nat
  | Op_claim "string option" idempotency_claim
  | Op_mark string string int order_view "string option"
  | Op_unclaim string
  | Op_reclaim string string int
  | Op_sweep_keys int nat
  | Op_tick int

fun order_accepts :: "order_op \<Rightarrow> bool" where
  "order_accepts (Op_create m ord key) \<longleftrightarrow> ord_status ord = RESERVING \<and> ord_placedAt ord \<noteq> None"
| "order_accepts _ \<longleftrightarrow> True"

fun order_exec :: "order_op \<Rightarrow> order_db \<Rightarrow> order_db" where
  "order_exec (Op_create m ord key) db = snd (createReserving m ord key db)"
| "order_exec (Op_try_result m inp) db = snd (applyTryResult m inp db)"
| "order_exec (Op_change m inp) db = snd (applyOrderChange m inp db)"
| "order_exec (Op_sweep_rejected cutoff limit) db = snd (deleteRejectedBefore cutoff limit db)"
| "order_exec (Op_claim m c) db = snd (tryInsertInProgress m c db)"
| "order_exec (Op_mark s k st body i) db = markCompleted s k st body i db"
| "order_exec (Op_unclaim i) db = deleteInProgress i db"
| "order_exec (Op_reclaim s k cutoff) db = snd (deleteExpiredInProgress s k cutoff db)"
| "order_exec (Op_sweep_keys now limit) db = snd (deleteExpiredKeys now limit db)"
| "order_exec (Op_tick t) db = db\<lparr>od_clock := t\<rparr>"

definition empty_order_db :: order_db where
  "empty_order_db = \<lparr>od_orders = [], od_items = [], od_keys = [], od_outbox = [], od_clock = 0\<rparr>"

definition orders_after :: "order_op list \<Rightarrow> order_db" where
  "orders_after ops = fold order_exec ops empty_order_db"

lemma order_exec_evolves: "order_accepts op \<Longrightarrow> orders_evolve db (order_exec op db)"
proof (cases op)
  case (Op_create m ord key)
  then show "order_accepts op \<Longrightarrow> ?thesis" using createReserving_evolves [of ord m key db] by (simp add: prod_eq_iff)
next
  case (Op_try_result m inp)
  then show ?thesis using applyTryResult_evolves [of m inp db] by (simp add: prod_eq_iff)
next
  case (Op_change m inp)
  then show ?thesis using applyOrderChange_evolves [of m inp db] by (simp add: prod_eq_iff)
next
  case (Op_sweep_rejected cutoff limit)
  then show ?thesis using deleteRejectedBefore_evolves by simp
next
  case (Op_claim m c)
  have "orders_evolve db (snd (tryInsertInProgress m c db))"
    by (rule orders_evolve_same) (auto simp: tryInsertInProgress_def Let_def split: option.splits)
  with Op_claim show ?thesis by simp
qed (simp_all add: orders_evolve_same markCompleted_def deleteInProgress_def deleteExpiredInProgress_def
    deleteExpiredKeys_def Let_def)

lemma order_run_evolves: "list_all order_accepts ops \<Longrightarrow> orders_evolve db (fold order_exec ops db)"
proof (induction ops arbitrary: db)
  case (Cons op ops)
  then have "orders_evolve db (order_exec op db)" using order_exec_evolves by simp
  also have "orders_evolve \<dots> (fold order_exec ops (order_exec op db))" using Cons by simp
  finally show ?case by simp
qed simp

lemma orders_after_ok: "list_all order_accepts ops \<Longrightarrow> orders_ok (orders_after ops)"
proof -
  assume "list_all order_accepts ops"
  moreover have "orders_ok empty_order_db"
    by (simp add: orders_ok_def empty_order_db_def one_per_key_def row_simps)
  ultimately show ?thesis using order_run_evolves unfolding orders_evolve_def orders_after_def by blast
qed

text \<open>A checkout that was placed, confirmed and paid.\<close>

definition pen_order :: order where
  "pen_order = \<lparr>ord_id = None, ord_userId = ''7'', ord_status = RESERVING, ord_currency = ''VND'',
     ord_items = [\<lparr>oi_skuId = ''41'', oi_productName = ''Pen'', oi_unitPriceMinor = 250, oi_quantity = 2\<rparr>],
     ord_totalAmountMinor = 500, ord_placedAt = Some 1000, ord_finalizedAt = None, ord_finalizeReason = None,
     ord_paymentRef = None, ord_paymentDeadlineAt = Some 9000\<rparr>"

definition placed_ops :: "order_op list" where
  "placed_ops = [Op_create (Some [''30'', ''31'']) pen_order (Some ''k1''), Op_try_result (Some ''32'') (Try_held ''30'')]"

definition paid_ops :: "order_op list" where
  "paid_ops =
     [Op_change None \<lparr>ci_orderId = ''30'', ci_from = [PENDING], ci_to = CONFIRMING, ci_reason = None, ci_paymentRef = None\<rparr>,
      Op_change (Some ''33'') \<lparr>ci_orderId = ''30'', ci_from = [CONFIRMING], ci_to = PAID,
        ci_reason = Some ''saga:captured'', ci_paymentRef = Some ''11''\<rparr>]"

definition pen_row :: order_row where
  "pen_row = \<lparr>or_id = ''30'', or_userId = ''7'', or_status = PENDING, or_currency = ''VND'', or_totalAmount = 500,
     or_idempotencyKey = Some ''k1'', or_placedAt = Some 1000, or_finalizedAt = None, or_finalizeReason = None,
     or_paymentRef = None, or_paymentDeadlineAt = Some 9000, or_createdAt = 0\<rparr>"

definition paid_row :: order_row where
  "paid_row = pen_row\<lparr>or_status := PAID, or_finalizedAt := Some 0, or_finalizeReason := Some ''saga:captured'',
     or_paymentRef := Some ''11''\<rparr>"

lemma pen_accepted: "list_all order_accepts placed_ops" "list_all order_accepts paid_ops"
    "list_all order_accepts (placed_ops @ paid_ops)"
  by (simp_all add: placed_ops_def paid_ops_def pen_order_def)

lemma pen_after: "od_orders (orders_after placed_ops) = [pen_row]"
    "od_orders (orders_after (placed_ops @ paid_ops)) = [paid_row]"
  by code_simp+

text \<open> C0: an order's events are written exactly once. Over any requests to the store, a stored order has
  one \<open>order.placed\<close> event exactly when it got past RESERVING without being rejected, and one finalization
  event exactly when it is settled as PAID, FAILED, EXPIRED or CANCELLED. \<close>

theorem order_events_exactly_once:
  assumes "list_all order_accepts ops" and "r \<in> set (od_orders (orders_after ops))"
  shows "placed_events (or_id r) (od_outbox (orders_after ops)) = placed_mark (or_status r) \<and>
     final_events (or_id r) (od_outbox (orders_after ops)) = final_mark (or_status r)"
  using orders_after_ok [OF assms(1)] assms(2) unfolding orders_ok_def order_row_ok_def by blast

theorem order_events_exactly_once_witness:
  "placed_events ''30'' (od_outbox (orders_after (placed_ops @ paid_ops))) = 1 \<and>
     final_events ''30'' (od_outbox (orders_after (placed_ops @ paid_ops))) = 1"
  using order_events_exactly_once [OF pen_accepted(3), of paid_row] pen_after(2)
  by (simp add: paid_row_def pen_row_def)

text \<open> C28: a user's orders in flight are bounded, and a key names one order. Over any requests to the store, a
  user never has more than three orders that are RESERVING, PENDING or CONFIRMING, and never two orders
  under one idempotency key. \<close>

theorem orders_bounded_per_user:
  assumes "list_all order_accepts ops"
  shows "count_where (in_flight u) (od_orders (orders_after ops)) \<le> 3 \<and>
     one_per_key (od_orders (orders_after ops))"
  using orders_after_ok [OF assms] unfolding orders_ok_def MAX_PENDING_ORDERS_PER_USER_def by blast

theorem orders_bounded_per_user_witness:
  "count_where (in_flight ''7'') (od_orders (orders_after placed_ops)) \<le> 3 \<and>
     od_orders (orders_after placed_ops) = [pen_row]"
  using orders_bounded_per_user [OF pen_accepted(1)] pen_after(1) by blast

text \<open> C29: a placed order is never lost. Whatever requests follow, a stored order that was placed is still
  stored, with its owner, total, currency, stamps and deadline, and its status only moved along the state
  machine. \<close>

theorem placed_order_kept:
  assumes "list_all order_accepts ops" and "r \<in> set (od_orders (orders_after ops))" and "placed_mark (or_status r) = 1"
    and "list_all order_accepts later"
  shows "\<exists>q \<in> set (od_orders (orders_after (ops @ later))). order_moved r q"
proof -
  have "orders_evolve (orders_after ops) (orders_after (ops @ later))"
    using order_run_evolves [OF assms(4)] by (simp add: orders_after_def)
  then have "orders_grow (orders_after ops) (orders_after (ops @ later))"
    using orders_after_ok [OF assms(1)] by (simp add: orders_evolve_def)
  moreover have "\<not> order_canTransition\<^sup>*\<^sup>* (or_status r) REJECTED"
  proof
    assume "order_canTransition\<^sup>*\<^sup>* (or_status r) REJECTED"
    then show False using assms(3)
      by (induction "or_status r" arbitrary: r rule: converse_rtranclp_induct)
         (auto simp: order_can_cases, (metis order_row.select_convs(3) placed_mark.simps)+)
  qed
  ultimately show ?thesis using assms(2) unfolding orders_grow_def by blast
qed

theorem placed_order_kept_witness:
  "\<exists>q \<in> set (od_orders (orders_after (placed_ops @ paid_ops))). order_moved pen_row q"
  using placed_order_kept [OF pen_accepted(1) _ _ pen_accepted(2), of pen_row] pen_after(1)
  by (simp add: pen_row_def)

lemma update_order_rows [simp]:
  "od_items (update_order i f db) = od_items db" "od_clock (update_order i f db) = od_clock db"
  by (simp_all add: update_order_def)

lemma itemRowsOf_same: "od_items db' = od_items db \<Longrightarrow> itemRowsOf i db' = itemRowsOf i db"
  by (simp add: itemRowsOf_def)

lemma lockOrder_updated:
  assumes "lockOrder i db = (Inr (Some (ord, key)), db)" and "\<And>r. or_id (f r) = or_id r"
    and "od_orders db' = update_where (\<lambda>r. or_id r = i) f (od_orders db)" and "od_items db' = od_items db"
  shows "\<exists>ord' key' row. lockOrder i db' = (Inr (Some (ord', key')), db') \<and> ord_status ord' = or_status (f row)"
proof -
  obtain row where row: "find_where (\<lambda>r. or_id r = i) (od_orders db) = Some row"
      and dom: "toDomainOrder row (itemRowsOf i db) = Inr ord"
    using assms(1) by (auto simp: lockOrder_def act_bind_Inr result_simps split: option.splits)
  have "find_where (\<lambda>r. or_id r = i) (od_orders db') = map_option (\<lambda>r. if or_id r = i then f r else r)
      (find_where (\<lambda>r. or_id r = i) (od_orders db))"
    unfolding assms(3) by (rule find_update_where) (simp add: assms(2))
  then have found: "find_where (\<lambda>r. or_id r = i) (od_orders db') = Some (f row)"
    using row find_where_Some [OF row] by simp
  obtain its where "traverse item_of_row (itemRowsOf i db) = Inr its"
    using dom by (auto simp: toDomainOrder_def result_simps)
  then have "\<exists>ord'. toDomainOrder (f row) (itemRowsOf i db') = Inr ord' \<and> ord_status ord' = or_status (f row)"
    using itemRowsOf_same [OF assms(4)] by (simp add: toDomainOrder_def lift_domain_def)
  then show ?thesis
    using found by (auto simp: lockOrder_def act_bind_def st_lift_def)
qed

text \<open> C0: a saga's order change lands once. After a change of an order has been applied, the same change -
  or any other change to the same status, from whatever statuses - answers \<open>already\<close> and writes nothing, so
  a retried activity has one effect. \<close>

theorem order_change_applies_once:
  assumes "applyOrderChange m inp db = (Inr Sw_applied, db')"
    and "ci_orderId inp' = ci_orderId inp" and "ci_to inp' = ci_to inp" and "ci_to inp \<noteq> CONFIRMING \<Longrightarrow> m' \<noteq> None"
  shows "applyOrderChange m' inp' db' = (Inr Sw_already, db')"
proof -
  obtain ord key ord' where l: "lockOrder (ci_orderId inp) db = (Inr (Some (ord, key)), db)"
      and m: "moveForSaga ord (ci_to inp) (od_clock db) (ci_reason inp) (ci_paymentRef inp) = Inr ord'"
      and w: "\<exists>a. act_bind (writeStatusChange ord') (\<lambda>_.
              act_bind
                (if ci_to inp \<noteq> CONFIRMING
                 then act_bind (act_lift (st_lift (toFinalizedEvent ord'))) (\<lambda>ev.
                      act_modify (append_outbox (the m) (toFinalizedOutboxRecord ev)))
                 else act_return ()) (\<lambda>_. act_return a)) db = (Inr Sw_applied, db')"
    using assms(1) lockOrder_Inr [of "ci_orderId inp" db]
    by (auto simp: applyOrderChange_def Let_def act_bind_Inr result_simps split: if_splits option.splits prod.splits)
  note mv = moveForSaga_Inr [OF m]
  have id: "ord_id ord' = Some (ci_orderId inp)" using mv lockOrder_Inr [OF l] by auto
  let ?f = "\<lambda>r. r\<lparr>or_status := ord_status ord', or_finalizedAt := ord_finalizedAt ord',
      or_finalizeReason := ord_finalizeReason ord', or_paymentRef := ord_paymentRef ord'\<rparr>"
  have "od_orders db' = update_where (\<lambda>r. or_id r = ci_orderId inp) ?f (od_orders db) \<and> od_items db' = od_items db"
    using w id by (auto simp: act_bind_Inr result_simps writeStatusChange_def append_outbox_def update_order_def
        split: if_splits)
  then obtain ord2 key2 where "lockOrder (ci_orderId inp) db' = (Inr (Some (ord2, key2)), db')"
      "ord_status ord2 = ci_to inp"
    using lockOrder_updated [OF l, of ?f db'] mv by auto
  then show ?thesis
    using assms(2-4) by (auto simp: applyOrderChange_def Let_def in_tx_def act_bind_def)
qed

theorem order_change_applies_once_witness:
  "snd (applyOrderChange (Some ''34'') \<lparr>ci_orderId = ''30'', ci_from = [CONFIRMING], ci_to = PAID,
     ci_reason = None, ci_paymentRef = None\<rparr> (orders_after (placed_ops @ paid_ops))) = orders_after (placed_ops @ paid_ops)"
proof -
  let ?inp = "\<lparr>ci_orderId = ''30'', ci_from = [CONFIRMING], ci_to = PAID, ci_reason = Some ''saga:captured'',
      ci_paymentRef = Some ''11''\<rparr>"
  let ?db = "orders_after (placed_ops @ [hd paid_ops])"
  have "fst (applyOrderChange (Some ''33'') ?inp ?db) = Inr Sw_applied" by code_simp
  moreover have "snd (applyOrderChange (Some ''33'') ?inp ?db) = orders_after (placed_ops @ paid_ops)"
    by (simp add: orders_after_def paid_ops_def)
  ultimately have "applyOrderChange (Some ''33'') ?inp ?db = (Inr Sw_applied, orders_after (placed_ops @ paid_ops))"
    by (metis prod.collapse)
  from order_change_applies_once [OF this] show ?thesis by simp
qed

text \<open>Pages of a fixed size, one after the other, are the sorted rows.\<close>

lemma pages_concat: "concat (map (\<lambda>k. take n (drop (k * n) xs)) [0..<m]) = take (m * n) xs"
proof (induction m)
  case (Suc m)
  have "take (m * n + n) xs = take (m * n) xs @ take n (drop (m * n) xs)" by (rule take_add)
  with Suc show ?case by (simp add: add.commute)
qed simp

text \<open>What orders a listing: the creation stamp and the id, as the numbers the columns hold.\<close>

definition listing_key :: "order_row \<Rightarrow> int \<times> nat" where
  "listing_key r = (or_createdAt r, nat_of_dec (or_id r))"

definition listed_before :: "int \<times> nat \<Rightarrow> int \<times> nat \<Rightarrow> bool" where
  "listed_before a b \<longleftrightarrow> fst b < fst a \<or> fst b = fst a \<and> snd b < snd a"

lemma newest_first_listed:
  assumes "distinct (map (\<lambda>r. nat_of_dec (or_id r)) rs)"
  shows "sorted_wrt listed_before (map listing_key (newest_first rs))"
proof -
  have m: "mset (newest_first rs) = mset rs" by (simp add: newest_first_def)
  then have d: "distinct (map (\<lambda>r. nat_of_dec (or_id r)) (newest_first rs))"
    using assms by (metis mset_eq_imp_distinct_iff mset_map)
  have s: "sorted_by (\<lambda>r. - or_createdAt r) (\<lambda>r. - int (nat_of_dec (or_id r))) (newest_first rs)"
    by (simp add: newest_first_def)
  let ?xs = "newest_first rs"
  have "listed_before (listing_key (?xs ! i)) (listing_key (?xs ! j))" if "i < j" "j < length ?xs" for i j
  proof -
    have "nat_of_dec (or_id (?xs ! i)) \<noteq> nat_of_dec (or_id (?xs ! j))"
      using d that by (simp add: distinct_conv_nth)
    moreover have "- or_createdAt (?xs ! i) < - or_createdAt (?xs ! j) \<or>
        - or_createdAt (?xs ! i) = - or_createdAt (?xs ! j) \<and>
        - int (nat_of_dec (or_id (?xs ! i))) \<le> - int (nat_of_dec (or_id (?xs ! j)))"
      using s that sorted_wrt_nth_less unfolding sorted_by_def by fast
    ultimately show ?thesis by (auto simp: listed_before_def listing_key_def)
  qed
  then show ?thesis by (simp add: sorted_wrt_iff_nth_less)
qed

text \<open>So tables that hold the same orders list them alike, in whatever order they store them.\<close>

lemma newest_first_unique:
  assumes "mset (map listing_key qs) = mset (map listing_key rs)"
    and "distinct (map (\<lambda>r. nat_of_dec (or_id r)) rs)"
  shows "map listing_key (newest_first qs) = map listing_key (newest_first rs)"
proof (rule sorted_wrt_unique [of listed_before])
  have "map (\<lambda>r. nat_of_dec (or_id r)) xs = map snd (map listing_key xs)" for xs
    by (simp add: listing_key_def comp_def)
  then have "distinct (map (\<lambda>r. nat_of_dec (or_id r)) qs)"
    using assms by (metis mset_eq_imp_distinct_iff mset_map)
  then show "sorted_wrt listed_before (map listing_key (newest_first qs))" by (rule newest_first_listed)
  show "sorted_wrt listed_before (map listing_key (newest_first rs))" using assms(2) by (rule newest_first_listed)
  have "mset (map listing_key (newest_first xs)) = mset (map listing_key xs)" for xs
    by (simp add: newest_first_def)
  then show "set (map listing_key (newest_first qs)) = set (map listing_key (newest_first rs))"
    using assms(1) by (metis mset_eq_setD)
qed (auto simp: listed_before_def)

text \<open> C37: paging loses and repeats nothing. A client reads the pages of a filter one after the other, each
  from the table as it is at that moment: its rows stored in any order, their status and other columns
  changed or not, as long as the orders that match are the same ones, with distinct ids. Read until they
  cover the total, the pages give every matching order exactly once, in strictly descending order of the
  creation stamp and, where stamps are equal, of the id. \<close>

theorem pages_cover_every_order:
  assumes "distinct (map (\<lambda>r. nat_of_dec (or_id r)) (filter p (od_orders db)))"
    and "\<And>k. mset (map listing_key (filter p (od_orders (at_page k)))) = mset (map listing_key (filter p (od_orders db)))"
    and "count_where p (od_orders db) \<le> pages * pageSize"
  shows "mset (map listing_key (concat (map (\<lambda>k. page_rows p k pageSize (at_page k)) [1..<Suc pages]))) =
       mset (map listing_key (filter p (od_orders db))) \<and>
     sorted_wrt listed_before (map listing_key (concat (map (\<lambda>k. page_rows p k pageSize (at_page k)) [1..<Suc pages])))"
proof -
  let ?rows = "newest_first (filter p (od_orders db))"
  have page: "map listing_key (page_rows p k pageSize (at_page k)) =
      take pageSize (drop ((k - 1) * pageSize) (map listing_key ?rows))" for k
    unfolding page_rows_def take_map [symmetric] drop_map [symmetric] newest_first_unique [OF assms(2,1), of k] ..
  have "map listing_key (concat (map (\<lambda>k. page_rows p k pageSize (at_page k)) [1..<Suc pages])) =
      concat (map (\<lambda>k. take pageSize (drop (k * pageSize) (map listing_key ?rows))) [0..<pages])"
    by (simp add: map_concat comp_def page map_Suc_upt [symmetric] del: upt_Suc map_Suc_upt)
  also have "\<dots> = map listing_key ?rows"
    using assms(3) by (simp add: pages_concat newest_first_def count_where_def)
  finally show ?thesis
    using newest_first_listed [OF assms(1)] by (simp add: newest_first_def)
qed

text \<open>Two orders of one instant, stored the other way round when the second page is read.\<close>

theorem pages_cover_every_order_witness:
  "\<exists>at_page. at_page 1 \<noteq> at_page 2 \<and>
     map listing_key (concat (map (\<lambda>k. page_rows (visibleToBuyer ''7'') k 1 (at_page k)) [1..<Suc 2])) =
       [(0, 31), (0, 30)]"
proof -
  define rows where "rows = [pen_row, pen_row\<lparr>or_id := ''31''\<rparr>]"
  define at_page :: "nat \<Rightarrow> order_db" where
    "at_page k = (orders_after placed_ops)\<lparr>od_orders := if k = 1 then rows else rev rows\<rparr>" for k
  let ?read = "map listing_key (concat (map (\<lambda>k. page_rows (visibleToBuyer ''7'') k 1 (at_page k)) [1..<Suc 2]))"
  have seven: "visibleToBuyer ''7'' pen_row" "visibleToBuyer ''7'' (pen_row\<lparr>or_id := ''31''\<rparr>)"
    "listing_key pen_row = (0, 30)" "listing_key (pen_row\<lparr>or_id := ''31''\<rparr>) = (0, 31)" by code_simp+
  have in_order: "ks = [(0, 31), (0, 30)]"
    if "mset ks = mset [(0, 30), (0, 31)]" "sorted_wrt listed_before ks" for ks :: "(int \<times> nat) list"
  proof (rule sorted_wrt_unique [OF _ that(2)])
    show "set ks = set [(0, 31), (0, 30)]" using mset_eq_setD [OF that(1)] by auto
  qed (auto simp: listed_before_def)
  have all: "filter (visibleToBuyer ''7'') rows = rows" "filter (visibleToBuyer ''7'') (rev rows) = rev rows"
    "map listing_key rows = [(0, 30), (0, 31)]" "rows \<noteq> rev rows"
    using seven by (auto simp: rows_def)
  have stored: "od_orders (at_page 1) = rows" "od_orders (at_page k) = rows \<or> od_orders (at_page k) = rev rows" for k
    by (simp_all add: at_page_def)
  have "map (\<lambda>r. nat_of_dec (or_id r)) rows = map snd (map listing_key rows)"
    by (simp add: listing_key_def)
  then have d: "distinct (map (\<lambda>r. nat_of_dec (or_id r)) (filter (visibleToBuyer ''7'') (od_orders (at_page 1))))"
    unfolding stored(1) all(1) all(3) by simp
  have same: "mset (map listing_key (filter (visibleToBuyer ''7'') (od_orders (at_page k)))) =
      mset (map listing_key (filter (visibleToBuyer ''7'') (od_orders (at_page 1))))" for k
  proof (rule disjE [OF stored(2) [of k]])
    assume "od_orders (at_page k) = rev rows"
    then show ?thesis by (simp only: stored(1) all(1,2) rev_map [symmetric] mset_rev)
  qed (simp only: stored(1))
  have "count_where (visibleToBuyer ''7'') (od_orders (at_page 1)) \<le> 2 * 1"
    unfolding count_where_def stored(1) all(1) by (simp add: rows_def)
  note read = pages_cover_every_order [where at_page = at_page, OF d same this]
  have "mset ?read = mset [(0, 30), (0, 31)]" "sorted_wrt listed_before ?read"
    using read unfolding stored(1) all(1) all(3) by blast+
  then have "?read = [(0, 31), (0, 30)]" by (rule in_order)
  moreover have "od_orders (at_page 1) \<noteq> od_orders (at_page 2)" using all(4) by (simp add: at_page_def)
  then have "at_page 1 \<noteq> at_page 2" by (rule contrapos_nn) simp
  ultimately show ?thesis by (intro exI [of _ at_page] conjI)
qed

end
