(* ===== verification/Checkout_Workflow.thy ===== *)
theory Checkout_Workflow
  imports Checkout_Saga Order_Store
begin

text \<open>
  The body of the checkout workflow
  (\<^verbatim>\<open>apps/order-service/src/modules/order/infrastructure/temporal/workflows/checkout-saga.workflow.ts\<close>) and
  its activities (\<^verbatim>\<open>checkout-saga.activities.ts\<close>) over three ports: the order repository, the stock
  participant and the payment participant. A port is the relation between a state, an answer (\<open>None\<close>: the
  call threw) and the state after it. What the body has in flight is a multiset of pieces of work, any of
  which may advance next; an activity that lands but whose answer is lost is tried again, so an effect may
  happen several times. \<open>wf_step\<close> also has the steps of everyone else. The end of the theory shows that a
  run that closes leaves the order and its two participants agreeing, for any ports that keep the laws of
  the locales \<open>order_port\<close>, \<open>stock_port\<close> and \<open>payment_port\<close>.
\<close>


section \<open>Ports and inputs\<close>

record ('o, 's, 'p) checkout_ports =
  cp_tryResult :: "try_result_input \<Rightarrow> 'o \<Rightarrow> saga_write option \<Rightarrow> 'o \<Rightarrow> bool"
  cp_change :: "order_change_input \<Rightarrow> 'o \<Rightarrow> saga_write option \<Rightarrow> 'o \<Rightarrow> bool"
  cp_status :: "string \<Rightarrow> 'o \<Rightarrow> order_status option"
  cp_otherOrders :: "string \<Rightarrow> 'o \<Rightarrow> 'o \<Rightarrow> bool"
  cp_tryReserve :: "string \<Rightarrow> (string \<times> int) list \<Rightarrow> int \<Rightarrow> 's \<Rightarrow> try_outcome option \<Rightarrow> 's \<Rightarrow> bool"
  cp_command :: "reservation_command \<Rightarrow> string \<Rightarrow> 's \<Rightarrow> command_outcome option \<Rightarrow> 's \<Rightarrow> bool"
  cp_otherStock :: "string \<Rightarrow> 's \<Rightarrow> 's \<Rightarrow> bool"
  cp_capture :: "string \<Rightarrow> 'p \<Rightarrow> capture_outcome option \<Rightarrow> 'p \<Rightarrow> bool"
  cp_cancel :: "string \<Rightarrow> 'p \<Rightarrow> cancel_outcome option \<Rightarrow> 'p \<Rightarrow> bool"
  cp_standing :: "string \<Rightarrow> 'p \<Rightarrow> payment_standing"
  cp_openSession :: "string \<Rightarrow> 'p \<Rightarrow> 'p \<Rightarrow> bool"
  cp_otherPayments :: "string \<Rightarrow> 'p \<Rightarrow> 'p \<Rightarrow> bool"

record saga_input =
  si_mode :: saga_mode
  si_orderId :: string
  si_lines :: "(string \<times> int) list"
  si_totalMinor :: int
  si_currency :: string
  si_tryStartedAt :: "int option"
  si_tryTimeoutMs :: int
  si_holdUntil :: int


section \<open>Activities\<close>

definition verifyAuthorization :: "payment_standing \<Rightarrow> string \<Rightarrow> auth_verdict" where
  "verifyAuthorization st paymentId =
     (if ps_header st \<noteq> Some P_AUTHORIZED then NOT_AUTHORIZED
      else if ps_authorizedPaymentId st = Some paymentId then VERIFIED else PAYMENT_MISMATCH)"

text \<open>\<open>None\<close>: the answer is thrown as a failure, which the activity's policy retries.\<close>

fun capturePayment :: "capture_outcome \<Rightarrow> settled_capture option" where
  "capturePayment Cap_CONFLICT = None"
| "capturePayment Cap_CAPTURED = Some Sc_CAPTURED"
| "capturePayment Cap_IDEMPOTENT = Some Sc_IDEMPOTENT"
| "capturePayment Cap_NOT_CAPTURABLE = Some Sc_NOT_CAPTURABLE"

definition stock_compensated :: "command_outcome \<Rightarrow> bool" where
  "stock_compensated out \<longleftrightarrow> out \<noteq> Cmd_CONFLICT"

definition payment_compensated :: "cancel_outcome \<Rightarrow> bool" where
  "payment_compensated out \<longleftrightarrow> out \<noteq> Can_CAPTURED_CONFLICT"

definition try_write :: "string \<Rightarrow> reserve_outcome \<Rightarrow> try_result_input" where
  "try_write orderId outcome =
     (if outcome = HELD then Try_held orderId
      else Try_refused orderId (finalizeReasonOf (compensationReasonForTry outcome)))"

definition change_input :: "string \<Rightarrow> order_change \<Rightarrow> order_change_input" where
  "change_input orderId c =
     \<lparr>ci_orderId = orderId, ci_from = oc_from c, ci_to = oc_to c, ci_reason = oc_reason c,
      ci_paymentRef = oc_paymentRef c\<rparr>"


section \<open>The body\<close>

text \<open>
  Work in flight: the Try's outcome on its way to the order row, then to the machine; a command list, with
  the compensations met so far, or the answer one of its activities returned; a verification, then its
  verdict; a compensation, then its return; the status a late run has read. What an activity returned is
  handed to the machine in a step of its own, after whatever else came in between.
\<close>

datatype work =
    W_tried reserve_outcome
  | W_written reserve_outcome
  | W_execute "saga_command list" "compensation list"
  | W_committed command_outcome "saga_command list" "compensation list"
  | W_captured settled_capture "saga_command list" "compensation list"
  | W_verify payment_authorization
  | W_verdict payment_authorization auth_verdict
  | W_compensate compensation
  | W_compensated compensation
  | W_context "order_status option"

record ('o, 's, 'p) world =
  w_orders :: 'o
  w_stock :: 's
  w_pay :: 'p
  w_saga :: saga_state
  w_work :: "work multiset"
  w_tryRun :: bool
  w_context :: bool
  w_payCalls :: nat

definition spawned :: "transition \<Rightarrow> work multiset \<Rightarrow> work multiset" where
  "spawned t W = (if snd t = [] then W else add_mset (W_execute (snd t) []) W)"

definition wf_apply :: "transition \<Rightarrow> ('o, 's, 'p) world \<Rightarrow> ('o, 's, 'p) world" where
  "wf_apply t w = w\<lparr>w_saga := fst t, w_work := spawned t (w_work w)\<rparr>"

text \<open>How the one attempt at the Try ends: abandoned, answered, or with an error or a timeout.\<close>

inductive attemptTry :: "('o, 's, 'p) checkout_ports \<Rightarrow> saga_input \<Rightarrow> 's \<Rightarrow> reserve_outcome \<Rightarrow> 's \<Rightarrow> bool"
  for P inp where
  try_abandoned: "planTry (si_tryStartedAt inp) (si_tryTimeoutMs inp) now = None \<Longrightarrow> attemptTry P inp s ABANDONED s"
| try_answered: "planTry (si_tryStartedAt inp) (si_tryTimeoutMs inp) now = Some t \<Longrightarrow>
    cp_tryReserve P (si_orderId inp) (si_lines inp) (si_holdUntil inp) s (Some r) s' \<Longrightarrow>
    attemptTry P inp s (toReserveOutcome r) s'"
| try_failed: "planTry (si_tryStartedAt inp) (si_tryTimeoutMs inp) now = Some t \<Longrightarrow>
    cp_tryReserve P (si_orderId inp) (si_lines inp) (si_holdUntil inp) s a s' \<Longrightarrow> outcome \<in> {TIMEOUT, ERROR} \<Longrightarrow>
    attemptTry P inp s outcome s'"

text \<open>One compensation activity that returns.\<close>

inductive compensate :: "('o, 's, 'p) checkout_ports \<Rightarrow> string \<Rightarrow> compensation \<Rightarrow> 's \<times> 'p \<Rightarrow> 's \<times> 'p \<Rightarrow> bool"
  for P orderId where
  releaseStock: "co_type c = RELEASE_STOCK \<Longrightarrow> cp_command P Op_release orderId s (Some r) s' \<Longrightarrow>
    stock_compensated r \<Longrightarrow> compensate P orderId c (s, p) (s', p)"
| restock: "co_type c = RESTOCK \<Longrightarrow> cp_command P Op_restock orderId s (Some r) s' \<Longrightarrow>
    stock_compensated r \<Longrightarrow> compensate P orderId c (s, p) (s', p)"
| cancelPayment: "co_type c = CANCEL_PAYMENT \<Longrightarrow> cp_cancel P orderId p (Some r) p' \<Longrightarrow>
    payment_compensated r \<Longrightarrow> compensate P orderId c (s, p) (s, p')"

text \<open>An activity attempt whose answer never counts: it threw, or it is lost and sent again.\<close>

inductive wasted :: "('o, 's, 'p) checkout_ports \<Rightarrow> string \<Rightarrow> work \<Rightarrow> 'o \<times> 's \<times> 'p \<Rightarrow> 'o \<times> 's \<times> 'p \<Rightarrow> bool"
  for P orderId where
  wasted_result: "cp_tryResult P (try_write orderId r) ord a ord' \<Longrightarrow>
    wasted P orderId (W_tried r) (ord, s, p) (ord', s, p)"
| wasted_change: "cp_change P (change_input orderId c) ord a ord' \<Longrightarrow>
    wasted P orderId (W_execute (CHANGE_ORDER c # cs) acc) (ord, s, p) (ord', s, p)"
| wasted_commit: "cp_command P Op_commit orderId s a s' \<Longrightarrow>
    wasted P orderId (W_execute (COMMIT_STOCK # cs) acc) (ord, s, p) (ord, s', p)"
| wasted_capture: "cp_capture P orderId p a p' \<Longrightarrow>
    wasted P orderId (W_execute (CAPTURE_PAYMENT # cs) acc) (ord, s, p) (ord, s, p')"
| wasted_release: "co_type c = RELEASE_STOCK \<Longrightarrow> cp_command P Op_release orderId s a s' \<Longrightarrow>
    wasted P orderId (W_compensate c) (ord, s, p) (ord, s', p)"
| wasted_restock: "co_type c = RESTOCK \<Longrightarrow> cp_command P Op_restock orderId s a s' \<Longrightarrow>
    wasted P orderId (W_compensate c) (ord, s, p) (ord, s', p)"
| wasted_cancel: "co_type c = CANCEL_PAYMENT \<Longrightarrow> cp_cancel P orderId p a p' \<Longrightarrow>
    wasted P orderId (W_compensate c) (ord, s, p) (ord, s, p')"

inductive wf_step ::
    "('o, 's, 'p) checkout_ports \<Rightarrow> saga_input \<Rightarrow> ('o, 's, 'p) world \<Rightarrow> ('o, 's, 'p) world \<Rightarrow> bool"
  for P inp where
  step_try: "\<not> w_tryRun w \<Longrightarrow> attemptTry P inp (w_stock w) r s' \<Longrightarrow>
    wf_step P inp w (w\<lparr>w_stock := s', w_tryRun := True, w_work := add_mset (W_tried r) (w_work w)\<rparr>)"
| step_tried: "w_work w = add_mset (W_tried r) W \<Longrightarrow>
    cp_tryResult P (try_write (si_orderId inp) r) (w_orders w) (Some written) ord' \<Longrightarrow>
    wf_step P inp w (w\<lparr>w_orders := ord', w_work := add_mset (W_written r) W\<rparr>)"
| step_written: "w_work w = add_mset (W_written r) W \<Longrightarrow>
    wf_step P inp w (wf_apply (onTryResult (w_saga w) r) (w\<lparr>w_work := W\<rparr>))"
| step_change: "w_work w = add_mset (W_execute (CHANGE_ORDER c # cs) acc) W \<Longrightarrow>
    cp_change P (change_input (si_orderId inp) c) (w_orders w) (Some written) ord' \<Longrightarrow>
    wf_step P inp w (w\<lparr>w_orders := ord', w_work := add_mset (W_execute cs acc) W\<rparr>)"
| step_verify: "w_work w = add_mset (W_execute (VERIFY_AUTHORIZATION a # cs) acc) W \<Longrightarrow>
    wf_step P inp w (w\<lparr>w_work := add_mset (W_verify a) (add_mset (W_execute cs acc) W)\<rparr>)"
| step_commit: "w_work w = add_mset (W_execute (COMMIT_STOCK # cs) acc) W \<Longrightarrow>
    cp_command P Op_commit (si_orderId inp) (w_stock w) (Some r) s' \<Longrightarrow>
    wf_step P inp w (w\<lparr>w_stock := s', w_work := add_mset (W_committed r cs acc) W\<rparr>)"
| step_committed: "w_work w = add_mset (W_committed r cs acc) W \<Longrightarrow>
    wf_step P inp w (wf_apply (onCommitResult (w_saga w) r) (w\<lparr>w_work := add_mset (W_execute cs acc) W\<rparr>))"
| step_capture: "w_work w = add_mset (W_execute (CAPTURE_PAYMENT # cs) acc) W \<Longrightarrow>
    cp_capture P (si_orderId inp) (w_pay w) (Some a) p' \<Longrightarrow> capturePayment a = Some r \<Longrightarrow>
    wf_step P inp w (w\<lparr>w_pay := p', w_work := add_mset (W_captured r cs acc) W\<rparr>)"
| step_captured: "w_work w = add_mset (W_captured r cs acc) W \<Longrightarrow>
    wf_step P inp w (wf_apply (onCaptureResult (w_saga w) r) (w\<lparr>w_work := add_mset (W_execute cs acc) W\<rparr>))"
| step_collect: "w_work w = add_mset (W_execute (COMPENSATION c # cs) acc) W \<Longrightarrow>
    wf_step P inp w (w\<lparr>w_work := add_mset (W_execute cs (acc @ [c])) W\<rparr>)"
| step_spawn: "w_work w = add_mset (W_execute [] acc) W \<Longrightarrow>
    wf_step P inp w (w\<lparr>w_work := mset (map W_compensate acc) + W\<rparr>)"
| step_compensate: "w_work w = add_mset (W_compensate c) W \<Longrightarrow>
    compensate P (si_orderId inp) c (w_stock w, w_pay w) (s', p') \<Longrightarrow>
    wf_step P inp w (w\<lparr>w_stock := s', w_pay := p', w_work := add_mset (W_compensated c) W\<rparr>)"
| step_compensated: "w_work w = add_mset (W_compensated c) W \<Longrightarrow>
    wf_step P inp w (wf_apply (onCompensationDone (w_saga w) (co_id c)) (w\<lparr>w_work := W\<rparr>))"
| step_verdict: "w_work w = add_mset (W_verify a) W \<Longrightarrow>
    verdict = verifyAuthorization (cp_standing P (si_orderId inp) (w_pay w)) (pa_paymentId a) \<Longrightarrow>
    wf_step P inp w (w\<lparr>w_work := add_mset (W_verdict a verdict) W\<rparr>)"
| step_verified: "w_work w = add_mset (W_verdict a verdict) W \<Longrightarrow>
    wf_step P inp w (wf_apply (fst (onAuthorizationVerified (w_saga w) a verdict)) (w\<lparr>w_work := W\<rparr>))"
| step_wasted: "x \<in># w_work w \<Longrightarrow>
    wasted P (si_orderId inp) x (w_orders w, w_stock w, w_pay w) (ord', s', p') \<Longrightarrow>
    wf_step P inp w (w\<lparr>w_orders := ord', w_stock := s', w_pay := p'\<rparr>)"
| step_authorized: "wf_step P inp w
    (wf_apply (fst (onAuthorized (w_saga w) a (si_totalMinor inp) (si_currency inp))) w)"
| step_cancel: "canCancel (w_saga w) \<Longrightarrow> wf_step P inp w (wf_apply (onCancelRequested (w_saga w) by_whom) w)"
| step_deadline: "si_mode inp = M_checkout \<Longrightarrow> w_tryRun w \<Longrightarrow> \<forall>r. W_tried r \<notin># w_work w \<Longrightarrow>
    \<forall>r. W_written r \<notin># w_work w \<Longrightarrow> wf_step P inp w (wf_apply (onDeadline (w_saga w)) w)"
| step_load: "si_mode inp = M_lateAuthorization \<Longrightarrow> \<not> w_context w \<Longrightarrow>
    wf_step P inp w (w\<lparr>w_context := True,
      w_work := add_mset (W_context (cp_status P (si_orderId inp) (w_orders w))) (w_work w)\<rparr>)"
| step_context: "si_mode inp = M_lateAuthorization \<Longrightarrow> w_work w = add_mset (W_context D) W \<Longrightarrow>
    wf_step P inp w (wf_apply (onLateAuthorizationContext (w_saga w) D) (w\<lparr>w_work := W\<rparr>))"
| step_straggler: "w_tryRun w \<Longrightarrow>
    cp_tryReserve P (si_orderId inp) (si_lines inp) (si_holdUntil inp) (w_stock w) a s' \<Longrightarrow>
    wf_step P inp w (w\<lparr>w_stock := s'\<rparr>)"
| step_pay: "cp_status P (si_orderId inp) (w_orders w) = Some PENDING \<Longrightarrow>
    wf_step P inp w (w\<lparr>w_payCalls := Suc (w_payCalls w)\<rparr>)"
| step_open: "w_payCalls w = Suc n \<Longrightarrow> cp_openSession P (si_orderId inp) (w_pay w) p' \<Longrightarrow>
    wf_step P inp w (w\<lparr>w_pay := p', w_payCalls := n\<rparr>)"
| step_orders: "cp_otherOrders P (si_orderId inp) (w_orders w) ord' \<Longrightarrow> wf_step P inp w (w\<lparr>w_orders := ord'\<rparr>)"
| step_stock: "cp_otherStock P (si_orderId inp) (w_stock w) s' \<Longrightarrow> wf_step P inp w (w\<lparr>w_stock := s'\<rparr>)"
| step_payments: "cp_otherPayments P (si_orderId inp) (w_pay w) p' \<Longrightarrow> wf_step P inp w (w\<lparr>w_pay := p'\<rparr>)"

definition wf_start :: "saga_mode \<Rightarrow> 'o \<Rightarrow> 's \<Rightarrow> 'p \<Rightarrow> ('o, 's, 'p) world" where
  "wf_start mode ord s p =
     \<lparr>w_orders = ord, w_stock = s, w_pay = p, w_saga = initialCheckoutSagaState mode, w_work = {#},
      w_tryRun = False, w_context = False, w_payCalls = 0\<rparr>"

definition wf_closed :: "('o, 's, 'p) world \<Rightarrow> bool" where
  "wf_closed w \<longleftrightarrow> ss_step (w_saga w) \<in> {S_COMPLETED, S_COMPENSATED} \<and> w_work w = {#}"

abbreviation wf_runs ::
    "('o, 's, 'p) checkout_ports \<Rightarrow> saga_input \<Rightarrow> ('o, 's, 'p) world \<Rightarrow> ('o, 's, 'p) world \<Rightarrow> bool" where
  "wf_runs P inp \<equiv> (wf_step P inp)\<^sup>*\<^sup>*"


section \<open>What each phase of a checkout run keeps\<close>

definition after_try :: "reserve_outcome \<Rightarrow> order_status option \<Rightarrow> order_status option" where
  "after_try r D = (if D = Some RESERVING then Some (if r = HELD then PENDING else REJECTED) else D)"

definition after_change :: "order_change \<Rightarrow> order_status option \<Rightarrow> order_status option" where
  "after_change c D = (if D \<in> Some ` set (oc_from c) then Some (oc_to c) else D)"

fun is_verify :: "saga_command \<Rightarrow> bool" where
  "is_verify (VERIFY_AUTHORIZATION a) \<longleftrightarrow> True"
| "is_verify _ \<longleftrightarrow> False"

text \<open>Work that changes nothing outside the run, and the rest.\<close>

fun noise :: "work \<Rightarrow> bool" where
  "noise (W_verify a) \<longleftrightarrow> True"
| "noise (W_verdict a v) \<longleftrightarrow> True"
| "noise (W_execute cs acc) \<longleftrightarrow> acc = [] \<and> list_all is_verify cs"
| "noise _ \<longleftrightarrow> False"

definition core :: "work multiset \<Rightarrow> work multiset" where
  "core W = filter_mset (\<lambda>x. \<not> noise x) W"

fun undoes :: "compensation_type \<Rightarrow> saga_command \<Rightarrow> bool" where
  "undoes ty (COMPENSATION c) \<longleftrightarrow> co_type c = ty"
| "undoes ty _ \<longleftrightarrow> False"

fun owed_by :: "compensation_type \<Rightarrow> work \<Rightarrow> bool" where
  "owed_by ty (W_execute cs acc) \<longleftrightarrow> list_ex (undoes ty) cs \<or> list_ex (\<lambda>c. co_type c = ty) acc"
| "owed_by ty (W_compensate c) \<longleftrightarrow> co_type c = ty"
| "owed_by ty _ \<longleftrightarrow> False"

definition owes :: "compensation_type \<Rightarrow> work multiset \<Rightarrow> bool" where
  "owes ty W \<longleftrightarrow> (\<exists>x \<in># W. owed_by ty x)"

fun undoing :: "order_status \<Rightarrow> work \<Rightarrow> bool" where
  "undoing X (W_execute cs acc) \<longleftrightarrow> (\<forall>c \<in> set cs. case c of CHANGE_ORDER oc \<Rightarrow> oc_to oc = X
     | COMPENSATION _ \<Rightarrow> True | VERIFY_AUTHORIZATION _ \<Rightarrow> True | _ \<Rightarrow> False)"
| "undoing X (W_verify a) \<longleftrightarrow> True"
| "undoing X (W_verdict a v) \<longleftrightarrow> True"
| "undoing X (W_compensate c) \<longleftrightarrow> True"
| "undoing X (W_compensated c) \<longleftrightarrow> True"
| "undoing X _ \<longleftrightarrow> False"

fun changes_from :: "order_status option \<Rightarrow> work \<Rightarrow> bool" where
  "changes_from D (W_execute cs acc) \<longleftrightarrow> (\<exists>oc. CHANGE_ORDER oc \<in> set cs \<and> D \<in> Some ` set (oc_from oc))"
| "changes_from D _ \<longleftrightarrow> False"

definition changing :: "work multiset \<Rightarrow> order_status option \<Rightarrow> bool" where
  "changing W D \<longleftrightarrow> (\<exists>x \<in># W. changes_from D x)"

definition stock_gone :: "reservation_order_status option \<Rightarrow> bool" where
  "stock_gone T \<longleftrightarrow> T \<in> {Some R_RELEASED, Some R_FENCED, Some R_RESTOCKED}"

text \<open>
  The status \<open>D\<close> of the order row, the stock header \<open>T\<close>, whether the payment is taken, void or was never
  touched (and no pay call is under way), against the run's state and the work in flight.
\<close>

definition undone ::
    "order_status option \<Rightarrow> reservation_order_status option \<Rightarrow> bool \<Rightarrow> bool \<Rightarrow> order_status \<Rightarrow> work multiset \<Rightarrow> bool" where
  "undone D T void quiet X W \<longleftrightarrow>
     settled_badly (Some X) \<and> (\<forall>x \<in># W. undoing X x) \<and>
     (D = Some X \<or> X = REJECTED \<and> D = None \<or> D \<in> {Some PENDING, Some CONFIRMING} \<and> changing W D) \<and>
     (stock_gone T \<or> owes RELEASE_STOCK W \<or> owes RESTOCK W) \<and>
     (void \<or> owes CANCEL_PAYMENT W \<or> X = REJECTED \<and> quiet \<and> D \<in> {Some REJECTED, None})"

fun phase ::
    "checkout_step \<Rightarrow> order_status option \<Rightarrow> reservation_order_status option \<Rightarrow> bool \<Rightarrow> bool \<Rightarrow> bool \<Rightarrow>
     order_status option \<Rightarrow> work multiset \<Rightarrow> bool \<Rightarrow> bool" where
  "phase S_RESERVING D T paid void quiet X W tried \<longleftrightarrow>
     (\<not> tried \<and> core W = {#} \<and> D = Some RESERVING \<and> quiet) \<or>
     (tried \<and> (\<exists>r. core W = {#W_tried r#} \<and> (r = HELD \<longrightarrow> T \<noteq> None) \<and>
        (D = Some RESERVING \<and> quiet \<or> r = HELD \<and> D = Some PENDING \<or>
         r \<noteq> HELD \<and> D \<in> {Some REJECTED, None} \<and> quiet))) \<or>
     (tried \<and> (\<exists>r. core W = {#W_written r#} \<and> (r = HELD \<longrightarrow> T \<noteq> None) \<and>
        (r = HELD \<and> D = Some PENDING \<or> r \<noteq> HELD \<and> D \<in> {Some REJECTED, None} \<and> quiet)))"
| "phase S_AWAITING_AUTH D T paid void quiet X W tried \<longleftrightarrow>
     tried \<and> core W = {#} \<and> D = Some PENDING \<and> T \<noteq> None"
| "phase S_COMMITTING_STOCK D T paid void quiet X W tried \<longleftrightarrow>
     tried \<and> T \<noteq> None \<and>
     (core W = {#W_execute [changeOrder PENDING CONFIRMING None, COMMIT_STOCK] []#} \<and>
        D \<in> {Some PENDING, Some CONFIRMING} \<or>
      core W = {#W_execute [COMMIT_STOCK] []#} \<and> D = Some CONFIRMING \<or>
      (\<exists>r. core W = {#W_committed r [] []#} \<and> D = Some CONFIRMING \<and>
         (r = Cmd_CONFLICT \<and> stock_gone T \<or> r \<noteq> Cmd_CONFLICT \<and> T = Some R_COMMITTED)))"
| "phase S_CAPTURING D T paid void quiet X W tried \<longleftrightarrow>
     tried \<and> T = Some R_COMMITTED \<and> D = Some CONFIRMING \<and>
     (core W = {#W_execute [CAPTURE_PAYMENT] []#} \<or>
      (\<exists>r. core W = {#W_captured r [] []#} \<and> (r \<noteq> Sc_NOT_CAPTURABLE \<longrightarrow> paid)))"
| "phase S_COMPLETED D T paid void quiet X W tried \<longleftrightarrow>
     tried \<and> T = Some R_COMMITTED \<and> paid \<and>
     (core W = {#} \<and> D = Some PAID \<or>
      (\<exists>c. oc_from c = [CONFIRMING] \<and> oc_to c = PAID \<and> core W = {#W_execute [CHANGE_ORDER c] []#} \<and>
         D \<in> {Some CONFIRMING, Some PAID}))"
| "phase S_COMPENSATING D T paid void quiet X W tried \<longleftrightarrow> tried \<and> X \<noteq> None \<and> undone D T void quiet (the X) W"
| "phase S_COMPENSATED D T paid void quiet X W tried \<longleftrightarrow> tried \<and> X \<noteq> None \<and> undone D T void quiet (the X) W"

lemma core_simps [simp]:
  "core {#} = {#}"
  "core (add_mset x W) = (if noise x then core W else add_mset x (core W))"
  "core (V + W) = core V + core W"
  by (simp_all add: core_def)

lemma owes_simps [simp]:
  "owes ty {#} \<longleftrightarrow> False"
  "owes ty (add_mset x W) \<longleftrightarrow> owed_by ty x \<or> owes ty W"
  "owes ty (V + W) \<longleftrightarrow> owes ty V \<or> owes ty W"
  by (auto simp: owes_def)

lemma owes_spawned [simp]: "owes ty (image_mset W_compensate V) \<longleftrightarrow> (\<exists>c \<in># V. co_type c = ty)"
  by (auto simp: owes_def)

lemma noise_undoing: "noise x \<Longrightarrow> undoing X x"
  by (cases x) (auto simp: list_all_iff split: saga_command.splits)

lemma core_member: "x \<in># core W \<longleftrightarrow> x \<in># W \<and> \<not> noise x"
  by (auto simp: core_def)

lemma core_empty: "core W = {#} \<Longrightarrow> x \<in># W \<Longrightarrow> noise x"
  using core_member [of x W] by simp

lemma core_single: "core W = {#y#} \<Longrightarrow> x \<in># W \<Longrightarrow> \<not> noise x \<Longrightarrow> x = y"
  using core_member [of x W] by simp

lemma changing_simps [simp]:
  "changing {#} D \<longleftrightarrow> False"
  "changing (add_mset x W) D \<longleftrightarrow> changes_from D x \<or> changing W D"
  "changing (V + W) D \<longleftrightarrow> changing V D \<or> changing W D"
  by (auto simp: changing_def)

lemma changing_spawned [simp]: "\<not> changing (image_mset W_compensate V) D"
  by (auto simp: changing_def)

definition order_settled_away :: "order_status option \<Rightarrow> order_status option \<Rightarrow> bool" where
  "order_settled_away D D' \<longleftrightarrow> D' = D \<or> D = Some REJECTED \<and> D' = None"

lemma same_order [simp]: "order_settled_away D D"
  by (simp add: order_settled_away_def)

lemma undone_others:
  assumes u: "undone D T void quiet X W"
    and D: "order_settled_away D D'" and T: "hold_started T T' \<or> hold_lapsed T T'"
    and "void \<Longrightarrow> void'" "quiet \<Longrightarrow> quiet'"
  shows "undone D' T' void' quiet' X W"
proof -
  have "stock_gone T \<Longrightarrow> stock_gone T'" using T by (auto simp: stock_gone_def hold_started_def hold_lapsed_def)
  moreover have "D' = D \<or> X = REJECTED \<and> D' = None \<and> D = Some REJECTED"
    using D u by (auto simp: order_settled_away_def undone_def)
  ultimately show ?thesis using u assms(4,5) unfolding undone_def by blast
qed

text \<open>What the others do keeps every phase.\<close>

lemma phase_others:
  assumes "phase st D T paid void quiet X W tried"
    and "order_settled_away D D'" and "hold_started T T' \<or> hold_lapsed T T'"
    and "paid \<Longrightarrow> paid'" "void \<Longrightarrow> void'" "quiet \<Longrightarrow> quiet'"
  shows "phase st D' T' paid' void' quiet' X W tried"
proof (cases "st \<in> {S_COMPENSATING, S_COMPENSATED}")
  case True
  then show ?thesis using assms undone_others [of D T void quiet "the X" W D' T' void' quiet'] by auto
next
  case False
  have T: "T \<noteq> None \<Longrightarrow> T' \<noteq> None" "T = Some R_COMMITTED \<Longrightarrow> T' = Some R_COMMITTED" "stock_gone T \<Longrightarrow> stock_gone T'"
    using assms(3) by (auto simp: stock_gone_def hold_started_def hold_lapsed_def)
  have D: "D' = D \<or> D = Some REJECTED \<and> D' = None" using assms(2) by (simp add: order_settled_away_def)
  show ?thesis
  proof (cases "D = Some REJECTED")
    case True
    then show ?thesis using False D assms(1) \<open>quiet \<Longrightarrow> quiet'\<close> T(1) by (cases st) auto
  next
    case other: False
    then have "D' = D" using D by simp
    show ?thesis
    proof (cases st)
      case S_RESERVING
      show ?thesis using assms(1) T(1) \<open>quiet \<Longrightarrow> quiet'\<close> unfolding S_RESERVING \<open>D' = D\<close> phase.simps by blast
    next
      case S_COMMITTING_STOCK
      show ?thesis using assms(1) T unfolding S_COMMITTING_STOCK \<open>D' = D\<close> phase.simps by blast
    next
      case S_CAPTURING
      show ?thesis using assms(1,4) T(2) unfolding S_CAPTURING \<open>D' = D\<close> phase.simps by blast
    next
      case S_COMPLETED
      show ?thesis using assms(1,4) T(2) unfolding S_COMPLETED \<open>D' = D\<close> phase.simps by blast
    qed (use False assms(1) T(1) \<open>D' = D\<close> in simp_all)
  qed
qed

definition in_phase ::
    "saga_state \<Rightarrow> order_status option \<Rightarrow> reservation_order_status option \<Rightarrow> bool \<Rightarrow> bool \<Rightarrow> bool \<Rightarrow>
     work multiset \<Rightarrow> bool \<Rightarrow> bool" where
  "in_phase st D T paid void quiet W tried \<longleftrightarrow> ss_mode st = M_checkout \<and>
     phase (ss_step st) D T paid void quiet (ss_orderStatus st) W tried"

lemma not_tried: "\<not> phase st D T paid void quiet X W False \<or> st = S_RESERVING"
  by (cases st) simp_all

lemma phase_try:
  assumes "in_phase st D T paid void quiet W False" and "r = HELD \<Longrightarrow> T' \<noteq> None"
  shows "in_phase st D T' paid void quiet (add_mset (W_tried r) W) True"
  using assms not_tried [of "ss_step st" D T paid void quiet "ss_orderStatus st" W]
  by (auto simp: in_phase_def)

lemma undone_core:
  assumes "core W = {#}" "x \<in># W"
  shows "undoing X x"
  using core_empty [OF assms] by (rule noise_undoing)

lemma phase_tried:
  assumes ph: "in_phase st D T paid void quiet (add_mset (W_tried r) W) tried" and D': "D' = after_try r D"
  shows "in_phase st D' T paid void quiet (add_mset (W_written r) W) tried"
proof -
  have "ss_step st = S_RESERVING"
    using ph by (cases "ss_step st") (auto simp: in_phase_def undone_def)
  then show ?thesis
    using ph by (cases "r = HELD") (auto simp: in_phase_def D' after_try_def)
qed

lemma phase_written:
  assumes ph: "in_phase st D T paid void quiet (add_mset (W_written r) W) tried" and t: "t = onTryResult st r"
  shows "in_phase (fst t) D T paid void quiet (spawned t W) tried"
proof -
  have "ss_step st = S_RESERVING"
    using ph by (cases "ss_step st") (auto simp: in_phase_def undone_def)
  then show ?thesis
    using ph undone_core [of W]
    by (cases "r = HELD")
       (auto simp: in_phase_def t saga_defs spawned_def undone_def settled_badly_def)
qed

lemma phase_tried_wasted:
  assumes "in_phase st D T paid void quiet W tried" "W_tried r \<in># W" and D': "D' = after_try r D \<or> D' = D"
  shows "in_phase st D' T paid void quiet W tried"
proof -
  have "ss_step st = S_RESERVING"
    using assms(1,2) core_single [OF _ assms(2)] core_empty [OF _ assms(2)]
    by (cases "ss_step st") (auto simp: in_phase_def undone_def)
  moreover have "core W = {#W_tried r'#} \<Longrightarrow> r' = r" for r'
    using core_single [of W "W_tried r'", OF _ assms(2)] by simp
  ultimately show ?thesis
    using assms(1) D' core_empty [OF _ assms(2)] by (auto simp: in_phase_def after_try_def)
qed

lemma phase_change_compensating:
  assumes u: "undone D T void quiet X (add_mset (W_execute (CHANGE_ORDER c # cs) acc) W)"
    and D': "D' = after_change c D"
  shows "undone D' T void quiet X (add_mset (W_execute cs acc) W)"
  using u by (auto simp: undone_def D' after_change_def)

lemma phase_change:
  assumes ph: "in_phase st D T paid void quiet (add_mset (W_execute (CHANGE_ORDER c # cs) acc) W) tried"
    and D': "D' = after_change c D"
  shows "in_phase st D' T paid void quiet (add_mset (W_execute cs acc) W) tried"
proof (cases "ss_step st \<in> {S_COMPENSATING, S_COMPENSATED}")
  case True
  then show ?thesis using ph phase_change_compensating [OF _ D'] by (auto simp: in_phase_def)
next
  case False
  then show ?thesis using ph
    by (cases "ss_step st") (auto simp: in_phase_def D' after_change_def changeOrder_def)
qed

lemma core_is:
  assumes "phase st D T paid void quiet X W tried" "st \<notin> {S_COMPENSATING, S_COMPENSATED}"
    and x: "x \<in># W" "\<not> noise x"
  shows "core W = {#x#}"
proof -
  have "core W = {#} \<or> (\<exists>y. core W = {#y#})" using assms(1,2) by (cases st) auto
  then obtain y where y: "core W = {#y#}" using core_empty [OF _ x(1)] x(2) by blast
  then have "x = y" using core_single [OF y x] by simp
  with y show ?thesis by simp
qed

lemma phase_change_wasted:
  assumes ph: "in_phase st D T paid void quiet W tried" and x: "W_execute (CHANGE_ORDER c # cs) acc \<in># W"
    and D': "D' = after_change c D \<or> D' = D"
  shows "in_phase st D' T paid void quiet W tried"
proof (cases "ss_step st \<in> {S_COMPENSATING, S_COMPENSATED}")
  case True
  have "undone D' T void quiet X W" if u: "undone D T void quiet X W" for X
  proof -
    have "undoing X (W_execute (CHANGE_ORDER c # cs) acc)" using u x unfolding undone_def by blast
    then have to_X: "oc_to c = X" by simp
    consider "D' = D" | "D' = Some X" "D \<in> Some ` set (oc_from c)"
      using D' to_X by (auto simp: after_change_def split: if_splits)
    then show ?thesis
    proof cases
      case 2
      have "D' \<in> {Some REJECTED, None}" if "X = REJECTED" using that 2 by simp
      then show ?thesis using u 2(1) unfolding undone_def by blast
    qed (use u in simp)
  qed
  then show ?thesis using True ph by (auto simp: in_phase_def)
next
  case False
  have "core W = {#W_execute (CHANGE_ORDER c # cs) acc#}"
    using ph False x by (intro core_is [of "ss_step st" D T paid void quiet "ss_orderStatus st" W tried])
      (simp_all add: in_phase_def)
  then show ?thesis using ph False D'
    by (cases "ss_step st") (auto simp: in_phase_def after_change_def changeOrder_def)
qed

lemma gone_fence: "stock_gone T \<Longrightarrow> op \<noteq> Op_commit \<Longrightarrow> stock_gone (snd (stock_fence op T))"
  by (auto simp: stock_gone_def; cases op; simp)

lemma fence_kept: "T \<noteq> None \<Longrightarrow> snd (stock_fence op T) \<noteq> None"
  by (cases T; cases "the T"; cases op; simp)

text \<open>Steps that only shuffle work.\<close>

lemma phase_verify:
  assumes ph: "in_phase st D T paid void quiet (add_mset (W_execute (VERIFY_AUTHORIZATION a # cs) acc) W) tried"
  shows "in_phase st D T paid void quiet (add_mset (W_verify a) (add_mset (W_execute cs acc) W)) tried"
proof (cases "ss_step st \<in> {S_COMPENSATING, S_COMPENSATED}")
  case True
  have "undone D T void quiet X (add_mset (W_execute (VERIFY_AUTHORIZATION a # cs) acc) W) \<Longrightarrow>
      undone D T void quiet X (add_mset (W_verify a) (add_mset (W_execute cs acc) W))" for X
    by (simp add: undone_def)
  then show ?thesis using True ph by (auto simp: in_phase_def)
next
  case False
  then show ?thesis using ph by (cases "ss_step st") (auto simp: in_phase_def changeOrder_def split: if_splits)
qed

lemma phase_collect:
  assumes ph: "in_phase st D T paid void quiet (add_mset (W_execute (COMPENSATION c # cs) acc) W) tried"
  shows "in_phase st D T paid void quiet (add_mset (W_execute cs (acc @ [c])) W) tried"
proof (cases "ss_step st \<in> {S_COMPENSATING, S_COMPENSATED}")
  case True
  have "owed_by ty (W_execute (COMPENSATION c # cs) acc) = owed_by ty (W_execute cs (acc @ [c]))" for ty
    by auto
  then have "undone D T void quiet X (add_mset (W_execute (COMPENSATION c # cs) acc) W) \<Longrightarrow>
      undone D T void quiet X (add_mset (W_execute cs (acc @ [c])) W)" for X
    by (simp add: undone_def del: owed_by.simps)
  then show ?thesis using True ph by (auto simp: in_phase_def)
next
  case False
  then show ?thesis using ph by (cases "ss_step st") (auto simp: in_phase_def changeOrder_def)
qed

lemma phase_spawn:
  assumes ph: "in_phase st D T paid void quiet (add_mset (W_execute [] acc) W) tried"
  shows "in_phase st D T paid void quiet (mset (map W_compensate acc) + W) tried"
proof (cases "ss_step st \<in> {S_COMPENSATING, S_COMPENSATED}")
  case True
  have "undone D T void quiet X (add_mset (W_execute [] acc) W) \<Longrightarrow>
      undone D T void quiet X (mset (map W_compensate acc) + W)" for X
    by (auto simp: undone_def list_ex_iff)
  then show ?thesis using True ph by (auto simp: in_phase_def)
next
  case False
  have "acc = []"
    using ph False by (cases "ss_step st") (auto simp: in_phase_def changeOrder_def split: if_splits)
  then show ?thesis using ph False by (cases "ss_step st") (auto simp: in_phase_def)
qed

text \<open>Commit and capture.\<close>

lemma phase_commit:
  assumes ph: "in_phase st D T paid void quiet (add_mset (W_execute (COMMIT_STOCK # cs) acc) W) tried"
    and f: "(r, T') = stock_fence Op_commit T"
  shows "in_phase st D T' paid void quiet (add_mset (W_committed r cs acc) W) tried"
proof -
  have st: "ss_step st = S_COMMITTING_STOCK" "cs = []" "acc = []" "core W = {#}" "D = Some CONFIRMING" "T \<noteq> None"
      "tried" "ss_mode st = M_checkout"
    using ph by (cases "ss_step st"; auto simp: in_phase_def undone_def changeOrder_def)+
  have "r = Cmd_CONFLICT \<and> stock_gone T' \<or> r \<noteq> Cmd_CONFLICT \<and> T' = Some R_COMMITTED"
    using f st(6) by (cases "the T") (auto simp: stock_gone_def)
  then show ?thesis
    using st by (auto simp: in_phase_def stock_gone_def)
qed

lemma phase_committed:
  assumes ph: "in_phase st D T paid void quiet (add_mset (W_committed r cs acc) W) tried"
    and t: "t = onCommitResult st r"
  shows "in_phase (fst t) D T paid void quiet (spawned t (add_mset (W_execute cs acc) W)) tried"
proof -
  have st: "ss_step st = S_COMMITTING_STOCK" "cs = []" "acc = []" "core W = {#}" "D = Some CONFIRMING"
      "r = Cmd_CONFLICT \<and> stock_gone T \<or> r \<noteq> Cmd_CONFLICT \<and> T = Some R_COMMITTED" "tried" "ss_mode st = M_checkout"
    using ph by (cases "ss_step st"; auto simp: in_phase_def undone_def changeOrder_def)+
  then show ?thesis
    using undone_core [OF st(4)]
    by (auto simp: in_phase_def t saga_defs spawned_def undone_def settled_badly_def split: if_splits)
qed

lemma phase_capture:
  assumes ph: "in_phase st D T paid void quiet (add_mset (W_execute (CAPTURE_PAYMENT # cs) acc) W) tried"
    and paid: "r \<noteq> Sc_NOT_CAPTURABLE \<Longrightarrow> paid'"
  shows "in_phase st D T paid' void' quiet' (add_mset (W_captured r cs acc) W) tried"
  using ph paid by (cases "ss_step st") (auto simp: in_phase_def undone_def changeOrder_def)

lemma phase_captured:
  assumes ph: "in_phase st D T paid void quiet (add_mset (W_captured r cs acc) W) tried"
    and t: "t = onCaptureResult st r"
  shows "in_phase (fst t) D T paid void quiet (spawned t (add_mset (W_execute cs acc) W)) tried"
proof -
  have st: "ss_step st = S_CAPTURING" "cs = []" "acc = []" "core W = {#}" "D = Some CONFIRMING" "T = Some R_COMMITTED"
      "r \<noteq> Sc_NOT_CAPTURABLE \<longrightarrow> paid" "tried" "ss_mode st = M_checkout"
    using ph by (cases "ss_step st"; auto simp: in_phase_def undone_def changeOrder_def)+
  then show ?thesis
    using undone_core [OF st(4)]
    by (auto simp: in_phase_def t saga_defs spawned_def undone_def settled_badly_def)
qed

text \<open>Compensations: one that returned is no longer owed, but what it was for has happened.\<close>

lemma compensating_work:
  assumes "in_phase st D T paid void quiet W tried" "W_compensate c \<in># W"
  shows "ss_step st \<in> {S_COMPENSATING, S_COMPENSATED}"
proof (rule ccontr)
  assume no: "ss_step st \<notin> {S_COMPENSATING, S_COMPENSATED}"
  have "core W = {#W_compensate c#}"
    using assms no by (intro core_is [of "ss_step st" D T paid void quiet "ss_orderStatus st" W tried])
      (simp_all add: in_phase_def)
  then show False using assms(1) no by (cases "ss_step st") (auto simp: in_phase_def)
qed

lemma in_phase_undone:
  "ss_step st \<in> {S_COMPENSATING, S_COMPENSATED} \<Longrightarrow>
     in_phase st D T paid void quiet W tried \<longleftrightarrow> ss_mode st = M_checkout \<and> tried \<and>
       ss_orderStatus st \<noteq> None \<and> undone D T void quiet (the (ss_orderStatus st)) W"
  by (auto simp: in_phase_def)

lemma done_keeps_step:
  "ss_step st \<in> {S_COMPENSATING, S_COMPENSATED} \<Longrightarrow> t = onCompensationDone st i \<Longrightarrow>
     ss_step (fst t) \<in> {S_COMPENSATING, S_COMPENSATED} \<and> ss_mode (fst t) = ss_mode st \<and>
     ss_orderStatus (fst t) = ss_orderStatus st \<and> snd t = []"
  by (auto simp: onCompensationDone_def noop_def Let_def)

lemma phase_compensated_stock:
  assumes ph: "in_phase st D T paid void quiet (add_mset (W_compensate c) W) tried"
    and c: "co_type c = RELEASE_STOCK \<and> op = Op_release \<or> co_type c = RESTOCK \<and> op = Op_restock"
    and f: "(r, T') = stock_fence op T" and r: "stock_compensated r"
  shows "in_phase st D T' paid void quiet (add_mset (W_compensated c) W) tried"
proof -
  have st: "ss_step st \<in> {S_COMPENSATING, S_COMPENSATED}"
    using compensating_work [OF ph, of c] by simp
  have "stock_gone T'"
    using c f r by (cases T; cases "the T") (auto simp: stock_gone_def stock_compensated_def)
  then have "undone D T void quiet X (add_mset (W_compensate c) W) \<Longrightarrow>
      undone D T' void quiet X (add_mset (W_compensated c) W)" for X
    using c by (auto simp: undone_def)
  then show ?thesis using ph by (simp add: in_phase_undone [OF st])
qed

lemma phase_compensated_payment:
  assumes ph: "in_phase st D T paid void quiet (add_mset (W_compensate c) W) tried"
    and c: "co_type c = CANCEL_PAYMENT" and v: "void'"
  shows "in_phase st D T paid' void' quiet' (add_mset (W_compensated c) W) tried"
proof -
  have st: "ss_step st \<in> {S_COMPENSATING, S_COMPENSATED}"
    using compensating_work [OF ph, of c] by simp
  have "undone D T void quiet X (add_mset (W_compensate c) W) \<Longrightarrow>
      undone D T void' quiet' X (add_mset (W_compensated c) W)" for X
    using c v by (auto simp: undone_def)
  then show ?thesis using ph by (simp add: in_phase_undone [OF st])
qed

lemma phase_compensated:
  assumes ph: "in_phase st D T paid void quiet (add_mset (W_compensated c) W) tried"
    and t: "t = onCompensationDone st (co_id c)"
  shows "in_phase (fst t) D T paid void quiet (spawned t W) tried"
proof -
  have st: "ss_step st \<in> {S_COMPENSATING, S_COMPENSATED}"
    using ph by (cases "ss_step st") (auto simp: in_phase_def)
  have "undone D T void quiet X (add_mset (W_compensated c) W) \<Longrightarrow> undone D T void quiet X W" for X
    by (auto simp: undone_def)
  then show ?thesis
    using ph done_keeps_step [OF st t] in_phase_undone [of "fst t"] by (simp add: in_phase_undone [OF st] spawned_def)
qed

text \<open>Signals, verifications, the cancel update and the deadline.\<close>

lemma phase_verdict:
  assumes ph: "in_phase st D T paid void quiet (add_mset (W_verify a) W) tried"
  shows "in_phase st D T paid void quiet (add_mset (W_verdict a v) W) tried"
proof (cases "ss_step st \<in> {S_COMPENSATING, S_COMPENSATED}")
  case True
  have "undone D T void quiet X (add_mset (W_verify a) W) \<Longrightarrow> undone D T void quiet X (add_mset (W_verdict a v) W)" for X
    by (simp add: undone_def)
  then show ?thesis using True ph by (auto simp: in_phase_def)
next
  case False
  then show ?thesis using ph by (cases "ss_step st") (auto simp: in_phase_def)
qed

lemma phase_verified:
  assumes ph: "in_phase st D T paid void quiet (add_mset (W_verdict a v) W) tried"
    and t: "t = fst (onAuthorizationVerified st a v)"
  shows "in_phase (fst t) D T paid void quiet (spawned t W) tried"
proof (cases "ss_step st \<in> {S_COMPENSATING, S_COMPENSATED}")
  case True
  have "undone D T void quiet X (add_mset (W_verdict a v) W) \<Longrightarrow> undone D T void quiet X W" for X
    by (auto simp: undone_def)
  then show ?thesis using True ph by (auto simp: in_phase_def t saga_defs spawned_def)
next
  case False
  then show ?thesis using ph
    by (cases "ss_step st") (auto simp: in_phase_def t saga_defs spawned_def)
qed

lemma phase_authorized:
  assumes ph: "in_phase st D T paid void quiet W tried" and t: "t = fst (onAuthorized st a tot cur)"
  shows "in_phase (fst t) D T paid void quiet (spawned t W) tried"
proof (cases "ss_step st \<in> {S_COMPENSATING, S_COMPENSATED}")
  case True
  have "undone D T void quiet X W \<Longrightarrow> undone D T void quiet X (add_mset (W_execute [COMPENSATION c] []) W)" for X c
    by (auto simp: undone_def)
  then show ?thesis using True ph by (auto simp: in_phase_def t saga_defs spawned_def)
next
  case False
  then show ?thesis using ph
    by (cases "ss_step st") (auto simp: in_phase_def t saga_defs spawned_def)
qed

lemma phase_abandon:
  assumes ph: "in_phase st D T paid void quiet W tried"
    and t: "t = onCancelRequested st by_whom \<or> t = onDeadline st"
  shows "in_phase (fst t) D T paid void quiet (spawned t W) tried"
proof (cases "ss_step st = S_AWAITING_AUTH")
  case False
  then have "fst t = st" "spawned t W = W" using t by (auto simp: saga_defs spawned_def)
  then show ?thesis using ph by simp
next
  case True
  then have ph': "tried" "core W = {#}" "D = Some PENDING" "ss_mode st = M_checkout" using ph by (auto simp: in_phase_def)
  then show ?thesis using True undone_core [OF ph'(2)] t
    by (auto simp: in_phase_def saga_defs spawned_def undone_def settled_badly_def)
qed

text \<open>An attempt at a stock command whose answer did not count.\<close>

lemma phase_command_wasted:
  assumes ph: "in_phase st D T paid void quiet W tried"
    and x: "op = Op_commit \<and> W_execute (COMMIT_STOCK # cs) acc \<in># W \<or> op \<noteq> Op_commit \<and> W_compensate c \<in># W"
    and T': "T' = snd (stock_fence op T)"
  shows "in_phase st D T' paid void quiet W tried"
proof (cases "op = Op_commit")
  case True
  have "ss_step st \<notin> {S_COMPENSATING, S_COMPENSATED}"
  proof
    assume st: "ss_step st \<in> {S_COMPENSATING, S_COMPENSATED}"
    then have "\<forall>x \<in># W. undoing (the (ss_orderStatus st)) x"
      using ph by (simp add: in_phase_undone [OF st] undone_def)
    then have "undoing (the (ss_orderStatus st)) (W_execute (COMMIT_STOCK # cs) acc)" using x True by blast
    then show False by simp
  qed
  moreover have "core W = {#W_execute (COMMIT_STOCK # cs) acc#}"
    using ph x True calculation by (intro core_is [of "ss_step st" D T paid void quiet "ss_orderStatus st" W tried])
      (simp_all add: in_phase_def)
  ultimately show ?thesis using ph fence_kept [of T op] T'
    by (cases "ss_step st") (auto simp: in_phase_def changeOrder_def)
next
  case False
  have st: "ss_step st \<in> {S_COMPENSATING, S_COMPENSATED}"
    using compensating_work [OF ph] x False by blast
  have "undone D T void quiet X W \<Longrightarrow> undone D T' void quiet X W" for X
    using gone_fence [OF _ False, of T] T' by (auto simp: undone_def)
  then show ?thesis using ph by (simp add: in_phase_undone [OF st])
qed

lemma phase_pay:
  "in_phase st (Some PENDING) T paid void quiet W tried \<Longrightarrow> in_phase st (Some PENDING) T paid void quiet' W tried"
  by (cases "ss_step st") (auto simp: in_phase_def undone_def)

section \<open>The contracts of the three ports\<close>

locale order_port =
  fixes order_ok :: "'o \<Rightarrow> bool"
    and status :: "'o \<Rightarrow> order_status option"
    and record_try :: "reserve_outcome \<Rightarrow> 'o \<Rightarrow> saga_write option \<Rightarrow> 'o \<Rightarrow> bool"
    and change :: "order_change \<Rightarrow> 'o \<Rightarrow> saga_write option \<Rightarrow> 'o \<Rightarrow> bool"
    and other_orders :: "'o \<Rightarrow> 'o \<Rightarrow> bool"
  assumes try_recorded: "order_ok s \<Longrightarrow> record_try r s a s' \<Longrightarrow>
      order_ok s' \<and> (status s' = after_try r (status s) \<or> a = None \<and> status s' = status s)"
    and changed: "order_ok s \<Longrightarrow> change c s a s' \<Longrightarrow>
      order_ok s' \<and> (status s' = after_change c (status s) \<or> a = None \<and> status s' = status s)"
    and other_orders: "order_ok s \<Longrightarrow> other_orders s s' \<Longrightarrow> order_ok s' \<and> order_settled_away (status s) (status s')"

locale stock_port =
  fixes stock_ok :: "'s \<Rightarrow> bool"
    and header :: "'s \<Rightarrow> reservation_order_status option"
    and try_reserve :: "(string \<times> int) list \<Rightarrow> int \<Rightarrow> 's \<Rightarrow> try_outcome option \<Rightarrow> 's \<Rightarrow> bool"
    and command :: "reservation_command \<Rightarrow> 's \<Rightarrow> command_outcome option \<Rightarrow> 's \<Rightarrow> bool"
    and other_stock :: "'s \<Rightarrow> 's \<Rightarrow> bool"
  assumes tried: "stock_ok s \<Longrightarrow> try_reserve ls until s a s' \<Longrightarrow>
      stock_ok s' \<and> hold_started (header s) (header s') \<and> (a = Some Try_RESERVED \<longrightarrow> header s' = Some R_HELD)"
    and commanded: "stock_ok s \<Longrightarrow> command op s b s' \<Longrightarrow>
      stock_ok s' \<and> (case b of
         Some out \<Rightarrow> (out, header s') = stock_fence op (header s)
       | None \<Rightarrow> header s' = header s \<or> header s' = snd (stock_fence op (header s)))"
    and other_stock: "stock_ok s \<Longrightarrow> other_stock s s' \<Longrightarrow>
      stock_ok s' \<and> (hold_started (header s) (header s') \<or> hold_lapsed (header s) (header s'))"

locale payment_port =
  fixes payment_ok :: "'p \<Rightarrow> bool"
    and taken :: "'p \<Rightarrow> bool" and void :: "'p \<Rightarrow> bool" and untouched :: "'p \<Rightarrow> bool"
    and standing :: "'p \<Rightarrow> payment_standing"
    and capture :: "'p \<Rightarrow> capture_outcome option \<Rightarrow> 'p \<Rightarrow> bool"
    and cancel :: "'p \<Rightarrow> cancel_outcome option \<Rightarrow> 'p \<Rightarrow> bool"
    and open_session :: "'p \<Rightarrow> 'p \<Rightarrow> bool"
    and other_payments :: "'p \<Rightarrow> 'p \<Rightarrow> bool"
  assumes settled_stay: "payment_ok s \<Longrightarrow>
      capture s a s' \<or> cancel s b s' \<or> open_session s s' \<or> other_payments s s' \<Longrightarrow>
      payment_ok s' \<and> (taken s \<longrightarrow> taken s') \<and> (void s \<longrightarrow> void s')"
    and untouched_stays: "payment_ok s \<Longrightarrow> capture s a s' \<or> cancel s b s' \<or> other_payments s s' \<Longrightarrow>
      untouched s \<Longrightarrow> untouched s'"
    and captured: "payment_ok s \<Longrightarrow> capture s (Some r) s' \<Longrightarrow> r \<in> {Cap_CAPTURED, Cap_IDEMPOTENT} \<Longrightarrow> taken s'"
    and cancelled: "payment_ok s \<Longrightarrow> cancel s (Some out) s' \<Longrightarrow> payment_compensated out \<Longrightarrow> void s'"
    and taken_standing: "payment_ok s \<Longrightarrow> taken s \<Longrightarrow> ps_header (standing s) = Some P_CAPTURED"
    and clear_standing: "payment_ok s \<Longrightarrow> void s \<or> untouched s \<Longrightarrow>
      ps_header (standing s) \<noteq> Some P_CAPTURED \<and> \<not> ps_hasAuthorizedAttempt (standing s) \<and>
      \<not> ps_hasSucceededAttempt (standing s)"

locale checkout_parties =
  order_port order_ok "cp_status P o1" "\<lambda>r. cp_tryResult P (try_write o1 r)"
    "\<lambda>c. cp_change P (change_input o1 c)" "cp_otherOrders P o1" +
  stock_port stock_ok header "cp_tryReserve P o1" "\<lambda>op. cp_command P op o1" "cp_otherStock P o1" +
  payment_port payment_ok taken void untouched "cp_standing P o1" "cp_capture P o1" "cp_cancel P o1"
    "cp_openSession P o1" "cp_otherPayments P o1"
  for P :: "('o, 's, 'p) checkout_ports" and o1 :: string
    and order_ok :: "'o \<Rightarrow> bool" and stock_ok :: "'s \<Rightarrow> bool"
    and header :: "'s \<Rightarrow> reservation_order_status option"
    and payment_ok :: "'p \<Rightarrow> bool" and taken :: "'p \<Rightarrow> bool" and void :: "'p \<Rightarrow> bool" and untouched :: "'p \<Rightarrow> bool"
begin

definition agrees :: "('o, 's, 'p) world \<Rightarrow> bool" where
  "agrees w \<longleftrightarrow> order_ok (w_orders w) \<and> stock_ok (w_stock w) \<and> payment_ok (w_pay w) \<and>
     in_phase (w_saga w) (cp_status P o1 (w_orders w)) (header (w_stock w)) (taken (w_pay w)) (void (w_pay w))
       (untouched (w_pay w) \<and> w_payCalls w = 0) (w_work w) (w_tryRun w)"

lemma agrees_apply:
  "agrees (wf_apply t w) \<longleftrightarrow> order_ok (w_orders w) \<and> stock_ok (w_stock w) \<and> payment_ok (w_pay w) \<and>
     in_phase (fst t) (cp_status P o1 (w_orders w)) (header (w_stock w)) (taken (w_pay w)) (void (w_pay w))
       (untouched (w_pay w) \<and> w_payCalls w = 0) (spawned t (w_work w)) (w_tryRun w)"
  by (simp add: agrees_def wf_apply_def)

lemma attempt_held:
  assumes "attemptTry P inp s r s'" "si_orderId inp = o1" "stock_ok s"
  shows "stock_ok s' \<and> hold_started (header s) (header s') \<and> (r = HELD \<longrightarrow> header s' \<noteq> None)"
  using assms
proof (induction rule: attemptTry.induct)
  case (try_answered now t s r s')
  then show ?case using tried [of s "si_lines inp" "si_holdUntil inp" "Some r" s'] by (cases r) auto
next
  case (try_failed now t s a s' outcome)
  then show ?case using tried [of s "si_lines inp" "si_holdUntil inp" a s'] by auto
qed (simp add: hold_started_def)

lemma commanded_header:
  assumes "stock_ok s" "cp_command P op o1 s b s'"
  shows "stock_ok s' \<and> (header s' = header s \<or> header s' = snd (stock_fence op (header s)))"
proof (cases b)
  case (Some out)
  then have "(out, header s') = stock_fence op (header s)" using commanded [OF assms] by simp
  then have "header s' = snd (stock_fence op (header s))" by (metis snd_conv)
  then show ?thesis using commanded [OF assms] by simp
qed (use commanded [OF assms] in simp)

lemma wasted_agrees:
  assumes "wasted P o1 x (ord, s, p) (ord', s', p')"
    and ok: "order_ok ord" "stock_ok s" "payment_ok p" and x: "x \<in># W"
    and ph: "in_phase st (cp_status P o1 ord) (header s) (taken p) (void p) (untouched p \<and> n = 0) W tried"
  shows "order_ok ord' \<and> stock_ok s' \<and> payment_ok p' \<and>
    in_phase st (cp_status P o1 ord') (header s') (taken p') (void p') (untouched p' \<and> n = 0) W tried"
  using assms(1)
proof (cases rule: wasted.cases)
  case (wasted_result r a)
  then have "order_ok ord'" "cp_status P o1 ord' = after_try r (cp_status P o1 ord) \<or> cp_status P o1 ord' = cp_status P o1 ord"
    using try_recorded [of ord r a ord'] ok by auto
  then show ?thesis using phase_tried_wasted [OF ph, of r "cp_status P o1 ord'"] x ok wasted_result by simp
next
  case (wasted_change c a cs acc)
  then have "order_ok ord'" "cp_status P o1 ord' = after_change c (cp_status P o1 ord) \<or> cp_status P o1 ord' = cp_status P o1 ord"
    using changed [of ord c a ord'] ok by auto
  then show ?thesis using phase_change_wasted [OF ph, of c cs acc "cp_status P o1 ord'"] x ok wasted_change by simp
next
  case (wasted_commit a cs acc)
  have "stock_ok s'" "header s' = header s \<or> header s' = snd (stock_fence Op_commit (header s))"
    using commanded_header [of s Op_commit a s'] ok wasted_commit by simp_all
  then show ?thesis
    using phase_command_wasted [OF ph, of Op_commit cs acc _ "header s'"] ph x ok wasted_commit by auto
next
  case (wasted_capture a cs acc)
  then show ?thesis
    using settled_stay [of p a p'] untouched_stays [of p a p'] ok
      phase_others [of "ss_step st" "cp_status P o1 ord" "header s" "taken p" "void p" "untouched p \<and> n = 0"
        "ss_orderStatus st" W tried "cp_status P o1 ord" "header s" "taken p'" "void p'" "untouched p' \<and> n = 0"] ph
    by (auto simp: in_phase_def order_settled_away_def hold_started_def)
next
  case (wasted_release c a)
  have "stock_ok s'" "header s' = header s \<or> header s' = snd (stock_fence Op_release (header s))"
    using commanded_header [of s Op_release a s'] ok wasted_release by simp_all
  then show ?thesis
    using phase_command_wasted [OF ph, of Op_release _ _ c "header s'"] ph x ok wasted_release by auto
next
  case (wasted_restock c a)
  have "stock_ok s'" "header s' = header s \<or> header s' = snd (stock_fence Op_restock (header s))"
    using commanded_header [of s Op_restock a s'] ok wasted_restock by simp_all
  then show ?thesis
    using phase_command_wasted [OF ph, of Op_restock _ _ c "header s'"] ph x ok wasted_restock by auto
next
  case (wasted_cancel c a)
  then show ?thesis
    using settled_stay [of p _ p' a] untouched_stays [of p _ p' a] ok
      phase_others [of "ss_step st" "cp_status P o1 ord" "header s" "taken p" "void p" "untouched p \<and> n = 0"
        "ss_orderStatus st" W tried "cp_status P o1 ord" "header s" "taken p'" "void p'" "untouched p' \<and> n = 0"] ph
    by (auto simp: in_phase_def order_settled_away_def hold_started_def)
qed

text \<open>The state of one party moves to one the phase cannot tell apart, or only for the better.\<close>

lemma others_agree:
  assumes w: "agrees w"
    and "order_ok ord'" "stock_ok s'" "payment_ok p'"
    and "order_settled_away (cp_status P o1 (w_orders w)) (cp_status P o1 ord')"
    and "hold_started (header (w_stock w)) (header s') \<or> hold_lapsed (header (w_stock w)) (header s')"
    and "taken (w_pay w) \<Longrightarrow> taken p'" "void (w_pay w) \<Longrightarrow> void p'"
    and "untouched (w_pay w) \<and> w_payCalls w = 0 \<Longrightarrow> untouched p' \<and> n = 0"
  shows "agrees (w\<lparr>w_orders := ord', w_stock := s', w_pay := p', w_payCalls := n\<rparr>)"
  using assms phase_others [of "ss_step (w_saga w)" "cp_status P o1 (w_orders w)" "header (w_stock w)"
      "taken (w_pay w)" "void (w_pay w)" "untouched (w_pay w) \<and> w_payCalls w = 0" "ss_orderStatus (w_saga w)"
      "w_work w" "w_tryRun w" "cp_status P o1 ord'" "header s'" "taken p'" "void p'" "untouched p' \<and> n = 0"]
  by (simp add: agrees_def in_phase_def)

lemma same_header [simp]: "hold_started T T"
  by (simp add: hold_started_def)

lemma compensate_agrees:
  assumes "compensate P o1 c (s, p) (s', p')"
    and ok: "stock_ok s" "payment_ok p"
    and ph: "in_phase st D (header s) (taken p) (void p) (untouched p \<and> n = 0) (add_mset (W_compensate c) W) tried"
  shows "stock_ok s' \<and> payment_ok p' \<and>
    in_phase st D (header s') (taken p') (void p') (untouched p' \<and> n = 0) (add_mset (W_compensated c) W) tried"
  using assms(1)
proof (cases rule: compensate.cases)
  case (releaseStock r)
  then show ?thesis
    using commanded [of s Op_release "Some r" s'] ok phase_compensated_stock [OF ph, of Op_release r "header s'"] by simp
next
  case (restock r)
  then show ?thesis
    using commanded [of s Op_restock "Some r" s'] ok phase_compensated_stock [OF ph, of Op_restock r "header s'"] by simp
next
  case (cancelPayment r)
  then show ?thesis
    using cancelled [of p r p'] settled_stay [of p _ p' "Some r"] ok phase_compensated_payment [OF ph] by simp
qed

text \<open>Every step of a checkout run, the body's own and everyone else's, keeps the agreement.\<close>

lemma step_agrees:
  assumes "wf_step P inp w w'" and inp: "si_orderId inp = o1" "si_mode inp = M_checkout" and w: "agrees w"
  shows "agrees w'"
  using assms(1)
proof (cases rule: wf_step.cases)
  case (step_try r s')
  then show ?thesis using w attempt_held [of inp "w_stock w" r s'] inp
    by (simp add: agrees_def) (rule phase_try, auto)
next
  case (step_tried r W written ord')
  have "order_ok ord'" "cp_status P o1 ord' = after_try r (cp_status P o1 (w_orders w))"
    using w step_tried try_recorded [of "w_orders w" r "Some written" ord'] inp by (auto simp: agrees_def)
  then show ?thesis using w step_tried by (simp add: agrees_def phase_tried [OF _ refl])
next
  case (step_written r W)
  then show ?thesis using w phase_written [OF _ refl] by (simp add: agrees_def wf_apply_def)
next
  case (step_change c cs acc W written ord')
  have "order_ok ord'" "cp_status P o1 ord' = after_change c (cp_status P o1 (w_orders w))"
    using w step_change changed [of "w_orders w" c "Some written" ord'] inp by (auto simp: agrees_def)
  then show ?thesis using w step_change
    by (simp add: agrees_def) (rule phase_change, auto)
next
  case (step_verify a cs acc W)
  then show ?thesis using w by (simp add: agrees_def) (rule phase_verify, auto)
next
  case (step_commit cs acc W r s')
  have "stock_ok s'" "(r, header s') = stock_fence Op_commit (header (w_stock w))"
    using w step_commit commanded [of "w_stock w" Op_commit "Some r" s'] inp by (auto simp: agrees_def)
  then show ?thesis using w step_commit by (simp add: agrees_def) (rule phase_commit, auto)
next
  case (step_committed r cs acc W)
  then show ?thesis using w phase_committed [OF _ refl] by (simp add: agrees_def wf_apply_def)
next
  case (step_capture cs acc W a p' r)
  have "payment_ok p'" "r \<noteq> Sc_NOT_CAPTURABLE \<Longrightarrow> taken p'"
    using w step_capture settled_stay [of "w_pay w" "Some a" p'] captured [of "w_pay w" a p'] inp
    by (auto simp: agrees_def elim: capturePayment.elims)
  then show ?thesis using w step_capture by (simp add: agrees_def) (rule phase_capture, auto)
next
  case (step_captured r cs acc W)
  then show ?thesis using w phase_captured [OF _ refl] by (simp add: agrees_def wf_apply_def)
next
  case (step_collect c cs acc W)
  then show ?thesis using w by (simp add: agrees_def) (rule phase_collect, auto)
next
  case (step_spawn acc W)
  then show ?thesis using w phase_spawn [of "w_saga w" _ _ _ _ _ acc W] by (simp add: agrees_def)
next
  case (step_compensate c W s' p')
  then show ?thesis
    using w inp compensate_agrees [of c "w_stock w" "w_pay w" s' p' "w_saga w" "cp_status P o1 (w_orders w)"
        "w_payCalls w" W "w_tryRun w"]
    by (simp add: agrees_def)
next
  case (step_compensated c W)
  then show ?thesis using w phase_compensated [OF _ refl] by (simp add: agrees_def wf_apply_def)
next
  case (step_verdict a W verdict)
  then show ?thesis using w phase_verdict by (simp add: agrees_def)
next
  case (step_verified a verdict W)
  then show ?thesis using w phase_verified [OF _ refl] by (simp add: agrees_def wf_apply_def)
next
  case (step_wasted x ord' s' p')
  then show ?thesis
    using w wasted_agrees [of x "w_orders w" "w_stock w" "w_pay w" ord' s' p' "w_work w" "w_saga w" "w_payCalls w" "w_tryRun w"] inp
    by (simp add: agrees_def)
next
  case (step_authorized a)
  then show ?thesis using w by (simp add: agrees_def wf_apply_def) (rule phase_authorized [OF _ refl], auto)
next
  case (step_cancel by_whom)
  then show ?thesis using w phase_abandon [OF _ disjI1 [OF refl]] by (simp add: agrees_def wf_apply_def)
next
  case step_deadline
  then show ?thesis using w phase_abandon [OF _ disjI2 [OF refl]] by (simp add: agrees_def wf_apply_def)
next
  case (step_straggler a s')
  then show ?thesis
    using w inp tried [of "w_stock w" "si_lines inp" "si_holdUntil inp" a s']
      others_agree [OF w, of "w_orders w" s' "w_pay w" "w_payCalls w"] by (simp add: agrees_def)
next
  case (step_pay)
  then show ?thesis using w inp phase_pay by (auto simp: agrees_def)
next
  case (step_open n p')
  then have "payment_ok p' \<and> (taken (w_pay w) \<longrightarrow> taken p') \<and> (void (w_pay w) \<longrightarrow> void p')"
    using w inp by (intro settled_stay) (auto simp: agrees_def)
  then show ?thesis
    using w step_open others_agree [OF w, of "w_orders w" "w_stock w" p' n] by (simp add: agrees_def)
next
  case (step_orders ord')
  then show ?thesis using w inp other_orders [of "w_orders w" ord']
      others_agree [OF w, of ord' "w_stock w" "w_pay w" "w_payCalls w"] by (simp add: agrees_def)
next
  case (step_stock s')
  then show ?thesis using w inp other_stock [of "w_stock w" s']
      others_agree [OF w, of "w_orders w" s' "w_pay w" "w_payCalls w"] by (simp add: agrees_def)
next
  case (step_payments p')
  then have p: "payment_ok (w_pay w)" "cp_otherPayments P o1 (w_pay w) p'" using w inp by (simp_all add: agrees_def)
  then have "payment_ok p' \<and> (taken (w_pay w) \<longrightarrow> taken p') \<and> (void (w_pay w) \<longrightarrow> void p')"
      "untouched (w_pay w) \<Longrightarrow> untouched p'"
    using settled_stay [of "w_pay w" None p' None] untouched_stays [of "w_pay w" None p' None] by simp_all
  then show ?thesis
    using w others_agree [OF w, of "w_orders w" "w_stock w" p' "w_payCalls w"] step_payments by (simp add: agrees_def)
qed (use inp in simp_all)

lemma start_agrees:
  "order_ok ord \<Longrightarrow> stock_ok s \<Longrightarrow> payment_ok p \<Longrightarrow> cp_status P o1 ord = Some RESERVING \<Longrightarrow> untouched p \<Longrightarrow>
     agrees (wf_start M_checkout ord s p)"
  by (simp add: agrees_def wf_start_def in_phase_def initialCheckoutSagaState_def)

lemma runs_agree:
  assumes "wf_runs P inp w w'" and "si_orderId inp = o1" "si_mode inp = M_checkout" and "agrees w"
  shows "agrees w'"
  using assms(1)
proof (induction rule: rtranclp_induct)
  case (step y z)
  then show ?case using step_agrees [OF step.hyps(2) assms(2,3)] by simp
qed (rule assms(4))

text \<open>So a run that has closed left the order and its participants as the invariants of the order domain want.\<close>

lemma closed_clean:
  assumes w: "agrees w" "wf_closed w" and D: "cp_status P o1 (w_orders w) = Some D"
  shows "evaluateCheckoutInvariants \<lparr>sc_status = D, sc_stock = header (w_stock w),
    sc_payment = cp_standing P o1 (w_pay w)\<rparr> = Inr []"
proof -
  have ok: "payment_ok (w_pay w)" using w by (simp add: agrees_def)
  consider "ss_step (w_saga w) = S_COMPLETED" | "ss_step (w_saga w) = S_COMPENSATED"
    using w(2) by (auto simp: wf_closed_def)
  then show ?thesis
  proof cases
    case 1
    then have "D = PAID" "header (w_stock w) = Some R_COMMITTED" "taken (w_pay w)"
      using w D by (auto simp: agrees_def in_phase_def wf_closed_def)
    then show ?thesis using taken_standing [OF ok] by (simp add: invariants_clean order_isTerminal_def)
  next
    case 2
    then have "settled_badly (Some D)" "stock_gone (header (w_stock w))" "void (w_pay w) \<or> untouched (w_pay w)"
      using w D by (auto simp: agrees_def in_phase_def wf_closed_def undone_def)
    then show ?thesis using clear_standing [OF ok]
      by (auto simp: invariants_clean order_isTerminal_def settled_badly_def stock_gone_def)
  qed
qed

lemma paid_backed:
  assumes "agrees w" "cp_status P o1 (w_orders w) = Some PAID"
  shows "header (w_stock w) = Some R_COMMITTED \<and> taken (w_pay w)"
proof -
  have "ss_step (w_saga w) = S_COMPLETED"
    using assms by (cases "ss_step (w_saga w)") (auto simp: agrees_def in_phase_def undone_def settled_badly_def)
  then show ?thesis using assms by (simp add: agrees_def in_phase_def)
qed

lemma closed_settled:
  assumes "agrees w" "wf_closed w"
  shows "(\<exists>D. cp_status P o1 (w_orders w) = Some D \<and> order_isTerminal D) \<or>
    cp_status P o1 (w_orders w) = None \<and> ss_orderStatus (w_saga w) = Some REJECTED"
  using assms
  by (auto simp: agrees_def in_phase_def wf_closed_def undone_def settled_badly_def order_isTerminal_def)

end

end
