(* ===== verification/Tcc_Fence.thy ===== *)
theory Tcc_Fence
  imports Prelude
begin

text \<open>
  The contract of a TCC fence: per order one header (or none yet), and per command a decision to
  apply it and move the header, to answer that it was applied before, or to refuse. The stock and the
  payment participants provide it. Inside the locale: over any sequence of commands, with any
  repetitions, each command takes effect at most once for an order and the header never moves back.
\<close>

datatype 'st fence_decision = Apply 'st | Idempotent | Conflict

locale tcc_fence =
  fixes decide :: "'op \<Rightarrow> 'st option \<Rightarrow> 'st fence_decision"
    and rank :: "'st \<Rightarrow> nat"
  assumes first_rank: "decide op None = Apply n \<Longrightarrow> 0 < rank n"
    and climbs: "decide op (Some s) = Apply n \<Longrightarrow> rank s < rank n"
    and repeat: "decide op h = Apply n \<Longrightarrow> decide op (Some n) = Idempotent"
    and spent: "decide op h = Apply n \<Longrightarrow> rank n \<le> rank s \<Longrightarrow> decide op (Some s) \<noteq> Apply m"
begin

fun fence_step :: "'st option \<Rightarrow> 'op \<Rightarrow> 'st option" where
  "fence_step h op = (case decide op h of Apply n \<Rightarrow> Some n | _ \<Rightarrow> h)"

fun fence_run :: "'st option \<Rightarrow> 'op list \<Rightarrow> 'st option" where
  "fence_run h [] = h"
| "fence_run h (op # ops) = fence_run (fence_step h op) ops"

fun applied :: "'op \<Rightarrow> 'st option \<Rightarrow> 'op list \<Rightarrow> nat" where
  "applied op h [] = 0"
| "applied op h (o1 # ops) =
     (if o1 = op \<and> (\<exists>n. decide o1 h = Apply n) then 1 else 0) + applied op (fence_step h o1) ops"

definition hrank :: "'st option \<Rightarrow> nat" where
  "hrank h = (case h of None \<Rightarrow> 0 | Some s \<Rightarrow> rank s)"

lemma step_climbs: "decide op h = Apply n \<Longrightarrow> hrank h < rank n"
  by (cases h) (auto simp: hrank_def dest: first_rank climbs)

lemma run_never_back: "hrank h \<le> hrank (fence_run h ops)"
proof (induction ops arbitrary: h)
  case (Cons op ops)
  have "hrank h \<le> hrank (fence_step h op)"
  proof (cases "decide op h")
    case (Apply n)
    with step_climbs [OF Apply] show ?thesis by (simp add: hrank_def [of "Some n"])
  qed auto
  with Cons [of "fence_step h op"] show ?case by simp
qed simp

lemma applied_after: "decide op h = Apply n \<Longrightarrow> rank n \<le> rank s \<Longrightarrow> applied op (Some s) ops = 0"
proof (induction ops arbitrary: s)
  case (Cons o1 ops)
  show ?case
  proof (cases "decide o1 (Some s)")
    case (Apply s')
    then have "o1 \<noteq> op" using spent [OF Cons.prems] by auto
    moreover have "rank n \<le> rank s'" using climbs [OF Apply] Cons.prems(2) by simp
    ultimately show ?thesis using Apply Cons by simp
  qed (use Cons in auto)
qed simp

lemma applied_once: "applied op h ops \<le> 1"
proof (induction ops arbitrary: h)
  case (Cons o1 ops)
  show ?case
  proof (cases "o1 = op \<and> (\<exists>n. decide o1 h = Apply n)")
    case True
    then obtain n where "decide op h = Apply n" "o1 = op" by blast
    then show ?thesis using applied_after [of op h n n ops] by simp
  next
    case False
    have "applied op h (o1 # ops) = applied op (fence_step h o1) ops"
      unfolding applied.simps using False by auto
    then show ?thesis using Cons [of "fence_step h o1"] by simp
  qed
qed simp

end

end
