(* ===== verification/Inventory_Stock.thy ===== *)
theory Inventory_Stock
  imports Order_Domain Tcc_Fence "HOL-Library.List_Lexorder" "HOL-Library.Char_ord"
begin

text \<open>
  The inventory-service's store
  (\<^verbatim>\<open>apps/inventory-service/src/modules/inventory\<close>: \<^verbatim>\<open>domain/\<close>,
  \<^verbatim>\<open>infrastructure/stock.repository.ts\<close>, \<^verbatim>\<open>infrastructure/stock-admin.repository.ts\<close> and
  \<^verbatim>\<open>infrastructure/transaction-deadlines.ts\<close>): the three tables with their CHECK constraints, the
  fence table, and one definition per repository operation. A statement is atomic; a transaction runs
  to its end or leaves the tables as they were. Row locks serialise the transactions that touch one
  order, so each is modelled as running on its own; what another writer can still change under an
  unlocked read of the version-checked path is the argument \<open>stale\<close> of that path.
\<close>


section \<open>Tables\<close>

datatype reservation_status = L_HELD | L_RELEASED | L_COMMITTED | L_RESTOCKED

definition INT4_MAX :: int where "INT4_MAX = 2147483647"

definition MAX_STOCK_ON_HAND :: int where "MAX_STOCK_ON_HAND = 1000000000"

definition MAX_RESERVATION_LINES :: nat where "MAX_RESERVATION_LINES = 100"

record stock_row =
  sl_id :: string
  sl_variantId :: string
  sl_onHand :: int
  sl_reserved :: int
  sl_version :: int

record reservation_row =
  rs_id :: string
  rs_orderId :: string
  rs_variantId :: string
  rs_quantity :: int
  rs_status :: reservation_status
  rs_expiresAt :: int

record header_row =
  hd_orderId :: string
  hd_status :: reservation_order_status
  hd_holdUntil :: "int option"

record inv_db =
  stockLevels :: "stock_row list"
  reservations :: "reservation_row list"
  reservationOrders :: "header_row list"

record reservation_line =
  ln_variantId :: string
  ln_quantity :: int

datatype inv_error =
    InsufficientStock string int int
  | ReservationConflict string
  | ReservationTimeout
  | ReservationDeadline
  | IdMintUnavailable
  | CheckViolation string
  | NotNullViolation
  | DuplicateKey
  | IntegerOutOfRange
  | HeaderUnreadable string
  | ConflictException
  | NotFoundException string

text \<open>The three CHECK constraints of \<open>stock_levels\<close>, the first one broken named in alphabetical order.\<close>

definition stock_check :: "stock_row \<Rightarrow> string option" where
  "stock_check r =
     (if \<not> sl_reserved r \<le> sl_onHand r then Some ''ck_stock_no_oversell''
      else if \<not> 0 \<le> sl_onHand r then Some ''ck_stock_on_hand_nonneg''
      else if \<not> 0 \<le> sl_reserved r then Some ''ck_stock_reserved_nonneg''
      else None)"

text \<open>An UPDATE of \<open>stock_levels\<close>: every changed row is checked, and one violation fails the statement.\<close>

definition update_stock ::
    "(stock_row \<Rightarrow> bool) \<Rightarrow> (stock_row \<Rightarrow> stock_row) \<Rightarrow> inv_db \<Rightarrow> inv_error + inv_db" where
  "update_stock p f db =
     (case find_where (\<lambda>r. p r \<and> stock_check (f r) \<noteq> None) (stockLevels db) of
        Some r \<Rightarrow> Inl (CheckViolation (the (stock_check (f r))))
      | None \<Rightarrow> Inr (db\<lparr>stockLevels := update_where p f (stockLevels db)\<rparr>))"


section \<open>Time budget\<close>

text \<open>
  \<open>TransactionDeadlines.limit\<close> runs before every statement that can wait on a lock. What the clock
  shows there, and whether the statement is then cut short by \<open>lock_timeout\<close> or
  \<open>statement_timeout\<close>, comes from outside: \<open>te_now k\<close> and \<open>te_fault k\<close> for the \<open>k\<close>-th such
  statement of the transaction.
\<close>

datatype db_fault = LOCK_NOT_AVAILABLE | QUERY_CANCELED

record tx_env =
  te_at :: int
  te_now :: "nat \<Rightarrow> int"
  te_fault :: "nat \<Rightarrow> db_fault option"

definition deadline_limit :: "tx_env \<Rightarrow> nat \<Rightarrow> inv_error + unit" where
  "deadline_limit env k =
     (if te_at env - te_now env k \<le> 0 then Inl ReservationTimeout
      else case te_fault env k of
        None \<Rightarrow> Inr ()
      | Some LOCK_NOT_AVAILABLE \<Rightarrow> Inl ReservationTimeout
      | Some QUERY_CANCELED \<Rightarrow> Inl ReservationDeadline)"

text \<open>Inside a transaction: the tables, and how many limited statements have run.\<close>

type_synonym inv_tx = "inv_db \<times> nat"

type_synonym 'a inv_step = "inv_tx \<Rightarrow> inv_error + ('a \<times> inv_tx)"


section \<open>Holding stock\<close>

definition holdOf :: "string \<Rightarrow> string \<Rightarrow> inv_db \<Rightarrow> reservation_row option" where
  "holdOf orderId variantId db =
     find_where (\<lambda>r. rs_orderId r = orderId \<and> rs_variantId r = variantId) (reservations db)"

definition isHeld :: "string \<Rightarrow> string \<Rightarrow> inv_db \<Rightarrow> bool" where
  "isHeld orderId variantId db \<longleftrightarrow> holdOf orderId variantId db \<noteq> None"

definition insertHold :: "string option \<Rightarrow> string \<Rightarrow> reservation_line \<Rightarrow> int \<Rightarrow> inv_db \<Rightarrow> inv_error + inv_db" where
  "insertHold rid orderId line expiresAt db =
     (case rid of
        None \<Rightarrow> Inl NotNullViolation
      | Some i \<Rightarrow>
          if isHeld orderId (ln_variantId line) db then Inr db
          else if list_ex (\<lambda>r. rs_id r = i) (reservations db) then Inl DuplicateKey
          else Inr (db\<lparr>reservations := reservations db @
            [\<lparr>rs_id = i, rs_orderId = orderId, rs_variantId = ln_variantId line,
              rs_quantity = ln_quantity line, rs_status = L_HELD, rs_expiresAt = expiresAt\<rparr>]\<rparr>))"

text \<open>\<open>[...lines].sort((a, b) => a.variantId.localeCompare(b.variantId))\<close>: stable, by id string.\<close>

definition order_lines :: "reservation_line list \<Rightarrow> reservation_line list" where
  "order_lines ls = sort_key ln_variantId ls"

definition nth_id :: "string list \<Rightarrow> nat \<Rightarrow> string option" where
  "nth_id ids i = (if i < length ids then Some (ids ! i) else None)"

definition raise_reserved :: "int \<Rightarrow> stock_row \<Rightarrow> stock_row" where
  "raise_reserved q r = r\<lparr>sl_reserved := sl_reserved r + q, sl_version := sl_version r + 1\<rparr>"

definition pessimistic_line ::
    "tx_env \<Rightarrow> string \<Rightarrow> int \<Rightarrow> string option \<Rightarrow> reservation_line \<Rightarrow> unit inv_step" where
  "pessimistic_line env orderId expiresAt rid line tx =
     (let (db, k) = tx; v = ln_variantId line; q = ln_quantity line in
      ebind (deadline_limit env k) (\<lambda>_.
        case find_where (\<lambda>r. sl_variantId r = v) (stockLevels db) of
          None \<Rightarrow> Inl (InsufficientStock v q 0)
        | Some stock \<Rightarrow>
            if isHeld orderId v db then Inr ((), db, Suc k)
            else let available = sl_onHand stock - sl_reserved stock in
              if available < q then Inl (InsufficientStock v q available)
              else ebind (update_stock (\<lambda>r. sl_id r = sl_id stock) (raise_reserved q) db) (\<lambda>db1.
                   ebind (insertHold rid orderId line expiresAt db1) (\<lambda>db2. Inr ((), db2, Suc k)))))"

fun pessimistic_from ::
    "tx_env \<Rightarrow> string \<Rightarrow> int \<Rightarrow> string list \<Rightarrow> nat \<Rightarrow> reservation_line list \<Rightarrow> unit inv_step" where
  "pessimistic_from env orderId expiresAt ids i [] tx = Inr ((), tx)"
| "pessimistic_from env orderId expiresAt ids i (line # ls) tx =
     ebind (pessimistic_line env orderId expiresAt (nth_id ids i) line tx) (\<lambda>(_, tx').
       pessimistic_from env orderId expiresAt ids (Suc i) ls tx')"

definition reservePessimistic ::
    "tx_env \<Rightarrow> string \<Rightarrow> reservation_line list \<Rightarrow> int \<Rightarrow> string list \<Rightarrow> unit inv_step" where
  "reservePessimistic env orderId lines expiresAt ids tx =
     pessimistic_from env orderId expiresAt ids 0 (order_lines lines) tx"

text \<open>
  The compare-and-swap path reads the level unlocked: \<open>stale k\<close> holds the on-hand, reserved and
  version columns that read saw when another writer has committed since, and is \<open>None\<close> when it saw
  the row the UPDATE then finds. The retry budget bounds the loop.
\<close>

function casReserve ::
    "nat \<Rightarrow> (nat \<Rightarrow> (int \<times> int \<times> int) option) \<Rightarrow> tx_env \<Rightarrow> string \<Rightarrow> reservation_line \<Rightarrow> nat \<Rightarrow> bool inv_step" where
  "casReserve maxRetries stale env orderId line attempt tx =
     (let (db, k) = tx; v = ln_variantId line; q = ln_quantity line in
      if isHeld orderId v db then Inr (False, tx)
      else
        let current = find_where (\<lambda>r. sl_variantId r = v) (stockLevels db);
            seen = (case (current, stale k) of
                (Some r, Some (h, res, ver)) \<Rightarrow> Some (r\<lparr>sl_onHand := h, sl_reserved := res, sl_version := ver\<rparr>)
              | (c, _) \<Rightarrow> c)
        in case seen of
          None \<Rightarrow> Inl (InsufficientStock v q 0)
        | Some row \<Rightarrow>
            let available = sl_onHand row - sl_reserved row in
            if available < q then Inl (InsufficientStock v q available)
            else if maxRetries < attempt then Inl (ReservationConflict v)
            else ebind (deadline_limit env k) (\<lambda>_.
              let wins = (\<lambda>r. sl_id r = sl_id row \<and> sl_version r = sl_version row \<and>
                              q \<le> sl_onHand r - sl_reserved r \<and> \<not> isHeld orderId v db)
              in case find_where wins (stockLevels db) of
                   Some _ \<Rightarrow> ebind (update_stock wins (raise_reserved q) db) (\<lambda>db1. Inr (True, db1, Suc k))
                 | None \<Rightarrow> casReserve maxRetries stale env orderId line (Suc attempt) (db, Suc k)))"
  by pat_completeness auto
termination
  by (relation "measure (\<lambda>(mx, _, _, _, _, a, _). Suc mx - a)") auto

declare casReserve.simps [simp del]

fun optimistic_from ::
    "nat \<Rightarrow> (nat \<Rightarrow> (int \<times> int \<times> int) option) \<Rightarrow> tx_env \<Rightarrow> string \<Rightarrow> int \<Rightarrow> string list \<Rightarrow> nat \<Rightarrow>
     reservation_line list \<Rightarrow> unit inv_step" where
  "optimistic_from mx stale env orderId expiresAt ids i [] tx = Inr ((), tx)"
| "optimistic_from mx stale env orderId expiresAt ids i (line # ls) tx =
     ebind (casReserve mx stale env orderId line 0 tx) (\<lambda>(won, db, k).
       if won
       then ebind (insertHold (nth_id ids i) orderId line expiresAt db) (\<lambda>db'.
              optimistic_from mx stale env orderId expiresAt ids (Suc i) ls (db', k))
       else optimistic_from mx stale env orderId expiresAt ids (Suc i) ls (db, k))"

definition reserveOptimistic ::
    "nat \<Rightarrow> (nat \<Rightarrow> (int \<times> int \<times> int) option) \<Rightarrow> tx_env \<Rightarrow> string \<Rightarrow> reservation_line list \<Rightarrow> int \<Rightarrow>
     string list \<Rightarrow> unit inv_step" where
  "reserveOptimistic mx stale env orderId lines expiresAt ids tx =
     optimistic_from mx stale env orderId expiresAt ids 0 (order_lines lines) tx"


section \<open>Moving an order's lines\<close>

datatype line_transition = Commit_lines | Release_lines | Restock_lines

fun transition_from :: "line_transition \<Rightarrow> reservation_status" where
  "transition_from Commit_lines = L_HELD"
| "transition_from Release_lines = L_HELD"
| "transition_from Restock_lines = L_COMMITTED"

fun transition_to :: "line_transition \<Rightarrow> reservation_status" where
  "transition_to Commit_lines = L_COMMITTED"
| "transition_to Release_lines = L_RELEASED"
| "transition_to Restock_lines = L_RESTOCKED"

fun stock_delta :: "line_transition \<Rightarrow> int \<Rightarrow> stock_row \<Rightarrow> stock_row" where
  "stock_delta Commit_lines q r =
     r\<lparr>sl_onHand := sl_onHand r - q, sl_reserved := sl_reserved r - q, sl_version := sl_version r + 1\<rparr>"
| "stock_delta Release_lines q r =
     r\<lparr>sl_reserved := sl_reserved r - q, sl_version := sl_version r + 1\<rparr>"
| "stock_delta Restock_lines q r =
     r\<lparr>sl_onHand := min (sl_onHand r + q) INT4_MAX, sl_version := sl_version r + 1\<rparr>"

record resolve_result =
  rr_applied :: bool
  rr_alreadyResolved :: bool
  rr_count :: nat

definition flip_line :: "line_transition \<Rightarrow> string \<Rightarrow> string \<Rightarrow> inv_db \<Rightarrow> inv_db" where
  "flip_line t orderId v db =
     db\<lparr>reservations := update_where
          (\<lambda>r. rs_orderId r = orderId \<and> rs_variantId r = v \<and> rs_status r = transition_from t)
          (\<lambda>r. r\<lparr>rs_status := transition_to t\<rparr>) (reservations db)\<rparr>"

definition move_line :: "tx_env \<Rightarrow> line_transition \<Rightarrow> string \<Rightarrow> reservation_row \<Rightarrow> bool inv_step" where
  "move_line env t orderId row tx =
     (let (db, k) = tx; v = rs_variantId row in
      if \<not> list_ex (\<lambda>r. rs_orderId r = orderId \<and> rs_variantId r = v \<and> rs_status r = transition_from t)
             (reservations db)
      then Inr (False, tx)
      else ebind (deadline_limit env k) (\<lambda>_.
           ebind (update_stock (\<lambda>r. sl_variantId r = v) (stock_delta t (rs_quantity row))
                    (flip_line t orderId v db)) (\<lambda>db'. Inr (True, db', Suc k))))"

fun move_rows :: "tx_env \<Rightarrow> line_transition \<Rightarrow> string \<Rightarrow> reservation_row list \<Rightarrow> nat \<Rightarrow> nat inv_step" where
  "move_rows env t orderId [] n tx = Inr (n, tx)"
| "move_rows env t orderId (row # rows) n tx =
     ebind (move_line env t orderId row tx) (\<lambda>(moved, tx').
       move_rows env t orderId rows (if moved then Suc n else n) tx')"

definition moveLines :: "tx_env \<Rightarrow> line_transition \<Rightarrow> string \<Rightarrow> resolve_result inv_step" where
  "moveLines env t orderId tx =
     (let rows = filter (\<lambda>r. rs_orderId r = orderId) (reservations (fst tx)) in
      if rows = [] then Inr (\<lparr>rr_applied = False, rr_alreadyResolved = False, rr_count = 0\<rparr>, tx)
      else let pending = sort_key rs_variantId (filter (\<lambda>r. rs_status r = transition_from t) rows) in
        if pending = [] then Inr (\<lparr>rr_applied = False, rr_alreadyResolved = True, rr_count = 0\<rparr>, tx)
        else ebind (move_rows env t orderId pending 0 tx) (\<lambda>(count, tx').
          if count = 0 then Inr (\<lparr>rr_applied = False, rr_alreadyResolved = True, rr_count = 0\<rparr>, tx')
          else Inr (\<lparr>rr_applied = True, rr_alreadyResolved = False, rr_count = count\<rparr>, tx')))"

definition commitReservations :: "tx_env \<Rightarrow> string \<Rightarrow> resolve_result inv_step" where
  "commitReservations env orderId = moveLines env Commit_lines orderId"

definition releaseReservations :: "tx_env \<Rightarrow> string \<Rightarrow> resolve_result inv_step" where
  "releaseReservations env orderId = moveLines env Release_lines orderId"

definition restockReservations :: "tx_env \<Rightarrow> string \<Rightarrow> resolve_result inv_step" where
  "restockReservations env orderId = moveLines env Restock_lines orderId"


section \<open>Headers\<close>

definition find_header :: "string \<Rightarrow> inv_db \<Rightarrow> header_row option" where
  "find_header orderId db = find_where (\<lambda>h. hd_orderId h = orderId) (reservationOrders db)"

definition header_status :: "inv_db \<Rightarrow> string \<Rightarrow> reservation_order_status option" where
  "header_status db orderId = map_option hd_status (find_header orderId db)"

definition insertHeaderRow :: "tx_env \<Rightarrow> header_row \<Rightarrow> bool inv_step" where
  "insertHeaderRow env row tx =
     (let (db, k) = tx in
      ebind (deadline_limit env k) (\<lambda>_.
        if find_header (hd_orderId row) db \<noteq> None then Inr (False, db, Suc k)
        else Inr (True, db\<lparr>reservationOrders := reservationOrders db @ [row]\<rparr>, Suc k)))"

definition insertHeader :: "tx_env \<Rightarrow> string \<Rightarrow> int \<Rightarrow> bool inv_step" where
  "insertHeader env orderId holdUntil =
     insertHeaderRow env \<lparr>hd_orderId = orderId, hd_status = R_HELD, hd_holdUntil = Some holdUntil\<rparr>"

definition insertFencedHeader :: "tx_env \<Rightarrow> string \<Rightarrow> bool inv_step" where
  "insertFencedHeader env orderId =
     insertHeaderRow env \<lparr>hd_orderId = orderId, hd_status = R_FENCED, hd_holdUntil = None\<rparr>"

definition findHeaderForUpdate :: "tx_env \<Rightarrow> string \<Rightarrow> header_row option inv_step" where
  "findHeaderForUpdate env orderId tx =
     (let (db, k) = tx in
      ebind (deadline_limit env k) (\<lambda>_. Inr (find_header orderId db, db, Suc k)))"

definition setHeaderStatus :: "string \<Rightarrow> reservation_order_status \<Rightarrow> inv_db \<Rightarrow> inv_db" where
  "setHeaderStatus orderId st db =
     db\<lparr>reservationOrders := update_where (\<lambda>h. hd_orderId h = orderId) (\<lambda>h. h\<lparr>hd_status := st\<rparr>)
          (reservationOrders db)\<rparr>"

definition lapsed :: "int \<Rightarrow> header_row \<Rightarrow> bool" where
  "lapsed dbnow h \<longleftrightarrow> hd_status h = R_HELD \<and> (case hd_holdUntil h of None \<Rightarrow> False | Some t \<Rightarrow> t < dbnow)"

text \<open>\<open>skipped\<close>: another transaction holds the row right now, so SKIP LOCKED passes over it.\<close>

definition lockLapsedHeader :: "bool \<Rightarrow> int \<Rightarrow> string \<Rightarrow> inv_db \<Rightarrow> bool" where
  "lockLapsedHeader skipped dbnow orderId db \<longleftrightarrow>
     \<not> skipped \<and> list_ex (\<lambda>h. hd_orderId h = orderId \<and> lapsed dbnow h) (reservationOrders db)"

definition findLapsedHeaderIds :: "int \<Rightarrow> nat \<Rightarrow> inv_db \<Rightarrow> string list" where
  "findLapsedHeaderIds dbnow limit db =
     map hd_orderId (take limit (sort_key (\<lambda>h. the (hd_holdUntil h)) (filter (lapsed dbnow) (reservationOrders db))))"

definition findHeaderStatuses :: "string list \<Rightarrow> inv_db \<Rightarrow> (string \<times> reservation_order_status) list" where
  "findHeaderStatuses orderIds db =
     map (\<lambda>h. (hd_orderId h, hd_status h)) (filter (\<lambda>h. hd_orderId h \<in> set orderIds) (reservationOrders db))"


section \<open>Consistency of the store\<close>

text \<open>Units of a variant that HELD lines account for, and the levels and lines that agree on them.\<close>

definition held_units :: "string \<Rightarrow> inv_db \<Rightarrow> int" where
  "held_units v db =
     sum_list (map rs_quantity (filter (\<lambda>r. rs_variantId r = v \<and> rs_status r = L_HELD) (reservations db)))"

definition level_ok :: "inv_db \<Rightarrow> stock_row \<Rightarrow> bool" where
  "level_ok db s \<longleftrightarrow>
     sl_reserved s = held_units (sl_variantId s) db \<and>
     0 \<le> sl_reserved s \<and> sl_reserved s \<le> sl_onHand s \<and> sl_onHand s \<le> INT4_MAX"

definition line_key :: "reservation_row \<Rightarrow> string \<times> string" where
  "line_key r = (rs_orderId r, rs_variantId r)"

definition stock_ok :: "inv_db \<Rightarrow> bool" where
  "stock_ok db \<longleftrightarrow>
     distinct (map sl_id (stockLevels db)) \<and> distinct (map sl_variantId (stockLevels db)) \<and>
     distinct (map line_key (reservations db)) \<and>
     (\<forall>s \<in> set (stockLevels db). level_ok db s) \<and>
     (\<forall>r \<in> set (reservations db). 0 < rs_quantity r \<and>
        rs_variantId r \<in> sl_variantId ` set (stockLevels db))"

fun header_line :: "reservation_order_status \<Rightarrow> reservation_status option" where
  "header_line R_HELD = Some L_HELD"
| "header_line R_COMMITTED = Some L_COMMITTED"
| "header_line R_RELEASED = Some L_RELEASED"
| "header_line R_FENCED = None"
| "header_line R_RESTOCKED = Some L_RESTOCKED"

text \<open>Every line belongs to an order whose header is in the status of the line.\<close>

definition inv_ok :: "inv_db \<Rightarrow> bool" where
  "inv_ok db \<longleftrightarrow>
     stock_ok db \<and> distinct (map hd_orderId (reservationOrders db)) \<and>
     (\<forall>r \<in> set (reservations db). \<exists>h \<in> set (reservationOrders db).
        hd_orderId h = rs_orderId r \<and> header_line (hd_status h) = Some (rs_status r))"

lemma stock_check_None: "stock_check s = None \<longleftrightarrow> 0 \<le> sl_reserved s \<and> sl_reserved s \<le> sl_onHand s"
  by (auto simp: stock_check_def)

lemma update_stock_Inr:
  "update_stock p f db = Inr db' \<longleftrightarrow>
     (\<forall>r \<in> set (stockLevels db). p r \<longrightarrow> stock_check (f r) = None) \<and>
     db' = db\<lparr>stockLevels := update_where p f (stockLevels db)\<rparr>"
  by (auto simp: update_stock_def find_where_None split: option.splits dest: find_where_Some)

lemma update_stock_Inl: "update_stock p f db = Inl e \<Longrightarrow> \<exists>c. e = CheckViolation c"
  by (auto simp: update_stock_def split: option.splits)

lemma update_stock_cong:
  assumes "\<And>r. r \<in> set (stockLevels db) \<Longrightarrow> p r \<longleftrightarrow> q r"
  shows "update_stock p f db = update_stock q f db"
proof -
  have "find_where (\<lambda>r. p r \<and> stock_check (f r) \<noteq> None) (stockLevels db) =
        find_where (\<lambda>r. q r \<and> stock_check (f r) \<noteq> None) (stockLevels db)"
    using assms by (auto simp: find_where_def intro: find_cong)
  moreover have "update_where p f (stockLevels db) = update_where q f (stockLevels db)"
    using assms by (auto simp: update_where_def)
  ultimately show ?thesis unfolding update_stock_def by (simp only:)
qed

lemma stock_row_unique:
  "stock_ok db \<Longrightarrow> s \<in> set (stockLevels db) \<Longrightarrow> t \<in> set (stockLevels db) \<Longrightarrow>
     sl_id s = sl_id t \<longleftrightarrow> sl_variantId s = sl_variantId t"
  unfolding stock_ok_def by (metis unique_key_row)

lemma isHeld_iff:
  "isHeld o1 v db \<longleftrightarrow> (\<exists>r \<in> set (reservations db). rs_orderId r = o1 \<and> rs_variantId r = v)"
  by (auto simp: isHeld_def holdOf_def find_where_None)


subsection \<open>One line held\<close>

definition hold_db :: "string \<Rightarrow> int \<Rightarrow> string \<Rightarrow> reservation_line \<Rightarrow> inv_db \<Rightarrow> inv_db" where
  "hold_db orderId expiresAt rid line db =
     db\<lparr>stockLevels := update_where (\<lambda>r. sl_variantId r = ln_variantId line)
          (raise_reserved (ln_quantity line)) (stockLevels db),
        reservations := reservations db @
          [\<lparr>rs_id = rid, rs_orderId = orderId, rs_variantId = ln_variantId line,
            rs_quantity = ln_quantity line, rs_status = L_HELD, rs_expiresAt = expiresAt\<rparr>]\<rparr>"

definition line_room :: "inv_db \<Rightarrow> reservation_line \<Rightarrow> bool" where
  "line_room db line \<longleftrightarrow>
     (\<exists>s \<in> set (stockLevels db). sl_variantId s = ln_variantId line \<and>
        ln_quantity line \<le> sl_onHand s - sl_reserved s)"

definition holds_line :: "string \<Rightarrow> int \<Rightarrow> reservation_line \<Rightarrow> inv_db \<Rightarrow> inv_db \<Rightarrow> bool" where
  "holds_line orderId expiresAt line db db' \<longleftrightarrow>
     (if isHeld orderId (ln_variantId line) db then db' = db
      else line_room db line \<and> (\<exists>rid. db' = hold_db orderId expiresAt rid line db))"

fun holds_lines :: "string \<Rightarrow> int \<Rightarrow> reservation_line list \<Rightarrow> inv_db \<Rightarrow> inv_db \<Rightarrow> bool" where
  "holds_lines orderId expiresAt [] db db' \<longleftrightarrow> db' = db"
| "holds_lines orderId expiresAt (l # ls) db db' \<longleftrightarrow>
     (\<exists>db1. holds_line orderId expiresAt l db db1 \<and> holds_lines orderId expiresAt ls db1 db')"

lemma held_units_hold:
  "held_units v (hold_db o1 e rid l db) = held_units v db + (if v = ln_variantId l then ln_quantity l else 0)"
  by (simp add: held_units_def hold_db_def)

lemma hold_db_ok:
  assumes ok: "stock_ok db" and fresh: "\<not> isHeld o1 (ln_variantId l) db" and q: "0 < ln_quantity l"
    and room: "line_room db l"
  shows "stock_ok (hold_db o1 e rid l db)"
proof -
  let ?db = "hold_db o1 e rid l db"
  have keys: "map sl_id (stockLevels ?db) = map sl_id (stockLevels db)"
      "map sl_variantId (stockLevels ?db) = map sl_variantId (stockLevels db)"
    by (simp_all add: hold_db_def map_update_where raise_reserved_def)
  have lines: "distinct (map line_key (reservations ?db))"
    using ok fresh by (auto simp: stock_ok_def hold_db_def line_key_def isHeld_iff)
  have level: "level_ok ?db s'" if s': "s' \<in> set (stockLevels ?db)" for s'
  proof -
    obtain s where s: "s \<in> set (stockLevels db)"
      and eq: "s' = (if sl_variantId s = ln_variantId l then raise_reserved (ln_quantity l) s else s)"
      using s' by (auto simp: hold_db_def set_update_where)
    have "level_ok db s" using ok s by (simp add: stock_ok_def)
    moreover have "sl_variantId s = ln_variantId l \<Longrightarrow> ln_quantity l \<le> sl_onHand s - sl_reserved s"
      using room s ok by (metis line_room_def stock_ok_def unique_key_row)
    ultimately show ?thesis using q
      by (auto simp: level_ok_def eq held_units_hold raise_reserved_def)
  qed
  have "sl_variantId ` set (stockLevels ?db) = sl_variantId ` set (stockLevels db)"
    using keys(2) by (metis list.set_map)
  moreover have "ln_variantId l \<in> sl_variantId ` set (stockLevels db)"
    using room by (metis line_room_def rev_image_eqI)
  ultimately have refs: "0 < rs_quantity r \<and> rs_variantId r \<in> sl_variantId ` set (stockLevels ?db)"
    if "r \<in> set (reservations ?db)" for r
    using that ok q by (auto simp: stock_ok_def hold_db_def)
  from keys lines level refs ok show ?thesis by (simp add: stock_ok_def)
qed

lemma holds_line_ok:
  "stock_ok db \<Longrightarrow> 0 < ln_quantity l \<Longrightarrow> holds_line o1 e l db db' \<Longrightarrow> stock_ok db'"
  unfolding holds_line_def by (metis hold_db_ok)

lemma holds_lines_ok:
  "stock_ok db \<Longrightarrow> \<forall>l \<in> set ls. 0 < ln_quantity l \<Longrightarrow> holds_lines o1 e ls db db' \<Longrightarrow> stock_ok db'"
  by (induction ls arbitrary: db) (auto dest: holds_line_ok)

lemma hold_db_fresh:
  "v \<noteq> ln_variantId l \<Longrightarrow> isHeld o1 v (hold_db o1 e rid l db) \<longleftrightarrow> isHeld o1 v db"
  by (auto simp: isHeld_iff hold_db_def)

lemma hold_db_room:
  assumes "ln_variantId l' \<noteq> ln_variantId l"
  shows "line_room (hold_db o1 e rid l db) l' \<longleftrightarrow> line_room db l'"
  using assms by (auto simp: line_room_def hold_db_def update_where_def raise_reserved_def)

lemma holds_line_unmoved:
  "holds_line o1 e l db db' \<Longrightarrow> reservationOrders db' = reservationOrders db"
  by (auto simp: holds_line_def hold_db_def split: if_splits)

lemma holds_lines_unmoved:
  "holds_lines o1 e ls db db' \<Longrightarrow> reservationOrders db' = reservationOrders db"
  by (induction ls arbitrary: db) (auto dest: holds_line_unmoved)

text \<open>Old lines stay as they are, and every new one is a HELD line of this order.\<close>

lemma holds_lines_rows:
  "holds_lines o1 e ls db db' \<Longrightarrow>
     \<exists>new. reservations db' = reservations db @ new \<and>
       (\<forall>r \<in> set new. rs_orderId r = o1 \<and> rs_status r = L_HELD \<and> rs_expiresAt r = e)"
proof (induction ls arbitrary: db)
  case (Cons l ls)
  then obtain db1 where 1: "holds_line o1 e l db db1" "holds_lines o1 e ls db1 db'" by auto
  with Cons.IH obtain new where "reservations db' = reservations db1 @ new"
    "\<forall>r \<in> set new. rs_orderId r = o1 \<and> rs_status r = L_HELD \<and> rs_expiresAt r = e" by blast
  with 1 show ?case by (auto simp: holds_line_def hold_db_def split: if_splits)
qed simp


subsection \<open>The two strategies hold lines\<close>

lemma insertHold_fresh:
  "\<not> isHeld o1 (ln_variantId l) db \<Longrightarrow>
     insertHold rid o1 l e (db\<lparr>stockLevels := update_where (\<lambda>r. sl_variantId r = ln_variantId l)
        (raise_reserved (ln_quantity l)) (stockLevels db)\<rparr>) = Inr db' \<Longrightarrow>
     \<exists>i. rid = Some i \<and> db' = hold_db o1 e i l db"
  by (auto simp: insertHold_def isHeld_iff hold_db_def split: option.splits if_splits)

lemma pessimistic_line_holds:
  assumes ok: "stock_ok db" and run: "pessimistic_line env o1 e rid l (db, k) = Inr (u, db', k')"
  shows "holds_line o1 e l db db'"
proof -
  obtain s where s: "find_where (\<lambda>r. sl_variantId r = ln_variantId l) (stockLevels db) = Some s"
    using run by (auto simp: pessimistic_line_def result_simps Let_def split: option.splits)
  then have s': "s \<in> set (stockLevels db)" "sl_variantId s = ln_variantId l"
    by (auto dest: find_where_Some)
  show ?thesis
  proof (cases "isHeld o1 (ln_variantId l) db")
    case True
    with run s show ?thesis
      by (auto simp: pessimistic_line_def result_simps Let_def holds_line_def)
  next
    case False
    have "update_stock (\<lambda>r. sl_id r = sl_id s) f db = update_stock (\<lambda>r. sl_variantId r = ln_variantId l) f db" for f
      using stock_row_unique [OF ok _ s'(1)] s'(2) by (intro update_stock_cong) simp
    with run s False obtain db1 where
        room: "ln_quantity l \<le> sl_onHand s - sl_reserved s"
      and up: "update_stock (\<lambda>r. sl_variantId r = ln_variantId l) (raise_reserved (ln_quantity l)) db = Inr db1"
      and ins: "insertHold rid o1 l e db1 = Inr db'"
      by (auto simp: pessimistic_line_def result_simps Let_def split: if_splits)
    from up have "db1 = db\<lparr>stockLevels := update_where (\<lambda>r. sl_variantId r = ln_variantId l)
        (raise_reserved (ln_quantity l)) (stockLevels db)\<rparr>"
      by (simp add: update_stock_Inr)
    with ins obtain i where "db' = hold_db o1 e i l db"
      using insertHold_fresh [OF False] by blast
    with room s' False show ?thesis by (auto simp: holds_line_def line_room_def)
  qed
qed

lemma pessimistic_from_holds:
  "stock_ok db \<Longrightarrow> \<forall>l \<in> set ls. 0 < ln_quantity l \<Longrightarrow>
     pessimistic_from env o1 e ids i ls (db, k) = Inr (u, db', k') \<Longrightarrow> holds_lines o1 e ls db db'"
proof (induction ls arbitrary: db i k)
  case (Cons l ls)
  then obtain db1 k1 where 1: "pessimistic_line env o1 e (nth_id ids i) l (db, k) = Inr ((), db1, k1)"
    and 2: "pessimistic_from env o1 e ids (Suc i) ls (db1, k1) = Inr (u, db', k')"
    by (auto simp: result_simps)
  have h: "holds_line o1 e l db db1" using pessimistic_line_holds [OF Cons.prems(1) 1] .
  moreover have "stock_ok db1" using holds_line_ok [OF Cons.prems(1) _ h] Cons.prems(2) by simp
  ultimately show ?case using Cons.IH [OF _ _ 2] Cons.prems(2) by auto
qed auto

lemma casReserve_holds:
  assumes "stock_ok db" and "casReserve mx stale env o1 l a (db, k) = Inr (won, db', k')"
  shows "if won then \<not> isHeld o1 (ln_variantId l) db \<and> line_room db l \<and>
           db' = db\<lparr>stockLevels := update_where (\<lambda>r. sl_variantId r = ln_variantId l)
              (raise_reserved (ln_quantity l)) (stockLevels db)\<rparr>
         else isHeld o1 (ln_variantId l) db \<and> db' = db"
  using assms(2)
proof (induction "Suc mx - a" arbitrary: a k)
  case 0
  then have "mx < a" by simp
  with 0 show ?case
    by (subst (asm) casReserve.simps) (auto simp: Let_def result_simps split: option.splits if_splits)
next
  case (Suc n)
  show ?case
  proof (cases "isHeld o1 (ln_variantId l) db")
    case True
    then show ?thesis using Suc.prems by (subst (asm) casReserve.simps) (auto simp: Let_def)
  next
    case free: False
    let ?cur = "find_where (\<lambda>r. sl_variantId r = ln_variantId l) (stockLevels db)"
    obtain s where s: "?cur = Some s"
      using Suc.prems free by (subst (asm) casReserve.simps) (auto simp: Let_def split: option.splits)
    then have s': "s \<in> set (stockLevels db)" "sl_variantId s = ln_variantId l"
      by (auto dest: find_where_Some)
    let ?seen = "case stale k of None \<Rightarrow> s
      | Some (h, res, ver) \<Rightarrow> s\<lparr>sl_onHand := h, sl_reserved := res, sl_version := ver\<rparr>"
    let ?wins = "\<lambda>r. sl_id r = sl_id ?seen \<and> sl_version r = sl_version ?seen \<and>
        ln_quantity l \<le> sl_onHand r - sl_reserved r \<and> \<not> isHeld o1 (ln_variantId l) db"
    have seen_id: "sl_id ?seen = sl_id s" by (auto split: option.splits)
    have body: "(case find_where ?wins (stockLevels db) of
        Some _ \<Rightarrow> ebind (update_stock ?wins (raise_reserved (ln_quantity l)) db) (\<lambda>db1. Inr (True, db1, Suc k))
      | None \<Rightarrow> casReserve mx stale env o1 l (Suc a) (db, Suc k)) = Inr (won, db', k')"
      using Suc.prems free s by (subst (asm) casReserve.simps)
        (auto simp: Let_def result_simps split: option.splits if_splits)
    show ?thesis
    proof (cases "find_where ?wins (stockLevels db)")
      case None
      have "n = Suc mx - Suc a" using Suc.hyps(2) by simp
      moreover have "casReserve mx stale env o1 l (Suc a) (db, Suc k) = Inr (won, db', k')"
        using body None by simp
      ultimately show ?thesis by (rule Suc.hyps(1))
    next
      case (Some w)
      then have w: "?wins w" "w \<in> set (stockLevels db)" by (auto dest: find_where_Some)
      then have "w = s" using seen_id s'(1) assms(1) unfolding stock_ok_def by (metis unique_key_row)
      have same: "?wins r \<longleftrightarrow> sl_variantId r = ln_variantId l" if "r \<in> set (stockLevels db)" for r
        using that w \<open>w = s\<close> s' assms(1) unfolding stock_ok_def by (metis unique_key_row)
      from body Some have "update_stock ?wins (raise_reserved (ln_quantity l)) db = Inr db'" and "won"
        by (auto simp: result_simps)
      then have "update_stock (\<lambda>r. sl_variantId r = ln_variantId l) (raise_reserved (ln_quantity l)) db = Inr db'"
        using update_stock_cong [of db ?wins "\<lambda>r. sl_variantId r = ln_variantId l", OF same] by simp
      moreover have "line_room db l" using w \<open>w = s\<close> s' by (auto simp: line_room_def)
      ultimately show ?thesis using \<open>won\<close> free by (simp add: update_stock_Inr)
    qed
  qed
qed

lemma optimistic_from_holds:
  "stock_ok db \<Longrightarrow> \<forall>l \<in> set ls. 0 < ln_quantity l \<Longrightarrow>
     optimistic_from mx stale env o1 e ids i ls (db, k) = Inr (u, db', k') \<Longrightarrow> holds_lines o1 e ls db db'"
proof (induction ls arbitrary: db i k)
  case (Cons l ls)
  then obtain won db1 k1 where 1: "casReserve mx stale env o1 l 0 (db, k) = Inr (won, db1, k1)"
    by (auto simp: result_simps)
  note cas = casReserve_holds [OF Cons.prems(1) 1]
  obtain db2 where h: "holds_line o1 e l db db2"
    and rest: "optimistic_from mx stale env o1 e ids (Suc i) ls (db2, k1) = Inr (u, db', k')"
  proof (cases won)
    case True
    with Cons.prems(3) 1 obtain db2 where "insertHold (nth_id ids i) o1 l e db1 = Inr db2"
        "optimistic_from mx stale env o1 e ids (Suc i) ls (db2, k1) = Inr (u, db', k')"
      by (auto simp: result_simps)
    moreover have "\<exists>j. db2 = hold_db o1 e j l db"
      using True cas insertHold_fresh [of o1 l db] calculation(1) by metis
    ultimately show ?thesis using True cas that [of db2] by (simp add: holds_line_def)
  next
    case False
    with Cons.prems(3) 1 cas that [of db] show ?thesis by (auto simp: holds_line_def)
  qed
  moreover have "stock_ok db2" using holds_line_ok [OF Cons.prems(1) _ h] Cons.prems(2) by simp
  ultimately show ?case using Cons.IH [OF _ _ rest] Cons.prems(2) by auto
qed auto


subsection \<open>One line moved\<close>

definition settle_one :: "line_transition \<Rightarrow> string \<Rightarrow> reservation_row \<Rightarrow> inv_db \<Rightarrow> inv_db" where
  "settle_one t orderId row db =
     (flip_line t orderId (rs_variantId row) db)
       \<lparr>stockLevels := update_where (\<lambda>r. sl_variantId r = rs_variantId row)
          (stock_delta t (rs_quantity row)) (stockLevels db)\<rparr>"

definition movable :: "line_transition \<Rightarrow> string \<Rightarrow> inv_db \<Rightarrow> reservation_row \<Rightarrow> bool" where
  "movable t orderId db row \<longleftrightarrow>
     row \<in> set (reservations db) \<and> rs_orderId row = orderId \<and> rs_status row = transition_from t"

definition held_part :: "line_transition \<Rightarrow> int \<Rightarrow> int" where
  "held_part t q = (if transition_from t = L_HELD then q else 0)"

lemma stock_delta_variant [simp]: "sl_variantId (stock_delta t q s) = sl_variantId s"
  by (cases t) simp_all

lemma stock_delta_id [simp]: "sl_id (stock_delta t q s) = sl_id s"
  by (cases t) simp_all

lemma transition_to_not_held: "transition_to t \<noteq> L_HELD"
  by (cases t) simp_all

lemma transition_from_to: "transition_from t \<noteq> transition_to t"
  by (cases t) simp_all

lemma flip_line_rows:
  assumes "stock_ok db" and "movable t o1 db row"
  shows "\<exists>xs ys. reservations db = xs @ row # ys \<and>
    reservations (flip_line t o1 (rs_variantId row) db) = xs @ row\<lparr>rs_status := transition_to t\<rparr> # ys"
proof -
  have key: "(rs_orderId x = o1 \<and> rs_variantId x = rs_variantId row \<and> rs_status x = transition_from t) \<longleftrightarrow>
      line_key x = line_key row" if "x \<in> set (reservations db)" for x
    using that assms unfolding stock_ok_def movable_def
    by (metis (no_types, lifting) line_key_def prod.inject unique_key_row)
  from update_where_single [of line_key "reservations db" row, OF _ _ key] assms show ?thesis
    unfolding flip_line_def by (simp add: stock_ok_def movable_def)
qed

lemma held_units_flip:
  assumes "stock_ok db" and "movable t o1 db row"
  shows "held_units v (flip_line t o1 (rs_variantId row) db) =
    held_units v db - (if v = rs_variantId row then held_part t (rs_quantity row) else 0)"
proof -
  obtain xs ys where "reservations db = xs @ row # ys"
    "reservations (flip_line t o1 (rs_variantId row) db) = xs @ row\<lparr>rs_status := transition_to t\<rparr> # ys"
    using flip_line_rows [OF assms] by blast
  with assms(2) show ?thesis
    by (auto simp: held_units_def held_part_def movable_def transition_to_not_held)
qed

lemma held_units_nonneg: "stock_ok db \<Longrightarrow> 0 \<le> held_units v db"
  unfolding held_units_def by (intro sum_list_nonneg) (auto simp: stock_ok_def less_imp_le)

lemma held_units_line:
  assumes "stock_ok db" and "movable t o1 db row"
  shows "held_part t (rs_quantity row) \<le> held_units (rs_variantId row) db"
proof -
  obtain xs ys where rs: "reservations db = xs @ row # ys"
    using flip_line_rows [OF assms] by blast
  have "0 \<le> rs_quantity r" if "r \<in> set (reservations db)" for r
    using that assms(1) by (simp add: stock_ok_def less_imp_le)
  then have "0 \<le> sum_list (map rs_quantity (filter P xs))" "0 \<le> sum_list (map rs_quantity (filter P ys))" for P
    by (auto intro!: sum_list_nonneg simp: rs)
  moreover have "0 < rs_quantity row" using assms by (auto simp: stock_ok_def movable_def)
  ultimately show ?thesis
    using assms(2) by (auto simp: held_units_def held_part_def movable_def rs add_increasing add_increasing2)
qed

lemma flip_line_unmoved [simp]:
  "stockLevels (flip_line t o1 v db) = stockLevels db"
  "reservationOrders (flip_line t o1 v db) = reservationOrders db"
  by (simp_all add: flip_line_def)

lemma settle_one_unmoved [simp]: "reservationOrders (settle_one t o1 row db) = reservationOrders db"
  by (simp add: settle_one_def)

lemma level_ok_delta:
  assumes ok: "stock_ok db" and row: "movable t o1 db row"
    and s: "s \<in> set (stockLevels db)" "sl_variantId s = rs_variantId row"
  shows "level_ok (settle_one t o1 row db) (stock_delta t (rs_quantity row) s)"
proof -
  have "level_ok db s" using ok s by (simp add: stock_ok_def)
  moreover have "0 < rs_quantity row" using ok row by (auto simp: stock_ok_def movable_def)
  moreover have "held_units v (settle_one t o1 row db) = held_units v (flip_line t o1 (rs_variantId row) db)" for v
    by (simp add: settle_one_def held_units_def)
  ultimately show ?thesis
    using held_units_flip [OF ok row] held_units_line [OF ok row] s(2)
    by (cases t) (auto simp: level_ok_def held_part_def)
qed

lemma settle_one_ok:
  assumes ok: "stock_ok db" and row: "movable t o1 db row"
  shows "stock_ok (settle_one t o1 row db)"
proof -
  let ?db = "settle_one t o1 row db"
  obtain xs ys where rs: "reservations db = xs @ row # ys"
      and rs': "reservations ?db = xs @ row\<lparr>rs_status := transition_to t\<rparr> # ys"
    using flip_line_rows [OF ok row] by (auto simp: settle_one_def)
  have keys: "map sl_id (stockLevels ?db) = map sl_id (stockLevels db)"
      "map sl_variantId (stockLevels ?db) = map sl_variantId (stockLevels db)"
    by (simp_all add: settle_one_def map_update_where)
  have "level_ok ?db s'" if s': "s' \<in> set (stockLevels ?db)" for s'
  proof -
    obtain s where s: "s \<in> set (stockLevels db)"
        "s' = (if sl_variantId s = rs_variantId row then stock_delta t (rs_quantity row) s else s)"
      using s' by (auto simp: settle_one_def set_update_where)
    have units: "held_units v ?db = held_units v (flip_line t o1 (rs_variantId row) db)" for v
      by (simp add: settle_one_def held_units_def)
    show ?thesis
    proof (cases "sl_variantId s = rs_variantId row")
      case True
      with s show ?thesis using level_ok_delta [OF ok row] by simp
    next
      case False
      moreover have "level_ok db s" using ok s by (simp add: stock_ok_def)
      ultimately show ?thesis
        using s(2) by (simp add: level_ok_def units held_units_flip [OF ok row])
    qed
  qed
  moreover have "sl_variantId ` set (stockLevels ?db) = sl_variantId ` set (stockLevels db)"
    using keys(2) by (metis list.set_map)
  moreover have "distinct (map line_key (reservations ?db))"
    using ok by (simp add: stock_ok_def rs rs' line_key_def)
  ultimately show ?thesis using ok keys by (auto simp: stock_ok_def rs rs')
qed

lemma move_line_settles:
  assumes ok: "stock_ok db" and row: "movable t o1 db row"
  shows "move_line env t o1 row (db, k) =
    ebind (deadline_limit env k) (\<lambda>_. Inr (True, settle_one t o1 row db, Suc k))"
proof -
  have "update_stock (\<lambda>r. sl_variantId r = rs_variantId row) (stock_delta t (rs_quantity row))
      (flip_line t o1 (rs_variantId row) db) = Inr (settle_one t o1 row db)"
  proof -
    have "stock_check (stock_delta t (rs_quantity row) s) = None"
      if "s \<in> set (stockLevels db)" "sl_variantId s = rs_variantId row" for s
      using level_ok_delta [OF ok row that] unfolding level_ok_def stock_check_None by simp
    then show ?thesis unfolding update_stock_Inr by (auto simp: settle_one_def)
  qed
  moreover have "list_ex (\<lambda>r. rs_orderId r = o1 \<and> rs_variantId r = rs_variantId row \<and>
      rs_status r = transition_from t) (reservations db)"
    using row by (auto simp: movable_def list_ex_iff)
  ultimately show ?thesis by (simp add: move_line_def Let_def)
qed

lemma movable_settle_one:
  "movable t o1 db r \<Longrightarrow> rs_variantId r \<noteq> rs_variantId row \<Longrightarrow> movable t o1 (settle_one t o1 row db) r"
  by (auto simp: movable_def settle_one_def flip_line_def set_update_where)

lemma move_rows_settles:
  assumes "stock_ok db" and "\<forall>r \<in> set rows. movable t o1 db r" and "distinct (map rs_variantId rows)"
    and "move_rows env t o1 rows n (db, k) = Inr (m, db', k')"
  shows "db' = fold (settle_one t o1) rows db \<and> m = n + length rows \<and> stock_ok db'"
  using assms
proof (induction rows arbitrary: db n k)
  case (Cons row rows)
  have row: "movable t o1 db row" using Cons.prems(2) by simp
  then have "move_rows env t o1 rows (Suc n) (settle_one t o1 row db, Suc k) = Inr (m, db', k')"
    using Cons.prems(4) by (auto simp: move_line_settles [OF Cons.prems(1) row] result_simps)
  moreover have "\<forall>r \<in> set rows. movable t o1 (settle_one t o1 row db) r"
    using Cons.prems(2,3) by (auto intro!: movable_settle_one simp: image_iff)
  ultimately show ?case
    using Cons.IH settle_one_ok [OF Cons.prems(1) row] Cons.prems(3) by fastforce
qed simp


subsection \<open>An order's lines moved\<close>

text \<open>
  What moving an order's lines comes to: every level whose variant the order has a movable line of
  changes by that line's quantity, and those lines change status. Nothing else changes.
\<close>

definition own_line :: "line_transition \<Rightarrow> string \<Rightarrow> inv_db \<Rightarrow> string \<Rightarrow> reservation_row option" where
  "own_line t orderId db v = find_where
     (\<lambda>r. rs_orderId r = orderId \<and> rs_variantId r = v \<and> rs_status r = transition_from t) (reservations db)"

definition settle_order :: "line_transition \<Rightarrow> string \<Rightarrow> inv_db \<Rightarrow> inv_db" where
  "settle_order t orderId db =
     db\<lparr>stockLevels := map (\<lambda>s. case own_line t orderId db (sl_variantId s) of
            None \<Rightarrow> s | Some r \<Rightarrow> stock_delta t (rs_quantity r) s) (stockLevels db),
        reservations := update_where
            (\<lambda>r. rs_orderId r = orderId \<and> rs_status r = transition_from t)
            (\<lambda>r. r\<lparr>rs_status := transition_to t\<rparr>) (reservations db)\<rparr>"

lemma fold_settle_levels:
  "distinct (map rs_variantId rows) \<Longrightarrow>
   stockLevels (fold (settle_one t o1) rows db) =
     map (\<lambda>s. case find_where (\<lambda>r. rs_variantId r = sl_variantId s) rows of
            None \<Rightarrow> s | Some r \<Rightarrow> stock_delta t (rs_quantity r) s) (stockLevels db)"
proof (induction rows arbitrary: db)
  case (Cons row rows)
  have none: "find_where (\<lambda>r. rs_variantId r = rs_variantId row) rows = None"
    using Cons.prems by (auto simp: find_where_None image_iff)
  show ?case
    using Cons none by (auto simp: settle_one_def update_where_def row_simps)
qed (simp add: row_simps)

lemma fold_settle_lines:
  "reservations (fold (settle_one t o1) rows db) =
     update_where (\<lambda>r. rs_orderId r = o1 \<and> rs_variantId r \<in> rs_variantId ` set rows \<and>
        rs_status r = transition_from t) (\<lambda>r. r\<lparr>rs_status := transition_to t\<rparr>) (reservations db)"
  using transition_from_to [of t]
  by (induction rows arbitrary: db) (auto simp: settle_one_def flip_line_def update_where_def)

lemma fold_settle_headers [simp]:
  "reservationOrders (fold (settle_one t o1) rows db) = reservationOrders db"
  by (induction rows arbitrary: db) auto

lemma inv_db_eqI:
  "stockLevels a = stockLevels b \<Longrightarrow> reservations a = reservations b \<Longrightarrow>
     reservationOrders a = reservationOrders b \<Longrightarrow> a = (b :: inv_db)"
  by simp

lemma pending_rows:
  assumes ok: "stock_ok db"
    and rows: "set rows = {r \<in> set (reservations db). rs_orderId r = o1 \<and> rs_status r = transition_from t}"
    and dist: "distinct rows"
  shows "\<forall>r \<in> set rows. movable t o1 db r" and "distinct (map rs_variantId rows)"
    and "fold (settle_one t o1) rows db = settle_order t o1 db"
proof -
  show 1: "\<forall>r \<in> set rows. movable t o1 db r" by (auto simp: rows movable_def)
  have uniq: "x = y" if "x \<in> set rows" "y \<in> set rows" "rs_variantId x = rs_variantId y" for x y
    using that ok unfolding rows stock_ok_def
    by (metis (mono_tags, lifting) line_key_def mem_Collect_eq unique_key_row)
  then show 2: "distinct (map rs_variantId rows)"
    using dist by (auto simp: distinct_map inj_on_def)
  have find: "find_where (\<lambda>r. rs_variantId r = v) rows = own_line t o1 db v" for v
    unfolding own_line_def by (rule find_where_unique) (use uniq rows in auto)
  show "fold (settle_one t o1) rows db = settle_order t o1 db"
  proof (rule inv_db_eqI)
    show "stockLevels (fold (settle_one t o1) rows db) = stockLevels (settle_order t o1 db)"
      by (simp add: fold_settle_levels [OF 2] find settle_order_def)
    show "reservations (fold (settle_one t o1) rows db) = reservations (settle_order t o1 db)"
      by (auto simp: fold_settle_lines settle_order_def update_where_def rows)
  qed (simp add: settle_order_def)
qed

lemma moveLines_settles:
  assumes ok: "stock_ok db" and run: "moveLines env t o1 (db, k) = Inr (res, db', k')"
  shows "db' = settle_order t o1 db \<and> stock_ok db'"
proof -
  let ?rows = "filter (\<lambda>r. rs_orderId r = o1) (reservations db)"
  let ?pending = "sort_key rs_variantId (filter (\<lambda>r. rs_status r = transition_from t) ?rows)"
  have set: "set ?pending = {r \<in> set (reservations db). rs_orderId r = o1 \<and> rs_status r = transition_from t}"
    by auto
  have dist: "distinct ?pending" using ok by (auto simp: stock_ok_def distinct_map)
  note pend = pending_rows [OF ok set dist]
  show ?thesis
  proof (cases "?pending = []")
    case True
    then have "?rows = [] \<or> filter (\<lambda>r. rs_status r = transition_from t) ?rows = []"
      by (metis length_0_conv length_sort)
    with True run have "db' = db" by (auto simp: moveLines_def Let_def split: if_splits)
    with True pend(3) ok show ?thesis by simp
  next
    case False
    then have "?rows \<noteq> []" by (metis filter.simps(1) sort_key_simps(1))
    with False run obtain count where "move_rows env t o1 ?pending 0 (db, k) = Inr (count, db', k')"
      by (auto simp: moveLines_def Let_def result_simps split: if_splits)
    from move_rows_settles [OF ok pend(1,2) this] show ?thesis unfolding pend(3) by blast
  qed
qed

end
