(* ===== verification/Inventory_Participant.thy ===== *)
theory Inventory_Participant
  imports Inventory_Stock
begin

text \<open>
  The stock participant of the checkout
  (\<^verbatim>\<open>application/inventory-participant.service.ts\<close> and \<^verbatim>\<open>domain/reservation-order-fence.ts\<close> of the
  inventory module), the sweep of lapsed holds, the operators' writes and the HTTP answers of
  \<^verbatim>\<open>interface/internal/reservations.controller.ts\<close>. Shown: the fence is a TCC fence; every operation
  keeps the store consistent, so stock is never oversold; what a Try holds and what a command moves,
  line by line; the answers and headers are those of the contract's fence table.
\<close>


section \<open>The fence\<close>

datatype fence_op = F_try | F_cmd reservation_command

fun decideReservationFence ::
    "fence_op \<Rightarrow> reservation_order_status option \<Rightarrow> reservation_order_status fence_decision" where
  "decideReservationFence F_try cur =
     (if cur = None then Apply R_HELD
      else if cur = Some R_HELD then Idempotent else Conflict)"
| "decideReservationFence (F_cmd Op_commit) cur =
     (if cur = Some R_HELD then Apply R_COMMITTED
      else if cur = Some R_COMMITTED then Idempotent else Conflict)"
| "decideReservationFence (F_cmd Op_release) cur =
     (if cur = None then Apply R_FENCED
      else if cur = Some R_HELD then Apply R_RELEASED
      else if cur = Some R_RELEASED \<or> cur = Some R_FENCED then Idempotent else Conflict)"
| "decideReservationFence (F_cmd Op_restock) cur =
     (if cur = Some R_COMMITTED then Apply R_RESTOCKED
      else if cur = Some R_RESTOCKED then Idempotent else Conflict)"

fun reservation_rank :: "reservation_order_status \<Rightarrow> nat" where
  "reservation_rank R_HELD = 1"
| "reservation_rank R_COMMITTED = 2"
| "reservation_rank R_RELEASED = 3"
| "reservation_rank R_FENCED = 3"
| "reservation_rank R_RESTOCKED = 3"

interpretation stock_fencing: tcc_fence decideReservationFence reservation_rank
proof
  fix op n assume "decideReservationFence op None = Apply n"
  then show "0 < reservation_rank n" by (cases n) simp_all
next
  fix op s n assume "decideReservationFence op (Some s) = Apply n"
  then show "reservation_rank s < reservation_rank n"
    by (cases "(op, Some s)" rule: decideReservationFence.cases) (auto split: if_splits)
next
  fix op h n assume "decideReservationFence op h = Apply n"
  then show "decideReservationFence op (Some n) = Idempotent"
    by (cases "(op, h)" rule: decideReservationFence.cases) (auto split: if_splits)
next
  fix op h n s m
  assume "decideReservationFence op h = Apply n" and "reservation_rank n \<le> reservation_rank s"
  then show "decideReservationFence op (Some s) \<noteq> Apply m"
    by (cases "(op, h)" rule: decideReservationFence.cases; cases s) (auto split: if_splits)
qed


section \<open>Commands\<close>

record participant_config =
  pc_budgetMs :: int
  pc_optimistic :: bool
  pc_maxRetries :: nat

text \<open>
  What one call meets outside the store: the ids the id-service minted (\<open>None\<close> when the mint failed),
  the clock when the deadline is set, when the transaction's body starts and at each limited
  statement, the statements cut short, the unlocked reads that were overtaken, and, in
  \<open>ce_missed\<close>, whether the first read of a header ran before a racing Try committed it.
\<close>

record call_env =
  ce_minted :: "string list option"
  ce_called :: int
  ce_started :: int
  ce_now :: "nat \<Rightarrow> int"
  ce_fault :: "nat \<Rightarrow> db_fault option"
  ce_stale :: "nat \<Rightarrow> (int \<times> int \<times> int) option"
  ce_missed :: bool

definition mintReservationIds :: "call_env \<Rightarrow> inv_error + string list" where
  "mintReservationIds env =
     (case ce_minted env of None \<Rightarrow> Inl IdMintUnavailable | Some ids \<Rightarrow> Inr ids)"

definition inTransaction ::
    "participant_config \<Rightarrow> call_env \<Rightarrow> (tx_env \<Rightarrow> 'a inv_step) \<Rightarrow> inv_db \<Rightarrow> (inv_error + 'a) \<times> inv_db" where
  "inTransaction cfg env work db =
     (let deadline = ce_called env + pc_budgetMs cfg;
          te = \<lparr>te_at = deadline, te_now = ce_now env, te_fault = ce_fault env\<rparr> in
      if deadline \<le> ce_started env then (Inl ReservationDeadline, db)
      else case work te (db, 0) of
        Inl e \<Rightarrow> (Inl e, db)
      | Inr (a, db', _) \<Rightarrow> (Inr a, db'))"

definition try_work ::
    "participant_config \<Rightarrow> call_env \<Rightarrow> string \<Rightarrow> reservation_line list \<Rightarrow> int \<Rightarrow> string list \<Rightarrow>
     tx_env \<Rightarrow> try_outcome inv_step" where
  "try_work cfg env orderId ls holdUntil ids te tx =
     ebind (insertHeader te orderId holdUntil tx) (\<lambda>(fresh, tx1).
       if fresh
       then ebind
         (if pc_optimistic cfg
          then reserveOptimistic (pc_maxRetries cfg) (ce_stale env) te orderId ls holdUntil ids tx1
          else reservePessimistic te orderId ls holdUntil ids tx1)
         (\<lambda>(_, tx2). Inr (Try_RESERVED, tx2))
       else ebind (findHeaderForUpdate te orderId tx1) (\<lambda>(header, tx2).
         case header of
           None \<Rightarrow> Inl (HeaderUnreadable orderId)
         | Some h \<Rightarrow>
             Inr (if decideReservationFence F_try (Some (hd_status h)) = Conflict
                  then Try_CONFLICT else Try_RESERVED, tx2)))"

fun try_answer :: "(inv_error + try_outcome) \<times> inv_db \<Rightarrow> (inv_error + try_outcome) \<times> inv_db" where
  "try_answer (Inl (InsufficientStock _ _ _), db) = (Inr Try_OUT_OF_STOCK, db)"
| "try_answer (Inl (ReservationConflict _), db) = (Inr Try_CONTENDED, db)"
| "try_answer r = r"

definition tryReserve ::
    "participant_config \<Rightarrow> call_env \<Rightarrow> string \<Rightarrow> reservation_line list \<Rightarrow> int \<Rightarrow> inv_db \<Rightarrow>
     (inv_error + try_outcome) \<times> inv_db" where
  "tryReserve cfg env orderId ls holdUntil db =
     (case mintReservationIds env of
        Inl e \<Rightarrow> (Inl e, db)
      | Inr ids \<Rightarrow> try_answer (inTransaction cfg env (try_work cfg env orderId ls holdUntil ids) db))"

fun command_lines :: "reservation_command \<Rightarrow> line_transition" where
  "command_lines Op_commit = Commit_lines"
| "command_lines Op_release = Release_lines"
| "command_lines Op_restock = Restock_lines"

definition apply_command ::
    "reservation_command \<Rightarrow> string \<Rightarrow> tx_env \<Rightarrow> header_row option \<Rightarrow> command_outcome inv_step" where
  "apply_command op orderId te header tx =
     (case decideReservationFence (F_cmd op) (map_option hd_status header) of
        Idempotent \<Rightarrow> Inr (Cmd_IDEMPOTENT, tx)
      | Conflict \<Rightarrow> Inr (Cmd_CONFLICT, tx)
      | Apply next_status \<Rightarrow>
          ebind (moveLines te (command_lines op) orderId tx) (\<lambda>(_, db, k).
            Inr (Cmd_APPLIED, setHeaderStatus orderId next_status db, k)))"

definition command_work ::
    "call_env \<Rightarrow> reservation_command \<Rightarrow> string \<Rightarrow> tx_env \<Rightarrow> command_outcome inv_step" where
  "command_work env op orderId te tx =
     ebind (findHeaderForUpdate te orderId tx) (\<lambda>(found, tx1).
       let header = (if ce_missed env then None else found) in
       if header = None \<and> op = Op_release
       then ebind (insertFencedHeader te orderId tx1) (\<lambda>(fresh, tx2).
         if fresh then Inr (Cmd_APPLIED, tx2)
         else ebind (findHeaderForUpdate te orderId tx2) (\<lambda>(again, tx3).
           apply_command op orderId te again tx3))
       else apply_command op orderId te header tx1)"

definition runCommand ::
    "participant_config \<Rightarrow> call_env \<Rightarrow> reservation_command \<Rightarrow> string \<Rightarrow> inv_db \<Rightarrow>
     (inv_error + command_outcome) \<times> inv_db" where
  "runCommand cfg env op orderId db = inTransaction cfg env (command_work env op orderId) db"

definition statusOf :: "string list \<Rightarrow> inv_db \<Rightarrow> (string \<times> reservation_order_status option) list" where
  "statusOf orderIds db =
     (if orderIds = [] then []
      else let found = findHeaderStatuses orderIds db
           in map (\<lambda>i. (i, map_of found i)) orderIds)"


section \<open>The lapsed-hold sweep\<close>

record sweep_summary =
  sw_scanned :: nat
  sw_released :: nat
  sw_raced :: nat
  sw_errors :: nat

definition lapse_work :: "bool \<Rightarrow> int \<Rightarrow> string \<Rightarrow> tx_env \<Rightarrow> bool inv_step" where
  "lapse_work skipped dbnow orderId te tx =
     (if \<not> lockLapsedHeader skipped dbnow orderId (fst tx) then Inr (False, tx)
      else ebind (releaseReservations te orderId tx) (\<lambda>(_, db, k).
             Inr (True, setHeaderStatus orderId R_RELEASED db, k)))"

text \<open>
  The sweep's transaction has a deadline but no check before its first statement: the port's
  \<open>transaction\<close> is called directly.
\<close>

definition lapse_one :: "int \<Rightarrow> (call_env \<times> bool \<times> int) \<Rightarrow> string \<Rightarrow> inv_db \<Rightarrow> (inv_error + bool) \<times> inv_db" where
  "lapse_one budgetMs e orderId db =
     (let (env, skipped, dbnow) = e;
          te = \<lparr>te_at = ce_called env + budgetMs, te_now = ce_now env, te_fault = ce_fault env\<rparr> in
      case lapse_work skipped dbnow orderId te (db, 0) of
        Inl err \<Rightarrow> (Inl err, db)
      | Inr (released, db', _) \<Rightarrow> (Inr released, db'))"

fun sweep_ids ::
    "int \<Rightarrow> (nat \<Rightarrow> call_env \<times> bool \<times> int) \<Rightarrow> nat \<Rightarrow> string list \<Rightarrow> sweep_summary \<Rightarrow> inv_db \<Rightarrow>
     sweep_summary \<times> inv_db" where
  "sweep_ids budgetMs e i [] sm db = (sm, db)"
| "sweep_ids budgetMs e i (orderId # ids) sm db =
     (let (r, db') = lapse_one budgetMs (e i) orderId db;
          sm' = (case r of
                   Inr True \<Rightarrow> sm\<lparr>sw_released := sw_released sm + 1\<rparr>
                 | Inr False \<Rightarrow> sm\<lparr>sw_raced := sw_raced sm + 1\<rparr>
                 | Inl _ \<Rightarrow> sm\<lparr>sw_errors := sw_errors sm + 1\<rparr>)
      in sweep_ids budgetMs e (Suc i) ids sm' db')"

definition sweep_execute ::
    "int \<Rightarrow> (nat \<Rightarrow> call_env \<times> bool \<times> int) \<Rightarrow> int \<Rightarrow> nat \<Rightarrow> inv_db \<Rightarrow> sweep_summary \<times> inv_db" where
  "sweep_execute budgetMs e dbnow batchSize db =
     (let orderIds = findLapsedHeaderIds dbnow batchSize db in
      sweep_ids budgetMs e 0 orderIds
        \<lparr>sw_scanned = length orderIds, sw_released = 0, sw_raced = 0, sw_errors = 0\<rparr> db)"


section \<open>Operators' writes\<close>

record stock_view =
  sv_onHand :: int
  sv_reserved :: int
  sv_available :: int

definition toView :: "stock_row \<Rightarrow> stock_view" where
  "toView r = \<lparr>sv_onHand = sl_onHand r, sv_reserved = sl_reserved r,
              sv_available = sl_onHand r - sl_reserved r\<rparr>"

definition find_level :: "string \<Rightarrow> inv_db \<Rightarrow> stock_row option" where
  "find_level variantId db = find_where (\<lambda>r. sl_variantId r = variantId) (stockLevels db)"

definition getLevel :: "string \<Rightarrow> inv_db \<Rightarrow> stock_view option" where
  "getLevel variantId db = map_option toView (find_level variantId db)"

fun guardChecks :: "inv_error + 'a \<Rightarrow> inv_error + 'a" where
  "guardChecks (Inl (CheckViolation c)) =
     (if c = ''ck_stock_no_oversell'' \<or> c = ''ck_stock_on_hand_nonneg''
      then Inl ConflictException else Inl (CheckViolation c))"
| "guardChecks r = r"

text \<open>\<open>INSERT ... ON CONFLICT (variant_id) DO UPDATE\<close>; the minted id is spent either way.\<close>

definition setOnHand :: "string option \<Rightarrow> string \<Rightarrow> int \<Rightarrow> inv_db \<Rightarrow> (inv_error + stock_view) \<times> inv_db" where
  "setOnHand minted variantId quantity db =
     (case minted of
        None \<Rightarrow> (Inl IdMintUnavailable, db)
      | Some i \<Rightarrow>
          (case guardChecks
             (case find_level variantId db of
                Some _ \<Rightarrow> update_stock (\<lambda>r. sl_variantId r = variantId)
                  (\<lambda>r. r\<lparr>sl_onHand := quantity, sl_version := sl_version r + 1\<rparr>) db
              | None \<Rightarrow>
                  let row = \<lparr>sl_id = i, sl_variantId = variantId, sl_onHand = quantity,
                             sl_reserved = 0, sl_version = 0\<rparr> in
                  if list_ex (\<lambda>r. sl_id r = i) (stockLevels db) then Inl DuplicateKey
                  else (case stock_check row of
                          Some c \<Rightarrow> Inl (CheckViolation c)
                        | None \<Rightarrow> Inr (db\<lparr>stockLevels := stockLevels db @ [row]\<rparr>))) of
             Inl e \<Rightarrow> (Inl e, db)
           | Inr db' \<Rightarrow> (Inr (toView (the (find_level variantId db'))), db')))"

definition adjust :: "string \<Rightarrow> int \<Rightarrow> inv_db \<Rightarrow> (inv_error + stock_view option) \<times> inv_db" where
  "adjust variantId delta db =
     (case find_level variantId db of
        None \<Rightarrow> (Inr None, db)
      | Some r \<Rightarrow>
          if INT4_MAX < sl_onHand r + delta then (Inl IntegerOutOfRange, db)
          else if MAX_STOCK_ON_HAND < sl_onHand r + delta then (Inl ConflictException, db)
          else (case guardChecks (update_stock
                    (\<lambda>r. sl_variantId r = variantId \<and> sl_onHand r + delta \<le> MAX_STOCK_ON_HAND)
                    (\<lambda>r. r\<lparr>sl_onHand := sl_onHand r + delta, sl_version := sl_version r + 1\<rparr>) db) of
                  Inl e \<Rightarrow> (Inl e, db)
                | Inr db' \<Rightarrow> (Inr (map_option toView (find_level variantId db')), db')))"

definition admin_getLevel :: "string \<Rightarrow> inv_db \<Rightarrow> inv_error + stock_view" where
  "admin_getLevel variantId db =
     (case getLevel variantId db of None \<Rightarrow> Inl (NotFoundException variantId) | Some v \<Rightarrow> Inr v)"

definition admin_adjust :: "string \<Rightarrow> int \<Rightarrow> inv_db \<Rightarrow> (inv_error + stock_view) \<times> inv_db" where
  "admin_adjust variantId delta db =
     (case adjust variantId delta db of
        (Inl e, db') \<Rightarrow> (Inl e, db')
      | (Inr None, db') \<Rightarrow> (Inl (NotFoundException variantId), db')
      | (Inr (Some v), db') \<Rightarrow> (Inr v, db'))"

text \<open>What the request bodies are validated to before they reach the services.\<close>

definition valid_SetStockDto :: "js_number \<Rightarrow> bool" where
  "valid_SetStockDto q = (case q of JInt n \<Rightarrow> 0 \<le> n \<and> n \<le> MAX_STOCK_ON_HAND | JNonInt \<Rightarrow> False)"

definition valid_AdjustStockDto :: "js_number \<Rightarrow> bool" where
  "valid_AdjustStockDto d =
     (case d of JInt n \<Rightarrow> - MAX_STOCK_ON_HAND \<le> n \<and> n \<le> MAX_STOCK_ON_HAND \<and> n \<noteq> 0 | JNonInt \<Rightarrow> False)"

text \<open>The lines and the hold deadline; that the ids are Snowflake ids is the id pipe's check.\<close>

definition valid_TryReservationDto :: "int \<Rightarrow> reservation_line list \<Rightarrow> int \<Rightarrow> bool" where
  "valid_TryReservationDto now ls holdUntil \<longleftrightarrow>
     ls \<noteq> [] \<and> length ls \<le> MAX_RESERVATION_LINES \<and> distinct (map ln_variantId ls) \<and>
     list_all (\<lambda>l. 1 \<le> ln_quantity l) ls \<and> now < holdUntil"


section \<open>HTTP answers\<close>

text \<open>\<open>orRetry\<close> with the two filters: every fault is a 503 with \<open>Retry-After\<close>, two of them carry a code.\<close>

definition service_unavailable :: "string option \<Rightarrow> json" where
  "service_unavailable code =
     JObject ((''statusCode'', JNum (JInt LOCK_BUDGET_EXHAUSTED_STATUS)) #
       (case code of None \<Rightarrow> [] | Some c \<Rightarrow> [(''code'', JString c)]) @
       [(''message'', JString ''Service unavailable'')])"

fun fault_code :: "inv_error \<Rightarrow> string option" where
  "fault_code ReservationTimeout = Some LOCK_BUDGET_EXHAUSTED"
| "fault_code IdMintUnavailable = Some ID_SERVICE_UNAVAILABLE"
| "fault_code _ = None"

fun try_response :: "inv_error + try_outcome \<Rightarrow> int \<times> json" where
  "try_response (Inr o1) = (TRY_OUTCOME_STATUS o1, JObject [(''outcome'', JString (try_name o1))])"
| "try_response (Inl e) = (LOCK_BUDGET_EXHAUSTED_STATUS, service_unavailable (fault_code e))"

fun command_response :: "inv_error + command_outcome \<Rightarrow> int \<times> json" where
  "command_response (Inr o1) = (COMMAND_OUTCOME_STATUS o1, JObject [(''outcome'', JString (command_name o1))])"
| "command_response (Inl e) = (LOCK_BUDGET_EXHAUSTED_STATUS, service_unavailable (fault_code e))"

definition status_response :: "(string \<times> reservation_order_status option) list \<Rightarrow> json" where
  "status_response entries =
     JObject [(''statuses'', JObject (map (\<lambda>(i, st).
        (i, case st of None \<Rightarrow> JNull | Some s \<Rightarrow> JString (reservation_status_name s))) entries))]"


section \<open>Every operation keeps the store consistent\<close>

lemma find_header_Some:
  "find_header o1 db = Some h \<Longrightarrow> h \<in> set (reservationOrders db) \<and> hd_orderId h = o1"
  by (auto simp: find_header_def dest: find_where_Some)

lemma find_header_None: "find_header o1 db = None \<longleftrightarrow> (\<forall>h \<in> set (reservationOrders db). hd_orderId h \<noteq> o1)"
  by (auto simp: find_header_def find_where_None)

lemma insertHeaderRow_Inr:
  "insertHeaderRow te row (db, k) = Inr (fresh, db', k') \<Longrightarrow>
     (if fresh then find_header (hd_orderId row) db = None \<and>
                    db' = db\<lparr>reservationOrders := reservationOrders db @ [row]\<rparr>
      else find_header (hd_orderId row) db \<noteq> None \<and> db' = db)"
  by (auto simp: insertHeaderRow_def result_simps split: if_splits)

lemma findHeaderForUpdate_Inr:
  "findHeaderForUpdate te o1 (db, k) = Inr (h, db', k') \<Longrightarrow> h = find_header o1 db \<and> db' = db"
  by (auto simp: findHeaderForUpdate_def result_simps)

lemma line_header:
  assumes "inv_ok db" and "r \<in> set (reservations db)"
  shows "\<exists>h. find_header (rs_orderId r) db = Some h \<and> header_line (hd_status h) = Some (rs_status r)"
proof -
  obtain h where h: "h \<in> set (reservationOrders db)" "hd_orderId h = rs_orderId r"
      "header_line (hd_status h) = Some (rs_status r)"
    using assms unfolding inv_ok_def by blast
  moreover have "find_header (hd_orderId h) db = Some h"
    unfolding find_header_def using assms(1) h(1) by (intro find_where_key) (auto simp: inv_ok_def)
  ultimately show ?thesis by auto
qed

lemma no_header_no_line: "inv_ok db \<Longrightarrow> find_header o1 db = None \<Longrightarrow> \<not> isHeld o1 v db"
  using line_header by (fastforce simp: isHeld_iff)

lemma stock_ok_headers [simp]: "stock_ok (db\<lparr>reservationOrders := hs\<rparr>) \<longleftrightarrow> stock_ok db"
  by (simp add: stock_ok_def level_ok_def held_units_def)

text \<open>A Try on an order without header.\<close>

lemma held_inv_ok:
  assumes ok: "inv_ok db" and none: "find_header o1 db = None"
    and pos: "\<forall>l \<in> set ls. 0 < ln_quantity l"
    and run: "holds_lines o1 e ls (db\<lparr>reservationOrders := reservationOrders db @
      [\<lparr>hd_orderId = o1, hd_status = R_HELD, hd_holdUntil = Some e\<rparr>]\<rparr>) db'"
  shows "inv_ok db'"
proof -
  let ?h = "\<lparr>hd_orderId = o1, hd_status = R_HELD, hd_holdUntil = Some e\<rparr>"
  have hs: "reservationOrders db' = reservationOrders db @ [?h]"
    using holds_lines_unmoved [OF run] by simp
  obtain new where rs: "reservations db' = reservations db @ new"
      and new: "\<forall>r \<in> set new. rs_orderId r = o1 \<and> rs_status r = L_HELD"
    using holds_lines_rows [OF run] by auto
  have "stock_ok db'" using holds_lines_ok [OF _ pos run] ok by (simp add: inv_ok_def)
  then show ?thesis using ok none new by (auto simp: inv_ok_def hs rs find_header_None)
qed

lemma order_lines_set [simp]: "set (order_lines ls) = set ls"
  by (simp add: order_lines_def)

lemma try_work_Inr:
  assumes ok: "inv_ok db" and pos: "\<forall>l \<in> set ls. 0 < ln_quantity l"
    and run: "try_work cfg env o1 ls e ids te (db, 0) = Inr (out, db', k')"
  shows "(case find_header o1 db of
      None \<Rightarrow> out = Try_RESERVED \<and> holds_lines o1 e (order_lines ls)
        (db\<lparr>reservationOrders := reservationOrders db @
          [\<lparr>hd_orderId = o1, hd_status = R_HELD, hd_holdUntil = Some e\<rparr>]\<rparr>) db'
    | Some h \<Rightarrow> out = (if hd_status h = R_HELD then Try_RESERVED else Try_CONFLICT) \<and> db' = db)"
proof -
  obtain fresh db1 k1 where ins: "insertHeader te o1 e (db, 0) = Inr (fresh, db1, k1)"
    using run by (auto simp: try_work_def result_simps)
  note hdr = insertHeaderRow_Inr [OF ins [unfolded insertHeader_def]]
  show ?thesis
  proof (cases fresh)
    case True
    with hdr have none: "find_header o1 db = None" and "stock_ok db1" and
        db1: "db1 = db\<lparr>reservationOrders := reservationOrders db @
          [\<lparr>hd_orderId = o1, hd_status = R_HELD, hd_holdUntil = Some e\<rparr>]\<rparr>"
      using ok by (auto simp: inv_ok_def)
    with run ins True pos have "out = Try_RESERVED \<and> holds_lines o1 e (order_lines ls) db1 db'"
      by (auto simp: try_work_def result_simps reserveOptimistic_def reservePessimistic_def
          split: if_splits intro: optimistic_from_holds pessimistic_from_holds)
    with none db1 show ?thesis by simp
  next
    case False
    with run ins hdr show ?thesis
      by (auto simp: try_work_def result_simps dest!: findHeaderForUpdate_Inr split: option.splits if_splits)
  qed
qed

lemma inTransaction_cases:
  "inTransaction cfg env work db = (r, db') \<Longrightarrow>
     (\<exists>e. r = Inl e) \<and> db' = db \<or>
     (\<exists>a te k. r = Inr a \<and> work te (db, 0) = Inr (a, db', k))"
  by (auto simp: inTransaction_def Let_def split: if_splits sum.splits prod.splits)

lemma inTransaction_Inl:
  "inTransaction cfg env work db = (Inl e, db') \<Longrightarrow>
     e = ReservationDeadline \<or> (\<exists>te. work te (db, 0) = Inl e)"
  by (auto simp: inTransaction_def Let_def split: if_splits sum.splits prod.splits)

lemma deadline_limit_Inl:
  "deadline_limit te k = Inl e \<Longrightarrow> e = ReservationTimeout \<or> e = ReservationDeadline"
  by (auto simp: deadline_limit_def split: if_splits option.splits db_fault.splits)

lemma try_work_seen_Inl:
  assumes "find_header o1 db = Some h" and "try_work cfg env o1 ls e ids te (db, 0) = Inl err"
  shows "err = ReservationTimeout \<or> err = ReservationDeadline"
  using assms by (auto simp: try_work_def insertHeader_def insertHeaderRow_def findHeaderForUpdate_def
      result_simps dest: deadline_limit_Inl split: if_splits option.splits)

lemma try_answer_db [simp]: "snd (try_answer r) = snd r"
  by (cases r rule: try_answer.cases) simp_all

lemma tryReserve_inv:
  assumes ok: "inv_ok db" and pos: "\<forall>l \<in> set ls. 0 < ln_quantity l"
  shows "inv_ok (snd (tryReserve cfg env o1 ls e db))"
proof (cases "mintReservationIds env")
  case (Inr ids)
  obtain r db' where t: "inTransaction cfg env (try_work cfg env o1 ls e ids) db = (r, db')" by force
  have "inv_ok db'"
    using inTransaction_cases [OF t]
  proof (elim disjE exE conjE)
    fix out te k assume "try_work cfg env o1 ls e ids te (db, 0) = Inr (out, db', k)"
    from try_work_Inr [OF ok pos this] show ?thesis
      using ok pos held_inv_ok [OF ok, of o1 "order_lines ls" e db'] by (auto split: option.splits if_splits)
  qed (use ok in simp)
  with Inr t show ?thesis by (simp add: tryReserve_def)
qed (use ok in \<open>simp add: tryReserve_def\<close>)

text \<open>A command on an order with the given header.\<close>

lemma settle_order_headers [simp]: "reservationOrders (settle_order t o1 db) = reservationOrders db"
  by (simp add: settle_order_def)

lemma settled_inv_ok:
  assumes ok: "inv_ok db" and h: "find_header o1 db = Some h"
    and src: "header_line (hd_status h) = Some (transition_from t)"
    and dst: "header_line st = Some (transition_to t)"
    and stock: "stock_ok (settle_order t o1 db)"
  shows "inv_ok (setHeaderStatus o1 st (settle_order t o1 db))"
proof -
  let ?db = "setHeaderStatus o1 st (settle_order t o1 db)"
  have hs: "reservationOrders ?db =
      update_where (\<lambda>h. hd_orderId h = o1) (\<lambda>h. h\<lparr>hd_status := st\<rparr>) (reservationOrders db)"
    by (simp add: setHeaderStatus_def)
  have "\<exists>h' \<in> set (reservationOrders ?db).
      hd_orderId h' = rs_orderId r' \<and> header_line (hd_status h') = Some (rs_status r')"
    if r': "r' \<in> set (reservations ?db)" for r'
  proof -
    obtain r where r: "r \<in> set (reservations db)"
      and eq: "r' = (if rs_orderId r = o1 \<and> rs_status r = transition_from t
                     then r\<lparr>rs_status := transition_to t\<rparr> else r)"
      using r' by (auto simp: setHeaderStatus_def settle_order_def set_update_where)
    obtain hr where hr: "find_header (rs_orderId r) db = Some hr"
        "header_line (hd_status hr) = Some (rs_status r)"
      using line_header [OF ok r] by blast
    show ?thesis
    proof (cases "rs_orderId r = o1")
      case True
      with hr h src have "rs_status r = transition_from t" by simp
      with True eq have "rs_orderId r' = o1" "rs_status r' = transition_to t" by simp_all
      moreover have "h\<lparr>hd_status := st\<rparr> \<in> set (reservationOrders ?db)"
        using find_header_Some [OF h] unfolding hs set_update_where by force
      ultimately show ?thesis using dst find_header_Some [OF h]
        by (intro bexI [of _ "h\<lparr>hd_status := st\<rparr>"]) simp_all
    next
      case False
      then have "hr \<in> set (reservationOrders ?db)"
        using find_header_Some [OF hr(1)] unfolding hs set_update_where by force
      with False eq hr find_header_Some [OF hr(1)] show ?thesis by auto
    qed
  qed
  moreover have "distinct (map hd_orderId (reservationOrders ?db))"
    using ok by (simp add: hs map_update_where inv_ok_def)
  ultimately show ?thesis using stock by (simp add: inv_ok_def setHeaderStatus_def)
qed

lemma setHeaderStatus_missing: "find_header o1 db = None \<Longrightarrow> setHeaderStatus o1 st db = db"
  by (simp add: setHeaderStatus_def find_header_None update_where_none)

lemma settle_order_missing:
  assumes "inv_ok db" and "find_header o1 db = None"
  shows "settle_order t o1 db = db"
proof -
  have "\<forall>r \<in> set (reservations db). rs_orderId r \<noteq> o1"
    using no_header_no_line [OF assms] by (auto simp: isHeld_iff)
  then have "own_line t o1 db v = None" "update_where (\<lambda>r. rs_orderId r = o1 \<and> rs_status r = transition_from t)
      f (reservations db) = reservations db" for v f
    by (auto simp: own_line_def find_where_None intro: update_where_none)
  then show ?thesis by (simp add: settle_order_def)
qed

text \<open>
  The abstract command: the answer and the new header of the contract's fence table, and, when it
  applies to lines, \<open>settle_order\<close> on the store.
\<close>

definition abstract_command ::
    "reservation_command \<Rightarrow> string \<Rightarrow> inv_db \<Rightarrow> command_outcome \<times> inv_db" where
  "abstract_command op orderId db =
     (case (header_status db orderId, stock_fence op (header_status db orderId)) of
        (None, Cmd_APPLIED, Some st) \<Rightarrow>
          (Cmd_APPLIED, db\<lparr>reservationOrders := reservationOrders db @
             [\<lparr>hd_orderId = orderId, hd_status = st, hd_holdUntil = None\<rparr>]\<rparr>)
      | (Some _, Cmd_APPLIED, Some st) \<Rightarrow>
          (Cmd_APPLIED, setHeaderStatus orderId st (settle_order (command_lines op) orderId db))
      | (_, out, _) \<Rightarrow> (out, db))"

lemma fence_table:
  "stock_fence op h =
     (case decideReservationFence (F_cmd op) h of
        Apply st \<Rightarrow> (Cmd_APPLIED, Some st) | Idempotent \<Rightarrow> (Cmd_IDEMPOTENT, h) | Conflict \<Rightarrow> (Cmd_CONFLICT, h))"
  by (cases "(op, h)" rule: stock_fence.cases) simp_all

lemma fence_lines:
  "decideReservationFence (F_cmd op) (Some s) = Apply st \<Longrightarrow>
     header_line s = Some (transition_from (command_lines op)) \<and>
     header_line st = Some (transition_to (command_lines op))"
  by (cases op; cases s) (auto split: if_splits)

lemma apply_command_Inr:
  assumes ok: "inv_ok db" and h: "find_header o1 db = Some h"
    and run: "apply_command op o1 te (Some h) (db, k) = Inr (out, db', k')"
  shows "(out, db') = abstract_command op o1 db \<and> inv_ok db'"
proof -
  have st: "header_status db o1 = Some (hd_status h)" using h by (simp add: header_status_def)
  show ?thesis
  proof (cases "decideReservationFence (F_cmd op) (Some (hd_status h))")
    case (Apply n)
    with run obtain res db1 k1 where "moveLines te (command_lines op) o1 (db, k) = Inr (res, db1, k1)"
        and out: "out = Cmd_APPLIED" "db' = setHeaderStatus o1 n db1"
      by (auto simp: apply_command_def result_simps)
    from moveLines_settles [OF _ this(1)] ok
    have db1: "db1 = settle_order (command_lines op) o1 db" "stock_ok db1" by (auto simp: inv_ok_def)
    with fence_lines [OF Apply] have "inv_ok db'"
      using settled_inv_ok [OF ok h] out by blast
    with out db1 st Apply show ?thesis by (simp add: abstract_command_def fence_table)
  qed (use run st ok in \<open>auto simp: apply_command_def abstract_command_def fence_table\<close>)
qed

lemma fenced_inv_ok:
  "inv_ok db \<Longrightarrow> find_header o1 db = None \<Longrightarrow>
     inv_ok (db\<lparr>reservationOrders := reservationOrders db @
       [\<lparr>hd_orderId = o1, hd_status = R_FENCED, hd_holdUntil = None\<rparr>]\<rparr>)"
  by (auto simp: inv_ok_def find_header_None)

lemma command_work_Inr:
  assumes ok: "inv_ok db"
    and run: "command_work env op o1 te (db, 0) = Inr (out, db', k')"
  shows "((out, db') = abstract_command op o1 db \<or>
      ce_missed env \<and> op \<noteq> Op_release \<and> out = Cmd_CONFLICT \<and> db' = db) \<and> inv_ok db'"
proof -
  obtain k1 where "findHeaderForUpdate te o1 (db, 0) = Inr (find_header o1 db, db, k1)"
    using run by (auto simp: command_work_def result_simps dest: findHeaderForUpdate_Inr)
  note run' = run [unfolded command_work_def this ebind.simps prod.case Let_def]
  let ?header = "if ce_missed env then None else find_header o1 db"
  show ?thesis
  proof (cases "?header = None \<and> op = Op_release")
    case True
    with run' obtain fresh db2 k2 where ins: "insertFencedHeader te o1 (db, k1) = Inr (fresh, db2, k2)"
      by (auto simp: result_simps)
    note hdr = insertHeaderRow_Inr [OF ins [unfolded insertFencedHeader_def]]
    show ?thesis
    proof (cases fresh)
      case fresh: True
      with run' ins hdr True fenced_inv_ok [OF ok] show ?thesis
        by (auto simp: result_simps abstract_command_def header_status_def)
    next
      case False
      with hdr obtain h where h: "find_header o1 db = Some h" and "db2 = db" by auto
      with run' True ins False obtain k3 where "apply_command op o1 te (Some h) (db, k3) = Inr (out, db', k')"
        by (auto simp: result_simps dest!: findHeaderForUpdate_Inr)
      from apply_command_Inr [OF ok h this] show ?thesis by blast
    qed
  next
    case False
    with run' have run2: "apply_command op o1 te ?header (db, k1) = Inr (out, db', k')" by auto
    show ?thesis
    proof (cases ?header)
      case None
      with False have "op \<noteq> Op_release" by simp
      with run2 None have "out = Cmd_CONFLICT" "db' = db"
        by (cases op; auto simp: apply_command_def)+
      with None ok \<open>op \<noteq> Op_release\<close> show ?thesis
        by (cases op) (auto simp: abstract_command_def header_status_def split: if_splits)
    next
      case (Some h)
      then have "find_header o1 db = Some h" by (auto split: if_splits)
      from apply_command_Inr [OF ok this] run2 Some show ?thesis by auto
    qed
  qed
qed

lemma runCommand_inv:
  assumes ok: "inv_ok db"
  shows "inv_ok (snd (runCommand cfg env op o1 db))"
proof -
  obtain r db' where "inTransaction cfg env (command_work env op o1) db = (r, db')" by force
  with inTransaction_cases [OF this] command_work_Inr [OF ok] ok show ?thesis
    by (auto simp: runCommand_def)
qed

text \<open>The sweep moves only lapsed HELD headers, and their lines with them.\<close>

lemma lapse_work_Inr:
  assumes ok: "inv_ok db" and run: "lapse_work skipped dbnow o1 te (db, 0) = Inr (released, db', k')"
  shows "inv_ok db' \<and>
    (released \<longrightarrow> header_status db o1 = Some R_HELD \<and>
       db' = setHeaderStatus o1 R_RELEASED (settle_order Release_lines o1 db)) \<and>
    (\<not> released \<longrightarrow> db' = db)"
proof (cases "lockLapsedHeader skipped dbnow o1 db")
  case True
  then obtain h where h: "h \<in> set (reservationOrders db)" "hd_orderId h = o1" "hd_status h = R_HELD"
    by (auto simp: lockLapsedHeader_def lapsed_def list_ex_iff)
  then have "find_header o1 db = Some h"
    using ok find_where_key [of hd_orderId "reservationOrders db" h] by (simp add: find_header_def inv_ok_def)
  moreover obtain res db1 k1 where "moveLines te Release_lines o1 (db, 0) = Inr (res, db1, k1)"
      and "released" "db' = setHeaderStatus o1 R_RELEASED db1"
    using run True by (auto simp: lapse_work_def releaseReservations_def result_simps)
  moreover from this(1) have "db1 = settle_order Release_lines o1 db" "stock_ok db1"
    using moveLines_settles ok by (auto simp: inv_ok_def)
  ultimately show ?thesis
    using h settled_inv_ok [OF ok, of o1 h Release_lines R_RELEASED] by (simp add: header_status_def)
next
  case False
  with run ok show ?thesis by (auto simp: lapse_work_def)
qed

lemma lapse_one_inv: "inv_ok db \<Longrightarrow> inv_ok (snd (lapse_one b e o1 db))"
  using lapse_work_Inr by (fastforce simp: lapse_one_def Let_def split: prod.splits sum.splits)

lemma sweep_ids_inv: "inv_ok db \<Longrightarrow> inv_ok (snd (sweep_ids b e i ids sm db))"
proof (induction ids arbitrary: i sm db)
  case (Cons o1 ids)
  with lapse_one_inv [of db b "e i" o1] show ?case by (auto simp: Let_def split: prod.splits)
qed simp

text \<open>Writes to \<open>quantity_on_hand\<close> that pass the CHECK constraints.\<close>

lemma level_write_ok:
  assumes ok: "stock_ok db"
    and run: "update_stock p (\<lambda>r. r\<lparr>sl_onHand := f r, sl_version := g r\<rparr>) db = Inr db'"
    and ceiling: "\<And>r. r \<in> set (stockLevels db) \<Longrightarrow> p r \<Longrightarrow> f r \<le> INT4_MAX"
  shows "stock_ok db'"
proof -
  let ?f = "\<lambda>r. r\<lparr>sl_onHand := f r, sl_version := g r\<rparr>"
  have chk: "\<forall>r \<in> set (stockLevels db). p r \<longrightarrow> stock_check (?f r) = None"
    and db': "db' = db\<lparr>stockLevels := update_where p ?f (stockLevels db)\<rparr>"
    using run by (auto simp: update_stock_Inr)
  have "level_ok db' s'" if s': "s' \<in> set (stockLevels db')" for s'
  proof -
    obtain s where s: "s \<in> set (stockLevels db)" "s' = (if p s then ?f s else s)"
      using s' by (auto simp: db' set_update_where)
    moreover have "held_units v db' = held_units v db" for v by (simp add: db' held_units_def)
    moreover have "level_ok db s" using ok s by (simp add: stock_ok_def)
    ultimately show ?thesis using chk ceiling
      by (auto simp: level_ok_def stock_check_None)
  qed
  moreover have "map sl_id (stockLevels db') = map sl_id (stockLevels db)"
      and vs: "map sl_variantId (stockLevels db') = map sl_variantId (stockLevels db)"
    by (simp_all add: db' map_update_where)
  moreover have "sl_variantId ` set (stockLevels db') = sl_variantId ` set (stockLevels db)"
    using vs by (metis list.set_map)
  ultimately show ?thesis using ok by (simp add: stock_ok_def db')
qed

lemma inv_ok_levels:
  "inv_ok db \<Longrightarrow> stock_ok db' \<Longrightarrow> reservations db' = reservations db \<Longrightarrow>
     reservationOrders db' = reservationOrders db \<Longrightarrow> inv_ok db'"
  by (simp add: inv_ok_def)

lemma update_stock_unmoved:
  "update_stock p f db = Inr db' \<Longrightarrow>
     reservations db' = reservations db \<and> reservationOrders db' = reservationOrders db"
  by (auto simp: update_stock_Inr)

lemma guardChecks_Inr [result_simps]: "guardChecks r = Inr a \<longleftrightarrow> r = Inr a"
  by (cases r rule: guardChecks.cases) auto

lemma new_level_ok:
  assumes ok: "stock_ok db" and none: "find_level v db = None" and i: "\<forall>r \<in> set (stockLevels db). sl_id r \<noteq> i"
    and q: "0 \<le> q" "q \<le> INT4_MAX"
  shows "stock_ok (db\<lparr>stockLevels := stockLevels db @
    [\<lparr>sl_id = i, sl_variantId = v, sl_onHand = q, sl_reserved = 0, sl_version = 0\<rparr>]\<rparr>)"
proof -
  have free: "\<forall>s \<in> set (stockLevels db). sl_variantId s \<noteq> v"
    using none by (auto simp: find_level_def find_where_None)
  then have "filter (\<lambda>r. rs_variantId r = v \<and> rs_status r = L_HELD) (reservations db) = []"
    using ok by (fastforce simp: stock_ok_def filter_empty_conv)
  then have "held_units v db = 0" by (simp add: held_units_def)
  then show ?thesis
    using ok free i q by (auto simp: stock_ok_def level_ok_def held_units_def)
qed

lemma setOnHand_inv:
  assumes ok: "inv_ok db" and q: "0 \<le> q" "q \<le> MAX_STOCK_ON_HAND"
  shows "inv_ok (snd (setOnHand minted v q db))"
proof (cases minted)
  case (Some i)
  have q': "q \<le> INT4_MAX" using q by (simp add: MAX_STOCK_ON_HAND_def INT4_MAX_def)
  have sok: "stock_ok db" using ok by (simp add: inv_ok_def)
  show ?thesis
  proof (cases "find_level v db")
    case None
    then have "\<forall>r \<in> set (stockLevels db). sl_id r \<noteq> i \<Longrightarrow> inv_ok (db\<lparr>stockLevels := stockLevels db @
        [\<lparr>sl_id = i, sl_variantId = v, sl_onHand = q, sl_reserved = 0, sl_version = 0\<rparr>]\<rparr>)"
      using new_level_ok [OF sok _ _ q(1) q'] inv_ok_levels [OF ok] by simp
    with Some None ok show ?thesis
      by (auto simp: setOnHand_def Let_def list_ex_iff split: sum.splits option.splits)
  next
    case (Some r)
    let ?u = "update_stock (\<lambda>r. sl_variantId r = v) (\<lambda>r. r\<lparr>sl_onHand := q, sl_version := sl_version r + 1\<rparr>) db"
    have "inv_ok db'" if "?u = Inr db'" for db'
      using level_write_ok [OF sok that] q' update_stock_unmoved [OF that] inv_ok_levels [OF ok] by blast
    with Some \<open>minted = Some i\<close> ok show ?thesis
      by (auto simp: setOnHand_def result_simps split: sum.splits)
  qed
qed (use ok in \<open>simp add: setOnHand_def\<close>)

lemma adjust_inv:
  assumes ok: "inv_ok db"
  shows "inv_ok (snd (adjust v delta db))"
proof (cases "find_level v db")
  case (Some r)
  let ?u = "update_stock (\<lambda>r. sl_variantId r = v \<and> sl_onHand r + delta \<le> MAX_STOCK_ON_HAND)
      (\<lambda>r. r\<lparr>sl_onHand := sl_onHand r + delta, sl_version := sl_version r + 1\<rparr>) db"
  have sok: "stock_ok db" using ok by (simp add: inv_ok_def)
  have "inv_ok db'" if u: "?u = Inr db'" for db'
  proof -
    have "stock_ok db'" using level_write_ok [OF sok u]
      by (simp add: MAX_STOCK_ON_HAND_def INT4_MAX_def)
    then show ?thesis using update_stock_unmoved [OF u] inv_ok_levels [OF ok] by blast
  qed
  with Some ok show ?thesis by (auto simp: adjust_def result_simps split: sum.splits)
qed (use ok in \<open>simp add: adjust_def\<close>)

lemma admin_adjust_db [simp]: "snd (admin_adjust v d db) = snd (adjust v d db)"
  by (auto simp: admin_adjust_def split: prod.splits sum.splits option.splits)


section \<open>The participant over time\<close>

text \<open>
  A request to the inventory-service, as its controllers let it through: a validated Try, a command,
  a run of the sweep, an operator's write. \<open>inv_exec\<close> is what it does to the store.
\<close>

datatype inv_op =
    Do_try participant_config call_env string "reservation_line list" int
  | Do_command participant_config call_env reservation_command string
  | Do_sweep int "nat \<Rightarrow> call_env \<times> bool \<times> int" int nat
  | Do_set "string option" string int
  | Do_adjust string int

fun accepted :: "inv_op \<Rightarrow> bool" where
  "accepted (Do_try cfg env o1 ls e) \<longleftrightarrow> valid_TryReservationDto (ce_called env) ls e"
| "accepted (Do_set m v q) \<longleftrightarrow> valid_SetStockDto (JInt q)"
| "accepted (Do_adjust v d) \<longleftrightarrow> valid_AdjustStockDto (JInt d)"
| "accepted _ \<longleftrightarrow> True"

fun inv_exec :: "inv_op \<Rightarrow> inv_db \<Rightarrow> inv_db" where
  "inv_exec (Do_try cfg env o1 ls e) db = snd (tryReserve cfg env o1 ls e db)"
| "inv_exec (Do_command cfg env op o1) db = snd (runCommand cfg env op o1 db)"
| "inv_exec (Do_sweep b e dbnow n) db = snd (sweep_execute b e dbnow n db)"
| "inv_exec (Do_set m v q) db = snd (setOnHand m v q db)"
| "inv_exec (Do_adjust v d) db = snd (admin_adjust v d db)"

definition empty_inv_db :: inv_db where
  "empty_inv_db = \<lparr>stockLevels = [], reservations = [], reservationOrders = []\<rparr>"

definition inv_after :: "inv_op list \<Rightarrow> inv_db" where
  "inv_after ops = fold inv_exec ops empty_inv_db"

lemma valid_lines_pos: "valid_TryReservationDto now ls e \<Longrightarrow> \<forall>l \<in> set ls. 0 < ln_quantity l"
  by (auto simp: valid_TryReservationDto_def list_all_iff)

lemma inv_exec_ok: "inv_ok db \<Longrightarrow> accepted op \<Longrightarrow> inv_ok (inv_exec op db)"
  by (cases op)
     (auto simp: tryReserve_inv valid_lines_pos runCommand_inv sweep_execute_def Let_def sweep_ids_inv
        setOnHand_inv adjust_inv valid_SetStockDto_def)

lemma inv_after_ok: "list_all accepted ops \<Longrightarrow> inv_ok (inv_after ops)"
proof (induction ops rule: rev_induct)
  case Nil
  show ?case by (simp add: inv_after_def empty_inv_db_def inv_ok_def stock_ok_def)
next
  case (snoc op ops)
  then show ?case using inv_exec_ok [of "inv_after ops" op] by (simp add: inv_after_def)
qed

text \<open>An environment in which no statement runs out of time and no mint fails.\<close>

definition in_time :: "participant_config \<Rightarrow> call_env \<Rightarrow> bool" where
  "in_time cfg env \<longleftrightarrow>
     ce_started env < ce_called env + pc_budgetMs cfg \<and>
     (\<forall>k. ce_now env k < ce_called env + pc_budgetMs cfg \<and> ce_fault env k = None)"

lemma deadline_in_time:
  "in_time cfg env \<Longrightarrow>
     deadline_limit \<lparr>te_at = ce_called env + pc_budgetMs cfg, te_now = ce_now env, te_fault = ce_fault env\<rparr> k = Inr ()"
  by (auto simp: in_time_def deadline_limit_def not_le)

lemma move_rows_in_time:
  assumes t: "\<And>k. deadline_limit te k = Inr ()"
  shows "stock_ok db \<Longrightarrow> \<forall>r \<in> set rows. movable t o1 db r \<Longrightarrow> distinct (map rs_variantId rows) \<Longrightarrow>
    \<exists>m db' k'. move_rows te t o1 rows n (db, k) = Inr (m, db', k')"
proof (induction rows arbitrary: db n k)
  case (Cons row rows)
  have row: "movable t o1 db row" using Cons.prems(2) by simp
  have "\<forall>r \<in> set rows. movable t o1 (settle_one t o1 row db) r"
    using Cons.prems(2,3) by (auto intro!: movable_settle_one simp: image_iff)
  then show ?case
    using Cons.IH [OF settle_one_ok [OF Cons.prems(1) row]] Cons.prems(3)
    by (simp add: move_line_settles [OF Cons.prems(1) row] t)
qed simp

lemma moveLines_in_time:
  assumes t: "\<And>k. deadline_limit te k = Inr ()" and ok: "stock_ok db"
  shows "\<exists>res db' k'. moveLines te t o1 (db, k) = Inr (res, db', k')"
proof -
  let ?pending = "sort_key rs_variantId (filter (\<lambda>r. rs_status r = transition_from t)
      (filter (\<lambda>r. rs_orderId r = o1) (reservations db)))"
  have set: "set ?pending = {r \<in> set (reservations db). rs_orderId r = o1 \<and> rs_status r = transition_from t}"
    by auto
  have dist: "distinct ?pending" using ok by (auto simp: stock_ok_def distinct_map)
  have "\<exists>m db' k'. move_rows te t o1 ?pending 0 (db, k) = Inr (m, db', k')"
    using move_rows_in_time [OF t ok] pending_rows(1,2) [OF ok set dist] by blast
  then obtain m db' k' where "move_rows te t o1 ?pending 0 (db, k) = Inr (m, db', k')" by blast
  then show ?thesis by (simp add: moveLines_def Let_def)
qed

lemma runCommand_in_time:
  assumes t: "in_time cfg env" and ok: "inv_ok db"
  shows "\<exists>out db'. runCommand cfg env op o1 db = (Inr out, db')"
proof -
  let ?te = "\<lparr>te_at = ce_called env + pc_budgetMs cfg, te_now = ce_now env, te_fault = ce_fault env\<rparr>"
  note dl = deadline_in_time [OF t]
  have sok: "stock_ok db" using ok by (simp add: inv_ok_def)
  have ap: "\<exists>out db' k'. apply_command op o1 ?te h (db, k) = Inr (out, db', k')" for h k
    using moveLines_in_time [OF dl sok, of "command_lines op" o1 k]
    by (auto simp: apply_command_def split: fence_decision.splits)
  have "\<exists>out db' k'. command_work env op o1 ?te (db, 0) = Inr (out, db', k')"
    using ap by (auto simp: command_work_def findHeaderForUpdate_def insertFencedHeader_def
        insertHeaderRow_def dl Let_def)
  then obtain out db' k' where "command_work env op o1 ?te (db, 0) = Inr (out, db', k')" by blast
  then show ?thesis using t by (simp add: runCommand_def inTransaction_def Let_def in_time_def)
qed


subsection \<open>What a Try holds\<close>

text \<open>A fresh order's lines, each variant once: every one had room, and its level is raised by its quantity.\<close>

definition raise_levels :: "reservation_line list \<Rightarrow> stock_row list \<Rightarrow> stock_row list" where
  "raise_levels ls levels =
     map (\<lambda>s. case find_where (\<lambda>l. ln_variantId l = sl_variantId s) ls of
            None \<Rightarrow> s | Some l \<Rightarrow> raise_reserved (ln_quantity l) s) levels"

lemma raise_reserved_variant [simp]: "sl_variantId (raise_reserved q s) = sl_variantId s"
  by (simp add: raise_reserved_def)

lemma holds_lines_levels:
  "holds_lines o1 e ls db db' \<Longrightarrow> distinct (map ln_variantId ls) \<Longrightarrow>
     \<forall>l \<in> set ls. \<not> isHeld o1 (ln_variantId l) db \<Longrightarrow>
     stockLevels db' = raise_levels ls (stockLevels db) \<and> (\<forall>l \<in> set ls. line_room db l)"
proof (induction ls arbitrary: db)
  case (Cons l ls)
  then obtain rid where room: "line_room db l"
      and rest: "holds_lines o1 e ls (hold_db o1 e rid l db) db'"
    by (auto simp: holds_line_def)
  let ?db = "hold_db o1 e rid l db"
  have other: "\<forall>l' \<in> set ls. ln_variantId l' \<noteq> ln_variantId l"
    using Cons.prems(2) by (auto simp: image_iff)
  then have "\<forall>l' \<in> set ls. \<not> isHeld o1 (ln_variantId l') ?db"
    using Cons.prems(3) by (simp add: hold_db_fresh)
  from Cons.IH [OF rest _ this] Cons.prems(2)
  have lv: "stockLevels db' = raise_levels ls (stockLevels ?db)" and rm: "\<forall>l' \<in> set ls. line_room ?db l'"
    by simp_all
  from rm other have "\<forall>l' \<in> set ls. line_room db l'" by (simp add: hold_db_room)
  moreover have "find_where (\<lambda>l'. ln_variantId l' = ln_variantId l) ls = None"
    using other by (simp add: find_where_None)
  then have "raise_levels ls (stockLevels ?db) = raise_levels (l # ls) (stockLevels db)"
    by (auto simp: raise_levels_def hold_db_def update_where_def row_simps)
  ultimately show ?case using lv room by simp
qed (simp add: raise_levels_def row_simps)

text \<open>Its reservation rows: one per line, under the order, for the line's quantity, held until the given instant.\<close>

definition hold_row :: "string \<Rightarrow> int \<Rightarrow> string \<Rightarrow> reservation_line \<Rightarrow> reservation_row" where
  "hold_row orderId expiresAt rid line =
     \<lparr>rs_id = rid, rs_orderId = orderId, rs_variantId = ln_variantId line, rs_quantity = ln_quantity line,
      rs_status = L_HELD, rs_expiresAt = expiresAt\<rparr>"

lemma holds_lines_added:
  "holds_lines o1 e ls db db' \<Longrightarrow> distinct (map ln_variantId ls) \<Longrightarrow>
     \<forall>l \<in> set ls. \<not> isHeld o1 (ln_variantId l) db \<Longrightarrow>
     \<exists>rids. length rids = length ls \<and> reservations db' = reservations db @ map2 (hold_row o1 e) rids ls"
proof (induction ls arbitrary: db)
  case (Cons l ls)
  then obtain rid where rest: "holds_lines o1 e ls (hold_db o1 e rid l db) db'" by (auto simp: holds_line_def)
  have "\<forall>l' \<in> set ls. \<not> isHeld o1 (ln_variantId l') (hold_db o1 e rid l db)"
    using Cons.prems(2,3) by (auto simp: hold_db_fresh image_iff)
  from Cons.IH [OF rest _ this] Cons.prems(2) obtain rids where "length rids = length ls"
      "reservations db' = reservations (hold_db o1 e rid l db) @ map2 (hold_row o1 e) rids ls" by auto
  then show ?case by (intro exI [of _ "rid # rids"]) (simp add: hold_db_def hold_row_def)
qed simp

lemma raise_levels_order:
  assumes "distinct (map ln_variantId ls)"
  shows "raise_levels (order_lines ls) levels = raise_levels ls levels"
proof -
  have "find_where (\<lambda>l. ln_variantId l = v) (order_lines ls) = find_where (\<lambda>l. ln_variantId l = v) ls" for v
    by (rule find_where_unique) (use assms in \<open>auto dest: unique_key_row\<close>)
  then show ?thesis by (simp add: raise_levels_def)
qed

lemma order_lines_distinct [simp]:
  "distinct (map ln_variantId (order_lines ls)) \<longleftrightarrow> distinct (map ln_variantId ls)"
  by (metis distinct_map length_map length_sort order_lines_def order_lines_set card_distinct
      distinct_card list.set_map)

lemma line_room_headers [simp]: "line_room (db\<lparr>reservationOrders := hs\<rparr>) l \<longleftrightarrow> line_room db l"
  by (simp add: line_room_def)

lemma isHeld_headers [simp]: "isHeld o1 v (db\<lparr>reservationOrders := hs\<rparr>) \<longleftrightarrow> isHeld o1 v db"
  by (simp add: isHeld_iff)

lemma find_header_append:
  "find_header o1 (db\<lparr>reservationOrders := reservationOrders db @ [h]\<rparr>) =
     (case find_header o1 db of None \<Rightarrow> if hd_orderId h = o1 then Some h else None | r \<Rightarrow> r)"
proof -
  have "find_where p (xs @ [h]) = (case find_where p xs of None \<Rightarrow> if p h then Some h else None | r \<Rightarrow> r)"
    for p and xs by (induction xs) (auto simp: row_simps)
  then show ?thesis by (simp add: find_header_def)
qed

lemma try_fresh_effect:
  assumes ok: "inv_ok db" and ls: "\<forall>l \<in> set ls. 0 < ln_quantity l" "distinct (map ln_variantId ls)"
    and none: "find_header o1 db = None"
    and run: "try_work cfg env o1 ls e ids te (db, 0) = Inr (out, db', k')"
  shows "out = Try_RESERVED \<and> (\<forall>l \<in> set ls. line_room db l) \<and>
    stockLevels db' = raise_levels ls (stockLevels db) \<and>
    (\<exists>rids. length rids = length ls \<and> reservations db' = reservations db @ map2 (hold_row o1 e) rids (order_lines ls)) \<and>
    reservationOrders db' = reservationOrders db @ [\<lparr>hd_orderId = o1, hd_status = R_HELD, hd_holdUntil = Some e\<rparr>]"
proof -
  let ?db = "db\<lparr>reservationOrders := reservationOrders db @
      [\<lparr>hd_orderId = o1, hd_status = R_HELD, hd_holdUntil = Some e\<rparr>]\<rparr>"
  from try_work_Inr [OF ok ls(1) run] none
  have out: "out = Try_RESERVED" and h: "holds_lines o1 e (order_lines ls) ?db db'" by simp_all
  have free: "\<forall>l \<in> set (order_lines ls). \<not> isHeld o1 (ln_variantId l) ?db"
    using no_header_no_line [OF ok none] by simp
  from holds_lines_levels [OF h _ free] ls(2) have
    "stockLevels db' = raise_levels ls (stockLevels db)" "\<forall>l \<in> set ls. line_room db l"
    by (simp_all add: raise_levels_order)
  moreover have "length (order_lines ls) = length ls" by (simp add: order_lines_def)
  ultimately show ?thesis using out holds_lines_added [OF h _ free] holds_lines_unmoved [OF h] ls(2) by simp
qed

text \<open>With time to spare and ids enough, the lock-based path holds an order's lines exactly when all have room.\<close>

definition ids_usable :: "string list \<Rightarrow> nat \<Rightarrow> inv_db \<Rightarrow> bool" where
  "ids_usable ids n db \<longleftrightarrow>
     n \<le> length ids \<and> distinct ids \<and> set ids \<inter> rs_id ` set (reservations db) = {}"

lemma pessimistic_line_in_time:
  assumes t: "\<And>k. deadline_limit te k = Inr ()" and ok: "stock_ok db"
    and free: "\<not> isHeld o1 (ln_variantId l) db" and q: "0 < ln_quantity l"
    and rid: "\<forall>r \<in> set (reservations db). rs_id r \<noteq> rid"
  shows "if line_room db l
    then pessimistic_line te o1 e (Some rid) l (db, k) = Inr ((), hold_db o1 e rid l db, Suc k)
    else \<exists>a. pessimistic_line te o1 e (Some rid) l (db, k) = Inl (InsufficientStock (ln_variantId l) (ln_quantity l) a)"
proof (cases "find_where (\<lambda>r. sl_variantId r = ln_variantId l) (stockLevels db)")
  case None
  then have "\<not> line_room db l" by (auto simp: line_room_def find_where_None)
  with None t show ?thesis by (simp add: pessimistic_line_def Let_def)
next
  case (Some s)
  then have s: "s \<in> set (stockLevels db)" "sl_variantId s = ln_variantId l" by (auto dest: find_where_Some)
  have room: "line_room db l \<longleftrightarrow> ln_quantity l \<le> sl_onHand s - sl_reserved s"
    using s ok unfolding line_room_def stock_ok_def by (metis unique_key_row)
  show ?thesis
  proof (cases "line_room db l")
    case True
    have cong: "update_stock (\<lambda>r. sl_id r = sl_id s) (raise_reserved (ln_quantity l)) db =
        update_stock (\<lambda>r. sl_variantId r = ln_variantId l) (raise_reserved (ln_quantity l)) db"
      using stock_row_unique [OF ok _ s(1)] s(2) by (intro update_stock_cong) simp
    have "stock_check (raise_reserved (ln_quantity l) r) = None"
      if "r \<in> set (stockLevels db)" "sl_variantId r = ln_variantId l" for r
    proof -
      have "r = s" using that s ok unfolding stock_ok_def by (metis unique_key_row)
      moreover have "level_ok db s" using ok s by (simp add: stock_ok_def)
      ultimately show ?thesis using True room q
        by (simp add: stock_check_None raise_reserved_def level_ok_def)
    qed
    then have "update_stock (\<lambda>r. sl_variantId r = ln_variantId l) (raise_reserved (ln_quantity l)) db =
        Inr (db\<lparr>stockLevels := update_where (\<lambda>r. sl_variantId r = ln_variantId l)
          (raise_reserved (ln_quantity l)) (stockLevels db)\<rparr>)"
      by (auto simp: update_stock_Inr)
    with Some t free True room cong rid show ?thesis
      by (auto simp: pessimistic_line_def Let_def insertHold_def hold_db_def isHeld_iff list_ex_iff)
  next
    case False
    with Some t free room show ?thesis by (simp add: pessimistic_line_def Let_def)
  qed
qed

lemma pessimistic_in_time:
  assumes t: "\<And>k. deadline_limit te k = Inr ()"
  shows "stock_ok db \<Longrightarrow> distinct (map ln_variantId ls) \<Longrightarrow>
    \<forall>l \<in> set ls. 0 < ln_quantity l \<and> \<not> isHeld o1 (ln_variantId l) db \<Longrightarrow>
    i + length ls \<le> length ids \<Longrightarrow> distinct ids \<Longrightarrow>
    set (drop i ids) \<inter> rs_id ` set (reservations db) = {} \<Longrightarrow>
    if \<forall>l \<in> set ls. line_room db l
    then \<exists>tx. pessimistic_from te o1 e ids i ls (db, k) = Inr ((), tx)
    else \<exists>v q a. pessimistic_from te o1 e ids i ls (db, k) = Inl (InsufficientStock v q a)"
proof (induction ls arbitrary: db i k)
  case (Cons l ls)
  have i: "i < length ids" using Cons.prems(4) by simp
  then have rid: "nth_id ids i = Some (ids ! i)" by (simp add: nth_id_def)
  have drop: "drop i ids = ids ! i # drop (Suc i) ids" using i by (simp add: Cons_nth_drop_Suc)
  have new: "\<forall>r \<in> set (reservations db). rs_id r \<noteq> ids ! i" using Cons.prems(6) drop by (fastforce simp: image_iff)
  note line = pessimistic_line_in_time [OF t Cons.prems(1) _ _ new, of o1 l e k]
  show ?case
  proof (cases "line_room db l")
    case False
    with line Cons.prems(3) rid show ?thesis by auto
  next
    case True
    let ?db = "hold_db o1 e (ids ! i) l db"
    have other: "\<forall>l' \<in> set ls. ln_variantId l' \<noteq> ln_variantId l"
      using Cons.prems(2) by (auto simp: image_iff)
    have step: "pessimistic_line te o1 e (nth_id ids i) l (db, k) = Inr ((), ?db, Suc k)"
      using line True Cons.prems(3) rid by simp
    have "distinct (drop i ids)" using Cons.prems(5) by simp
    then have "ids ! i \<notin> set (drop (Suc i) ids)" by (simp add: drop)
    with Cons.prems(6) drop have "set (drop (Suc i) ids) \<inter> rs_id ` set (reservations ?db) = {}"
      by (auto simp: hold_db_def)
    moreover have "stock_ok ?db" using hold_db_ok Cons.prems True by simp
    moreover have "\<forall>l' \<in> set ls. 0 < ln_quantity l' \<and> \<not> isHeld o1 (ln_variantId l') ?db"
      using Cons.prems(3) other by (simp add: hold_db_fresh)
    ultimately have "if \<forall>l' \<in> set ls. line_room ?db l'
        then \<exists>tx. pessimistic_from te o1 e ids (Suc i) ls (?db, Suc k) = Inr ((), tx)
        else \<exists>v q a. pessimistic_from te o1 e ids (Suc i) ls (?db, Suc k) = Inl (InsufficientStock v q a)"
      using Cons.IH [of ?db "Suc i" "Suc k"] Cons.prems(2,4,5) by simp
    moreover have "(\<forall>l' \<in> set ls. line_room ?db l') \<longleftrightarrow> (\<forall>l' \<in> set ls. line_room db l')"
      using other by (simp add: hold_db_room)
    ultimately show ?thesis using True step by (cases "\<forall>l' \<in> set ls. line_room db l'") auto
  qed
qed simp


subsection \<open>The two strategies agree\<close>

fun forget :: "inv_error + ('a \<times> inv_tx) \<Rightarrow> inv_error + ('a \<times> inv_db)" where
  "forget (Inl e) = Inl e"
| "forget (Inr (a, db, k)) = Inr (a, db)"

lemma forget_bind:
  assumes "forget m = forget m'" and "\<And>a db k k'. forget (f (a, db, k)) = forget (f' (a, db, k'))"
  shows "forget (ebind m f) = forget (ebind m' f')"
proof (cases m)
  case (Inl e)
  with assms(1) have "m' = Inl e" by (cases m') auto
  with Inl show ?thesis by simp
next
  case (Inr r)
  obtain a db k where r: "r = (a, db, k)" by (cases r)
  with Inr assms(1) obtain k' where "m' = Inr (a, db, k')" by (cases m') auto
  with Inr r assms(2) show ?thesis by simp
qed

definition cas_line ::
    "nat \<Rightarrow> (nat \<Rightarrow> (int \<times> int \<times> int) option) \<Rightarrow> tx_env \<Rightarrow> string \<Rightarrow> int \<Rightarrow> string option \<Rightarrow>
     reservation_line \<Rightarrow> unit inv_step" where
  "cas_line mx stale env orderId expiresAt rid line tx =
     ebind (casReserve mx stale env orderId line 0 tx) (\<lambda>(won, db, k).
       if won then ebind (insertHold rid orderId line expiresAt db) (\<lambda>db'. Inr ((), db', k))
       else Inr ((), db, k))"

lemma optimistic_from_lines:
  "optimistic_from mx stale te o1 e ids i (l # ls) tx =
     ebind (cas_line mx stale te o1 e (nth_id ids i) l tx) (\<lambda>(_, tx').
       optimistic_from mx stale te o1 e ids (Suc i) ls tx')"
proof (cases "casReserve mx stale te o1 l 0 tx")
  case (Inr r)
  obtain won db k where "r = (won, db, k)" by (cases r)
  with Inr show ?thesis
    by (cases "insertHold (nth_id ids i) o1 l e db") (simp_all add: cas_line_def)
qed (simp add: cas_line_def)

lemma lines_agree:
  assumes t: "\<And>k. deadline_limit te k = Inr ()" and fresh: "\<And>k. stale k = None" and ok: "stock_ok db"
  shows "forget (cas_line mx stale te o1 e rid l (db, k)) = forget (pessimistic_line te o1 e rid l (db, k'))"
proof (cases "isHeld o1 (ln_variantId l) db")
  case True
  then have "ln_variantId l \<in> sl_variantId ` set (stockLevels db)"
    using ok unfolding isHeld_iff stock_ok_def by metis
  then have "find_where (\<lambda>r. sl_variantId r = ln_variantId l) (stockLevels db) \<noteq> None"
    by (auto simp: find_where_None)
  with True t show ?thesis
    by (auto simp: cas_line_def pessimistic_line_def casReserve.simps [of mx stale te o1 l 0] Let_def)
next
  case free: False
  show ?thesis
  proof (cases "find_where (\<lambda>r. sl_variantId r = ln_variantId l) (stockLevels db)")
    case None
    with free t show ?thesis
      by (simp add: cas_line_def pessimistic_line_def casReserve.simps [of mx stale te o1 l 0] Let_def)
  next
    case (Some s)
    then have s: "s \<in> set (stockLevels db)" "sl_variantId s = ln_variantId l" by (auto dest: find_where_Some)
    let ?wins = "\<lambda>r. sl_id r = sl_id s \<and> sl_version r = sl_version s \<and>
        ln_quantity l \<le> sl_onHand r - sl_reserved r \<and> \<not> isHeld o1 (ln_variantId l) db"
    show ?thesis
    proof (cases "ln_quantity l \<le> sl_onHand s - sl_reserved s")
      case True
      have same: "?wins r \<longleftrightarrow> sl_id r = sl_id s" if "r \<in> set (stockLevels db)" for r
        using that s True free ok unfolding stock_ok_def by (metis unique_key_row)
      have "find_where ?wins (stockLevels db) \<noteq> None"
        using s same by (auto simp: find_where_None)
      with Some True free t fresh update_stock_cong [of db ?wins "\<lambda>r. sl_id r = sl_id s", OF same]
      show ?thesis
        by (auto simp: cas_line_def pessimistic_line_def casReserve.simps [of mx stale te o1 l 0] Let_def
            split: option.splits) (cases "update_stock (\<lambda>r. sl_id r = sl_id s) (raise_reserved (ln_quantity l)) db";
              auto; cases "insertHold rid o1 l e (projr (update_stock (\<lambda>r. sl_id r = sl_id s) (raise_reserved (ln_quantity l)) db))"; auto)
    next
      case False
      with Some free t fresh show ?thesis
        by (simp add: cas_line_def pessimistic_line_def casReserve.simps [of mx stale te o1 l 0] Let_def)
    qed
  qed
qed

lemma reserve_agree:
  assumes t: "\<And>k. deadline_limit te k = Inr ()" and fresh: "\<And>k. stale k = None"
  shows "stock_ok db \<Longrightarrow> \<forall>l \<in> set ls. 0 < ln_quantity l \<Longrightarrow>
    forget (optimistic_from mx stale te o1 e ids i ls (db, k)) = forget (pessimistic_from te o1 e ids i ls (db, k'))"
proof (induction ls arbitrary: db i k k')
  case (Cons l ls)
  have agree: "forget (cas_line mx stale te o1 e (nth_id ids i) l (db, k)) =
      forget (pessimistic_line te o1 e (nth_id ids i) l (db, k'))"
    using t fresh Cons.prems(1) by (rule lines_agree)
  show ?case
  proof (cases "pessimistic_line te o1 e (nth_id ids i) l (db, k')")
    case (Inl err)
    with agree have "cas_line mx stale te o1 e (nth_id ids i) l (db, k) = Inl err"
      by (cases "cas_line mx stale te o1 e (nth_id ids i) l (db, k)") auto
    with Inl show ?thesis by (simp add: optimistic_from_lines del: optimistic_from.simps)
  next
    case (Inr r)
    then obtain db1 k1 where p: "pessimistic_line te o1 e (nth_id ids i) l (db, k') = Inr ((), db1, k1)"
      by (cases r) auto
    with agree obtain k2 where "cas_line mx stale te o1 e (nth_id ids i) l (db, k) = Inr ((), db1, k2)"
      by (cases "cas_line mx stale te o1 e (nth_id ids i) l (db, k)") auto
    moreover have "stock_ok db1"
      using holds_line_ok [OF Cons.prems(1) _ pessimistic_line_holds [OF Cons.prems(1) p]] Cons.prems(2) by simp
    ultimately show ?thesis using Cons.IH Cons.prems(2) p
      by (simp add: optimistic_from_lines del: optimistic_from.simps)
  qed
qed simp

lemma inTransaction_forget:
  "(\<And>te. (\<forall>k. deadline_limit te k = Inr ()) \<Longrightarrow> forget (w te (db, 0)) = forget (w' te (db, 0))) \<Longrightarrow>
     in_time cfg env \<Longrightarrow> pc_budgetMs cfg = pc_budgetMs cfg' \<Longrightarrow>
     inTransaction cfg env w db = inTransaction cfg' env w' db"
proof -
  let ?te = "\<lparr>te_at = ce_called env + pc_budgetMs cfg, te_now = ce_now env, te_fault = ce_fault env\<rparr>"
  have collapse: "(case m of Inl e \<Rightarrow> (Inl e, db) | Inr (a, db', _) \<Rightarrow> (Inr a, db')) =
      (case forget m of Inl e \<Rightarrow> (Inl e, db) | Inr (a, db') \<Rightarrow> (Inr a, db'))" for m :: "inv_error + ('a \<times> inv_tx)"
    by (cases m) auto
  assume "\<And>te. (\<forall>k. deadline_limit te k = Inr ()) \<Longrightarrow> forget (w te (db, 0)) = forget (w' te (db, 0))"
    and "in_time cfg env" and "pc_budgetMs cfg = pc_budgetMs cfg'"
  with deadline_in_time [of cfg env] have "forget (w ?te (db, 0)) = forget (w' ?te (db, 0))" by blast
  with \<open>pc_budgetMs cfg = _\<close> show ?thesis by (simp add: inTransaction_def Let_def collapse)
qed

lemma try_work_agree:
  assumes ok: "inv_ok db" and pos: "\<forall>l \<in> set ls. 0 < ln_quantity l"
    and t: "\<forall>k. deadline_limit te k = Inr ()" and fresh: "\<forall>k. ce_stale env k = None"
  shows "forget (try_work (cfg\<lparr>pc_optimistic := True\<rparr>) env o1 ls e ids te (db, 0)) =
    forget (try_work (cfg\<lparr>pc_optimistic := False\<rparr>) env o1 ls e ids te (db, 0))"
proof (cases "insertHeader te o1 e (db, 0)")
  case (Inr r)
  obtain fresh_row db1 k1 where r: "r = (fresh_row, db1, k1)" by (cases r)
  have "stock_ok db1"
    using insertHeaderRow_Inr [OF Inr [unfolded r insertHeader_def]] ok
    by (auto simp: inv_ok_def split: if_splits)
  then have "forget (reserveOptimistic mx (ce_stale env) te o1 ls e ids (db1, k1)) =
      forget (reservePessimistic te o1 ls e ids (db1, k1))" for mx
    unfolding reserveOptimistic_def reservePessimistic_def
    using reserve_agree [of te "ce_stale env" db1 "order_lines ls"] t fresh pos by simp
  then show ?thesis using Inr r
    by (auto simp: try_work_def intro!: forget_bind)
qed (simp add: try_work_def)


subsection \<open>Headers over time\<close>

lemma find_header_set:
  "find_header o1 (setHeaderStatus o2 st db) =
     (if o1 = o2 then map_option (\<lambda>h. h\<lparr>hd_status := st\<rparr>) (find_header o1 db) else find_header o1 db)"
  by (cases "find_header o1 db")
     (auto simp: find_header_def setHeaderStatus_def find_update_where dest: find_where_Some)

lemma find_header_settle [simp]: "find_header o1 (settle_order t o2 db) = find_header o1 db"
  by (simp add: find_header_def)

lemma abstract_command_header:
  "header_status (snd (abstract_command op o1 db)) o2 =
     (if o2 = o1 then stock_fencing.fence_step (header_status db o1) (F_cmd op) else header_status db o2)"
proof (cases "find_header o1 db")
  case None
  then show ?thesis
    by (cases op) (auto simp: abstract_command_def header_status_def find_header_append split: option.splits)
next
  case (Some h)
  show ?thesis
  proof (cases "decideReservationFence (F_cmd op) (Some (hd_status h))")
    case (Apply st)
    with Some show ?thesis
      by (auto simp: abstract_command_def header_status_def fence_table find_header_set)
  qed (use Some in \<open>auto simp: abstract_command_def header_status_def fence_table\<close>)
qed

lemma command_header:
  assumes "inv_ok db"
  shows "\<exists>fs. header_status (snd (runCommand cfg env op o1 db)) o2 =
    stock_fencing.fence_run (header_status db o2) fs"
proof -
  obtain r db' where r: "inTransaction cfg env (command_work env op o1) db = (r, db')" by force
  then have "db' = db \<or> db' = snd (abstract_command op o1 db)"
    using inTransaction_cases [OF r] command_work_Inr [OF assms] by (metis snd_conv)
  moreover have "header_status db o2 = stock_fencing.fence_run (header_status db o2) []"
      "stock_fencing.fence_step (header_status db o2) f = stock_fencing.fence_run (header_status db o2) [f]" for f
    by simp_all
  ultimately show ?thesis
    using r abstract_command_header [of op o1 db o2] unfolding runCommand_def by (metis snd_conv)
qed

lemma try_header:
  assumes ok: "inv_ok db" and pos: "\<forall>l \<in> set ls. 0 < ln_quantity l"
  shows "\<exists>fs. header_status (snd (tryReserve cfg env o1 ls e db)) o2 =
    stock_fencing.fence_run (header_status db o2) fs"
proof -
  have "\<exists>fs. header_status db' o2 = stock_fencing.fence_run (header_status db o2) fs"
    if "try_work cfg env o1 ls e ids te (db, 0) = Inr (out, db', k)" for ids te out db' k
  proof (cases "find_header o1 db")
    case None
    with try_work_Inr [OF ok pos that]
    have "reservationOrders db' = reservationOrders db @
        [\<lparr>hd_orderId = o1, hd_status = R_HELD, hd_holdUntil = Some e\<rparr>]"
      by (auto dest: holds_lines_unmoved)
    then have "header_status db' o2 = (if o2 = o1 then Some R_HELD else header_status db o2)"
      using None find_header_append [of o2 db]
      by (auto simp: header_status_def find_header_def split: option.splits)
    then show ?thesis
      using None exI [of _ "[F_try]"] exI [of _ "[]"]
      by (cases "o2 = o1") (simp_all add: header_status_def exI [of _ "[]"] exI [of _ "[F_try]"])
  next
    case (Some h)
    with try_work_Inr [OF ok pos that] have "db' = db" by simp
    then show ?thesis by (intro exI [of _ "[]"]) simp
  qed
  moreover have "\<exists>fs. header_status db o2 = stock_fencing.fence_run (header_status db o2) fs"
    by (intro exI [of _ "[]"]) simp
  ultimately show ?thesis
    by (auto simp: tryReserve_def split: sum.splits dest!: inTransaction_cases)
       (metis inTransaction_cases prod.exhaust_sel)
qed

lemma lapse_header:
  assumes "inv_ok db"
  shows "\<exists>fs. header_status (snd (lapse_one b e o1 db)) o2 = stock_fencing.fence_run (header_status db o2) fs"
proof -
  have "\<exists>fs. header_status db' o2 = stock_fencing.fence_run (header_status db o2) fs"
    if "lapse_work skipped dbnow o1 te (db, 0) = Inr (released, db', k)" for skipped dbnow te released db' k
  proof (cases "released \<and> o2 = o1")
    case True
    with lapse_work_Inr [OF assms that]
    have "header_status db o2 = Some R_HELD" "header_status db' o2 = Some R_RELEASED"
      by (auto simp: header_status_def find_header_set)
    then show ?thesis by (intro exI [of _ "[F_cmd Op_release]"]) simp
  next
    case False
    with lapse_work_Inr [OF assms that] have "header_status db' o2 = header_status db o2"
      by (cases released) (auto simp: header_status_def find_header_set)
    then show ?thesis by (intro exI [of _ "[]"]) simp
  qed
  moreover have "\<exists>fs. header_status db o2 = stock_fencing.fence_run (header_status db o2) fs"
    by (intro exI [of _ "[]"]) simp
  ultimately show ?thesis
    by (fastforce simp: lapse_one_def Let_def split: prod.splits sum.splits)
qed

lemma fence_run_append [simp]:
  "stock_fencing.fence_run h (fs @ gs) = stock_fencing.fence_run (stock_fencing.fence_run h fs) gs"
  by (induction fs arbitrary: h) auto

lemma sweep_header:
  "inv_ok db \<Longrightarrow> \<exists>fs. header_status (snd (sweep_ids b e i ids sm db)) o2 =
     stock_fencing.fence_run (header_status db o2) fs"
proof (induction ids arbitrary: i sm db)
  case Nil
  show ?case by (intro exI [of _ "[]"]) simp
next
  case (Cons o1 ids)
  obtain r db1 where l: "lapse_one b (e i) o1 db = (r, db1)" by force
  with lapse_one_inv [OF Cons.prems, of b "e i" o1] have "inv_ok db1" by simp
  moreover obtain fs where "header_status db1 o2 = stock_fencing.fence_run (header_status db o2) fs"
    using lapse_header [OF Cons.prems, of b "e i" o1 o2] l by auto
  ultimately show ?case using Cons.IH [of db1] l
    by (auto simp: Let_def simp flip: fence_run_append)
qed

lemma set_adjust_headers:
  "reservationOrders (snd (setOnHand m v q db)) = reservationOrders db"
  "reservationOrders (snd (adjust v d db)) = reservationOrders db"
  by (auto simp: setOnHand_def adjust_def Let_def result_simps dest: update_stock_unmoved
      split: option.splits sum.splits if_splits)

lemma inv_exec_header:
  assumes "inv_ok db" and "accepted op"
  shows "\<exists>fs. header_status (inv_exec op db) o2 = stock_fencing.fence_run (header_status db o2) fs"
proof -
  have same: "\<exists>fs. header_status db' o2 = stock_fencing.fence_run (header_status db o2) fs"
    if "reservationOrders db' = reservationOrders db" for db'
    using that by (intro exI [of _ "[]"]) (simp add: header_status_def find_header_def)
  show ?thesis
  proof (cases op)
    case (Do_try cfg env o1 ls e)
    with assms show ?thesis using try_header [OF assms(1) valid_lines_pos] by simp
  next
    case (Do_command cfg env c o1)
    with assms show ?thesis using command_header by simp
  next
    case (Do_sweep b e dbnow n)
    with assms show ?thesis using sweep_header by (simp add: sweep_execute_def Let_def)
  qed (simp_all add: same set_adjust_headers)
qed

lemma inv_fold_header:
  "inv_ok db \<Longrightarrow> list_all accepted ops \<Longrightarrow>
     inv_ok (fold inv_exec ops db) \<and>
     (\<exists>fs. header_status (fold inv_exec ops db) o2 = stock_fencing.fence_run (header_status db o2) fs)"
proof (induction ops arbitrary: db)
  case Nil
  show ?case using Nil by (auto intro: exI [of _ "[]"])
next
  case (Cons op ops)
  then have ok: "inv_ok (inv_exec op db)" by (simp add: inv_exec_ok)
  obtain fs where "header_status (inv_exec op db) o2 = stock_fencing.fence_run (header_status db o2) fs"
    using inv_exec_header Cons.prems by fastforce
  then show ?case using Cons.IH [OF ok] Cons.prems(2)
    by (auto simp flip: fence_run_append)
qed

lemma reservation_rank_le: "reservation_rank s \<le> 3"
  by (cases s) simp_all

lemma final_header_stays:
  assumes "reservation_rank s = 3"
  shows "stock_fencing.fence_run (Some s) fs = Some s"
proof (induction fs)
  case (Cons f fs)
  have "decideReservationFence f (Some s) \<noteq> Apply n" for n
    using stock_fencing.climbs [of f s n] assms reservation_rank_le [of n] by auto
  then have "stock_fencing.fence_step (Some s) f = Some s" by (auto split: fence_decision.splits)
  with Cons show ?case by simp
qed simp


subsection \<open>Commands answered APPLIED\<close>

definition answers_applied :: "reservation_command \<Rightarrow> string \<Rightarrow> inv_op \<Rightarrow> inv_db \<Rightarrow> bool" where
  "answers_applied c o1 op db =
     (case op of
        Do_command cfg env c' o2 \<Rightarrow> c' = c \<and> o2 = o1 \<and> fst (runCommand cfg env c o1 db) = Inr Cmd_APPLIED
      | _ \<Rightarrow> False)"

fun applied_count :: "reservation_command \<Rightarrow> string \<Rightarrow> inv_op list \<Rightarrow> inv_db \<Rightarrow> nat" where
  "applied_count c o1 [] db = 0"
| "applied_count c o1 (op # ops) db =
     (if answers_applied c o1 op db then 1 else 0) + applied_count c o1 ops (inv_exec op db)"

lemma abstract_applied:
  "fst (abstract_command c o1 db) = Cmd_APPLIED \<Longrightarrow>
     \<exists>n. decideReservationFence (F_cmd c) (header_status db o1) = Apply n"
  by (auto simp: abstract_command_def fence_table split: fence_decision.splits option.splits)

lemma answers_applied_header:
  assumes ok: "inv_ok db" and app: "answers_applied c o1 op db"
  shows "\<exists>n. decideReservationFence (F_cmd c) (header_status db o1) = Apply n \<and>
    header_status (inv_exec op db) o1 = Some n"
proof -
  obtain cfg env where op: "op = Do_command cfg env c o1"
      and out: "fst (runCommand cfg env c o1 db) = Inr Cmd_APPLIED"
    using app by (auto simp: answers_applied_def split: inv_op.splits)
  obtain r db' where r: "inTransaction cfg env (command_work env c o1) db = (r, db')" by force
  with out have "r = Inr Cmd_APPLIED" by (simp add: runCommand_def)
  with inTransaction_cases [OF r] command_work_Inr [OF ok]
  have eq: "(Cmd_APPLIED, db') = abstract_command c o1 db" by fastforce
  then obtain n where n: "decideReservationFence (F_cmd c) (header_status db o1) = Apply n"
    using abstract_applied [of c o1 db] by (metis fst_conv)
  then have "header_status db' o1 = Some n"
    using abstract_command_header [of c o1 db o1] by (simp flip: eq)
  with n op r show ?thesis by (simp add: runCommand_def)
qed

lemma applied_spent:
  "inv_ok db \<Longrightarrow> list_all accepted ops \<Longrightarrow> decideReservationFence (F_cmd c) h = Apply n \<Longrightarrow>
     header_status db o1 = Some s \<Longrightarrow> reservation_rank n \<le> reservation_rank s \<Longrightarrow>
     applied_count c o1 ops db = 0"
proof (induction ops arbitrary: db s)
  case (Cons op ops)
  have no: "\<not> answers_applied c o1 op db"
    using answers_applied_header [OF Cons.prems(1)] stock_fencing.spent [OF Cons.prems(3,5)] Cons.prems(4)
    by fastforce
  obtain fs where fs: "header_status (inv_exec op db) o1 = stock_fencing.fence_run (Some s) fs"
    using inv_exec_header [OF Cons.prems(1), of op o1] Cons.prems(2,4) by auto
  have up: "reservation_rank s \<le> stock_fencing.hrank (stock_fencing.fence_run (Some s) fs)"
    using stock_fencing.run_never_back [of "Some s" fs] by (simp add: stock_fencing.hrank_def)
  have "0 < reservation_rank s" by (cases s) simp_all
  then obtain s' where "stock_fencing.fence_run (Some s) fs = Some s'"
    using up by (cases "stock_fencing.fence_run (Some s) fs") (simp_all add: stock_fencing.hrank_def)
  with up fs have "header_status (inv_exec op db) o1 = Some s'" "reservation_rank s \<le> reservation_rank s'"
    by (simp_all add: stock_fencing.hrank_def)
  moreover have "inv_ok (inv_exec op db)" using inv_exec_ok Cons.prems(1,2) by simp
  ultimately show ?case using Cons.IH [of "inv_exec op db" s'] Cons.prems no by simp
qed simp

lemma applied_count_once:
  "inv_ok db \<Longrightarrow> list_all accepted ops \<Longrightarrow> applied_count c o1 ops db \<le> 1"
proof (induction ops arbitrary: db)
  case (Cons op ops)
  have ok: "inv_ok (inv_exec op db)" using inv_exec_ok Cons.prems by simp
  show ?case
  proof (cases "answers_applied c o1 op db")
    case True
    from answers_applied_header [OF Cons.prems(1) this] obtain n where
        "decideReservationFence (F_cmd c) (header_status db o1) = Apply n"
        "header_status (inv_exec op db) o1 = Some n" by blast
    from applied_spent [OF ok _ this order_refl] Cons.prems(2) show ?thesis by simp
  next
    case False
    with Cons ok show ?thesis by simp
  qed
qed simp


section \<open>Properties\<close>

text \<open>A calm environment and a short history, for the concrete instances below.\<close>

definition calm_cfg :: participant_config where
  "calm_cfg = \<lparr>pc_budgetMs = 2000, pc_optimistic = False, pc_maxRetries = 3\<rparr>"

definition calm_env :: call_env where
  "calm_env = \<lparr>ce_minted = Some [''9''], ce_called = 1000, ce_started = 1001, ce_now = (\<lambda>_. 1002),
     ce_fault = (\<lambda>_. None), ce_stale = (\<lambda>_. None), ce_missed = False\<rparr>"

definition one_line :: "reservation_line list" where
  "one_line = [\<lparr>ln_variantId = ''7'', ln_quantity = 2\<rparr>]"

definition short_history :: "inv_op list" where
  "short_history = [Do_set (Some ''1'') ''7'' 5, Do_try calm_cfg calm_env ''30'' one_line 9000]"

definition short_level :: stock_row where
  "short_level = \<lparr>sl_id = ''1'', sl_variantId = ''7'', sl_onHand = 5, sl_reserved = 2, sl_version = 1\<rparr>"

definition short_line :: reservation_row where
  "short_line = \<lparr>rs_id = ''9'', rs_orderId = ''30'', rs_variantId = ''7'', rs_quantity = 2,
     rs_status = L_HELD, rs_expiresAt = 9000\<rparr>"

definition short_db :: inv_db where
  "short_db = \<lparr>stockLevels = [short_level], reservations = [short_line],
     reservationOrders = [\<lparr>hd_orderId = ''30'', hd_status = R_HELD, hd_holdUntil = Some 9000\<rparr>]\<rparr>"

lemmas calm_defs = calm_cfg_def calm_env_def one_line_def

lemma calm_in_time: "in_time calm_cfg calm_env"
  by (simp add: in_time_def calm_defs)

lemma short_accepted: "list_all accepted short_history"
  by (simp add: short_history_def calm_defs valid_SetStockDto_def MAX_STOCK_ON_HAND_def
      valid_TryReservationDto_def MAX_RESERVATION_LINES_def)

lemma short_after: "inv_after short_history = short_db"
  by code_simp

text \<open> C4: stock is never oversold. After any sequence of accepted requests to the inventory-service,
  Tries, commits, releases, restocks, sweeps and operators' writes alike, with whatever lock timeouts
  and mint failures they met, every level's reserved quantity is the sum of the HELD lines of its
  variant and lies between zero and the on-hand quantity, which fits its int4 column. \<close>

theorem stock_never_oversold:
  assumes "list_all accepted ops" and "s \<in> set (stockLevels (inv_after ops))"
  shows "sl_reserved s = held_units (sl_variantId s) (inv_after ops) \<and>
    0 \<le> sl_reserved s \<and> sl_reserved s \<le> sl_onHand s \<and> sl_onHand s \<le> INT4_MAX"
  using inv_after_ok [OF assms(1)] assms(2) by (auto simp: inv_ok_def stock_ok_def level_ok_def)

theorem stock_never_oversold_witness:
  "sl_reserved short_level = held_units ''7'' (inv_after short_history) \<and> sl_reserved short_level = 2"
  using stock_never_oversold [OF short_accepted, of short_level]
  by (simp add: short_after short_db_def) (simp add: short_level_def)

text \<open> C10: the stock participant implements the contract's fence table. On any reachable store, a
  command with time to spare answers what the table of the internal contract says for the order's
  header, leaves the header the table says, and moves exactly the order's lines: each level the order
  has a movable line of changes by that line's quantity (on-hand and reserved down for a commit,
  reserved down for a release, on-hand up for a restock), nothing else changes. \<close>

theorem command_refines_contract:
  assumes "list_all accepted ops" and "in_time cfg env" and "\<not> ce_missed env"
  shows "runCommand cfg env op orderId (inv_after ops) =
    (let (out, db') = abstract_command op orderId (inv_after ops) in (Inr out, db'))"
proof -
  have ok: "inv_ok (inv_after ops)" using assms(1) by (rule inv_after_ok)
  obtain out db' where r: "runCommand cfg env op orderId (inv_after ops) = (Inr out, db')"
    using runCommand_in_time [OF assms(2) ok] by blast
  from inTransaction_cases [OF this [unfolded runCommand_def]] command_work_Inr [OF ok] assms(3)
  have "(out, db') = abstract_command op orderId (inv_after ops)" by fastforce
  with r show ?thesis by (simp flip: \<open>(out, db') = _\<close>)
qed

theorem command_refines_contract_witness:
  "runCommand calm_cfg calm_env Op_commit ''30'' (inv_after short_history) =
     (Inr Cmd_APPLIED, \<lparr>
        stockLevels = [short_level\<lparr>sl_onHand := 3, sl_reserved := 0, sl_version := 2\<rparr>],
        reservations = [short_line\<lparr>rs_status := L_COMMITTED\<rparr>],
        reservationOrders = [\<lparr>hd_orderId = ''30'', hd_status = R_COMMITTED, hd_holdUntil = Some 9000\<rparr>]\<rparr>)"
proof -
  have "abstract_command Op_commit ''30'' short_db = (Cmd_APPLIED, \<lparr>
        stockLevels = [short_level\<lparr>sl_onHand := 3, sl_reserved := 0, sl_version := 2\<rparr>],
        reservations = [short_line\<lparr>rs_status := L_COMMITTED\<rparr>],
        reservationOrders = [\<lparr>hd_orderId = ''30'', hd_status = R_COMMITTED, hd_holdUntil = Some 9000\<rparr>]\<rparr>)"
    by code_simp
  with command_refines_contract [OF short_accepted calm_in_time, of Op_commit "''30''"] show ?thesis
    by (simp add: short_after calm_env_def)
qed

text \<open> C11: a command takes effect at most once. However often commit, release or restock of an order
  is sent, over any history of accepted requests, at most one of those calls answers APPLIED. \<close>

theorem command_applied_at_most_once:
  assumes "list_all accepted ops"
  shows "applied_count c orderId ops empty_inv_db \<le> 1"
proof -
  have "inv_ok empty_inv_db" using inv_after_ok [of "[]"] by (simp add: inv_after_def)
  then show ?thesis using assms by (rule applied_count_once)
qed

theorem command_applied_at_most_once_witness:
  "applied_count Op_commit ''30''
     (short_history @ [Do_command calm_cfg calm_env Op_commit ''30'',
        Do_command calm_cfg calm_env Op_commit ''30'']) empty_inv_db = 1"
proof -
  let ?ops = "short_history @ [Do_command calm_cfg calm_env Op_commit ''30'',
        Do_command calm_cfg calm_env Op_commit ''30'']"
  have "list_all accepted ?ops" using short_accepted by simp
  from command_applied_at_most_once [OF this]
  have "applied_count Op_commit ''30'' ?ops empty_inv_db \<le> 1" .
  moreover have "0 < applied_count Op_commit ''30'' ?ops empty_inv_db" by code_simp
  ultimately show ?thesis by simp
qed

text \<open> C12: no hanging Try. Once an order's header is released, fenced or restocked it stays so over
  every later history, and every Try of the order, however late, writes nothing and answers CONFLICT
  unless it fails. \<close>

theorem closed_order_refuses_try:
  assumes "list_all accepted (ops @ later)"
    and "header_status (inv_after ops) orderId = Some s" and "s \<in> {R_RELEASED, R_FENCED, R_RESTOCKED}"
    and "valid_TryReservationDto now ls holdUntil"
    and "tryReserve cfg env orderId ls holdUntil (inv_after (ops @ later)) = (r, db')"
  shows "header_status (inv_after (ops @ later)) orderId = Some s \<and> db' = inv_after (ops @ later) \<and>
    (r = Inr Try_CONFLICT \<or> (\<exists>e. r = Inl e))"
proof -
  have "inv_ok (inv_after ops)" using assms(1) by (intro inv_after_ok) simp
  moreover have "list_all accepted later" using assms(1) by simp
  ultimately obtain fs where "header_status (inv_after (ops @ later)) orderId =
      stock_fencing.fence_run (header_status (inv_after ops) orderId) fs"
    using inv_fold_header unfolding inv_after_def fold_append comp_def by meson
  moreover have "reservation_rank s = 3" using assms(3) by auto
  ultimately have h: "header_status (inv_after (ops @ later)) orderId = Some s"
    using assms(2) by (simp add: final_header_stays)
  have ok: "inv_ok (inv_after (ops @ later))" using assms(1) by (rule inv_after_ok)
  let ?db = "inv_after (ops @ later)"
  obtain hd where hd: "find_header orderId ?db = Some hd" "hd_status hd = s"
    using h by (auto simp: header_status_def)
  show ?thesis
  proof (cases "mintReservationIds env")
    case (Inr ids)
    obtain r0 db0 where t: "inTransaction cfg env (try_work cfg env orderId ls holdUntil ids) ?db = (r0, db0)"
      by force
    from inTransaction_cases [OF t]
    have "db0 = ?db \<and> (r0 = Inr Try_CONFLICT \<or> r0 = Inl ReservationTimeout \<or> r0 = Inl ReservationDeadline)"
    proof (elim disjE exE conjE)
      fix e assume "r0 = Inl e" "db0 = ?db"
      with inTransaction_Inl [of cfg env _ ?db e db0] t try_work_seen_Inl [OF hd(1)] show ?thesis by blast
    next
      fix out te k
      assume "r0 = Inr out" "try_work cfg env orderId ls holdUntil ids te (?db, 0) = Inr (out, db0, k)"
      with try_work_Inr [OF ok valid_lines_pos [OF assms(4)] this(2)] hd assms(3) show ?thesis by auto
    qed
    with assms(5) Inr t h show ?thesis by (auto simp: tryReserve_def)
  qed (use assms(5) h in \<open>auto simp: tryReserve_def\<close>)
qed

theorem closed_order_refuses_try_witness:
  "header_status (inv_after ([Do_command calm_cfg calm_env Op_release ''30''] @ short_history)) ''30'' = Some R_FENCED \<and>
   tryReserve calm_cfg calm_env ''30'' one_line 9000
     (inv_after ([Do_command calm_cfg calm_env Op_release ''30''] @ short_history)) =
   (Inr Try_CONFLICT, inv_after ([Do_command calm_cfg calm_env Op_release ''30''] @ short_history))"
proof -
  let ?ops = "[Do_command calm_cfg calm_env Op_release ''30'']"
  have acc: "list_all accepted (?ops @ short_history)" using short_accepted by simp
  have fenced: "header_status (inv_after ?ops) ''30'' = Some R_FENCED" by code_simp
  have valid: "valid_TryReservationDto 1000 one_line 9000"
    by (simp add: one_line_def valid_TryReservationDto_def MAX_RESERVATION_LINES_def)
  obtain r db' where t: "tryReserve calm_cfg calm_env ''30'' one_line 9000 (inv_after (?ops @ short_history)) = (r, db')"
    by force
  have "fst (tryReserve calm_cfg calm_env ''30'' one_line 9000 (inv_after (?ops @ short_history))) = Inr Try_CONFLICT"
    by code_simp
  with t closed_order_refuses_try [OF acc fenced _ valid t] show ?thesis by simp
qed

text \<open> C13: a Try holds all of an order or nothing. On a reachable store, a Try of an order that has no
  header yet either answers RESERVED, and then every line had room, each named variant's reserved quantity
  is up by exactly that line's quantity, exactly one reservation row was added per line - HELD, under that
  order, for that variant and quantity, until the given instant - and one HELD header with that instant;
  or it leaves the store as it was, whatever it answers and whether or not it threw. A Try of an order
  with a header changes nothing. \<close>

theorem try_all_or_nothing:
  assumes "list_all accepted ops" and "valid_TryReservationDto now ls holdUntil"
    and "tryReserve cfg env orderId ls holdUntil (inv_after ops) = (r, db')"
  shows "if header_status (inv_after ops) orderId = None \<and> r = Inr Try_RESERVED
    then (\<forall>l \<in> set ls. line_room (inv_after ops) l) \<and>
         stockLevels db' = raise_levels ls (stockLevels (inv_after ops)) \<and>
         (\<exists>rids. length rids = length ls \<and>
            reservations db' = reservations (inv_after ops) @ map2 (hold_row orderId holdUntil) rids (order_lines ls)) \<and>
         reservationOrders db' = reservationOrders (inv_after ops) @
           [\<lparr>hd_orderId = orderId, hd_status = R_HELD, hd_holdUntil = Some holdUntil\<rparr>]
    else db' = inv_after ops"
proof (cases "mintReservationIds env")
  case (Inr ids)
  have ok: "inv_ok (inv_after ops)" using assms(1) by (rule inv_after_ok)
  have pos: "\<forall>l \<in> set ls. 0 < ln_quantity l" and dist: "distinct (map ln_variantId ls)"
    using assms(2) valid_lines_pos by (auto simp: valid_TryReservationDto_def)
  obtain r0 db0 where t: "inTransaction cfg env (try_work cfg env orderId ls holdUntil ids) (inv_after ops) = (r0, db0)"
    by force
  then have ans: "try_answer (r0, db0) = (r, db')" using assms(3) Inr by (simp add: tryReserve_def)
  from inTransaction_cases [OF t] show ?thesis
  proof (elim disjE exE conjE)
    fix e assume "r0 = Inl e" "db0 = inv_after ops"
    with ans show ?thesis by (cases e) auto
  next
    fix out te k
    assume out: "r0 = Inr out" and work: "try_work cfg env orderId ls holdUntil ids te (inv_after ops, 0) = Inr (out, db0, k)"
    show ?thesis
    proof (cases "find_header orderId (inv_after ops)")
      case None
      with try_fresh_effect [OF ok pos dist None work] out ans show ?thesis by (auto simp: header_status_def)
    next
      case (Some h)
      with try_work_Inr [OF ok pos work] out ans show ?thesis by (auto simp: header_status_def)
    qed
  qed
qed (use assms(3) in \<open>auto simp: tryReserve_def\<close>)

theorem try_all_or_nothing_witness:
  "map sl_reserved (stockLevels (snd (tryReserve calm_cfg calm_env ''30'' one_line 9000
     (inv_after [Do_set (Some ''1'') ''7'' 5])))) = [2] \<and>
   (\<exists>rid. reservations (snd (tryReserve calm_cfg calm_env ''30'' one_line 9000 (inv_after [Do_set (Some ''1'') ''7'' 5]))) =
     [hold_row ''30'' 9000 rid \<lparr>ln_variantId = ''7'', ln_quantity = 2\<rparr>])"
proof -
  let ?db = "inv_after [Do_set (Some ''1'') ''7'' 5]"
  let ?t = "tryReserve calm_cfg calm_env ''30'' one_line 9000 ?db"
  have acc: "list_all accepted [Do_set (Some ''1'') ''7'' 5]"
    by (simp add: valid_SetStockDto_def MAX_STOCK_ON_HAND_def)
  have valid: "valid_TryReservationDto 1000 one_line 9000"
    by (simp add: one_line_def valid_TryReservationDto_def MAX_RESERVATION_LINES_def)
  have "header_status ?db ''30'' = None \<and> fst ?t = Inr Try_RESERVED" by code_simp
  with try_all_or_nothing [OF acc valid prod.collapse [symmetric]]
  have lv: "stockLevels (snd ?t) = raise_levels one_line (stockLevels ?db)"
    and rows: "\<exists>rids. length rids = length one_line \<and>
      reservations (snd ?t) = reservations ?db @ map2 (hold_row ''30'' 9000) rids (order_lines one_line)" by simp_all
  have "reservations ?db = []" "map sl_reserved (raise_levels one_line (stockLevels ?db)) = [2]" by code_simp+
  moreover have "order_lines one_line = [\<lparr>ln_variantId = ''7'', ln_quantity = 2\<rparr>]" by (simp add: order_lines_def one_line_def)
  ultimately show ?thesis using lv rows by (auto simp: one_line_def length_Suc_conv)
qed

lemma try_fresh_in_time:
  assumes ok: "inv_ok db" and ls: "\<forall>l \<in> set ls. 0 < ln_quantity l" "distinct (map ln_variantId ls)"
    and none: "find_header o1 db = None" and ids: "ids_usable ids (length ls) db"
    and t: "\<forall>k. deadline_limit te k = Inr ()"
  shows "if \<forall>l \<in> set ls. line_room db l
    then \<exists>tx. try_work (cfg\<lparr>pc_optimistic := False\<rparr>) env o1 ls e ids te (db, 0) = Inr (Try_RESERVED, tx)
    else \<exists>v q a. try_work (cfg\<lparr>pc_optimistic := False\<rparr>) env o1 ls e ids te (db, 0) = Inl (InsufficientStock v q a)"
proof -
  let ?db = "db\<lparr>reservationOrders := reservationOrders db @
      [\<lparr>hd_orderId = o1, hd_status = R_HELD, hd_holdUntil = Some e\<rparr>]\<rparr>"
  have ins: "insertHeader te o1 e (db, 0) = Inr (True, ?db, Suc 0)"
    using none t by (simp add: insertHeader_def insertHeaderRow_def)
  have "length (order_lines ls) = length ls" by (simp add: order_lines_def)
  moreover have "stock_ok ?db" using ok by (simp add: inv_ok_def)
  moreover have "\<forall>l \<in> set (order_lines ls). 0 < ln_quantity l \<and> \<not> isHeld o1 (ln_variantId l) ?db"
    using ls(1) no_header_no_line [OF ok none] by simp
  ultimately have "if \<forall>l \<in> set (order_lines ls). line_room ?db l
      then \<exists>tx. pessimistic_from te o1 e ids 0 (order_lines ls) (?db, Suc 0) = Inr ((), tx)
      else \<exists>v q a. pessimistic_from te o1 e ids 0 (order_lines ls) (?db, Suc 0) = Inl (InsufficientStock v q a)"
    using pessimistic_in_time [of te ?db "order_lines ls" o1 0 ids e "Suc 0"] t ls(2) ids
    by (simp add: ids_usable_def)
  with ins show ?thesis
    by (cases "\<forall>l \<in> set ls. line_room db l") (auto simp: try_work_def reservePessimistic_def)
qed

text \<open> C26: the two locking strategies are interchangeable. On a reachable store, with time to spare
  and no unlocked read overtaken by another writer, a Try gives the same answer and leaves the same
  store whether it locks the levels or compares and swaps their versions. \<close>

theorem try_strategies_agree:
  assumes "list_all accepted ops" and "valid_TryReservationDto now ls holdUntil"
    and "in_time cfg env" and "\<forall>k. ce_stale env k = None"
  shows "tryReserve (cfg\<lparr>pc_optimistic := True\<rparr>) env orderId ls holdUntil (inv_after ops) =
    tryReserve (cfg\<lparr>pc_optimistic := False\<rparr>) env orderId ls holdUntil (inv_after ops)"
proof (cases "mintReservationIds env")
  case (Inr ids)
  have ok: "inv_ok (inv_after ops)" using assms(1) by (rule inv_after_ok)
  have "inTransaction (cfg\<lparr>pc_optimistic := True\<rparr>) env
      (try_work (cfg\<lparr>pc_optimistic := True\<rparr>) env orderId ls holdUntil ids) (inv_after ops) =
    inTransaction (cfg\<lparr>pc_optimistic := False\<rparr>) env
      (try_work (cfg\<lparr>pc_optimistic := False\<rparr>) env orderId ls holdUntil ids) (inv_after ops)"
    using try_work_agree [OF ok valid_lines_pos [OF assms(2)] _ assms(4)] assms(3)
    by (intro inTransaction_forget) (auto simp: in_time_def)
  with Inr show ?thesis by (simp add: tryReserve_def)
qed (simp add: tryReserve_def)

theorem try_strategies_agree_witness:
  "tryReserve (calm_cfg\<lparr>pc_optimistic := True\<rparr>) calm_env ''30'' one_line 9000 (inv_after [Do_set (Some ''1'') ''7'' 5]) =
   tryReserve (calm_cfg\<lparr>pc_optimistic := False\<rparr>) calm_env ''30'' one_line 9000 (inv_after [Do_set (Some ''1'') ''7'' 5])"
proof -
  have acc: "list_all accepted [Do_set (Some ''1'') ''7'' 5]"
    by (simp add: valid_SetStockDto_def MAX_STOCK_ON_HAND_def)
  have valid: "valid_TryReservationDto 1000 one_line 9000"
    by (simp add: one_line_def valid_TryReservationDto_def MAX_RESERVATION_LINES_def)
  show ?thesis
    using try_strategies_agree [OF acc valid calm_in_time, of "''30''"] by (simp add: calm_env_def)
qed

text \<open> C25: a Try is refused for stock only when stock is short. On a reachable store, with time to
  spare, ids minted and no unlocked read overtaken, a Try of an order never seen answers RESERVED when
  every line has room and OUT_OF_STOCK when some line lacks it, under either strategy. \<close>

theorem try_reserves_iff_room:
  assumes "list_all accepted ops" and "valid_TryReservationDto now ls holdUntil"
    and "in_time cfg env" and "\<forall>k. ce_stale env k = None"
    and "ce_minted env = Some ids" and "ids_usable ids (length ls) (inv_after ops)"
    and "header_status (inv_after ops) orderId = None"
  shows "fst (tryReserve cfg env orderId ls holdUntil (inv_after ops)) =
    Inr (if \<forall>l \<in> set ls. line_room (inv_after ops) l then Try_RESERVED else Try_OUT_OF_STOCK)"
proof -
  let ?pes = "cfg\<lparr>pc_optimistic := False\<rparr>" and ?opt = "cfg\<lparr>pc_optimistic := True\<rparr>"
  have ok: "inv_ok (inv_after ops)" using assms(1) by (rule inv_after_ok)
  have pos: "\<forall>l \<in> set ls. 0 < ln_quantity l" and dist: "distinct (map ln_variantId ls)"
    using assms(2) valid_lines_pos by (auto simp: valid_TryReservationDto_def)
  have none: "find_header orderId (inv_after ops) = None" using assms(7) by (simp add: header_status_def)
  let ?te = "\<lparr>te_at = ce_called env + pc_budgetMs cfg, te_now = ce_now env, te_fault = ce_fault env\<rparr>"
  have dl: "\<forall>k. deadline_limit ?te k = Inr ()" using deadline_in_time [OF assms(3)] by blast
  have "fst (tryReserve ?pes env orderId ls holdUntil (inv_after ops)) =
      Inr (if \<forall>l \<in> set ls. line_room (inv_after ops) l then Try_RESERVED else Try_OUT_OF_STOCK)"
    using try_fresh_in_time [OF ok pos dist none assms(6) dl, of cfg env holdUntil] assms(3,5)
    by (auto simp: tryReserve_def mintReservationIds_def inTransaction_def Let_def in_time_def split: if_splits)
  moreover have "tryReserve cfg env orderId ls holdUntil (inv_after ops) =
      tryReserve ?pes env orderId ls holdUntil (inv_after ops)"
  proof (cases "pc_optimistic cfg")
    case True
    then have "cfg = ?opt" by simp
    have agree: "tryReserve ?opt env orderId ls holdUntil (inv_after ops) =
        tryReserve ?pes env orderId ls holdUntil (inv_after ops)"
    proof -
      have "inTransaction ?opt env (try_work ?opt env orderId ls holdUntil ids) (inv_after ops) =
          inTransaction ?pes env (try_work ?pes env orderId ls holdUntil ids) (inv_after ops)"
        using try_work_agree [OF ok pos _ assms(4)] assms(3)
        by (intro inTransaction_forget) (auto simp: in_time_def)
      then show ?thesis using assms(5) by (simp add: tryReserve_def mintReservationIds_def)
    qed
    with \<open>cfg = ?opt\<close> show ?thesis by metis
  next
    case False
    then have "cfg = ?pes" by simp
    then show ?thesis by metis
  qed
  ultimately show ?thesis by metis
qed

theorem try_reserves_iff_room_witness:
  "fst (tryReserve calm_cfg calm_env ''31'' [\<lparr>ln_variantId = ''7'', ln_quantity = 6\<rparr>] 9000
     (inv_after [Do_set (Some ''1'') ''7'' 5])) = Inr Try_OUT_OF_STOCK"
proof -
  let ?ops = "[Do_set (Some ''1'') ''7'' 5]"
  let ?ls = "[\<lparr>ln_variantId = ''7'', ln_quantity = 6\<rparr>]"
  have acc: "list_all accepted ?ops"
    by (simp add: valid_SetStockDto_def MAX_STOCK_ON_HAND_def)
  have valid: "valid_TryReservationDto 1000 ?ls 9000"
    by (simp add: valid_TryReservationDto_def MAX_RESERVATION_LINES_def)
  have db: "inv_after ?ops = \<lparr>stockLevels = [\<lparr>sl_id = ''1'', sl_variantId = ''7'', sl_onHand = 5,
      sl_reserved = 0, sl_version = 0\<rparr>], reservations = [], reservationOrders = []\<rparr>"
    by code_simp
  have "ids_usable [''9''] (length ?ls) (inv_after ?ops)" "header_status (inv_after ?ops) ''31'' = None"
    by (simp_all add: db ids_usable_def header_status_def find_header_def row_simps)
  with try_reserves_iff_room [OF acc valid calm_in_time, of "[''9'']" "''31''"] show ?thesis
    by (simp add: calm_env_def db line_room_def)
qed

end
