(* ===== verification/Inventory_Order.thy ===== *)
theory Inventory_Order
  imports Inventory_Participant
begin

text \<open>
  What the inventory-service holds of one order: its header as the order's own Try and commands leave it,
  and as anything else can. Commands about other orders and operators' writes leave it alone, a Try can
  only start a hold and the sweep only release one.
\<close>


definition answered :: "'e + 'a \<Rightarrow> 'a option" where
  "answered r = (case r of Inl _ \<Rightarrow> None | Inr a \<Rightarrow> Some a)"

lemma answered_Some [simp]: "answered r = Some a \<longleftrightarrow> r = Inr a"
  by (cases r) (simp_all add: answered_def)

lemma try_hold:
  assumes ok: "inv_ok db" and pos: "\<forall>l \<in> set ls. 0 < ln_quantity l"
    and run: "tryReserve cfg env o2 ls e db = (r, db')"
  shows "inv_ok db' \<and> (if o2 = o1 then hold_started (header_status db o1) (header_status db' o1)
      else header_status db' o1 = header_status db o1) \<and>
    (r = Inr Try_RESERVED \<longrightarrow> header_status db' o2 = Some R_HELD)"
proof -
  have done': "(if o2 = o1 then hold_started (header_status db o1) (header_status db1 o1)
      else header_status db1 o1 = header_status db o1) \<and>
    (out = Try_RESERVED \<longrightarrow> header_status db1 o2 = Some R_HELD)"
    if w: "try_work cfg env o2 ls e ids te (db, 0) = Inr (out, db1, k)" for ids te out db1 k
  proof (cases "find_header o2 db")
    case None
    with try_work_Inr [OF ok pos w]
    have "reservationOrders db1 = reservationOrders db @
        [\<lparr>hd_orderId = o2, hd_status = R_HELD, hd_holdUntil = Some e\<rparr>]"
      by (auto dest: holds_lines_unmoved)
    then have "header_status db1 x = (if x = o2 then Some R_HELD else header_status db x)" for x
      using None find_header_append [of x db]
      by (auto simp: header_status_def find_header_def split: option.splits)
    then show ?thesis using None by (auto simp: hold_started_def header_status_def)
  next
    case (Some h)
    with try_work_Inr [OF ok pos w] show ?thesis
      by (auto simp: hold_started_def header_status_def split: if_splits)
  qed
  have "inv_ok db'" using tryReserve_inv [OF ok pos, of cfg env o2 e] run by simp
  moreover have "(if o2 = o1 then hold_started (header_status db o1) (header_status db' o1)
      else header_status db' o1 = header_status db o1) \<and>
    (r = Inr Try_RESERVED \<longrightarrow> header_status db' o2 = Some R_HELD)"
  proof (cases "mintReservationIds env")
    case (Inr ids)
    obtain r0 db0 where t: "inTransaction cfg env (try_work cfg env o2 ls e ids) db = (r0, db0)" by force
    have ans: "try_answer (r0, db0) = (r, db')" using run Inr t by (simp add: tryReserve_def)
    have "db' = db0" using try_answer_db [of "(r0, db0)"] ans by simp
    moreover have "r = Inr Try_RESERVED \<longrightarrow> r0 = Inr Try_RESERVED"
      using ans by (cases "(r0, db0)" rule: try_answer.cases) auto
    ultimately have "db' = db0" "r = Inr Try_RESERVED \<longrightarrow> r0 = Inr Try_RESERVED" by simp_all
    then show ?thesis
      using inTransaction_cases [OF t]
    proof (elim disjE exE conjE)
      fix e assume "r0 = Inl e" "db0 = db"
      then show ?thesis using \<open>db' = db0\<close> \<open>r = _ \<longrightarrow> _\<close> by (simp add: hold_started_def)
    next
      fix out te k assume "r0 = Inr out" "try_work cfg env o2 ls e ids te (db, 0) = Inr (out, db0, k)"
      then show ?thesis using done' [of ids te out db0 k] \<open>db' = db0\<close> \<open>r = _ \<longrightarrow> _\<close> by auto
    qed
  qed (use run in \<open>auto simp: tryReserve_def hold_started_def\<close>)
  ultimately show ?thesis by blast
qed

text \<open>
  A command's answer and header, as the contract's table has them. A lock that missed the order's header
  can only have met a Try that was committing it; the saga sends commit and restock after the Try.
\<close>

lemma command_hold:
  assumes ok: "inv_ok db" and run: "runCommand cfg env op o2 db = (r, db')"
    and seen: "ce_missed env \<Longrightarrow> op = Op_release"
  shows "inv_ok db' \<and> (o2 \<noteq> o1 \<longrightarrow> header_status db' o1 = header_status db o1) \<and>
    (case r of Inl e \<Rightarrow> db' = db
     | Inr out \<Rightarrow> (out, header_status db' o2) = stock_fence op (header_status db o2))"
proof -
  have t: "inTransaction cfg env (command_work env op o2) db = (r, db')" using run by (simp add: runCommand_def)
  have abs: "(out, header_status db' o2) = stock_fence op (header_status db o2) \<and>
      (o2 \<noteq> o1 \<longrightarrow> header_status db' o1 = header_status db o1)"
    if "(out, db') = abstract_command op o2 db" for out
  proof -
    have "db' = snd (abstract_command op o2 db)" "out = fst (abstract_command op o2 db)" using that by (metis fst_conv snd_conv)+
    moreover have "fst (abstract_command op o2 db) = fst (stock_fence op (header_status db o2))"
      by (cases op; cases "header_status db o2"; cases "the (header_status db o2)")
         (simp_all add: abstract_command_def)
    ultimately show ?thesis
      using abstract_command_header [of op o2 db o2] abstract_command_header [of op o2 db o1]
      by (auto simp: fence_table split: fence_decision.splits)
  qed
  show ?thesis
    using inTransaction_cases [OF t]
  proof (elim disjE exE conjE)
    fix e assume "r = Inl e" "db' = db"
    then show ?thesis using ok by simp
  next
    fix out te k assume r: "r = Inr out" "command_work env op o2 te (db, 0) = Inr (out, db', k)"
    have "(out, db') = abstract_command op o2 db" "inv_ok db'"
      using command_work_Inr [OF ok r(2)] seen by auto
    then show ?thesis using abs r(1) by simp
  qed
qed

text \<open>Everyone else: other orders' commands, any Try, the sweep and operators.\<close>

fun leaves_hold :: "string \<Rightarrow> inv_op \<Rightarrow> bool" where
  "leaves_hold o1 (Do_command cfg env op o2) \<longleftrightarrow> o2 \<noteq> o1"
| "leaves_hold o1 _ \<longleftrightarrow> True"

lemma lapse_hold:
  assumes "inv_ok db"
  shows "hold_lapsed (header_status db o1) (header_status (snd (lapse_one b e o2 db)) o1)"
proof -
  have "hold_lapsed (header_status db o1) (header_status db' o1)"
    if "lapse_work skipped dbnow o2 te (db, 0) = Inr (released, db', k)" for skipped dbnow te released db' k
    using lapse_work_Inr [OF assms that]
    by (cases "released \<and> o1 = o2")
       (auto simp: hold_lapsed_def header_status_def find_header_set)
  then show ?thesis
    by (fastforce simp: lapse_one_def Let_def hold_lapsed_def split: prod.splits sum.splits)
qed

lemma sweep_hold:
  "inv_ok db \<Longrightarrow> hold_lapsed (header_status db o1) (header_status (snd (sweep_ids b e i ids sm db)) o1)"
proof (induction ids arbitrary: i sm db)
  case (Cons o2 ids)
  obtain r db1 where l: "lapse_one b (e i) o2 db = (r, db1)" by force
  with lapse_one_inv [OF Cons.prems, of b "e i" o2] have "inv_ok db1" by simp
  moreover have "hold_lapsed (header_status db o1) (header_status db1 o1)"
    using lapse_hold [OF Cons.prems, of o1 b "e i" o2] l by simp
  moreover have "hold_lapsed x y \<Longrightarrow> hold_lapsed y z \<Longrightarrow> hold_lapsed x z" for x y z
    by (auto simp: hold_lapsed_def)
  ultimately show ?case using Cons.IH [of db1] l by (auto simp: Let_def)
qed (simp add: hold_lapsed_def)

lemma others_hold:
  assumes ok: "inv_ok db" and acc: "accepted op" and other: "leaves_hold o1 op"
  shows "inv_ok (inv_exec op db) \<and>
    (hold_started (header_status db o1) (header_status (inv_exec op db) o1) \<or>
     hold_lapsed (header_status db o1) (header_status (inv_exec op db) o1))"
proof -
  have same: "hold_started (header_status db o1) (header_status db' o1)"
    if "reservationOrders db' = reservationOrders db" for db'
    using that by (simp add: header_status_def find_header_def hold_started_def)
  have "hold_started (header_status db o1) (header_status (inv_exec op db) o1) \<or>
     hold_lapsed (header_status db o1) (header_status (inv_exec op db) o1)"
  proof (cases op)
    case (Do_try cfg env o2 ls e)
    obtain r db' where run: "tryReserve cfg env o2 ls e db = (r, db')" by force
    have "\<forall>l \<in> set ls. 0 < ln_quantity l" using acc Do_try valid_lines_pos by simp
    from try_hold [OF ok this run, of o1] show ?thesis
      using Do_try run by (auto simp: hold_started_def split: if_splits)
  next
    case (Do_command cfg env c o2)
    obtain r db' where "inTransaction cfg env (command_work env c o2) db = (r, db')" by force
    with inTransaction_cases [OF this] command_work_Inr [OF ok] have "db' = db \<or> db' = snd (abstract_command c o2 db)"
      by (metis snd_conv)
    then have "header_status (inv_exec op db) o1 = header_status db o1"
      using Do_command other abstract_command_header [of c o2 db o1] \<open>inTransaction _ _ _ _ = _\<close>
      by (auto simp: runCommand_def)
    then show ?thesis by (simp add: hold_started_def)
  next
    case (Do_sweep b e dbnow n)
    then show ?thesis using sweep_hold [OF ok] by (simp add: sweep_execute_def Let_def)
  qed (simp_all add: same set_adjust_headers)
  then show ?thesis using inv_exec_ok [OF ok acc] by blast
qed

end
