(* ===== verification/Payment_Domain.thy ===== *)
theory Payment_Domain
  imports Kernel_Values Lifecycle Contracts Tcc_Fence
begin

text \<open>
  The payment-service's domain (\<^verbatim>\<open>apps/payment-service/src/modules/payment/domain\<close>): the payment and
  its status machine, what a hold Stripe reports means for an order, what a TCC command may do given
  the order's header, and the reading of webhook payloads. Shown: the status machine is a lifecycle,
  the header decisions are a TCC fence, and each mark on a payment is one of the machine's moves.
\<close>


section \<open>Payment status\<close>

datatype payment_status = PS_PENDING | PS_SUCCEEDED | PS_FAILED | PS_EXPIRED | PS_AUTHORIZED | PS_VOIDED

record payment_edge =
  pe_from :: payment_status
  pe_to :: payment_status
  pe_wired :: bool

definition PAYMENT_TRANSITIONS :: "payment_edge list" where
  "PAYMENT_TRANSITIONS = map (\<lambda>(f, t). \<lparr>pe_from = f, pe_to = t, pe_wired = True\<rparr>)
     [(PS_PENDING, PS_SUCCEEDED), (PS_PENDING, PS_FAILED), (PS_PENDING, PS_EXPIRED),
      (PS_PENDING, PS_AUTHORIZED), (PS_PENDING, PS_VOIDED), (PS_AUTHORIZED, PS_SUCCEEDED),
      (PS_AUTHORIZED, PS_VOIDED), (PS_AUTHORIZED, PS_FAILED)]"

definition payment_canTransition :: "payment_status \<Rightarrow> payment_status \<Rightarrow> bool" where
  "payment_canTransition f t = list_ex (\<lambda>e. pe_from e = f \<and> pe_to e = t \<and> pe_wired e) PAYMENT_TRANSITIONS"

definition payment_terminal :: "payment_status \<Rightarrow> bool" where
  "payment_terminal s \<longleftrightarrow> s \<in> {PS_SUCCEEDED, PS_FAILED, PS_EXPIRED, PS_VOIDED}"

fun payment_rank :: "payment_status \<Rightarrow> nat" where
  "payment_rank PS_PENDING = 0"
| "payment_rank PS_AUTHORIZED = 1"
| "payment_rank _ = 2"

lemma payment_can_cases:
  "payment_canTransition f t \<longleftrightarrow>
     f = PS_PENDING \<and> t \<noteq> PS_PENDING \<or> f = PS_AUTHORIZED \<and> t \<in> {PS_SUCCEEDED, PS_VOIDED, PS_FAILED}"
  by (cases f; cases t) (simp_all add: payment_canTransition_def PAYMENT_TRANSITIONS_def)

interpretation payment_machine: lifecycle payment_canTransition payment_terminal payment_rank 2
proof
  fix s t :: payment_status
  show "payment_terminal s \<Longrightarrow> \<not> payment_canTransition s t"
    by (auto simp: payment_can_cases payment_terminal_def)
  show "\<not> payment_terminal s \<Longrightarrow> \<exists>t. payment_canTransition s t"
    by (cases s) (auto simp: payment_can_cases payment_terminal_def)
  show "payment_canTransition s t \<Longrightarrow> payment_rank s < payment_rank t"
    by (cases s; cases t) (auto simp: payment_can_cases)
  show "payment_rank s \<le> 2" by (cases s) auto
qed


section \<open>Errors\<close>

text \<open>
  What the payment side throws. \<open>PayGatewayError fresh\<close> is the adapter's \<open>PaymentGatewayError\<close> with its
  \<open>retryWithFreshKey\<close>; \<open>PayError\<close> is a plain \<open>Error\<close>.
\<close>

datatype pay_error =
    PayDomain domain_error
  | PaymentTransitionError payment_status payment_status
  | PayGatewayError bool
  | DuplicateActivePaymentError string
  | WebhookRetryLaterError
  | PayIdMintError
  | PayDuplicateKey
  | PayCheckViolation
  | PayError string

type_synonym 'a pay_result = "pay_error + 'a"

definition pay_lift :: "'a checked \<Rightarrow> 'a pay_result" where
  "pay_lift r = map_sum PayDomain id r"

lemma pay_lift_Inr [result_simps]: "pay_lift r = Inr a \<longleftrightarrow> r = Inr a"
  by (cases r) (auto simp: pay_lift_def)

definition payment_assertTransition :: "payment_status \<Rightarrow> payment_status \<Rightarrow> unit pay_result" where
  "payment_assertTransition f t =
     (if \<not> payment_canTransition f t then Inl (PaymentTransitionError f t) else Inr ())"


section \<open>The payment\<close>

text \<open>A persisted payment; \<open>pay_id\<close> is \<open>None\<close> before the insert. \<open>pay_updatedAt\<close> is the row's stamp.\<close>

record payment =
  pay_id :: "string option"
  pay_orderId :: string
  pay_provider :: string
  pay_providerSessionId :: string
  pay_providerIntentId :: "string option"
  pay_amountMinor :: int
  pay_currency :: string
  pay_status :: payment_status
  pay_stripeKeyGen :: nat
  pay_updatedAt :: int

definition payment_create :: "string \<Rightarrow> string \<Rightarrow> string \<Rightarrow> int \<Rightarrow> string \<Rightarrow> payment pay_result" where
  "payment_create orderId provider sessionId amount cur =
     ebind (pay_lift (assertNonEmpty (Some orderId) ''Payment.orderId'')) (\<lambda>_.
     ebind (pay_lift (assertNonEmpty (Some provider) ''Payment.provider'')) (\<lambda>_.
     ebind (pay_lift (assertNonEmpty (Some sessionId) ''Payment.providerSessionId'')) (\<lambda>_.
     ebind (pay_lift (assertPositive amount ''Payment.amountMinor'')) (\<lambda>_.
     ebind (pay_lift (money_of (JInt amount) cur)) (\<lambda>m.
       Inr \<lparr>pay_id = None, pay_orderId = orderId, pay_provider = provider,
            pay_providerSessionId = sessionId, pay_providerIntentId = None,
            pay_amountMinor = amountMinor m, pay_currency = currency m,
            pay_status = PS_PENDING, pay_stripeKeyGen = 0, pay_updatedAt = 0\<rparr>)))))"

definition withStatus :: "payment \<Rightarrow> payment_status \<Rightarrow> string option \<Rightarrow> payment" where
  "withStatus p st intent =
     p\<lparr>pay_status := st,
       pay_providerIntentId := (case intent of None \<Rightarrow> pay_providerIntentId p | Some i \<Rightarrow> Some i)\<rparr>"

definition mark :: "payment_status \<Rightarrow> string option \<Rightarrow> payment \<Rightarrow> payment pay_result" where
  "mark st intent p = ebind (payment_assertTransition (pay_status p) st) (\<lambda>_. Inr (withStatus p st intent))"

definition markSucceeded :: "string option \<Rightarrow> payment \<Rightarrow> payment pay_result" where
  "markSucceeded = mark PS_SUCCEEDED"

definition markFailed :: "payment \<Rightarrow> payment pay_result" where
  "markFailed = mark PS_FAILED None"

definition markExpired :: "payment \<Rightarrow> payment pay_result" where
  "markExpired = mark PS_EXPIRED None"

definition markAuthorized :: "string \<Rightarrow> payment \<Rightarrow> payment pay_result" where
  "markAuthorized intent = mark PS_AUTHORIZED (Some intent)"

definition markCaptured :: "payment \<Rightarrow> payment pay_result" where
  "markCaptured p =
     (if pay_status p \<noteq> PS_AUTHORIZED then Inl (PaymentTransitionError (pay_status p) PS_SUCCEEDED)
      else Inr (withStatus p PS_SUCCEEDED None))"

definition markVoided :: "string option \<Rightarrow> payment \<Rightarrow> payment pay_result" where
  "markVoided = mark PS_VOIDED"

lemma mark_Inr [result_simps]:
  "mark st intent p = Inr q \<longleftrightarrow> payment_canTransition (pay_status p) st \<and> q = withStatus p st intent"
  by (auto simp: mark_def payment_assertTransition_def)

lemma markCaptured_Inr [result_simps]:
  "markCaptured p = Inr q \<longleftrightarrow> pay_status p = PS_AUTHORIZED \<and> q = withStatus p PS_SUCCEEDED None"
  by (auto simp: markCaptured_def)

lemma marks_move_legally:
  "q \<in> {q. markSucceeded i p = Inr q \<or> markFailed p = Inr q \<or> markExpired p = Inr q \<or>
        markAuthorized j p = Inr q \<or> markCaptured p = Inr q \<or> markVoided i p = Inr q} \<Longrightarrow>
     payment_canTransition (pay_status p) (pay_status q) \<and>
     pay_id q = pay_id p \<and> pay_orderId q = pay_orderId p \<and> pay_amountMinor q = pay_amountMinor p"
  by (auto simp: markSucceeded_def markFailed_def markExpired_def markAuthorized_def markVoided_def
      result_simps withStatus_def payment_can_cases)


section \<open>Headers and the fence\<close>

record payment_header =
  ph_orderId :: string
  ph_status :: payment_order_status
  ph_amountMinor :: "int option"
  ph_currency :: "string option"
  ph_authorizedAt :: "int option"

datatype open_decision = Do_open | Do_closed

datatype capture_decision = Do_capture | Do_idempotent | Do_not_capturable | Do_conflict

datatype cancel_decision = Do_fence | Do_cancel | Do_rescan | Do_captured_conflict

fun decide_open_session :: "payment_order_status option \<Rightarrow> open_decision" where
  "decide_open_session None = Do_open"
| "decide_open_session (Some P_OPEN) = Do_open"
| "decide_open_session (Some P_AUTHORIZED) = Do_closed"
| "decide_open_session (Some P_CAPTURED) = Do_closed"
| "decide_open_session (Some P_CANCELLED) = Do_closed"
| "decide_open_session (Some P_FENCED) = Do_closed"

fun decide_capture :: "payment_order_status option \<Rightarrow> capture_decision" where
  "decide_capture None = Do_conflict"
| "decide_capture (Some P_OPEN) = Do_conflict"
| "decide_capture (Some P_AUTHORIZED) = Do_capture"
| "decide_capture (Some P_CAPTURED) = Do_idempotent"
| "decide_capture (Some P_CANCELLED) = Do_not_capturable"
| "decide_capture (Some P_FENCED) = Do_not_capturable"

fun decide_cancel :: "payment_order_status option \<Rightarrow> cancel_decision" where
  "decide_cancel None = Do_fence"
| "decide_cancel (Some P_OPEN) = Do_cancel"
| "decide_cancel (Some P_AUTHORIZED) = Do_cancel"
| "decide_cancel (Some P_CAPTURED) = Do_captured_conflict"
| "decide_cancel (Some P_CANCELLED) = Do_rescan"
| "decide_cancel (Some P_FENCED) = Do_rescan"

text \<open>The three tables seen as one fence, with the header each applied command leaves.\<close>

datatype payment_order_op = Op_open_session | Op_capture | Op_cancel

fun decidePaymentOrderOp ::
    "payment_order_op \<Rightarrow> payment_order_status option \<Rightarrow> payment_order_status fence_decision" where
  "decidePaymentOrderOp Op_open_session h =
     (case decide_open_session h of
        Do_open \<Rightarrow> if h = None then Apply P_OPEN else Idempotent
      | Do_closed \<Rightarrow> Conflict)"
| "decidePaymentOrderOp Op_capture h =
     (case decide_capture h of
        Do_capture \<Rightarrow> Apply P_CAPTURED | Do_idempotent \<Rightarrow> Idempotent
      | Do_not_capturable \<Rightarrow> Conflict | Do_conflict \<Rightarrow> Conflict)"
| "decidePaymentOrderOp Op_cancel h =
     (case decide_cancel h of
        Do_fence \<Rightarrow> Apply P_FENCED | Do_cancel \<Rightarrow> Apply P_CANCELLED
      | Do_rescan \<Rightarrow> Idempotent | Do_captured_conflict \<Rightarrow> Conflict)"

fun payment_order_rank :: "payment_order_status \<Rightarrow> nat" where
  "payment_order_rank P_OPEN = 1"
| "payment_order_rank P_AUTHORIZED = 2"
| "payment_order_rank P_CAPTURED = 3"
| "payment_order_rank P_CANCELLED = 3"
| "payment_order_rank P_FENCED = 3"

interpretation payment_fencing: tcc_fence decidePaymentOrderOp payment_order_rank
proof
  fix op n assume "decidePaymentOrderOp op None = Apply n"
  then show "0 < payment_order_rank n" by (cases n) simp_all
next
  fix op s n assume "decidePaymentOrderOp op (Some s) = Apply n"
  then show "payment_order_rank s < payment_order_rank n" by (cases op; cases s) auto
next
  fix op and h :: "payment_order_status option" and n assume "decidePaymentOrderOp op h = Apply n"
  moreover have "h = None \<or> (\<exists>s. h = Some s)" by (cases h) auto
  ultimately show "decidePaymentOrderOp op (Some n) = Idempotent"
    by (cases op; cases h; cases "the h") auto
next
  fix op and h :: "payment_order_status option" and n s m
  assume "decidePaymentOrderOp op h = Apply n" and "payment_order_rank n \<le> payment_order_rank s"
  then show "decidePaymentOrderOp op (Some s) \<noteq> Apply m"
    by (cases op; cases h; cases "the h"; cases s) auto
qed


section \<open>Authorizations\<close>

datatype authorization_decision = RECORD | RECORD_LATE | ALREADY_RECORDED | STRAY | AMOUNT_MISMATCH

text \<open>What Stripe holds on the card; either field may be missing.\<close>

record held_charge =
  hc_intentId :: string
  hc_amountMinor :: "int option"
  hc_currency :: "string option"

definition chargeMatches :: "int option \<Rightarrow> string option \<Rightarrow> held_charge \<Rightarrow> bool" where
  "chargeMatches amount cur charge =
     (case (amount, cur) of
        (Some a, Some c) \<Rightarrow>
          hc_amountMinor charge = Some a \<and> map_option js_upper (hc_currency charge) = Some (js_upper c)
      | _ \<Rightarrow> False)"

definition decideAuthorization :: "payment \<Rightarrow> payment_header \<Rightarrow> held_charge \<Rightarrow> authorization_decision" where
  "decideAuthorization p h charge =
     (if pay_status p \<in> {PS_AUTHORIZED, PS_SUCCEEDED, PS_VOIDED} then ALREADY_RECORDED
      else if pay_status p \<in> {PS_EXPIRED, PS_FAILED} \<or> ph_authorizedAt h \<noteq> None \<or>
              ph_status h \<in> {P_AUTHORIZED, P_CAPTURED}
      then STRAY
      else if \<not> chargeMatches (ph_amountMinor h) (ph_currency h) charge \<or>
              \<not> chargeMatches (Some (pay_amountMinor p)) (Some (pay_currency p)) charge
      then AMOUNT_MISMATCH
      else if ph_status h = P_CANCELLED then RECORD_LATE else RECORD)"

lemma decide_records:
  assumes "decideAuthorization p h charge \<in> {RECORD, RECORD_LATE}"
  shows "pay_status p = PS_PENDING \<and> ph_authorizedAt h = None \<and>
    hc_amountMinor charge = Some (pay_amountMinor p) \<and> ph_amountMinor h = Some (pay_amountMinor p) \<and>
    ph_status h \<in> {P_OPEN, P_CANCELLED, P_FENCED}"
  using assms by (cases "pay_status p"; cases "ph_status h")
    (auto simp: decideAuthorization_def chargeMatches_def split: if_splits option.splits)

lemma decide_record_open: "decideAuthorization p h charge = RECORD \<Longrightarrow> ph_status h \<in> {P_OPEN, P_FENCED}"
  by (cases "pay_status p"; cases "ph_status h")
    (auto simp: decideAuthorization_def chargeMatches_def split: if_splits option.splits)


section \<open>Gateway vocabulary\<close>

datatype intent_status =
    Int_requires_capture | Int_succeeded | Int_canceled | Int_processing | Int_requires_payment_method | Int_other

datatype session_status = Session_open | Session_complete | Session_expired | Session_unknown

record session_authorization =
  sa_sessionStatus :: session_status
  sa_redirectUrl :: "string option"
  sa_intentId :: "string option"
  sa_intentStatus :: "intent_status option"
  sa_amountCapturableMinor :: "int option"
  sa_currency :: "string option"

datatype capture_intent_result = Cir_captured | Cir_not_capturable intent_status

datatype void_intent_outcome = Vio_voided | Vio_already_canceled | Vio_already_captured

datatype expire_session_outcome = Eso_expired | Eso_already_closed | Eso_already_completed

record gateway_session =
  gs_providerSessionId :: string
  gs_redirectUrl :: "string option"
  gs_clientSecret :: "string option"

definition heldCharge :: "session_authorization \<Rightarrow> held_charge option" where
  "heldCharge a =
     (if sa_sessionStatus a \<noteq> Session_complete \<or> sa_intentStatus a \<noteq> Some Int_requires_capture then None
      else case sa_intentId a of
        None \<Rightarrow> None
      | Some [] \<Rightarrow> None
      | Some i \<Rightarrow> Some \<lparr>hc_intentId = i, hc_amountMinor = sa_amountCapturableMinor a, hc_currency = sa_currency a\<rparr>)"


section \<open>Webhook payloads\<close>

record checkout_session_facts =
  csf_sessionId :: "string option"
  csf_intentId :: "string option"
  csf_paymentStatus :: "string option"
  csf_amountMinor :: "int option"
  csf_currency :: "string option"

fun json_integer :: "json option \<Rightarrow> int option" where
  "json_integer (Some (JNum (JInt n))) = Some n"
| "json_integer _ = None"

definition jpath :: "json option \<Rightarrow> string \<Rightarrow> json option" where
  "jpath v k = (case v of None \<Rightarrow> None | Some j \<Rightarrow> jget j k)"

definition readCheckoutSession :: "json \<Rightarrow> checkout_session_facts" where
  "readCheckoutSession payload =
     (let session = jpath (jpath (Some payload) ''data'') ''object'' in
      \<lparr>csf_sessionId = json_string (jpath session ''id''),
       csf_intentId = json_string (jpath session ''payment_intent''),
       csf_paymentStatus = json_string (jpath session ''payment_status''),
       csf_amountMinor = json_integer (jpath session ''amount_total''),
       csf_currency = json_string (jpath session ''currency'')\<rparr>)"

datatype event_outcome = Ev_settle payment_status | Ev_awaiting_payment | Ev_ignore

definition mapEventToOutcome :: "string \<Rightarrow> string option \<Rightarrow> event_outcome" where
  "mapEventToOutcome type paymentStatus =
     (if type = ''checkout.session.completed''
      then (if paymentStatus = Some ''paid'' \<or> paymentStatus = Some ''no_payment_required''
            then Ev_settle PS_SUCCEEDED else Ev_awaiting_payment)
      else if type = ''checkout.session.expired'' then Ev_settle PS_FAILED
      else Ev_ignore)"

end
