(* ===== verification/Payment_Store.thy ===== *)
theory Payment_Store
  imports Payment_Domain
begin

text \<open>
  The payment-service's tables and repositories
  (\<^verbatim>\<open>apps/payment-service/src/modules/payment/infrastructure\<close>: \<^verbatim>\<open>schema/payment.schema.ts\<close>,
  \<^verbatim>\<open>payment-order.repository.ts\<close>, \<^verbatim>\<open>payment.repository.ts\<close>, \<^verbatim>\<open>webhook-event.repository.ts\<close>). A table is
  the list of its rows in the order they were inserted, which is the order of \<open>created_at\<close>; \<open>pt_clock\<close>
  is what \<open>new Date()\<close> reads. The store invariant says what the keys, the partial unique index and the
  write order keep: one live attempt per order, and one \<open>payment.authorized\<close> exactly when the header
  carries its instant.
\<close>


section \<open>Tables\<close>

record authorized_event =
  ae_id :: string
  ae_paymentId :: string
  ae_orderId :: string
  ae_amountMinor :: int
  ae_currency :: string
  ae_authorizedAt :: int

datatype webhook_status = Wh_RECEIVED | Wh_PROCESSED | Wh_SKIPPED | Wh_FAILED

record webhook_event =
  we_id :: string
  we_provider :: string
  we_providerEventId :: string
  we_type :: string
  we_payload :: json
  we_status :: webhook_status
  we_receivedAt :: int
  we_processedAt :: "int option"

record pay_db =
  pt_payments :: "payment list"
  pt_headers :: "payment_header list"
  pt_outbox :: "authorized_event list"
  pt_webhooks :: "webhook_event list"
  pt_clock :: int


section \<open>Headers\<close>

definition find_pay_header :: "string \<Rightarrow> pay_db \<Rightarrow> payment_header option" where
  "find_pay_header orderId db = find_where (\<lambda>h. ph_orderId h = orderId) (pt_headers db)"

definition insert_pay_header :: "payment_header \<Rightarrow> pay_db \<Rightarrow> bool \<times> pay_db" where
  "insert_pay_header row db =
     (if find_pay_header (ph_orderId row) db \<noteq> None then (False, db)
      else (True, db\<lparr>pt_headers := pt_headers db @ [row]\<rparr>))"

definition insertOpen :: "string \<Rightarrow> int \<Rightarrow> string \<Rightarrow> pay_db \<Rightarrow> bool \<times> pay_db" where
  "insertOpen orderId amount cur =
     insert_pay_header \<lparr>ph_orderId = orderId, ph_status = P_OPEN, ph_amountMinor = Some amount,
       ph_currency = Some cur, ph_authorizedAt = None\<rparr>"

definition insertFenced :: "string \<Rightarrow> pay_db \<Rightarrow> bool \<times> pay_db" where
  "insertFenced orderId =
     insert_pay_header \<lparr>ph_orderId = orderId, ph_status = P_FENCED, ph_amountMinor = None,
       ph_currency = None, ph_authorizedAt = None\<rparr>"

text \<open>\<open>ck_payment_orders_amount_when_not_fenced\<close>, and the UPDATE with its optional columns.\<close>

definition header_check :: "payment_header \<Rightarrow> bool" where
  "header_check h \<longleftrightarrow> ph_status h = P_FENCED \<or> ph_amountMinor h \<noteq> None \<and> ph_currency h \<noteq> None"

definition patch_header :: "payment_order_status option \<Rightarrow> int option \<Rightarrow> payment_header \<Rightarrow> payment_header" where
  "patch_header st at h =
     h\<lparr>ph_status := (case st of None \<Rightarrow> ph_status h | Some s \<Rightarrow> s),
       ph_authorizedAt := (case at of None \<Rightarrow> ph_authorizedAt h | Some t \<Rightarrow> Some t)\<rparr>"

definition update_pay_header ::
    "string \<Rightarrow> payment_order_status option \<Rightarrow> int option \<Rightarrow> pay_db \<Rightarrow> pay_db pay_result" where
  "update_pay_header orderId st at db =
     (if list_ex (\<lambda>h. ph_orderId h = orderId \<and> \<not> header_check (patch_header st at h)) (pt_headers db)
      then Inl PayCheckViolation
      else Inr (db\<lparr>pt_headers := update_where (\<lambda>h. ph_orderId h = orderId) (patch_header st at) (pt_headers db)\<rparr>))"


section \<open>Payments\<close>

definition retired :: "payment_status \<Rightarrow> bool" where
  "retired s \<longleftrightarrow> s \<in> {PS_FAILED, PS_EXPIRED}"

definition active_of :: "string \<Rightarrow> payment \<Rightarrow> bool" where
  "active_of orderId p \<longleftrightarrow> pay_orderId p = orderId \<and> \<not> retired (pay_status p)"

definition payment_insert :: "payment \<Rightarrow> string \<Rightarrow> pay_db \<Rightarrow> (payment \<times> pay_db) pay_result" where
  "payment_insert p i db =
     (let row = p\<lparr>pay_id := Some i, pay_updatedAt := pt_clock db\<rparr> in
      if list_ex (\<lambda>q. pay_id q = Some i) (pt_payments db) then Inl PayDuplicateKey
      else if \<not> retired (pay_status p) \<and> list_ex (active_of (pay_orderId p)) (pt_payments db)
      then Inl (DuplicateActivePaymentError (pay_orderId p))
      else Inr (row, db\<lparr>pt_payments := pt_payments db @ [row]\<rparr>))"

definition find_last :: "('r \<Rightarrow> bool) \<Rightarrow> 'r list \<Rightarrow> 'r option" where
  "find_last P rs = find_where P (rev rs)"

definition findByOrderId :: "string \<Rightarrow> pay_db \<Rightarrow> payment option" where
  "findByOrderId orderId db = find_last (\<lambda>p. pay_orderId p = orderId) (pt_payments db)"

definition findByProviderSessionId :: "string \<Rightarrow> pay_db \<Rightarrow> payment option" where
  "findByProviderSessionId sessionId db = find_last (\<lambda>p. pay_providerSessionId p = sessionId) (pt_payments db)"

definition findActiveByOrderIdForUpdate :: "string \<Rightarrow> pay_db \<Rightarrow> payment option" where
  "findActiveByOrderIdForUpdate orderId db = find_where (active_of orderId) (pt_payments db)"

definition updateStatus ::
    "string option \<Rightarrow> payment_status \<Rightarrow> string option \<Rightarrow> payment_status option \<Rightarrow> pay_db \<Rightarrow>
     payment option \<times> pay_db" where
  "updateStatus i st intent expected db =
     (let hit = (\<lambda>p. pay_id p = i \<and> (case expected of None \<Rightarrow> True | Some s \<Rightarrow> pay_status p = s));
          f = (\<lambda>p. (withStatus p st intent)\<lparr>pay_updatedAt := pt_clock db\<rparr>) in
      (map_option f (find_where hit (pt_payments db)),
       db\<lparr>pt_payments := update_where hit f (pt_payments db)\<rparr>))"

definition staleTcc :: "pay_db \<Rightarrow> int \<Rightarrow> payment \<Rightarrow> bool" where
  "staleTcc db updatedBefore p \<longleftrightarrow>
     pay_updatedAt p < updatedBefore \<and>
     (case find_pay_header (pay_orderId p) db of
        None \<Rightarrow> False
      | Some h \<Rightarrow>
          pay_status p = PS_PENDING \<or>
          pay_status p = PS_AUTHORIZED \<and> ph_status h \<in> {P_CANCELLED, P_FENCED})"

definition findStaleTcc :: "int \<Rightarrow> nat \<Rightarrow> pay_db \<Rightarrow> payment list" where
  "findStaleTcc updatedBefore limit db =
     take limit (sort_key pay_updatedAt (sort_key (\<lambda>p. nat_of_dec (the (pay_id p)))
       (filter (staleTcc db updatedBefore) (pt_payments db))))"

definition bumpUpdatedAt :: "string option \<Rightarrow> payment_status \<Rightarrow> pay_db \<Rightarrow> pay_db" where
  "bumpUpdatedAt i expected db =
     db\<lparr>pt_payments := update_where (\<lambda>p. pay_id p = i \<and> pay_status p = expected)
          (\<lambda>p. p\<lparr>pay_updatedAt := pt_clock db\<rparr>) (pt_payments db)\<rparr>"

definition incrementKeyGen :: "string option \<Rightarrow> nat \<Rightarrow> pay_db \<Rightarrow> pay_db" where
  "incrementKeyGen i expected db =
     db\<lparr>pt_payments := update_where (\<lambda>p. pay_id p = i \<and> pay_stripeKeyGen p = expected)
          (\<lambda>p. p\<lparr>pay_stripeKeyGen := expected + 1, pay_updatedAt := pt_clock db\<rparr>) (pt_payments db)\<rparr>"

definition participant_status :: "pay_db \<Rightarrow> string \<Rightarrow> payment_status_entry" where
  "participant_status db orderId =
     (let of_order = (\<lambda>sts p. pay_orderId p = orderId \<and> pay_status p \<in> sts) in
      \<lparr>pse_header = map_option ph_status (find_pay_header orderId db),
       pse_authorizedPaymentId =
         Option.bind (find_where (of_order {PS_AUTHORIZED, PS_SUCCEEDED}) (pt_payments db)) pay_id,
       pse_hasAuthorizedAttempt = list_ex (of_order {PS_AUTHORIZED}) (pt_payments db),
       pse_hasSucceededAttempt = list_ex (of_order {PS_SUCCEEDED}) (pt_payments db)\<rparr>)"

definition findParticipantStatuses :: "string list \<Rightarrow> pay_db \<Rightarrow> (string \<times> payment_status_entry) list" where
  "findParticipantStatuses orderIds db = map (\<lambda>i. (i, participant_status db i)) orderIds"


section \<open>Outbox and webhook log\<close>

definition toAuthorizedOutboxRecord :: "string \<Rightarrow> payment \<Rightarrow> int \<Rightarrow> authorized_event" where
  "toAuthorizedOutboxRecord outboxId p at =
     \<lparr>ae_id = outboxId, ae_paymentId = the (pay_id p), ae_orderId = pay_orderId p,
      ae_amountMinor = pay_amountMinor p, ae_currency = pay_currency p, ae_authorizedAt = at\<rparr>"

definition outbox_append :: "authorized_event \<Rightarrow> pay_db \<Rightarrow> pay_db" where
  "outbox_append e db = db\<lparr>pt_outbox := pt_outbox db @ [e]\<rparr>"

definition same_event :: "string \<Rightarrow> string \<Rightarrow> webhook_event \<Rightarrow> bool" where
  "same_event provider providerEventId w \<longleftrightarrow>
     we_provider w = provider \<and> we_providerEventId w = providerEventId"

definition insertIfNew ::
    "string \<Rightarrow> string \<Rightarrow> string \<Rightarrow> string \<Rightarrow> json \<Rightarrow> pay_db \<Rightarrow> (bool \<times> pay_db) pay_result" where
  "insertIfNew i provider providerEventId type payload db =
     (if list_ex (same_event provider providerEventId) (pt_webhooks db) then Inr (False, db)
      else if list_ex (\<lambda>w. we_id w = i) (pt_webhooks db) then Inl PayDuplicateKey
      else Inr (True, db\<lparr>pt_webhooks := pt_webhooks db @
        [\<lparr>we_id = i, we_provider = provider, we_providerEventId = providerEventId, we_type = type,
          we_payload = payload, we_status = Wh_RECEIVED, we_receivedAt = pt_clock db,
          we_processedAt = None\<rparr>]\<rparr>))"

definition markProcessed :: "string \<Rightarrow> pay_db \<Rightarrow> pay_db" where
  "markProcessed i db =
     db\<lparr>pt_webhooks := update_where (\<lambda>w. we_id w = i)
          (\<lambda>w. w\<lparr>we_status := Wh_PROCESSED, we_processedAt := Some (pt_clock db)\<rparr>) (pt_webhooks db)\<rparr>"

definition markSkipped :: "string \<Rightarrow> pay_db \<Rightarrow> pay_db" where
  "markSkipped i db =
     db\<lparr>pt_webhooks := update_where (\<lambda>w. we_id w = i) (\<lambda>w. w\<lparr>we_status := Wh_SKIPPED\<rparr>) (pt_webhooks db)\<rparr>"

text \<open>The batch the retention sweep deletes: up to \<open>limit\<close> events received before the cutoff.\<close>

definition deleteReceivedBefore :: "int \<Rightarrow> nat \<Rightarrow> pay_db \<Rightarrow> nat \<times> pay_db" where
  "deleteReceivedBefore cutoff limit db =
     (let doomed = map we_id (take limit (filter (\<lambda>w. we_receivedAt w < cutoff) (pt_webhooks db))) in
      (length (filter (\<lambda>w. we_id w \<in> set doomed) (pt_webhooks db)),
       db\<lparr>pt_webhooks := filter (\<lambda>w. we_id w \<notin> set doomed) (pt_webhooks db)\<rparr>))"



section \<open>What the store keeps\<close>

text \<open>How often an order's \<open>payment.authorized\<close> was written, and how often its header says it was.\<close>

definition authorizations :: "string \<Rightarrow> pay_db \<Rightarrow> nat" where
  "authorizations orderId db = count_where (\<lambda>e. ae_orderId e = orderId) (pt_outbox db)"

definition stamped :: "payment_header \<Rightarrow> nat" where
  "stamped h = (if ph_authorizedAt h = None then 0 else 1)"

definition pay_ok :: "pay_db \<Rightarrow> bool" where
  "pay_ok db \<longleftrightarrow>
     distinct (map ph_orderId (pt_headers db)) \<and>
     distinct (map pay_id (pt_payments db)) \<and> distinct (map pay_providerSessionId (pt_payments db)) \<and>
     (\<forall>p \<in> set (pt_payments db). \<forall>q \<in> set (pt_payments db).
        active_of (pay_orderId p) p \<longrightarrow> active_of (pay_orderId p) q \<longrightarrow> p = q) \<and>
     (\<forall>p \<in> set (pt_payments db). pay_id p \<noteq> None \<and>
        (\<exists>h \<in> set (pt_headers db). ph_orderId h = pay_orderId p \<and> ph_status h \<noteq> P_FENCED)) \<and>
     (\<forall>h \<in> set (pt_headers db). header_check h \<and>
        authorizations (ph_orderId h) db = stamped h \<and>
        (ph_status h = P_AUTHORIZED \<longrightarrow> ph_authorizedAt h \<noteq> None)) \<and>
     (\<forall>e \<in> set (pt_outbox db). \<exists>h \<in> set (pt_headers db).
        ph_orderId h = ae_orderId e \<and> ph_amountMinor h = Some (ae_amountMinor e))"

text \<open>How a row may change: a payment only its status (along the machine), its intent, key and stamp;
  a header never back to OPEN, never out of the closed statuses, and its authorization instant never once
  set.\<close>

definition payment_moved :: "payment \<Rightarrow> payment \<Rightarrow> bool" where
  "payment_moved p q \<longleftrightarrow>
     pay_id q = pay_id p \<and> pay_orderId q = pay_orderId p \<and>
     pay_providerSessionId q = pay_providerSessionId p \<and> pay_provider q = pay_provider p \<and>
     pay_amountMinor q = pay_amountMinor p \<and> pay_currency q = pay_currency p \<and>
     payment_canTransition\<^sup>*\<^sup>* (pay_status p) (pay_status q)"

definition attempts :: "string \<Rightarrow> pay_db \<Rightarrow> string option list" where
  "attempts orderId db = map pay_id (filter (\<lambda>p. pay_orderId p = orderId) (pt_payments db))"

definition header_moved :: "pay_db \<Rightarrow> pay_db \<Rightarrow> payment_header \<Rightarrow> payment_header \<Rightarrow> bool" where
  "header_moved db db' h h' \<longleftrightarrow>
     ph_orderId h' = ph_orderId h \<and> ph_amountMinor h' = ph_amountMinor h \<and> ph_currency h' = ph_currency h \<and>
     (ph_authorizedAt h \<noteq> None \<longrightarrow> ph_authorizedAt h' = ph_authorizedAt h) \<and>
     (ph_status h \<notin> {P_OPEN, P_AUTHORIZED} \<longrightarrow> ph_status h' \<notin> {P_OPEN, P_AUTHORIZED}) \<and>
     (ph_status h \<noteq> P_OPEN \<longrightarrow> ph_status h' \<noteq> P_OPEN \<and>
        attempts (ph_orderId h) db' = attempts (ph_orderId h) db)"

definition pay_grows :: "pay_db \<Rightarrow> pay_db \<Rightarrow> bool" where
  "pay_grows db db' \<longleftrightarrow>
     (\<forall>p \<in> set (pt_payments db). \<exists>q \<in> set (pt_payments db'). payment_moved p q) \<and>
     (\<forall>h \<in> set (pt_headers db). \<exists>h' \<in> set (pt_headers db'). header_moved db db' h h') \<and>
     (\<exists>new. pt_outbox db' = pt_outbox db @ new)"

definition pay_evolves :: "pay_db \<Rightarrow> pay_db \<Rightarrow> bool" where
  "pay_evolves db db' \<longleftrightarrow> (pay_ok db \<longrightarrow> pay_ok db' \<and> pay_grows db db')"

lemma payment_moved_refl [simp]: "payment_moved p p"
  by (simp add: payment_moved_def)

lemma payment_moved_trans: "payment_moved p q \<Longrightarrow> payment_moved q r \<Longrightarrow> payment_moved p r"
  unfolding payment_moved_def by (auto intro: rtranclp_trans)

lemma pay_growsI:
  assumes "\<And>p. p \<in> set (pt_payments db) \<Longrightarrow> \<exists>q \<in> set (pt_payments db'). payment_moved p q"
    and "\<And>h. h \<in> set (pt_headers db) \<Longrightarrow> \<exists>h' \<in> set (pt_headers db'). header_moved db db' h h'"
    and "\<exists>new. pt_outbox db' = pt_outbox db @ new"
  shows "pay_grows db db'"
  using assms by (auto simp: pay_grows_def)

lemma header_moved_same:
  "(\<And>o1. attempts o1 db' = attempts o1 db) \<Longrightarrow> header_moved db db' h h"
  by (simp add: header_moved_def)

lemma pay_grows_same:
  assumes "pt_payments db' = pt_payments db" "pt_headers db' = pt_headers db" "pt_outbox db' = pt_outbox db"
  shows "pay_grows db db'"
proof (rule pay_growsI)
  fix p assume "p \<in> set (pt_payments db)"
  then show "\<exists>q \<in> set (pt_payments db'). payment_moved p q"
    using assms(1) by (intro bexI [of _ p]) simp_all
next
  fix h assume "h \<in> set (pt_headers db)"
  then show "\<exists>h' \<in> set (pt_headers db'). header_moved db db' h h'"
    using assms(1,2) by (intro bexI [of _ h]) (simp_all add: header_moved_def attempts_def)
qed (simp add: assms(3))

lemma pay_grows_refl [simp]: "pay_grows db db"
  by (rule pay_grows_same) simp_all

lemma header_moved_trans:
  "header_moved a b h h1 \<Longrightarrow> header_moved b c h1 h2 \<Longrightarrow> header_moved a c h h2"
  by (auto simp: header_moved_def)

lemma pay_grows_trans:
  assumes 1: "pay_grows a b" and 2: "pay_grows b c"
  shows "pay_grows a c"
  unfolding pay_grows_def
proof (intro conjI ballI)
  fix p assume "p \<in> set (pt_payments a)"
  then obtain q where q: "q \<in> set (pt_payments b)" "payment_moved p q"
    using 1 unfolding pay_grows_def by blast
  then obtain r where "r \<in> set (pt_payments c)" "payment_moved q r"
    using 2 unfolding pay_grows_def by blast
  then show "\<exists>q \<in> set (pt_payments c). payment_moved p q"
    using q(2) payment_moved_trans by blast
next
  fix h assume "h \<in> set (pt_headers a)"
  then obtain h1 where h1: "h1 \<in> set (pt_headers b)" "header_moved a b h h1"
    using 1 unfolding pay_grows_def by blast
  then obtain h2 where "h2 \<in> set (pt_headers c)" "header_moved b c h1 h2"
    using 2 unfolding pay_grows_def by blast
  then show "\<exists>h' \<in> set (pt_headers c). header_moved a c h h'"
    using h1(2) header_moved_trans by blast
next
  show "\<exists>new. pt_outbox c = pt_outbox a @ new" using 1 2 unfolding pay_grows_def by force
qed

lemma pay_evolves_refl [simp]: "pay_evolves db db"
  by (simp add: pay_evolves_def)

lemma pay_evolves_trans [trans]: "pay_evolves a b \<Longrightarrow> pay_evolves b c \<Longrightarrow> pay_evolves a c"
  unfolding pay_evolves_def by (blast intro: pay_grows_trans)

lemma active_moved: "payment_moved p q \<Longrightarrow> active_of o1 q \<Longrightarrow> active_of o1 p"
proof -
  assume m: "payment_moved p q" and a: "active_of o1 q"
  have "retired (pay_status p) \<Longrightarrow> pay_status q = pay_status p"
    using m payment_machine.terminal_final
    by (auto simp: payment_moved_def retired_def payment_terminal_def)
  with m a show "active_of o1 p" by (auto simp: active_of_def payment_moved_def)
qed

text \<open>Rewriting payment rows, each as a legal move, keeps the store.\<close>

lemma payments_rewritten:
  assumes moved: "\<And>p. p \<in> set (pt_payments db) \<Longrightarrow> payment_moved p (g p)"
  shows "pay_evolves db (db\<lparr>pt_payments := map g (pt_payments db)\<rparr>)"
  unfolding pay_evolves_def
proof
  assume ok: "pay_ok db"
  let ?db = "db\<lparr>pt_payments := map g (pt_payments db)\<rparr>"
  have keys: "pay_id (g p) = pay_id p" "pay_orderId (g p) = pay_orderId p"
      "pay_providerSessionId (g p) = pay_providerSessionId p" if "p \<in> set (pt_payments db)" for p
    using moved [OF that] by (simp_all add: payment_moved_def)
  have "distinct (map pay_id (pt_payments db))" "distinct (map pay_providerSessionId (pt_payments db))"
    using ok unfolding pay_ok_def by blast+
  then have distincts: "distinct (map (pay_id \<circ> g) (pt_payments db))"
      "distinct (map (pay_providerSessionId \<circ> g) (pt_payments db))"
    using keys by (simp_all add: distinct_rekeyed)
  have one: "g p = g q" if "p \<in> set (pt_payments db)" "q \<in> set (pt_payments db)"
      "active_of (pay_orderId (g p)) (g p)" "active_of (pay_orderId (g p)) (g q)" for p q
  proof -
    have "active_of (pay_orderId p) p" "active_of (pay_orderId p) q"
      using that moved active_moved keys(2) [OF that(1)] by metis+
    then have "p = q" using that(1,2) ok unfolding pay_ok_def by blast
    then show ?thesis by simp
  qed
  have "attempts o1 ?db = attempts o1 db" for o1
  proof -
    have "filter (\<lambda>p. pay_orderId (g p) = o1) (pt_payments db) =
        filter (\<lambda>p. pay_orderId p = o1) (pt_payments db)"
      using keys by (intro filter_cong) simp_all
    then show ?thesis using keys by (simp add: attempts_def filter_map comp_def)
  qed
  then have "pay_grows db ?db"
    by (intro pay_growsI) (auto intro!: moved bexI header_moved_same)
  moreover have "pay_ok ?db"
    unfolding pay_ok_def
  proof (intro conjI)
    show "\<forall>p \<in> set (pt_payments ?db). \<forall>q \<in> set (pt_payments ?db).
        active_of (pay_orderId p) p \<longrightarrow> active_of (pay_orderId p) q \<longrightarrow> p = q"
      using one by auto
    show "\<forall>p \<in> set (pt_payments ?db). pay_id p \<noteq> None \<and>
        (\<exists>h \<in> set (pt_headers ?db). ph_orderId h = pay_orderId p \<and> ph_status h \<noteq> P_FENCED)"
      using keys ok by (simp add: pay_ok_def)
  qed (use ok distincts in \<open>simp_all add: pay_ok_def authorizations_def\<close>)
  ultimately show "pay_ok ?db \<and> pay_grows db ?db" by blast
qed

lemma payments_updated:
  assumes "\<And>p. p \<in> set (pt_payments db) \<Longrightarrow> hit p \<Longrightarrow> payment_moved p (f p)"
  shows "pay_evolves db (db\<lparr>pt_payments := update_where hit f (pt_payments db)\<rparr>)"
  unfolding update_where_def using assms by (intro payments_rewritten) simp

lemma updateStatus_evolves:
  assumes "\<And>p. p \<in> set (pt_payments db) \<Longrightarrow> pay_id p = i \<Longrightarrow>
      (case expected of None \<Rightarrow> True | Some s \<Rightarrow> pay_status p = s) \<Longrightarrow> payment_canTransition (pay_status p) st"
  shows "pay_evolves db (snd (updateStatus i st intent expected db))"
  unfolding updateStatus_def Let_def snd_conv using assms
  by (intro payments_updated) (auto simp: payment_moved_def withStatus_def)

lemma bumpUpdatedAt_evolves [simp]: "pay_evolves db (bumpUpdatedAt i st db)"
  unfolding bumpUpdatedAt_def by (intro payments_updated) (simp add: payment_moved_def)

lemma incrementKeyGen_evolves [simp]: "pay_evolves db (incrementKeyGen i n db)"
  unfolding incrementKeyGen_def by (intro payments_updated) (simp add: payment_moved_def)

text \<open>The webhook log and the clock carry none of it.\<close>

lemma pay_evolves_same:
  assumes "pt_payments db' = pt_payments db" "pt_headers db' = pt_headers db" "pt_outbox db' = pt_outbox db"
  shows "pay_evolves db db'"
  using assms pay_grows_same [OF assms] by (simp add: pay_evolves_def pay_ok_def authorizations_def)

lemma webhooks_evolve [simp]: "pay_evolves db (db\<lparr>pt_webhooks := ws\<rparr>)"
  by (rule pay_evolves_same) simp_all

lemma clock_evolves [simp]: "pay_evolves db (db\<lparr>pt_clock := t\<rparr>)"
  by (rule pay_evolves_same) simp_all

text \<open>Header rows: inserted fresh, closed, or stamped together with the one event.\<close>

lemma authorizations_none:
  assumes "pay_ok db" and "find_pay_header orderId db = None"
  shows "authorizations orderId db = 0"
proof -
  have "\<forall>e \<in> set (pt_outbox db). ae_orderId e \<noteq> orderId"
    using assms unfolding pay_ok_def find_pay_header_def find_where_None by blast
  then show ?thesis by (auto simp: authorizations_def count_where_def filter_empty_conv)
qed

lemma header_inserted:
  assumes "ph_status row \<noteq> P_AUTHORIZED" "ph_authorizedAt row = None" "header_check row"
  shows "pay_evolves db (snd (insert_pay_header row db))"
proof (cases "find_pay_header (ph_orderId row) db")
  case (Some h)
  then show ?thesis by (simp add: insert_pay_header_def)
next
  case None
  let ?db = "db\<lparr>pt_headers := pt_headers db @ [row]\<rparr>"
  have new: "\<forall>h \<in> set (pt_headers db). ph_orderId h \<noteq> ph_orderId row"
    using None unfolding find_pay_header_def find_where_None .
  have "pay_grows db ?db"
    by (rule pay_growsI) (auto intro!: header_moved_same bexI simp: attempts_def)
  moreover have "pay_ok ?db" if ok: "pay_ok db"
    unfolding pay_ok_def
  proof (intro conjI)
    show "\<forall>p \<in> set (pt_payments ?db). pay_id p \<noteq> None \<and>
        (\<exists>h \<in> set (pt_headers ?db). ph_orderId h = pay_orderId p \<and> ph_status h \<noteq> P_FENCED)"
      using ok unfolding pay_ok_def by auto
    show "\<forall>h \<in> set (pt_headers ?db). header_check h \<and> authorizations (ph_orderId h) ?db = stamped h \<and>
        (ph_status h = P_AUTHORIZED \<longrightarrow> ph_authorizedAt h \<noteq> None)"
      using ok assms authorizations_none [OF ok None]
      by (auto simp: pay_ok_def authorizations_def stamped_def)
    show "\<forall>e \<in> set (pt_outbox ?db). \<exists>h \<in> set (pt_headers ?db).
        ph_orderId h = ae_orderId e \<and> ph_amountMinor h = Some (ae_amountMinor e)"
      using ok unfolding pay_ok_def by auto
    show "distinct (map ph_orderId (pt_headers ?db))" using ok new unfolding pay_ok_def by force
  qed (use ok in \<open>simp_all add: pay_ok_def\<close>)
  ultimately show ?thesis using None by (simp add: insert_pay_header_def pay_evolves_def)
qed

lemma insertOpen_evolves [simp]: "pay_evolves db (snd (insertOpen orderId a c db))"
  unfolding insertOpen_def by (rule header_inserted) (simp_all add: header_check_def)

lemma insertFenced_evolves [simp]: "pay_evolves db (snd (insertFenced orderId db))"
  unfolding insertFenced_def by (rule header_inserted) (simp_all add: header_check_def)

lemma update_pay_header_Inr:
  "update_pay_header orderId st at db = Inr db' \<Longrightarrow>
     db' = db\<lparr>pt_headers := update_where (\<lambda>h. ph_orderId h = orderId) (patch_header st at) (pt_headers db)\<rparr> \<and>
     (\<forall>h \<in> set (pt_headers db). ph_orderId h = orderId \<longrightarrow> header_check (patch_header st at h))"
  by (auto simp: update_pay_header_def list_ex_iff split: if_splits)

text \<open>Rewriting headers while appending the events that say they were stamped.\<close>

definition restamped :: "authorized_event list \<Rightarrow> payment_header \<Rightarrow> payment_header \<Rightarrow> bool" where
  "restamped new h h' \<longleftrightarrow>
     ph_orderId h' = ph_orderId h \<and> ph_amountMinor h' = ph_amountMinor h \<and> ph_currency h' = ph_currency h \<and>
     (ph_authorizedAt h \<noteq> None \<longrightarrow> ph_authorizedAt h' = ph_authorizedAt h) \<and> header_check h' \<and>
     (ph_status h \<noteq> P_FENCED \<longrightarrow> ph_status h' \<noteq> P_FENCED) \<and>
     (ph_status h \<noteq> P_OPEN \<longrightarrow> ph_status h' \<noteq> P_OPEN) \<and>
     (ph_status h \<notin> {P_OPEN, P_AUTHORIZED} \<longrightarrow> ph_status h' \<notin> {P_OPEN, P_AUTHORIZED}) \<and>
     (ph_status h' = P_AUTHORIZED \<longrightarrow> ph_authorizedAt h' \<noteq> None) \<and>
     stamped h' = stamped h + count_where (\<lambda>e. ae_orderId e = ph_orderId h) new"

lemma headers_rewritten:
  assumes ok: "pay_ok db" and g: "\<And>h. h \<in> set (pt_headers db) \<Longrightarrow> restamped new h (g h)"
    and new: "\<forall>e \<in> set new. \<exists>h \<in> set (pt_headers db).
      ph_orderId h = ae_orderId e \<and> ph_amountMinor h = Some (ae_amountMinor e)"
    and db': "db' = db\<lparr>pt_headers := map g (pt_headers db), pt_outbox := pt_outbox db @ new\<rparr>"
  shows "pay_ok db' \<and> pay_grows db db'"
proof
  have same: "ph_orderId (g h) = ph_orderId h" if "h \<in> set (pt_headers db)" for h
    using g [OF that] by (simp add: restamped_def)
  have in': "g h \<in> set (pt_headers db')" if "h \<in> set (pt_headers db)" for h using that by (simp add: db')
  show "pay_grows db db'"
  proof (rule pay_growsI)
    fix h assume h: "h \<in> set (pt_headers db)"
    have "header_moved db db' h (g h)"
      using g [OF h] by (simp add: restamped_def header_moved_def db' attempts_def)
    then show "\<exists>h' \<in> set (pt_headers db'). header_moved db db' h h'" using in' [OF h] by blast
  qed (auto simp: db' intro: payment_moved_refl)
  show "pay_ok db'"
    unfolding pay_ok_def
  proof (intro conjI ballI)
    have "distinct (map ph_orderId (pt_headers db))" using ok unfolding pay_ok_def by blast
    then have "distinct (map (ph_orderId \<circ> g) (pt_headers db))" using same by (simp add: distinct_rekeyed)
    then show "distinct (map ph_orderId (pt_headers db'))" by (simp add: db')
    fix p assume "p \<in> set (pt_payments db')"
    then have p: "p \<in> set (pt_payments db)" by (simp add: db')
    then show "pay_id p \<noteq> None" using ok unfolding pay_ok_def by blast
    obtain h where "h \<in> set (pt_headers db)" "ph_orderId h = pay_orderId p" "ph_status h \<noteq> P_FENCED"
      using ok p unfolding pay_ok_def by blast
    then show "\<exists>h \<in> set (pt_headers db'). ph_orderId h = pay_orderId p \<and> ph_status h \<noteq> P_FENCED"
      using g [of h] in' [of h] by (intro bexI [of _ "g h"]) (simp_all add: restamped_def)
  next
    fix h' assume "h' \<in> set (pt_headers db')"
    then obtain h where h: "h \<in> set (pt_headers db)" "h' = g h" by (auto simp: db')
    note r = g [OF h(1), folded h(2), unfolded restamped_def]
    show "header_check h'" "ph_status h' = P_AUTHORIZED \<longrightarrow> ph_authorizedAt h' \<noteq> None" using r by auto
    have "authorizations (ph_orderId h) db = stamped h" using ok h(1) unfolding pay_ok_def by blast
    then show "authorizations (ph_orderId h') db' = stamped h'"
      using r by (simp add: authorizations_def db' row_simps)
  next
    fix e assume "e \<in> set (pt_outbox db')"
    then obtain h where "h \<in> set (pt_headers db)" "ph_orderId h = ae_orderId e"
        "ph_amountMinor h = Some (ae_amountMinor e)"
      using ok new unfolding pay_ok_def db' by auto
    then show "\<exists>h \<in> set (pt_headers db'). ph_orderId h = ae_orderId e \<and>
        ph_amountMinor h = Some (ae_amountMinor e)"
      using g [of h] in' [of h] by (intro bexI [of _ "g h"]) (simp_all add: restamped_def)
  qed (use ok in \<open>auto simp: pay_ok_def db'\<close>)
qed

lemma header_closed:
  assumes upd: "update_pay_header orderId (Some st) None db = Inr db'" and st: "st \<in> {P_CANCELLED, P_CAPTURED}"
  shows "pay_evolves db db'"
  unfolding pay_evolves_def
proof
  assume ok: "pay_ok db"
  let ?g = "\<lambda>h. if ph_orderId h = orderId then patch_header (Some st) None h else h"
  have "restamped [] h (?g h)" if "h \<in> set (pt_headers db)" for h
    using that ok st update_pay_header_Inr [OF upd]
    by (auto simp: restamped_def pay_ok_def patch_header_def stamped_def row_simps)
  then show "pay_ok db' \<and> pay_grows db db'"
    using update_pay_header_Inr [OF upd]
    by (intro headers_rewritten [OF ok, of "[]" ?g]) (simp_all add: update_where_def)
qed

lemma header_stamped:
  assumes upd: "update_pay_header orderId st (Some t) db = Inr db'" and st: "st \<in> {None, Some P_AUTHORIZED}"
    and h: "find_pay_header orderId db = Some h" "ph_authorizedAt h = None"
      "st = Some P_AUTHORIZED \<longrightarrow> ph_status h = P_OPEN"
    and e: "ae_orderId e = orderId" "ph_amountMinor h = Some (ae_amountMinor e)"
  shows "pay_evolves db (outbox_append e db')"
  unfolding pay_evolves_def
proof
  assume ok: "pay_ok db"
  let ?g = "\<lambda>h. if ph_orderId h = orderId then patch_header st (Some t) h else h"
  have in_db: "h \<in> set (pt_headers db)" "ph_orderId h = orderId"
    using h(1) by (auto simp: find_pay_header_def dest: find_where_Some)
  have "x = h" if "x \<in> set (pt_headers db)" "ph_orderId x = orderId" for x
    using that in_db ok unfolding pay_ok_def by (metis unique_key_row)
  then have "restamped [e] x (?g x)" if "x \<in> set (pt_headers db)" for x
    using that ok st update_pay_header_Inr [OF upd] h(2,3) e
    by (auto simp: restamped_def pay_ok_def patch_header_def stamped_def row_simps split: option.splits)
  then show "pay_ok (outbox_append e db') \<and> pay_grows db (outbox_append e db')"
    using update_pay_header_Inr [OF upd] in_db e
    by (intro headers_rewritten [OF ok, of "[e]" ?g]) (auto simp: update_where_def outbox_append_def)
qed

text \<open>A payment is inserted only under an OPEN header, with no other live attempt.\<close>

lemma payment_inserted:
  assumes ins: "payment_insert p i db = Inr (row, db')" and st: "pay_status p = PS_PENDING"
    and h: "find_pay_header (pay_orderId p) db = Some h" "ph_status h = P_OPEN"
    and fresh: "pay_providerSessionId p \<notin> pay_providerSessionId ` set (pt_payments db)"
  shows "pay_evolves db db'"
  unfolding pay_evolves_def
proof
  assume ok: "pay_ok db"
  have row: "row = p\<lparr>pay_id := Some i, pay_updatedAt := pt_clock db\<rparr>"
      and db': "db' = db\<lparr>pt_payments := pt_payments db @ [row]\<rparr>"
      and new: "Some i \<notin> pay_id ` set (pt_payments db)"
      and alone: "\<forall>q \<in> set (pt_payments db). \<not> active_of (pay_orderId p) q"
    using ins st by (auto simp: payment_insert_def Let_def list_ex_iff retired_def split: if_splits)
  have in_db: "h \<in> set (pt_headers db)" "ph_orderId h = pay_orderId p"
    using h(1) by (auto simp: find_pay_header_def dest: find_where_Some)
  have "pay_grows db db'"
  proof (rule pay_growsI)
    fix x assume x: "x \<in> set (pt_headers db)"
    have "ph_status x \<noteq> P_OPEN \<longrightarrow> ph_orderId x \<noteq> pay_orderId p"
      using x in_db h(2) ok unfolding pay_ok_def by (metis unique_key_row)
    then have "header_moved db db' x x" by (auto simp: header_moved_def db' row attempts_def)
    then show "\<exists>h' \<in> set (pt_headers db'). header_moved db db' x h'" using x by (auto simp: db')
  qed (auto simp: db' intro: payment_moved_refl)
  moreover have "pay_ok db'"
    unfolding pay_ok_def
  proof (intro conjI)
    show "distinct (map pay_id (pt_payments db'))" "distinct (map pay_providerSessionId (pt_payments db'))"
      using ok new fresh by (simp_all add: pay_ok_def db' row)
    show "\<forall>x \<in> set (pt_payments db'). \<forall>y \<in> set (pt_payments db').
        active_of (pay_orderId x) x \<longrightarrow> active_of (pay_orderId x) y \<longrightarrow> x = y"
      using ok alone by (auto simp: pay_ok_def db' row active_of_def)
    show "\<forall>x \<in> set (pt_payments db'). pay_id x \<noteq> None \<and>
        (\<exists>h \<in> set (pt_headers db'). ph_orderId h = pay_orderId x \<and> ph_status h \<noteq> P_FENCED)"
      using ok in_db h(2) by (auto simp: pay_ok_def db' row intro!: bexI [of _ h])
  qed (use ok in \<open>simp_all add: pay_ok_def db' authorizations_def\<close>)
  ultimately show "pay_ok db' \<and> pay_grows db db'" by blast
qed

end
