(* ===== verification/Payment_Participant.thy ===== *)
theory Payment_Participant
  imports Payment_Store
begin

text \<open>
  The payment participant of the checkout
  (\<^verbatim>\<open>apps/payment-service/src/modules/payment/application\<close>): open, capture and cancel over a gateway
  that is called with no transaction open, the recording of authorizations, the participant's webhook
  and the reconciliation. A use case is a sequence of transactions and gateway calls; what other
  transactions commit in between is \<open>pv_gap\<close>, what the gateway answers is \<open>pv_gw\<close>, both arbitrary.
\<close>


section \<open>Surroundings of a call\<close>

record pay_gateway =
  pg_provider :: string
  pg_createSession :: "string \<Rightarrow> int \<Rightarrow> string \<Rightarrow> int \<Rightarrow> gateway_session pay_result"
  pg_retrieveAuthorization :: "string \<Rightarrow> session_authorization pay_result"
  pg_expireSession :: "string \<Rightarrow> expire_session_outcome pay_result"
  pg_captureIntent :: "string \<Rightarrow> string \<Rightarrow> capture_intent_result pay_result"
  pg_voidIntent :: "string \<Rightarrow> string \<Rightarrow> void_intent_outcome pay_result"

record pay_env =
  pv_gw :: pay_gateway
  pv_mintId :: "string option"
  pv_mintOutbox :: "string option"
  pv_now :: int
  pv_gap :: "nat \<Rightarrow> pay_db \<Rightarrow> pay_db"

type_synonym 'a pay_act = "(pay_db, pay_error, 'a) act"

definition pause :: "pay_env \<Rightarrow> nat \<Rightarrow> unit pay_act" where
  "pause env k = act_modify (pv_gap env k)"

definition mintOne :: "string option \<Rightarrow> string pay_act" where
  "mintOne m = (case m of None \<Rightarrow> act_throw PayIdMintError | Some i \<Rightarrow> act_return i)"


section \<open>Idempotency keys\<close>

definition intent_key :: "string \<Rightarrow> payment \<Rightarrow> string" where
  "intent_key op p = op @ '':'' @ the (pay_id p) @ '':'' @ dec_of_nat (pay_stripeKeyGen p)"

definition withIntentKey :: "payment \<Rightarrow> string \<Rightarrow> (string \<Rightarrow> 'a pay_result) \<Rightarrow> 'a pay_act" where
  "withIntentKey p op call =
     (case call (intent_key op p) of
        Inl e \<Rightarrow>
          if e = PayGatewayError True
          then act_bind (act_modify (incrementKeyGen (pay_id p) (pay_stripeKeyGen p))) (\<lambda>_. act_throw e)
          else act_throw e
      | Inr a \<Rightarrow> act_return a)"


section \<open>Recording an authorization\<close>

datatype authorization_outcome =
    Ao_recorded | Ao_recorded_late | Ao_already_recorded | Ao_amount_mismatch | Ao_stray_voided

record prepared_authorization =
  pr_paymentId :: "string option"
  pr_orderId :: string
  pr_providerSessionId :: string
  pr_hold :: held_charge
  pr_authorizedAt :: int
  pr_strayVoided :: bool
  pr_outboxId :: "string option"

definition voidStray :: "pay_env \<Rightarrow> payment \<Rightarrow> string \<Rightarrow> void_intent_outcome pay_act" where
  "voidStray env p intentId = withIntentKey p ''void'' (pg_voidIntent (pv_gw env) intentId)"

text \<open>Two unlocked reads, the header first; another transaction may commit between them.\<close>

definition auth_prepare :: "pay_env \<Rightarrow> payment \<Rightarrow> held_charge \<Rightarrow> int \<Rightarrow> prepared_authorization pay_act" where
  "auth_prepare env read hold at =
     act_bind (act_get (find_pay_header (pay_orderId read))) (\<lambda>header.
     act_bind (pause env 0) (\<lambda>_.
     act_bind (act_get (findByProviderSessionId (pay_providerSessionId read))) (\<lambda>found.
       case (header, found) of
         (Some h, Some p) \<Rightarrow>
           if pay_id p \<noteq> pay_id read then act_throw (PayError ''payment or its payment_orders header is missing'')
           else
             let prepared = \<lparr>pr_paymentId = pay_id p, pr_orderId = pay_orderId p,
                   pr_providerSessionId = pay_providerSessionId p, pr_hold = hold, pr_authorizedAt = at,
                   pr_strayVoided = False, pr_outboxId = None\<rparr>
             in (case decideAuthorization p h hold of
                   STRAY \<Rightarrow>
                     act_bind (voidStray env p (hc_intentId hold)) (\<lambda>_.
                       act_return (prepared\<lparr>pr_strayVoided := True\<rparr>))
                 | RECORD \<Rightarrow> act_bind (mintOne (pv_mintOutbox env)) (\<lambda>i. act_return (prepared\<lparr>pr_outboxId := Some i\<rparr>))
                 | RECORD_LATE \<Rightarrow> act_bind (mintOne (pv_mintOutbox env)) (\<lambda>i. act_return (prepared\<lparr>pr_outboxId := Some i\<rparr>))
                 | _ \<Rightarrow> act_return prepared)
       | _ \<Rightarrow> act_throw (PayError ''payment or its payment_orders header is missing''))))"

definition auth_apply :: "prepared_authorization \<Rightarrow> authorization_outcome pay_act" where
  "auth_apply pr =
     act_bind (act_get (find_pay_header (pr_orderId pr))) (\<lambda>header.
     act_bind (act_get (findByProviderSessionId (pr_providerSessionId pr))) (\<lambda>found.
       case (header, found) of
         (Some h, Some p) \<Rightarrow>
           if pay_id p \<noteq> pr_paymentId pr then act_throw (PayError ''payment or its header vanished under the lock'')
           else (case decideAuthorization p h (pr_hold pr) of
             ALREADY_RECORDED \<Rightarrow> act_return Ao_already_recorded
           | AMOUNT_MISMATCH \<Rightarrow> act_return Ao_amount_mismatch
           | STRAY \<Rightarrow>
               if \<not> pr_strayVoided pr then act_throw WebhookRetryLaterError else act_return Ao_stray_voided
           | decision \<Rightarrow>
               (case pr_outboxId pr of
                  None \<Rightarrow> act_throw WebhookRetryLaterError
                | Some outboxId \<Rightarrow>
                    act_bind (act_lift (markAuthorized (hc_intentId (pr_hold pr)) p)) (\<lambda>authorized.
                    act_bind (act_state (updateStatus (pr_paymentId pr) (pay_status authorized)
                      (pay_providerIntentId authorized) (Some PS_PENDING))) (\<lambda>_.
                    act_bind (act_try (update_pay_header (pr_orderId pr)
                      (if decision = RECORD then Some P_AUTHORIZED else None) (Some (pr_authorizedAt pr)))) (\<lambda>_.
                    act_bind (act_modify (outbox_append
                      ((toAuthorizedOutboxRecord outboxId p (pr_authorizedAt pr))\<lparr>ae_orderId := pr_orderId pr\<rparr>))) (\<lambda>_.
                      act_return (if decision = RECORD then Ao_recorded else Ao_recorded_late)))))))
       | _ \<Rightarrow> act_throw (PayError ''payment or its header vanished under the lock'')))"

definition auth_record :: "pay_env \<Rightarrow> payment \<Rightarrow> held_charge \<Rightarrow> int \<Rightarrow> authorization_outcome pay_act" where
  "auth_record env read hold at =
     act_bind (auth_prepare env read hold at) (\<lambda>pr.
     act_bind (pause env 1) (\<lambda>_. in_tx (auth_apply pr)))"


section \<open>Capture\<close>

definition capture_settle :: "payment \<Rightarrow> capture_intent_result \<Rightarrow> capture_outcome pay_act" where
  "capture_settle read result =
     act_bind (act_get (find_pay_header (pay_orderId read))) (\<lambda>header.
     act_bind (act_get (findByProviderSessionId (pay_providerSessionId read))) (\<lambda>found.
       case (header, found) of
         (Some h, Some p) \<Rightarrow>
           (case result of
              Cir_not_capturable st \<Rightarrow>
                act_bind
                  (if pay_status p = PS_AUTHORIZED
                   then act_bind (act_lift (markFailed p)) (\<lambda>failed.
                        act_bind (act_state (updateStatus (pay_id read) (pay_status failed) None None)) (\<lambda>_. act_return ()))
                   else act_return ()) (\<lambda>_.
                act_bind (act_try (update_pay_header (pay_orderId read) (Some P_CANCELLED) None)) (\<lambda>_.
                  act_return Cap_NOT_CAPTURABLE))
            | Cir_captured \<Rightarrow>
                if pay_status p = PS_SUCCEEDED then act_return Cap_IDEMPOTENT
                else if pay_status p \<noteq> PS_AUTHORIZED
                then act_throw (PayError ''Stripe captured a payment that is not AUTHORIZED'')
                else
                  act_bind (act_lift (markCaptured p)) (\<lambda>captured.
                  act_bind (act_state (updateStatus (pay_id read) (pay_status captured) None None)) (\<lambda>_.
                  act_bind (act_try (update_pay_header (pay_orderId read) (Some P_CAPTURED) None)) (\<lambda>_.
                    act_return Cap_CAPTURED))))
       | _ \<Rightarrow> act_throw (PayError ''payment or its header vanished under the lock'')))"

definition capture_execute :: "pay_env \<Rightarrow> string \<Rightarrow> capture_outcome pay_act" where
  "capture_execute env orderId =
     act_bind (act_get (find_pay_header orderId)) (\<lambda>header.
       case decide_capture (map_option ph_status header) of
         Do_idempotent \<Rightarrow> act_return Cap_IDEMPOTENT
       | Do_not_capturable \<Rightarrow> act_return Cap_NOT_CAPTURABLE
       | Do_conflict \<Rightarrow> act_return Cap_CONFLICT
       | Do_capture \<Rightarrow>
           act_bind (pause env 0) (\<lambda>_.
           act_bind (act_get (findByOrderId orderId)) (\<lambda>found.
             case found of
               Some p \<Rightarrow>
                 (case pay_providerIntentId p of
                    Some (c # cs) \<Rightarrow>
                      if pay_status p \<noteq> PS_AUTHORIZED
                      then act_throw (PayError ''order reads AUTHORIZED but has no authorized payment'')
                      else
                        act_bind (withIntentKey p ''capture'' (pg_captureIntent (pv_gw env) (c # cs))) (\<lambda>result.
                        act_bind (pause env 1) (\<lambda>_. in_tx (capture_settle p result)))
                  | _ \<Rightarrow> act_throw (PayError ''order reads AUTHORIZED but has no authorized payment''))
             | None \<Rightarrow> act_throw (PayError ''order reads AUTHORIZED but has no authorized payment''))))"


section \<open>Cancel\<close>

datatype released = Rel_EXPIRED | Rel_VOIDED "string option" | Rel_CAPTURED

text \<open>\<open>missed\<close>: the first locked read ran before a racing open committed its header.\<close>

definition cancel_flip :: "bool \<Rightarrow> string \<Rightarrow> (cancel_outcome \<times> payment option) pay_act" where
  "cancel_flip missed orderId =
     act_bind (act_get (\<lambda>db. if missed then None else find_pay_header orderId db)) (\<lambda>header0.
     act_bind (if header0 = None then act_state (insertFenced orderId) else act_return False) (\<lambda>fenced.
     act_bind (act_get (find_pay_header orderId)) (\<lambda>header.
       case header of
         None \<Rightarrow> act_throw (PayError ''payment_orders header lost an insert race yet cannot be read'')
       | Some h \<Rightarrow>
           let finish = (\<lambda>outcome. act_bind (act_get (findActiveByOrderIdForUpdate orderId)) (\<lambda>active.
                 act_return (outcome,
                   case active of
                     Some p \<Rightarrow> if pay_status p \<in> {PS_PENDING, PS_AUTHORIZED} then Some p else None
                   | None \<Rightarrow> None)))
           in (case decide_cancel (Some (ph_status h)) of
                 Do_captured_conflict \<Rightarrow> act_return (Can_CAPTURED_CONFLICT, None)
               | Do_cancel \<Rightarrow>
                   act_bind (act_try (update_pay_header orderId (Some P_CANCELLED) None)) (\<lambda>_. finish Can_CANCELLED)
               | _ \<Rightarrow> finish (if fenced then Can_FENCED else Can_IDEMPOTENT)))))"

definition voidHold :: "pay_env \<Rightarrow> payment \<Rightarrow> string \<Rightarrow> released pay_act" where
  "voidHold env p intentId =
     act_bind (withIntentKey p ''void'' (pg_voidIntent (pv_gw env) intentId)) (\<lambda>outcome.
       act_return (if outcome = Vio_already_captured then Rel_CAPTURED else Rel_VOIDED (Some intentId)))"

definition cancel_release :: "pay_env \<Rightarrow> payment \<Rightarrow> released pay_act" where
  "cancel_release env p =
     (if pay_status p = PS_AUTHORIZED then voidHold env p (the (pay_providerIntentId p))
      else
        act_bind (act_lift (pg_expireSession (pv_gw env) (pay_providerSessionId p))) (\<lambda>expired.
          if expired \<noteq> Eso_already_completed then act_return Rel_EXPIRED
          else
            act_bind (act_lift (pg_retrieveAuthorization (pv_gw env) (pay_providerSessionId p))) (\<lambda>a.
              case sa_intentStatus a of
                Some Int_requires_capture \<Rightarrow> voidHold env p (the (sa_intentId a))
              | Some Int_canceled \<Rightarrow> act_return (Rel_VOIDED (sa_intentId a))
              | Some Int_succeeded \<Rightarrow> act_return Rel_CAPTURED
              | _ \<Rightarrow> act_throw (PayError ''session completed but its intent reads nothing usable''))))"

definition cancel_record :: "payment \<Rightarrow> released \<Rightarrow> bool pay_act" where
  "cancel_record attempt rel =
     act_bind (act_get (findByProviderSessionId (pay_providerSessionId attempt))) (\<lambda>found.
       case found of
         None \<Rightarrow> act_throw (PayError ''payment vanished under the lock'')
       | Some p \<Rightarrow>
           (case rel of
              Rel_EXPIRED \<Rightarrow>
                act_bind (act_state (updateStatus (pay_id p) PS_EXPIRED None (Some PS_PENDING))) (\<lambda>_. act_return False)
            | Rel_VOIDED intentId \<Rightarrow>
                if pay_status p \<in> {PS_PENDING, PS_AUTHORIZED}
                then act_bind (act_state (updateStatus (pay_id p) PS_VOIDED intentId (Some (pay_status p))))
                       (\<lambda>_. act_return False)
                else act_return False
            | Rel_CAPTURED \<Rightarrow>
                act_bind
                  (if pay_status p \<in> {PS_PENDING, PS_AUTHORIZED}
                   then act_bind (act_state (updateStatus (pay_id p) PS_SUCCEEDED None (Some (pay_status p))))
                          (\<lambda>_. act_return ())
                   else act_return ()) (\<lambda>_.
                act_bind (act_try (update_pay_header (pay_orderId attempt) (Some P_CAPTURED) None)) (\<lambda>_.
                  act_return True))))"

definition cancel_execute :: "pay_env \<Rightarrow> bool \<Rightarrow> string \<Rightarrow> cancel_outcome pay_act" where
  "cancel_execute env missed orderId =
     act_bind (in_tx (cancel_flip missed orderId)) (\<lambda>(outcome, attempt).
       case attempt of
         None \<Rightarrow> act_return outcome
       | Some p \<Rightarrow>
           act_bind (pause env 0) (\<lambda>_.
           act_bind (cancel_release env p) (\<lambda>rel.
           act_bind (pause env 1) (\<lambda>_.
           act_bind (in_tx (cancel_record p rel)) (\<lambda>conflict.
             act_return (if conflict then Can_CAPTURED_CONFLICT else outcome))))))"


section \<open>Open\<close>

record open_session_input =
  osi_orderId :: string
  osi_amountMinor :: int
  osi_currency :: string
  osi_expiresAt :: int

text \<open>Outer \<open>None\<close>: closed. Otherwise the order's active attempt, if any.\<close>

definition open_claim :: "open_session_input \<Rightarrow> payment option option pay_act" where
  "open_claim inp =
     (let orderId = osi_orderId inp; cur = js_upper (osi_currency inp) in
      act_bind (act_state (insertOpen orderId (osi_amountMinor inp) cur)) (\<lambda>_.
      act_bind (act_get (find_pay_header orderId)) (\<lambda>header.
        case header of
          None \<Rightarrow> act_return None
        | Some h \<Rightarrow>
            if decide_open_session (Some (ph_status h)) = Do_closed then act_return None
            else if ph_amountMinor h \<noteq> Some (osi_amountMinor inp) \<or>
                    map_option js_upper (ph_currency h) \<noteq> Some cur
            then act_return None
            else act_bind (act_get (findActiveByOrderIdForUpdate orderId)) (\<lambda>active. act_return (Some active)))))"

datatype open_probe = Probe_result session_answer | Probe_retiring "payment option"

definition open_probe_step :: "pay_env \<Rightarrow> payment option \<Rightarrow> open_probe pay_act" where
  "open_probe_step env active =
     (case active of
        None \<Rightarrow> act_return (Probe_retiring None)
      | Some p \<Rightarrow>
          if pay_status p \<noteq> PS_PENDING then act_return (Probe_result Closed)
          else
            act_bind (act_lift (pg_retrieveAuthorization (pv_gw env) (pay_providerSessionId p))) (\<lambda>a.
              case sa_sessionStatus a of
                Session_open \<Rightarrow> act_return (Probe_result (Opened
                  \<lparr>os_paymentId = the (pay_id p), os_providerSessionId = pay_providerSessionId p,
                   os_redirectUrl = sa_redirectUrl a, os_clientSecret = None\<rparr>))
              | Session_expired \<Rightarrow> act_return (Probe_retiring (Some p))
              | Session_complete \<Rightarrow>
                  (case heldCharge a of
                     None \<Rightarrow> act_return (Probe_result Closed)
                   | Some hold \<Rightarrow> act_bind (auth_record env p hold (pv_now env)) (\<lambda>_. act_return (Probe_result Closed)))
              | Session_unknown \<Rightarrow> act_return (Probe_result Closed)))"

definition open_insert ::
    "pay_env \<Rightarrow> open_session_input \<Rightarrow> gateway_session \<Rightarrow> string \<Rightarrow> payment option \<Rightarrow> payment option pay_act" where
  "open_insert env inp session paymentId retiring =
     (let orderId = osi_orderId inp;
          store = act_bind (act_lift (payment_create orderId (pg_provider (pv_gw env))
                    (gs_providerSessionId session) (osi_amountMinor inp) (js_upper (osi_currency inp)))) (\<lambda>p.
                  act_bind (\<lambda>db. case payment_insert p paymentId db of
                      Inl e \<Rightarrow> (Inl e, db) | Inr (row, db') \<Rightarrow> (Inr row, db')) (\<lambda>row. act_return (Some row)))
      in
      act_bind (act_get (find_pay_header orderId)) (\<lambda>header.
        if map_option ph_status header \<noteq> Some P_OPEN then act_return None
        else
          act_bind (act_get (findActiveByOrderIdForUpdate orderId)) (\<lambda>active.
            case active of
              None \<Rightarrow> store
            | Some a \<Rightarrow>
                if retiring = None \<or> pay_id a \<noteq> pay_id (the retiring) then act_return None
                else
                  act_bind (act_state (updateStatus (pay_id a) PS_EXPIRED None (Some PS_PENDING))) (\<lambda>gone.
                    if gone = None then act_return None else store))))"

text \<open>The active-payment index refusing the insert reads as closed; any other throw goes on.\<close>

definition insertIfStillOpen ::
    "pay_env \<Rightarrow> open_session_input \<Rightarrow> gateway_session \<Rightarrow> string \<Rightarrow> payment option \<Rightarrow> payment option pay_act" where
  "insertIfStillOpen env inp session paymentId retiring db =
     (case in_tx (open_insert env inp session paymentId retiring) db of
        (Inl (DuplicateActivePaymentError i), db') \<Rightarrow> (Inr None, db')
      | r \<Rightarrow> r)"

text \<open>
  Up to the moment the new session exists: either an answer, or the session with the id minted for
  its payment and the attempt it retires.
\<close>

definition open_before ::
    "pay_env \<Rightarrow> int \<Rightarrow> open_session_input \<Rightarrow>
     (session_answer + (gateway_session \<times> string \<times> payment option)) pay_act" where
  "open_before env minLeadMs inp =
     (if osi_expiresAt inp < pv_now env + minLeadMs then act_return (Inl Closed)
      else
        act_bind (in_tx (open_claim inp)) (\<lambda>current.
          case current of
            None \<Rightarrow> act_return (Inl Closed)
          | Some active \<Rightarrow>
              act_bind (pause env 2) (\<lambda>_.
              act_bind (open_probe_step env active) (\<lambda>pr.
                case pr of
                  Probe_result r \<Rightarrow> act_return (Inl r)
                | Probe_retiring retiring \<Rightarrow>
                    act_bind (mintOne (pv_mintId env)) (\<lambda>paymentId.
                    act_bind (act_lift (pg_createSession (pv_gw env) (osi_orderId inp) (osi_amountMinor inp)
                      (js_upper (osi_currency inp)) (osi_expiresAt inp))) (\<lambda>session.
                    act_bind (pause env 3) (\<lambda>_.
                      act_return (Inr (session, paymentId, retiring)))))))))"

definition open_execute :: "pay_env \<Rightarrow> int \<Rightarrow> open_session_input \<Rightarrow> session_answer pay_act" where
  "open_execute env minLeadMs inp =
     act_bind (open_before env minLeadMs inp) (\<lambda>so_far.
       case so_far of
         Inl answer \<Rightarrow> act_return answer
       | Inr (session, paymentId, retiring) \<Rightarrow>
           act_bind (insertIfStillOpen env inp session paymentId retiring) (\<lambda>created.
             case created of
               None \<Rightarrow> act_return Closed
             | Some p \<Rightarrow> act_return (Opened
                 \<lparr>os_paymentId = paymentId, os_providerSessionId = gs_providerSessionId session,
                  os_redirectUrl = gs_redirectUrl session, os_clientSecret = gs_clientSecret session\<rparr>)))"


section \<open>The participant's webhook\<close>

record valid_event =
  ve_providerEventId :: string
  ve_type :: string
  ve_payload :: json

datatype applied_outcome = App_duplicate | App_skipped string | App_processed

text \<open>Logs the event and applies it in one transaction; a duplicate delivery applies nothing.\<close>

definition logged_body :: "string \<Rightarrow> valid_event \<Rightarrow> string \<Rightarrow> applied_outcome pay_act \<Rightarrow> applied_outcome pay_act" where
  "logged_body provider ev eventId apply =
     act_bind (\<lambda>db. case insertIfNew eventId provider (ve_providerEventId ev) (ve_type ev) (ve_payload ev) db of
         Inl e \<Rightarrow> (Inl e, db) | Inr (fresh, db') \<Rightarrow> (Inr fresh, db')) (\<lambda>fresh.
       if \<not> fresh then act_return App_duplicate
       else act_bind apply (\<lambda>applied.
         if applied = App_processed
         then act_bind (act_modify (markProcessed eventId)) (\<lambda>_. act_return applied)
         else act_bind (act_modify (markSkipped eventId)) (\<lambda>_. act_return applied)))"

fun applied_of :: "authorization_outcome \<Rightarrow> applied_outcome" where
  "applied_of Ao_recorded = App_processed"
| "applied_of Ao_recorded_late = App_processed"
| "applied_of Ao_already_recorded = App_skipped ''already_recorded''"
| "applied_of Ao_amount_mismatch = App_skipped ''amount_mismatch''"
| "applied_of Ao_stray_voided = App_skipped ''stray_voided''"

definition webhook_completed :: "pay_env \<Rightarrow> valid_event \<Rightarrow> payment \<Rightarrow> applied_outcome pay_act" where
  "webhook_completed env ev p =
     act_bind (act_lift (pg_retrieveAuthorization (pv_gw env) (pay_providerSessionId p))) (\<lambda>a.
       case heldCharge a of
         None \<Rightarrow>
           act_bind (mintOne (pv_mintId env)) (\<lambda>eventId.
           act_bind (pause env 1) (\<lambda>_.
             in_tx (logged_body (pg_provider (pv_gw env)) ev eventId (act_return (App_skipped ''awaiting_payment'')))))
       | Some hold \<Rightarrow>
           act_bind (auth_prepare env p hold (pv_now env)) (\<lambda>pr.
           act_bind (mintOne (pv_mintId env)) (\<lambda>eventId.
           act_bind (pause env 1) (\<lambda>_.
             in_tx (logged_body (pg_provider (pv_gw env)) ev eventId
               (act_bind (auth_apply pr) (\<lambda>o1. act_return (applied_of o1))))))))"

definition expire_attempt :: "string option \<Rightarrow> applied_outcome pay_act" where
  "expire_attempt i =
     act_bind (act_state (updateStatus i PS_EXPIRED None (Some PS_PENDING))) (\<lambda>gone.
       act_return (if gone = None then App_skipped ''already_settled'' else App_processed))"

definition webhook_expired :: "pay_env \<Rightarrow> valid_event \<Rightarrow> payment \<Rightarrow> applied_outcome pay_act" where
  "webhook_expired env ev p =
     act_bind (mintOne (pv_mintId env)) (\<lambda>eventId.
     act_bind (pause env 1) (\<lambda>_.
       in_tx (logged_body (pg_provider (pv_gw env)) ev eventId (expire_attempt (pay_id p)))))"

definition tcc_webhook_execute :: "pay_env \<Rightarrow> valid_event \<Rightarrow> applied_outcome option pay_act" where
  "tcc_webhook_execute env ev =
     (if ve_type ev \<noteq> ''checkout.session.completed'' \<and> ve_type ev \<noteq> ''checkout.session.expired''
      then act_return None
      else
        act_bind (act_get (\<lambda>db. case csf_sessionId (readCheckoutSession (ve_payload ev)) of
            Some (c # cs) \<Rightarrow> findByProviderSessionId (c # cs) db | _ \<Rightarrow> None)) (\<lambda>found.
          case found of
            None \<Rightarrow> act_return None
          | Some p \<Rightarrow>
              act_bind (act_get (find_pay_header (pay_orderId p))) (\<lambda>header.
                if header = None then act_return None
                else act_bind
                  (if ve_type ev = ''checkout.session.completed'' then webhook_completed env ev p
                   else webhook_expired env ev p) (\<lambda>a. act_return (Some a)))))"

datatype verified_event = Valid_event valid_event | Invalid_signature | Expired_timestamp

datatype webhook_result =
    Wr_rejected
  | Wr_duplicate
  | Wr_ignored
  | Wr_no_payment_header "string option" bool
  | Wr_tcc applied_outcome

definition webhook_execute :: "pay_env \<Rightarrow> verified_event \<Rightarrow> webhook_result pay_act" where
  "webhook_execute env verified =
     (case verified of
        Invalid_signature \<Rightarrow> act_return Wr_rejected
      | Expired_timestamp \<Rightarrow> act_return Wr_rejected
      | Valid_event ev \<Rightarrow>
          act_bind (tcc_webhook_execute env ev) (\<lambda>tcc.
            case tcc of
              Some a \<Rightarrow> act_return (Wr_tcc a)
            | None \<Rightarrow>
                act_bind (pause env 2) (\<lambda>_. in_tx (
                  act_bind (mintOne (pv_mintOutbox env)) (\<lambda>i.
                  act_bind (\<lambda>db. case insertIfNew i (pg_provider (pv_gw env)) (ve_providerEventId ev) (ve_type ev)
                      (ve_payload ev) db of Inl e \<Rightarrow> (Inl e, db) | Inr (fresh, db') \<Rightarrow> (Inr fresh, db')) (\<lambda>fresh.
                    if \<not> fresh then act_return Wr_duplicate
                    else
                      let facts = readCheckoutSession (ve_payload ev);
                          outcome = mapEventToOutcome (ve_type ev) (csf_paymentStatus facts)
                      in if outcome = Ev_ignore then act_return Wr_ignored
                         else act_bind (act_modify (markSkipped i)) (\<lambda>_.
                           act_return (Wr_no_payment_header (csf_sessionId facts)
                             (csf_paymentStatus facts = Some ''paid'' \<and> outcome = Ev_settle PS_SUCCEEDED)))))))))"


section \<open>Reconciliation\<close>

datatype reconcile_outcome = Rc_recorded | Rc_expired | Rc_voided | Rc_deferred

definition reconcile_one :: "pay_env \<Rightarrow> payment \<Rightarrow> reconcile_outcome pay_act" where
  "reconcile_one env p =
     (if pay_status p = PS_AUTHORIZED
      then act_bind (cancel_execute env False (pay_orderId p)) (\<lambda>_. act_return Rc_voided)
      else
        act_bind (act_lift (pg_retrieveAuthorization (pv_gw env) (pay_providerSessionId p))) (\<lambda>a.
          case heldCharge a of
            Some hold \<Rightarrow>
              act_bind (auth_record env p hold (pv_now env)) (\<lambda>o1.
                if o1 = Ao_recorded \<or> o1 = Ao_recorded_late then act_return Rc_recorded
                else act_bind (act_modify (bumpUpdatedAt (pay_id p) PS_PENDING)) (\<lambda>_. act_return Rc_deferred))
          | None \<Rightarrow>
              if sa_sessionStatus a = Session_expired
              then act_bind (act_state (updateStatus (pay_id p) PS_EXPIRED None (Some PS_PENDING))) (\<lambda>_.
                act_return Rc_expired)
              else if sa_sessionStatus a = Session_complete \<and> sa_intentStatus a = Some Int_canceled
              then act_bind (act_state (updateStatus (pay_id p) PS_VOIDED (sa_intentId a) (Some PS_PENDING))) (\<lambda>_.
                act_return Rc_voided)
              else act_bind (act_modify (bumpUpdatedAt (pay_id p) PS_PENDING)) (\<lambda>_. act_return Rc_deferred)))"

record reconcile_summary =
  rc_scanned :: nat
  rc_recorded :: nat
  rc_expired :: nat
  rc_voided :: nat
  rc_deferred :: nat
  rc_errors :: nat

fun count_outcome :: "pay_error + reconcile_outcome \<Rightarrow> reconcile_summary \<Rightarrow> reconcile_summary" where
  "count_outcome (Inr Rc_recorded) sm = sm\<lparr>rc_recorded := rc_recorded sm + 1\<rparr>"
| "count_outcome (Inr Rc_expired) sm = sm\<lparr>rc_expired := rc_expired sm + 1\<rparr>"
| "count_outcome (Inr Rc_voided) sm = sm\<lparr>rc_voided := rc_voided sm + 1\<rparr>"
| "count_outcome (Inr Rc_deferred) sm = sm\<lparr>rc_deferred := rc_deferred sm + 1\<rparr>"
| "count_outcome (Inl _) sm = sm\<lparr>rc_errors := rc_errors sm + 1\<rparr>"

text \<open>A failing payment is sent to the back of the queue and never stops the batch.\<close>

fun reconcile_all ::
    "(nat \<Rightarrow> pay_env) \<Rightarrow> nat \<Rightarrow> payment list \<Rightarrow> reconcile_summary \<Rightarrow> pay_db \<Rightarrow> reconcile_summary \<times> pay_db" where
  "reconcile_all envs i [] sm db = (sm, db)"
| "reconcile_all envs i (p # ps) sm db =
     (let (r, db1) = reconcile_one (envs i) p db;
          db2 = (case r of Inl _ \<Rightarrow> bumpUpdatedAt (pay_id p) (pay_status p) db1 | Inr _ \<Rightarrow> db1)
      in reconcile_all envs (Suc i) ps (count_outcome r sm) db2)"

definition reconcile_execute ::
    "(nat \<Rightarrow> pay_env) \<Rightarrow> int \<Rightarrow> int \<Rightarrow> nat \<Rightarrow> pay_db \<Rightarrow> reconcile_summary \<times> pay_db" where
  "reconcile_execute envs now staleAfterSec batchSize db =
     (let stale = findStaleTcc (now - staleAfterSec * 1000) batchSize db in
      reconcile_all envs 0 stale
        \<lparr>rc_scanned = length stale, rc_recorded = 0, rc_expired = 0, rc_voided = 0, rc_deferred = 0, rc_errors = 0\<rparr> db)"

definition pay_statusOf :: "string list \<Rightarrow> pay_db \<Rightarrow> (string \<times> payment_status_entry) list" where
  "pay_statusOf orderIds db = (if orderIds = [] then [] else findParticipantStatuses orderIds db)"

definition valid_OpenSessionDto :: "open_session_input \<Rightarrow> bool" where
  "valid_OpenSessionDto inp \<longleftrightarrow>
     1 \<le> osi_amountMinor inp \<and> length (osi_currency inp) = 3 \<and>
     list_all (\<lambda>c. 65 \<le> (of_char (upper_char c) :: nat) \<and> (of_char (upper_char c) :: nat) \<le> 90) (osi_currency inp)"

end
