(* ===== verification/Payment_Protocol.thy ===== *)
theory Payment_Protocol
  imports Payment_Participant
begin

text \<open>
  What the payment participant guarantees however its calls interleave. \<open>pay_tx S\<close> is one committed
  transaction of the participant; every use case, with any other transactions committing in its
  pauses, is a sequence of them (\<open>pay_exec_runs\<close>), and each of them keeps \<open>pay_ok\<close> and only grows what
  \<open>pay_grows\<close> says. The properties follow from these two facts.
\<close>


section \<open>Transactions\<close>

definition known :: "pay_db \<Rightarrow> payment \<Rightarrow> bool" where
  "known db read \<longleftrightarrow> (\<exists>q \<in> set (pt_payments db). payment_moved read q)"

definition prepared :: "pay_db \<Rightarrow> prepared_authorization \<Rightarrow> bool" where
  "prepared db pr \<longleftrightarrow> (\<exists>q \<in> set (pt_payments db).
     pay_id q = pr_paymentId pr \<and> pay_orderId q = pr_orderId pr \<and>
     pay_providerSessionId q = pr_providerSessionId pr) \<and> hc_intentId (pr_hold pr) \<noteq> []"

text \<open>The order's header is in one of the statuses it never leaves for OPEN or AUTHORIZED.\<close>

definition shut :: "pay_db \<Rightarrow> string \<Rightarrow> bool" where
  "shut db orderId \<longleftrightarrow> (\<exists>h \<in> set (pt_headers db).
     ph_orderId h = orderId \<and> ph_status h \<notin> {P_OPEN, P_AUTHORIZED})"

definition handles :: "pay_db \<Rightarrow> string set" where
  "handles db = pay_providerSessionId ` set (pt_payments db)"

definition legacy_log :: "string \<Rightarrow> string \<Rightarrow> valid_event \<Rightarrow> pay_db \<Rightarrow> pay_db" where
  "legacy_log i provider ev db =
     (case insertIfNew i provider (ve_providerEventId ev) (ve_type ev) (ve_payload ev) db of
        Inl e \<Rightarrow> db | Inr (fresh, db') \<Rightarrow> db')"

text \<open>\<open>S\<close>: the orders that sessions may be opened for and money taken or let go of.\<close>

inductive pay_tx :: "string set \<Rightarrow> pay_db \<Rightarrow> pay_db \<Rightarrow> bool" for S where
  tx_claim: "osi_orderId inp \<in> S \<Longrightarrow> pay_tx S db (snd (in_tx (open_claim inp) db))"
| tx_insert: "gs_providerSessionId session \<notin> handles db \<Longrightarrow> osi_orderId inp \<in> S \<Longrightarrow>
     pay_tx S db (snd (insertIfStillOpen env inp session paymentId retiring db))"
| tx_apply: "prepared db pr \<Longrightarrow> pay_tx S db (snd (in_tx (auth_apply pr) db))"
| tx_settle: "known db p \<Longrightarrow> pay_orderId p \<in> S \<Longrightarrow> pay_tx S db (snd (in_tx (capture_settle p result) db))"
| tx_flip: "orderId \<in> S \<Longrightarrow> pay_tx S db (snd (in_tx (cancel_flip missed orderId) db))"
| tx_record: "known db p \<Longrightarrow> shut db (pay_orderId p) \<Longrightarrow> pay_orderId p \<in> S \<Longrightarrow> pay_tx S db (snd (in_tx (cancel_record p released) db))"
| tx_note: "pay_tx S db (snd (in_tx (logged_body provider ev eventId (act_return a)) db))"
| tx_log_apply: "prepared db pr \<Longrightarrow> pay_tx S db (snd (in_tx (logged_body provider ev eventId
     (act_bind (auth_apply pr) (\<lambda>o1. act_return (applied_of o1)))) db))"
| tx_log_expire: "pay_tx S db (snd (in_tx (logged_body provider ev eventId (expire_attempt i)) db))"
| tx_log_only: "pay_tx S db (legacy_log i provider ev db)"
| tx_log_skip: "pay_tx S db (markSkipped i (legacy_log i provider ev db))"
| tx_expire: "pay_tx S db (snd (updateStatus i PS_EXPIRED None (Some PS_PENDING) db))"
| tx_void: "pay_tx S db (snd (updateStatus i PS_VOIDED intent (Some PS_PENDING) db))"
| tx_bump: "pay_tx S db (bumpUpdatedAt i st db)"
| tx_keygen: "pay_tx S db (incrementKeyGen i n db)"
| tx_sweep: "pay_tx S db (snd (deleteReceivedBefore cutoff limit db))"
| tx_tick: "pay_tx S db (db\<lparr>pt_clock := t\<rparr>)"

lemma pay_evolves_tx:
  "(\<And>a db'. m db = (Inr a, db') \<Longrightarrow> pay_evolves db db') \<Longrightarrow> pay_evolves db (snd (in_tx m db))"
  by (auto simp: in_tx_def split: prod.splits sum.splits)

lemma one_row:
  assumes "pay_ok db" "p \<in> set (pt_payments db)" "q \<in> set (pt_payments db)" "pay_id p = pay_id q"
  shows "p = q"
  using assms unfolding pay_ok_def by (metis unique_key_row)

lemma by_session:
  "findByProviderSessionId s db = Some p \<Longrightarrow> p \<in> set (pt_payments db) \<and> pay_providerSessionId p = s"
  by (auto simp: findByProviderSessionId_def find_last_def dest: find_where_Some)

lemma find_pay_header_Some:
  "find_pay_header o1 db = Some h \<Longrightarrow> h \<in> set (pt_headers db) \<and> ph_orderId h = o1"
  by (auto simp: find_pay_header_def dest: find_where_Some)

lemma open_claim_evolves: "open_claim inp db = (Inr a, db') \<Longrightarrow> pay_evolves db db'"
  by (auto simp: open_claim_def Let_def act_bind_Inr split: option.splits if_splits)

lemma updateStatus_pending_evolves [simp]:
  "st \<noteq> PS_PENDING \<Longrightarrow> pay_evolves db (snd (updateStatus i st intent (Some PS_PENDING) db))"
  by (rule updateStatus_evolves) (auto simp: payment_can_cases)

lemma updateStatus_tables [simp]:
  "pt_headers (snd (updateStatus i st intent ex db)) = pt_headers db"
  "pt_outbox (snd (updateStatus i st intent ex db)) = pt_outbox db"
  "find_pay_header o1 (snd (updateStatus i st intent ex db)) = find_pay_header o1 db"
  by (simp_all add: updateStatus_def Let_def find_pay_header_def)

lemma updateStatus_handles [simp]: "handles (snd (updateStatus i st intent ex db)) = handles db"
proof -
  have "map pay_providerSessionId (pt_payments (snd (updateStatus i st intent ex db))) =
      map pay_providerSessionId (pt_payments db)"
    by (simp add: updateStatus_def Let_def withStatus_def map_update_where)
  then show ?thesis unfolding handles_def by (metis image_set)
qed

lemma payment_create_Inr:
  "payment_create o1 prov s a c = Inr p \<Longrightarrow>
     pay_orderId p = o1 \<and> pay_status p = PS_PENDING \<and> pay_providerSessionId p = s \<and> pay_amountMinor p = a"
  by (auto simp: payment_create_def result_simps money_of_def split: if_splits)

text \<open>A prepared payment's order has a header that is not FENCED.\<close>

lemma prepared_header:
  assumes ok: "pay_ok db" and pr: "prepared db pr"
    and h: "find_pay_header (pr_orderId pr) db = Some h"
    and p: "findByProviderSessionId (pr_providerSessionId pr) db = Some p"
  shows "ph_status h \<noteq> P_FENCED"
proof -
  obtain q where q: "q \<in> set (pt_payments db)" "pay_orderId q = pr_orderId pr"
    using pr by (auto simp: prepared_def)
  then obtain x where "x \<in> set (pt_headers db)" "ph_orderId x = pr_orderId pr" "ph_status x \<noteq> P_FENCED"
    using ok unfolding pay_ok_def by metis
  moreover have "x = h"
    using calculation(1,2) find_pay_header_Some [OF h] ok unfolding pay_ok_def by (metis unique_key_row)
  ultimately show ?thesis by simp
qed

text \<open>What an authorization's transaction writes, if anything: the payment, its header and one event.\<close>

lemma auth_apply_writes:
  assumes run: "auth_apply pr db = (Inr a, db')"
  obtains (reads) "db' = db"
  | (records) h p i db1 db2 where
      "find_pay_header (pr_orderId pr) db = Some h"
      "findByProviderSessionId (pr_providerSessionId pr) db = Some p" "pay_id p = pr_paymentId pr"
      "decideAuthorization p h (pr_hold pr) \<in> {RECORD, RECORD_LATE}"
      "db1 = snd (updateStatus (pr_paymentId pr) PS_AUTHORIZED (Some (hc_intentId (pr_hold pr))) (Some PS_PENDING) db)"
      "update_pay_header (pr_orderId pr)
         (if decideAuthorization p h (pr_hold pr) = RECORD then Some P_AUTHORIZED else None)
         (Some (pr_authorizedAt pr)) db1 = Inr db2"
      "db' = outbox_append ((toAuthorizedOutboxRecord i p (pr_authorizedAt pr))\<lparr>ae_orderId := pr_orderId pr\<rparr>) db2"
proof -
  obtain h p where h: "find_pay_header (pr_orderId pr) db = Some h"
      and p: "findByProviderSessionId (pr_providerSessionId pr) db = Some p" "pay_id p = pr_paymentId pr"
    using run by (auto simp: auth_apply_def act_bind_Inr split: option.splits if_splits)
  define d where "d = decideAuthorization p h (pr_hold pr)"
  show thesis
  proof (cases "d \<in> {RECORD, RECORD_LATE}")
    case False
    then have "db' = db" using run h p
      by (cases d) (auto simp: auth_apply_def act_bind_Inr d_def [symmetric] split: if_splits)
    then show thesis by (rule reads)
  next
    case True
    then have dec: "pay_status p = PS_PENDING" using decide_records d_def by metis
    obtain i db2 where
        "update_pay_header (pr_orderId pr) (if d = RECORD then Some P_AUTHORIZED else None) (Some (pr_authorizedAt pr))
          (snd (updateStatus (pr_paymentId pr) PS_AUTHORIZED (Some (hc_intentId (pr_hold pr))) (Some PS_PENDING) db)) = Inr db2"
        "db' = outbox_append ((toAuthorizedOutboxRecord i p (pr_authorizedAt pr))\<lparr>ae_orderId := pr_orderId pr\<rparr>) db2"
      using run h p True dec
      by (cases d) (auto simp: auth_apply_def act_bind_Inr d_def [symmetric] act_try_def markAuthorized_def
          result_simps withStatus_def split: option.splits sum.splits)
    then show thesis using h p True unfolding d_def by (intro records) auto
  qed
qed

lemma auth_apply_evolves:
  assumes pr: "prepared db pr" and run: "auth_apply pr db = (Inr a, db')"
  shows "pay_evolves db db'"
  unfolding pay_evolves_def
proof
  assume ok: "pay_ok db"
  from run show "pay_ok db' \<and> pay_grows db db'"
  proof (cases rule: auth_apply_writes)
    case reads
    then show ?thesis using ok by simp
  next
    case (records h p i db1 db2)
    note dec = decide_records [OF records(4)]
    have "ph_status h \<noteq> P_FENCED" using prepared_header [OF ok pr records(1,2)] .
    then have opn: "decideAuthorization p h (pr_hold pr) = RECORD \<Longrightarrow> ph_status h = P_OPEN"
      using decide_record_open by blast
    have "pay_evolves db db1" unfolding records(5) by simp
    also have "pay_evolves db1 db'"
      unfolding records(7)
      by (rule header_stamped [OF records(6)])
         (use records(1) dec opn in \<open>auto simp: records(5) toAuthorizedOutboxRecord_def\<close>)
    finally show ?thesis using ok by (simp add: pay_evolves_def)
  qed
qed

lemma known_row:
  assumes "pay_ok db" "known db read" "findByProviderSessionId (pay_providerSessionId read) db = Some p"
  shows "payment_moved read p"
proof -
  obtain q where q: "q \<in> set (pt_payments db)" "payment_moved read q" using assms(2) by (auto simp: known_def)
  have "p = q"
    using by_session [OF assms(3)] q assms(1) unfolding pay_ok_def payment_moved_def by (metis unique_key_row)
  with q show ?thesis by simp
qed

lemma updateStatus_row_evolves:
  assumes "p \<in> set (pt_payments db)" "payment_canTransition (pay_status p) st"
  shows "pay_ok db \<Longrightarrow> pay_evolves db (snd (updateStatus (pay_id p) st intent ex db))"
  using assms one_row by (intro updateStatus_evolves) blast

lemma capture_settle_evolves:
  assumes kn: "known db read" and run: "capture_settle read result db = (Inr a, db')"
  shows "pay_evolves db db'"
proof (cases "pay_ok db")
  case True
  obtain h p where h: "find_pay_header (pay_orderId read) db = Some h"
      and p: "findByProviderSessionId (pay_providerSessionId read) db = Some p"
    using run by (auto simp: capture_settle_def act_bind_Inr split: option.splits)
  have id: "pay_id read = pay_id p" "p \<in> set (pt_payments db)"
    using known_row [OF True kn p] by_session [OF p] by (simp_all add: payment_moved_def)
  have moved: "pay_evolves db (snd (updateStatus (pay_id read) st None None db))"
    if "pay_status p = PS_AUTHORIZED" "st \<in> {PS_FAILED, PS_SUCCEEDED}" for st
    using updateStatus_row_evolves [OF id(2) _ True] that id(1) by (auto simp: payment_can_cases)
  show ?thesis
    using run h p moved
    by (auto simp: capture_settle_def act_bind_Inr act_try_def markFailed_def result_simps withStatus_def
        split: capture_intent_result.splits if_splits sum.splits
        intro: pay_evolves_trans header_closed)
qed (simp add: pay_evolves_def)

lemma closed_after:
  "update_pay_header orderId (Some st) None db1 = Inr db' \<Longrightarrow> st \<in> {P_CANCELLED, P_CAPTURED} \<Longrightarrow>
     pay_evolves db db1 \<Longrightarrow> pay_evolves db db'"
  using header_closed pay_evolves_trans by blast

lemma step_Inr:
  "(case r of Inl e \<Rightarrow> (Inl e, db) | Inr (x, db') \<Rightarrow> (Inr x, db')) = (Inr a, d) \<longleftrightarrow> r = Inr (a, d)"
  by (auto split: sum.splits prod.splits)

lemma cancel_flip_evolves:
  assumes "cancel_flip missed orderId db = (Inr a, db')"
  shows "pay_evolves db db'"
proof -
  define db1 where "db1 = (if (if missed then None else find_pay_header orderId db) = None
      then snd (insertFenced orderId db) else db)"
  have "pay_evolves db db1" by (simp add: db1_def)
  moreover have "pay_evolves db1 db'"
    using assms
    by (auto simp: cancel_flip_def act_bind_Inr Let_def act_try_def db1_def
        split: option.splits if_splits cancel_decision.splits sum.splits prod.splits intro: header_closed)
  ultimately show ?thesis by (rule pay_evolves_trans)
qed

lemma cancel_record_evolves:
  assumes "cancel_record attempt rel db = (Inr a, db')"
  shows "pay_evolves db db'"
proof (cases "pay_ok db")
  case True
  obtain p where p: "findByProviderSessionId (pay_providerSessionId attempt) db = Some p"
    using assms by (auto simp: cancel_record_def act_bind_Inr split: option.splits)
  have "pay_evolves db (snd (updateStatus (pay_id p) st intent ex db))"
    if "payment_canTransition (pay_status p) st" for st intent ex
    using updateStatus_row_evolves [OF _ that True] by_session [OF p] by blast
  then show ?thesis
    using assms p
    by (auto simp: cancel_record_def act_bind_Inr act_try_def payment_can_cases
        split: released.splits if_splits sum.splits elim!: closed_after)
qed (simp add: pay_evolves_def)

lemma open_insert_evolves:
  assumes fresh: "gs_providerSessionId session \<notin> handles db"
    and run: "open_insert env inp session paymentId retiring db = (Inr a, db')"
  shows "pay_evolves db db'"
proof -
  have store: "pay_evolves db1 db2"
    if "payment_create (osi_orderId inp) prov (gs_providerSessionId session) am c = Inr p"
      "payment_insert p paymentId db1 = Inr (row, db2)" "find_pay_header (osi_orderId inp) db1 = Some h"
      "ph_status h = P_OPEN" "handles db1 = handles db" for db1 db2 p row h prov am c
    using payment_create_Inr [OF that(1)] that(2-5) fresh
    by (intro payment_inserted [OF that(2)]) (auto simp: handles_def)
  have retired: "pay_evolves db db2"
    if "payment_create (osi_orderId inp) prov (gs_providerSessionId session) am c = Inr p"
      "payment_insert p paymentId (snd (updateStatus i PS_EXPIRED None (Some PS_PENDING) db)) = Inr (row, db2)"
      "find_pay_header (osi_orderId inp) db = Some h" "ph_status h = P_OPEN" for i db2 p row h prov am c
    using store [OF that(1,2)] that(3,4)
    by (intro pay_evolves_trans [OF updateStatus_pending_evolves [of PS_EXPIRED db i None]]) simp_all
  show ?thesis
    using run
    by (auto simp: open_insert_def Let_def act_bind_Inr step_Inr split: option.splits if_splits
        intro: store retired)
qed

lemma insertIfStillOpen_evolves:
  assumes "gs_providerSessionId session \<notin> handles db"
  shows "pay_evolves db (snd (insertIfStillOpen env inp session paymentId retiring db))"
proof -
  have "snd (insertIfStillOpen env inp session paymentId retiring db) =
      snd (in_tx (open_insert env inp session paymentId retiring) db)"
    by (auto simp: insertIfStillOpen_def split: prod.splits sum.splits pay_error.splits)
  then show ?thesis using pay_evolves_tx open_insert_evolves [OF assms] by metis
qed

lemma insertIfNew_Inr:
  "insertIfNew i prov ev ty pl db = Inr (fresh, db') \<Longrightarrow> \<exists>ws. db' = db\<lparr>pt_webhooks := ws\<rparr>"
  by (auto simp: insertIfNew_def split: if_splits intro: exI [of _ "pt_webhooks db"])

lemma legacy_log_webhooks: "\<exists>ws. legacy_log i prov ev db = db\<lparr>pt_webhooks := ws\<rparr>"
  using insertIfNew_Inr by (fastforce simp: legacy_log_def split: sum.splits intro: exI [of _ "pt_webhooks db"])

lemma logged_body_evolves:
  assumes "\<And>ws a db'. apply1 (db\<lparr>pt_webhooks := ws\<rparr>) = (Inr a, db') \<Longrightarrow> pay_evolves (db\<lparr>pt_webhooks := ws\<rparr>) db'"
    and "logged_body prov ev eventId apply1 db = (Inr a, db')"
  shows "pay_evolves db db'"
proof -
  obtain fresh db1 where 1: "insertIfNew eventId prov (ve_providerEventId ev) (ve_type ev) (ve_payload ev) db =
      Inr (fresh, db1)"
    using assms(2) by (auto simp: logged_body_def act_bind_Inr step_Inr)
  obtain ws where ws: "db1 = db\<lparr>pt_webhooks := ws\<rparr>" using insertIfNew_Inr [OF 1] by blast
  have mark: "pay_evolves db2 (markProcessed i db2)" "pay_evolves db2 (markSkipped i db2)" for i db2
    by (simp_all add: markProcessed_def markSkipped_def)
  have "pay_evolves db1 db'"
    using assms(2) 1 ws assms(1) [of ws, THEN pay_evolves_trans, OF _ mark(1)]
      assms(1) [of ws, THEN pay_evolves_trans, OF _ mark(2)]
    by (auto simp: logged_body_def act_bind_Inr step_Inr split: if_splits)
  moreover have "pay_evolves db db1" by (simp add: ws)
  ultimately show ?thesis by (rule pay_evolves_trans [rotated])
qed

lemma prepared_webhooks [simp]: "prepared (db\<lparr>pt_webhooks := ws\<rparr>) pr \<longleftrightarrow> prepared db pr"
  by (simp add: prepared_def)

lemma pay_tx_evolves: "pay_tx S db db' \<Longrightarrow> pay_evolves db db'"
proof (induction rule: pay_tx.induct)
  case (tx_log_apply db pr prov ev eventId)
  then show ?case
    by (intro pay_evolves_tx, elim logged_body_evolves [rotated])
       (auto simp: act_bind_Inr intro: auth_apply_evolves [where pr = pr])
next
  case (tx_log_expire db prov ev eventId i)
  then show ?case
    by (intro pay_evolves_tx, elim logged_body_evolves [rotated])
       (auto simp: act_bind_Inr expire_attempt_def)
next
  case (tx_note db provider ev eventId a)
  then show ?case by (intro pay_evolves_tx, elim logged_body_evolves [rotated]) simp
next
  case (tx_log_only db i prov ev)
  then show ?case using legacy_log_webhooks [of i prov ev db] by auto
next
  case (tx_log_skip db i prov ev)
  then show ?case using legacy_log_webhooks [of i prov ev db] by (auto simp: markSkipped_def)
qed (auto intro!: pay_evolves_tx intro: open_claim_evolves insertIfStillOpen_evolves auth_apply_evolves
    capture_settle_evolves cancel_flip_evolves cancel_record_evolves
    simp: deleteReceivedBefore_def Let_def)


section \<open>Use cases are sequences of transactions\<close>

abbreviation pay_path :: "string set \<Rightarrow> pay_db \<Rightarrow> pay_db \<Rightarrow> bool" where
  "pay_path S \<equiv> (pay_tx S)\<^sup>*\<^sup>*"

definition runs :: "string set \<Rightarrow> 'a pay_act \<Rightarrow> pay_db \<Rightarrow> bool" where
  "runs S m db \<longleftrightarrow> pay_path S db (snd (m db))"

text \<open>What commits in a pause is itself made of the participant's transactions.\<close>

definition gaps :: "string set \<Rightarrow> pay_env \<Rightarrow> bool" where
  "gaps S env \<longleftrightarrow> (\<forall>k db. pay_path S db (pv_gap env k db))"

lemma path_evolves: "pay_path S db db' \<Longrightarrow> pay_evolves db db'"
  by (induction rule: rtranclp_induct) (auto intro: pay_evolves_trans pay_tx_evolves)

lemma path_ok: "pay_path S db db' \<Longrightarrow> pay_ok db \<Longrightarrow> pay_ok db'"
  using path_evolves pay_evolves_def by blast

lemma known_path: "known db p \<Longrightarrow> pay_path S db db' \<Longrightarrow> pay_ok db \<Longrightarrow> known db' p"
proof -
  assume k: "known db p" and path: "pay_path S db db'" and ok: "pay_ok db"
  obtain q where q: "q \<in> set (pt_payments db)" "payment_moved p q" using k by (auto simp: known_def)
  obtain r where "r \<in> set (pt_payments db')" "payment_moved q r"
    using path_evolves [OF path] ok q(1) unfolding pay_evolves_def pay_grows_def by blast
  then show "known db' p" unfolding known_def using q(2) payment_moved_trans by blast
qed

lemma shut_path: "shut db o1 \<Longrightarrow> pay_path S db db' \<Longrightarrow> pay_ok db \<Longrightarrow> shut db' o1"
proof -
  assume k: "shut db o1" and path: "pay_path S db db'" and ok: "pay_ok db"
  obtain h where h: "h \<in> set (pt_headers db)" "ph_orderId h = o1" "ph_status h \<notin> {P_OPEN, P_AUTHORIZED}"
    using k by (auto simp: shut_def)
  obtain h' where "h' \<in> set (pt_headers db')" "header_moved db db' h h'"
    using path_evolves [OF path] ok h(1) unfolding pay_evolves_def pay_grows_def by blast
  then show "shut db' o1" unfolding shut_def header_moved_def using h(2,3) by (intro bexI [of _ h']) simp_all
qed

lemma prepared_path: "prepared db pr \<Longrightarrow> pay_path S db db' \<Longrightarrow> pay_ok db \<Longrightarrow> prepared db' pr"
proof -
  assume k: "prepared db pr" and path: "pay_path S db db'" and ok: "pay_ok db"
  obtain q where q: "q \<in> set (pt_payments db)" "pay_id q = pr_paymentId pr" "pay_orderId q = pr_orderId pr"
      "pay_providerSessionId q = pr_providerSessionId pr" "hc_intentId (pr_hold pr) \<noteq> []"
    using k by (auto simp: prepared_def)
  obtain r where "r \<in> set (pt_payments db')" "payment_moved q r"
    using path_evolves [OF path] ok q(1) unfolding pay_evolves_def pay_grows_def by blast
  then show "prepared db' pr" unfolding prepared_def using q(2-) by (auto simp: payment_moved_def)
qed

lemma known_in: "p \<in> set (pt_payments db) \<Longrightarrow> known db p"
  by (auto simp: known_def intro: payment_moved_refl)

lemma runs_tx: "(\<And>x. x = snd (m db) \<Longrightarrow> pay_tx S db x) \<Longrightarrow> runs S m db"
  by (simp add: runs_def)

lemma runs_still:
  "runs S (act_return a) db" "runs S (act_throw e) db" "runs S (act_get f) db" "runs S (act_lift r) db"
  "runs S (mintOne i) db"
  by (auto simp: runs_def mintOne_def split: option.splits)

lemma runs_modify: "pay_tx S db (f db) \<Longrightarrow> runs S (act_modify f) db"
  by (simp add: runs_def)

lemma runs_state: "pay_tx S db (snd (f db)) \<Longrightarrow> runs S (act_state f) db"
  by (simp add: runs_def)

lemma runs_bind:
  assumes "runs S m db" and "\<And>a db1. m db = (Inr a, db1) \<Longrightarrow> pay_path S db db1 \<Longrightarrow> runs S (f a) db1"
  shows "runs S (act_bind m f) db"
proof (cases "m db")
  case (Pair r db1)
  show ?thesis
  proof (cases r)
    case (Inl e)
    then show ?thesis using assms(1) Pair by (simp add: runs_def)
  next
    case (Inr a)
    then have "pay_path S db db1" "runs S (f a) db1" using assms Pair by (simp_all add: runs_def)
    then show ?thesis using Pair Inr by (simp add: runs_def)
  qed
qed

lemma runs_pause: "gaps S env \<Longrightarrow> runs S (pause env k) db"
  by (simp add: runs_def pause_def gaps_def)

lemmas runs_intros = runs_still runs_bind runs_pause runs_modify runs_state

lemma withIntentKey_runs: "runs S (withIntentKey p op call) db"
  unfolding withIntentKey_def
  by (auto split: sum.splits intro!: runs_intros tx_keygen)

lemma withIntentKey_path: "withIntentKey p op call db = (r, db') \<Longrightarrow> pay_path S db db'"
  using withIntentKey_runs [of S p op call db] by (simp add: runs_def)

lemma auth_prepare_runs:
  assumes "gaps S env"
  shows "runs S (auth_prepare env read hold at) db"
  unfolding auth_prepare_def Let_def voidStray_def
  by (auto split: option.splits authorization_decision.splits
      intro!: runs_intros withIntentKey_runs assms)

lemma auth_prepare_prepares:
  assumes "auth_prepare env read hold at db = (Inr pr, db')" and "pay_ok db" and "gaps S env"
    and "hc_intentId hold \<noteq> []"
  shows "prepared db' pr"
proof -
  obtain db1 p where p: "findByProviderSessionId (pay_providerSessionId read) db1 = Some p"
      and 1: "pay_path S db db1"
      and fields: "pr_paymentId pr = pay_id p" "pr_orderId pr = pay_orderId p"
        "pr_providerSessionId pr = pay_providerSessionId p" "pr_hold pr = hold"
      and rest: "pay_path S db1 db'"
    using assms(1,3)
    by (auto simp: auth_prepare_def act_bind_Inr pause_def gaps_def Let_def voidStray_def mintOne_def
        split: option.splits if_splits authorization_decision.splits dest: withIntentKey_path [where S = S])
  have "prepared db1 pr" using by_session [OF p] fields assms(4) by (auto simp: prepared_def)
  then show ?thesis using prepared_path rest path_ok [OF 1 assms(2)] by blast
qed

lemma held_intent: "heldCharge a = Some hold \<Longrightarrow> hc_intentId hold \<noteq> []"
  by (auto simp: heldCharge_def split: if_splits option.splits list.splits)

lemma auth_record_runs:
  assumes "gaps S env" and "pay_ok db" and "hc_intentId hold \<noteq> []"
  shows "runs S (auth_record env read hold at) db"
  unfolding auth_record_def
proof (intro runs_bind auth_prepare_runs runs_pause assms(1))
  fix pr db1 u db2
  assume "auth_prepare env read hold at db = (Inr pr, db1)" "pay_path S db db1" "pay_path S db1 db2"
  then have "prepared db2 pr"
    using auth_prepare_prepares assms prepared_path path_ok by metis
  then show "runs S (in_tx (auth_apply pr)) db2" by (intro runs_tx) (simp add: tx_apply)
qed

lemma by_order:
  "findByOrderId o1 db = Some p \<Longrightarrow> p \<in> set (pt_payments db) \<and> pay_orderId p = o1"
  by (auto simp: findByOrderId_def find_last_def dest: find_where_Some)

lemma capture_execute_runs:
  assumes g: "gaps S env" and ok: "pay_ok db" and S: "o1 \<in> S"
  shows "runs S (capture_execute env o1) db"
proof -
  have settle: "runs S (in_tx (capture_settle p result)) db3"
    if "findByOrderId o1 db1 = Some p" "pay_path S db db1" "pay_path S db1 db2" "pay_path S db2 db3"
    for db1 db2 db3 p result
  proof (rule runs_tx)
    have "known db1 p" using by_order [OF that(1)] known_in by blast
    moreover have "pay_ok db1" using ok that(2) path_ok by blast
    ultimately have "known db3 p" using that(3,4) known_path path_ok by blast
    then show "x = snd (in_tx (capture_settle p result) db3) \<Longrightarrow> pay_tx S db3 x" for x
      using by_order [OF that(1)] S by (simp add: tx_settle)
  qed
  show ?thesis
    unfolding capture_execute_def
    by (auto split: capture_decision.splits option.splits list.splits
        intro!: runs_intros withIntentKey_runs g) (blast intro: settle)
qed

lemma cancel_release_runs: "runs S (cancel_release env p) db"
  unfolding cancel_release_def voidHold_def
  by (auto split: option.splits intent_status.splits intro!: runs_intros withIntentKey_runs)

lemma cancel_flip_runs: "o1 \<in> S \<Longrightarrow> runs S (in_tx (cancel_flip missed o1)) db"
  by (rule runs_tx) (simp add: tx_flip)

lemma only_some: "(if c then Some x else None) = Some y \<longleftrightarrow> c \<and> x = y"
  by simp

lemma cancel_flip_attempt:
  assumes "in_tx (cancel_flip missed o1) db = (Inr (out, Some p), db')"
  shows "p \<in> set (pt_payments db') \<and> pay_orderId p = o1 \<and> shut db' o1"
proof -
  have "cancel_flip missed o1 db = (Inr (out, Some p), db')" using assms by (simp add: in_tx_Inr)
  then obtain fenced h db1 where h: "find_pay_header o1 db1 = Some h"
      and tail: "(let finish = (\<lambda>outcome. act_bind (act_get (findActiveByOrderIdForUpdate o1)) (\<lambda>active.
                 act_return (outcome,
                   case active of
                     Some p \<Rightarrow> if pay_status p \<in> {PS_PENDING, PS_AUTHORIZED} then Some p else None
                   | None \<Rightarrow> None)))
           in (case decide_cancel (Some (ph_status h)) of
                 Do_captured_conflict \<Rightarrow> act_return (Can_CAPTURED_CONFLICT, None)
               | Do_cancel \<Rightarrow>
                   act_bind (act_try (update_pay_header o1 (Some P_CANCELLED) None)) (\<lambda>_. finish Can_CANCELLED)
               | _ \<Rightarrow> finish (if fenced then Can_FENCED else Can_IDEMPOTENT))) db1 = (Inr (out, Some p), db')"
    unfolding cancel_flip_def by (auto simp: act_bind_Inr simp del: Let_def split: option.split_asm)
  have finish: "findActiveByOrderIdForUpdate o1 db2 = Some p"
    if "(case findActiveByOrderIdForUpdate o1 db2 of
          Some p \<Rightarrow> if pay_status p \<in> {PS_PENDING, PS_AUTHORIZED} then Some p else None
        | None \<Rightarrow> None) = Some p" for db2
    using that by (cases "findActiveByOrderIdForUpdate o1 db2") (simp_all split: if_splits)
  have "findActiveByOrderIdForUpdate o1 db' = Some p"
  proof (cases "decide_cancel (Some (ph_status h))")
    case Do_cancel
    then obtain db2 where "update_pay_header o1 (Some P_CANCELLED) None db1 = Inr db2"
      using tail by (cases "update_pay_header o1 (Some P_CANCELLED) None db1") (simp_all add: act_try_def)
    with tail Do_cancel show ?thesis by (intro finish) (auto simp: act_try_def act_bind_def)
  qed (insert tail, auto simp: act_bind_def intro!: finish)
  moreover have "shut db' o1"
  proof (cases "decide_cancel (Some (ph_status h))")
    case Do_cancel
    then obtain db2 where db2: "update_pay_header o1 (Some P_CANCELLED) None db1 = Inr db2"
      using tail by (cases "update_pay_header o1 (Some P_CANCELLED) None db1") (simp_all add: act_try_def)
    have "db' = db2" using tail Do_cancel db2 by (auto simp: act_try_def act_bind_def)
    moreover have "patch_header (Some P_CANCELLED) None h \<in> set (pt_headers db2)"
      using find_pay_header_Some [OF h] update_pay_header_Inr [OF db2] by (auto simp: set_update_where)
    ultimately show ?thesis
      using find_pay_header_Some [OF h] unfolding shut_def by (intro bexI) (auto simp: patch_header_def)
  next
    case Do_captured_conflict
    then show ?thesis using tail by simp
  qed (insert tail h, cases "ph_status h",
      auto simp: act_bind_def shut_def dest!: find_pay_header_Some)
  ultimately show ?thesis
    by (auto simp: findActiveByOrderIdForUpdate_def active_of_def dest: find_where_Some)
qed

lemma cancel_execute_runs:
  assumes g: "gaps S env" and ok: "pay_ok db" and S: "o1 \<in> S"
  shows "runs S (cancel_execute env missed o1) db"
proof -
  have record': "runs S (in_tx (cancel_record p rel)) db4"
    if "in_tx (cancel_flip missed o1) db = (Inr (out, Some p), db1)" "pay_path S db db1" "pay_path S db1 db2"
      "pay_path S db2 db3" "pay_path S db3 db4" for out p db1 db2 db3 db4 rel
  proof (rule runs_tx)
    note p = cancel_flip_attempt [OF that(1)]
    then have "known db4 p" "shut db4 (pay_orderId p)"
      using that(2-5) ok known_in known_path shut_path path_ok by meson+
    then show "x = snd (in_tx (cancel_record p rel) db4) \<Longrightarrow> pay_tx S db4 x" for x
      using p S by (simp add: tx_record)
  qed
  show ?thesis
    unfolding cancel_execute_def
    by (auto split: option.splits prod.splits intro!: runs_intros cancel_release_runs g cancel_flip_runs S)
       (blast intro: record')
qed

lemma runs_after: "runs S m db1 \<Longrightarrow> pay_path S db db1 \<Longrightarrow> pay_path S db (snd (m db1))"
  by (simp add: runs_def)

lemma open_probe_step_runs:
  assumes "gaps S env" "pay_ok db"
  shows "runs S (open_probe_step env active) db"
  unfolding open_probe_step_def
  by (auto split: option.splits session_status.splits intro!: runs_intros auth_record_runs held_intent assms)

lemma open_before_runs:
  assumes g: "gaps S env" and ok: "pay_ok db" and S: "osi_orderId inp \<in> S"
  shows "runs S (open_before env lead inp) db"
proof -
  have claim: "runs S (in_tx (open_claim inp)) db" by (rule runs_tx) (simp add: tx_claim S)
  have probe: "runs S (open_probe_step env active) db2" if "pay_path S db db1" "pay_path S db1 db2" for db1 db2 active
    using open_probe_step_runs g path_ok ok that by blast
  show ?thesis
    unfolding open_before_def
    by (auto split: option.splits open_probe.splits intro!: runs_intros claim g) (blast intro: probe)
qed

text \<open>The gateway gave the session a handle no stored payment has when the call comes to insert.\<close>

definition fresh_session :: "pay_env \<Rightarrow> int \<Rightarrow> open_session_input \<Rightarrow> pay_db \<Rightarrow> bool" where
  "fresh_session env lead inp db =
     (case open_before env lead inp db of
        (Inr (Inr (session, _, _)), db1) \<Rightarrow>
          list_all (\<lambda>p. pay_providerSessionId p \<noteq> gs_providerSessionId session) (pt_payments db1)
      | _ \<Rightarrow> True)"

lemma open_execute_runs:
  assumes g: "gaps S env" and ok: "pay_ok db" and fresh: "fresh_session env lead inp db"
    and S: "osi_orderId inp \<in> S"
  shows "runs S (open_execute env lead inp) db"
  unfolding open_execute_def
proof (intro runs_bind open_before_runs g ok S)
  fix r db1 assume r: "open_before env lead inp db = (Inr r, db1)"
  have "runs S (insertIfStillOpen env inp session paymentId retiring) db1"
    if "r = Inr (session, paymentId, retiring)" for session paymentId retiring
    using fresh r that S
    by (intro runs_tx, simp, intro tx_insert) (auto simp: fresh_session_def handles_def list_all_iff)
  then show "runs S (case r of
         Inl answer \<Rightarrow> act_return answer
       | Inr (session, paymentId, retiring) \<Rightarrow>
           act_bind (insertIfStillOpen env inp session paymentId retiring) (\<lambda>created.
             case created of
               None \<Rightarrow> act_return Closed
             | Some p \<Rightarrow> act_return (Opened
                 \<lparr>os_paymentId = paymentId, os_providerSessionId = gs_providerSessionId session,
                  os_redirectUrl = gs_redirectUrl session, os_clientSecret = gs_clientSecret session\<rparr>))) db1"
    by (auto split: sum.splits option.splits intro!: runs_bind runs_still)
qed

lemma webhook_completed_runs:
  assumes g: "gaps S env" and ok: "pay_ok db"
  shows "runs S (webhook_completed env ev p) db"
proof -
  have note': "runs S (in_tx (logged_body prov ev eventId (act_return a))) db1" for prov eventId a db1
    by (rule runs_tx) (simp add: tx_note)
  have log: "runs S (in_tx (logged_body prov ev eventId (act_bind (auth_apply pr) (\<lambda>o1. act_return (applied_of o1))))) db3"
    if "auth_prepare env p hold at db = (Inr pr, db1)" "heldCharge a = Some hold"
      "pay_path S db db1" "pay_path S db1 db2" "pay_path S db2 db3"
    for prov eventId pr a hold at db1 db2 db3
  proof (rule runs_tx)
    have "prepared db1 pr" by (rule auth_prepare_prepares [OF that(1) ok g held_intent [OF that(2)]])
    then have "prepared db3 pr" using that(3-5) prepared_path path_ok ok by meson
    then show "x = snd (in_tx (logged_body prov ev eventId
        (act_bind (auth_apply pr) (\<lambda>o1. act_return (applied_of o1)))) db3) \<Longrightarrow> pay_tx S db3 x" for x
      by (simp add: tx_log_apply)
  qed
  show ?thesis
    unfolding webhook_completed_def
    by (auto split: option.splits intro!: runs_intros auth_prepare_runs note' g) (blast intro: log)
qed

lemma webhook_expired_runs: "gaps S env \<Longrightarrow> runs S (webhook_expired env ev p) db"
  unfolding webhook_expired_def
  by (intro runs_intros) (auto intro!: runs_tx tx_log_expire)

lemma tcc_webhook_execute_runs:
  assumes "gaps S env" "pay_ok db"
  shows "runs S (tcc_webhook_execute env ev) db"
  unfolding tcc_webhook_execute_def
  by (auto split: option.splits intro!: runs_intros webhook_completed_runs webhook_expired_runs assms)

lemma webhook_execute_runs:
  assumes g: "gaps S env" and ok: "pay_ok db"
  shows "runs S (webhook_execute env verified) db"
proof (cases verified)
  case (Valid_event ev)
  have "runs S (in_tx (
                  act_bind (mintOne (pv_mintOutbox env)) (\<lambda>i.
                  act_bind (\<lambda>db. case insertIfNew i (pg_provider (pv_gw env)) (ve_providerEventId ev) (ve_type ev)
                      (ve_payload ev) db of Inl e \<Rightarrow> (Inl e, db) | Inr (fresh, db') \<Rightarrow> (Inr fresh, db')) (\<lambda>fresh.
                    if \<not> fresh then act_return Wr_duplicate
                    else
                      let facts = readCheckoutSession (ve_payload ev);
                          outcome = mapEventToOutcome (ve_type ev) (csf_paymentStatus facts)
                      in if outcome = Ev_ignore then act_return Wr_ignored
                         else act_bind (act_modify (markSkipped i)) (\<lambda>_.
                           act_return (Wr_no_payment_header (csf_sessionId facts)
                             (csf_paymentStatus facts = Some ''paid'' \<and> outcome = Ev_settle PS_SUCCEEDED))))))) db1"
    (is "runs S (in_tx ?m) db1") for db1
  proof (cases "?m db1")
    case (Pair r db2)
    show ?thesis
    proof (cases r)
      case (Inl e)
      with Pair show ?thesis by (simp add: runs_def in_tx_def)
    next
      case (Inr a)
      define i where "i = the (pv_mintOutbox env)"
      have "db2 \<in> {db1, legacy_log i (pg_provider (pv_gw env)) ev db1,
          markSkipped i (legacy_log i (pg_provider (pv_gw env)) ev db1)}"
        using Pair Inr by (auto simp: act_bind_Inr mintOne_def step_Inr Let_def legacy_log_def i_def
            split: option.splits if_splits)
      then have "pay_path S db1 db2" using tx_log_only tx_log_skip by blast
      with Pair Inr show ?thesis by (simp add: runs_def in_tx_def)
    qed
  qed
  then show ?thesis
    unfolding webhook_execute_def Valid_event
    by (auto split: option.splits intro!: runs_bind runs_still runs_pause tcc_webhook_execute_runs g ok)
qed (simp_all add: webhook_execute_def runs_still)

lemma reconcile_one_runs:
  assumes "gaps S env" "pay_ok db" "pay_status p = PS_AUTHORIZED \<Longrightarrow> pay_orderId p \<in> S"
  shows "runs S (reconcile_one env p) db"
  unfolding reconcile_one_def
  by (auto split: option.splits
      intro!: runs_intros cancel_execute_runs [OF assms(1,2)] assms(3) auth_record_runs [OF assms(1)] held_intent tx_expire tx_void tx_bump assms(2))

lemma reconcile_all_path:
  assumes "\<And>i. gaps S (envs i)" "pay_ok db" "\<And>p. p \<in> set ps \<Longrightarrow> pay_orderId p \<in> S"
  shows "pay_path S db (snd (reconcile_all envs i ps sm db))"
  using assms(2,3)
proof (induction ps arbitrary: i sm db)
  case (Cons p ps)
  obtain r db1 where one: "reconcile_one (envs i) p db = (r, db1)" by fastforce
  have 1: "pay_path S db db1"
    using reconcile_one_runs [OF assms(1) Cons.prems(1), of p i] Cons.prems(2) [of p] one by (simp add: runs_def)
  define db2 where "db2 = (case r of Inl _ \<Rightarrow> bumpUpdatedAt (pay_id p) (pay_status p) db1 | Inr _ \<Rightarrow> db1)"
  have 2: "pay_path S db1 db2" by (auto simp: db2_def intro: tx_bump split: sum.splits)
  have "pay_path S db2 (snd (reconcile_all envs (Suc i) ps (count_outcome r sm) db2))"
    using Cons.IH [of db2] path_ok [OF 2] path_ok [OF 1] Cons.prems by simp
  with 1 2 one show ?case by (simp add: db2_def [symmetric])
qed simp


section \<open>The participant's life\<close>

datatype pay_op =
    Do_open_session pay_env int open_session_input
  | Do_capture_order pay_env string
  | Do_cancel_order pay_env bool string
  | Do_webhook pay_env verified_event
  | Do_reconcile "nat \<Rightarrow> pay_env" int int nat
  | Do_webhook_sweep int nat
  | Do_tick int

fun pay_exec :: "pay_op \<Rightarrow> pay_db \<Rightarrow> pay_db" where
  "pay_exec (Do_open_session env lead inp) db = snd (open_execute env lead inp db)"
| "pay_exec (Do_capture_order env o1) db = snd (capture_execute env o1 db)"
| "pay_exec (Do_cancel_order env missed o1) db = snd (cancel_execute env missed o1 db)"
| "pay_exec (Do_webhook env verified) db = snd (webhook_execute env verified db)"
| "pay_exec (Do_reconcile envs now stale batch) db = snd (reconcile_execute envs now stale batch db)"
| "pay_exec (Do_webhook_sweep cutoff limit) db = snd (deleteReceivedBefore cutoff limit db)"
| "pay_exec (Do_tick t) db = db\<lparr>pt_clock := t\<rparr>"

fun pay_fair :: "pay_op \<Rightarrow> pay_db \<Rightarrow> bool" where
  "pay_fair (Do_open_session env lead inp) db \<longleftrightarrow> gaps UNIV env \<and> fresh_session env lead inp db"
| "pay_fair (Do_capture_order env o1) db \<longleftrightarrow> gaps UNIV env"
| "pay_fair (Do_cancel_order env missed o1) db \<longleftrightarrow> gaps UNIV env"
| "pay_fair (Do_webhook env verified) db \<longleftrightarrow> gaps UNIV env"
| "pay_fair (Do_reconcile envs now stale batch) db \<longleftrightarrow> (\<forall>i. gaps UNIV (envs i))"
| "pay_fair _ db \<longleftrightarrow> True"

definition empty_pay_db :: pay_db where
  "empty_pay_db = \<lparr>pt_payments = [], pt_headers = [], pt_outbox = [], pt_webhooks = [], pt_clock = 0\<rparr>"

inductive pay_leads :: "pay_db \<Rightarrow> pay_db \<Rightarrow> bool" where
  leads_stop: "pay_leads db db"
| leads_step: "pay_leads db db1 \<Longrightarrow> pay_fair op db1 \<Longrightarrow> pay_leads db (pay_exec op db1)"

lemma pay_exec_path: "pay_ok db \<Longrightarrow> pay_fair op db \<Longrightarrow> pay_path UNIV db (pay_exec op db)"
proof (cases op)
  case (Do_open_session env lead inp)
  then show "pay_ok db \<Longrightarrow> pay_fair op db \<Longrightarrow> ?thesis" using open_execute_runs by (simp add: runs_def)
next
  case (Do_capture_order env o1)
  then show "pay_ok db \<Longrightarrow> pay_fair op db \<Longrightarrow> ?thesis" using capture_execute_runs by (simp add: runs_def)
next
  case (Do_cancel_order env missed o1)
  then show "pay_ok db \<Longrightarrow> pay_fair op db \<Longrightarrow> ?thesis" using cancel_execute_runs by (simp add: runs_def)
next
  case (Do_webhook env verified)
  then show "pay_ok db \<Longrightarrow> pay_fair op db \<Longrightarrow> ?thesis" using webhook_execute_runs by (simp add: runs_def)
next
  case (Do_reconcile envs now stale batch)
  then show "pay_ok db \<Longrightarrow> pay_fair op db \<Longrightarrow> ?thesis"
    using reconcile_all_path by (simp add: reconcile_execute_def Let_def)
qed (auto intro: tx_sweep tx_tick)

lemma pay_leads_path: "pay_leads db db' \<Longrightarrow> pay_ok db \<Longrightarrow> pay_path UNIV db db'"
proof (induction rule: pay_leads.induct)
  case (leads_step db db1 op)
  then show ?case using pay_exec_path [of db1 op] path_ok by (meson rtranclp_trans)
qed simp

lemma empty_pay_ok: "pay_ok empty_pay_db"
  by (simp add: pay_ok_def empty_pay_db_def)

lemma pay_leads_evolves: "pay_leads db db' \<Longrightarrow> pay_ok db \<Longrightarrow> pay_ok db' \<and> pay_grows db db'"
  using pay_leads_path path_evolves pay_evolves_def by blast

lemma reached_ok: "pay_leads empty_pay_db db \<Longrightarrow> pay_ok db"
  using pay_leads_evolves empty_pay_ok by blast

end
