(* ===== verification/Payment_Backing.thy ===== *)
theory Payment_Backing
  imports Payment_Protocol
begin

text \<open>
  An AUTHORIZED header has money behind it: in every store the participant reaches, the newest payment of
  an order whose header is AUTHORIZED is itself AUTHORIZED and carries the intent the gateway holds. This
  is what \<open>capture\<close> relies on when it reads the order's newest payment; it is kept by each transaction
  of the participant, and so by every interleaving of its calls.
\<close>


section \<open>The invariant\<close>

definition charged :: "payment \<Rightarrow> bool" where
  "charged p \<longleftrightarrow> pay_status p = PS_AUTHORIZED \<and> pay_providerIntentId p \<notin> {None, Some []}"

text \<open>The attempt that is not retired is the one the newest-first read finds.\<close>

definition latest :: "payment list \<Rightarrow> bool" where
  "latest ps \<longleftrightarrow> (\<forall>p \<in> set ps. \<not> retired (pay_status p) \<longrightarrow>
     find_last (\<lambda>q. pay_orderId q = pay_orderId p) ps = Some p)"

text \<open>Every AUTHORIZED header is backed, the orders in \<open>X\<close> aside: inside a transaction the payment is
  written before its header.\<close>

definition backed_but :: "string set \<Rightarrow> pay_db \<Rightarrow> bool" where
  "backed_but X db \<longleftrightarrow> latest (pt_payments db) \<and>
     (\<forall>h \<in> set (pt_headers db). ph_orderId h \<notin> X \<longrightarrow> ph_status h = P_AUTHORIZED \<longrightarrow>
        (\<exists>p \<in> set (pt_payments db). pay_orderId p = ph_orderId h \<and> charged p))"

abbreviation backed :: "pay_db \<Rightarrow> bool" where
  "backed \<equiv> backed_but {}"

definition keeps_backed :: "pay_db \<Rightarrow> pay_db \<Rightarrow> bool" where
  "keeps_backed db db' \<longleftrightarrow> (pay_ok db \<longrightarrow> backed db \<longrightarrow> backed db')"

lemma keeps_backed_refl [simp]: "keeps_backed db db"
  by (simp add: keeps_backed_def)

lemma keeps_backed_trans:
  "pay_evolves a b \<Longrightarrow> keeps_backed a b \<Longrightarrow> keeps_backed b c \<Longrightarrow> keeps_backed a c"
  by (simp add: keeps_backed_def pay_evolves_def)

lemma backed_more: "backed db \<Longrightarrow> backed_but X db"
  by (simp add: backed_but_def)

lemma find_where_map:
  assumes "\<And>x. x \<in> set xs \<Longrightarrow> P (g x) \<longleftrightarrow> P x"
  shows "find_where P (map g xs) = map_option g (find_where P xs)"
  using assms by (induction xs) (simp_all add: row_simps)

lemma latest_map:
  assumes "latest ps" and moved: "\<And>p. p \<in> set ps \<Longrightarrow> payment_moved p (g p)"
  shows "latest (map g ps)"
  unfolding latest_def
proof (intro ballI impI)
  fix q assume "q \<in> set (map g ps)" and live: "\<not> retired (pay_status q)"
  then obtain p where p: "p \<in> set ps" "q = g p" by auto
  have order: "pay_orderId (g x) = pay_orderId x" if "x \<in> set ps" for x
    using moved [OF that] by (simp add: payment_moved_def)
  have "active_of (pay_orderId p) p"
    using active_moved [OF moved [OF p(1)], of "pay_orderId p"] live p(2) order [OF p(1)] by (simp add: active_of_def)
  then have "find_last (\<lambda>x. pay_orderId x = pay_orderId p) ps = Some p"
    using assms(1) p(1) by (simp add: latest_def active_of_def)
  moreover have "find_last (\<lambda>x. pay_orderId x = pay_orderId p) (map g ps) =
      map_option g (find_last (\<lambda>x. pay_orderId x = pay_orderId p) ps)"
    unfolding find_last_def rev_map by (rule find_where_map) (simp add: order)
  ultimately show "find_last (\<lambda>x. pay_orderId x = pay_orderId q) (map g ps) = Some q"
    using order [OF p(1)] p(2) by simp
qed


section \<open>Payment rows\<close>

text \<open>Rewriting rows; those of \<open>X\<close>'s orders freely, the others keeping their charge.\<close>

lemma backed_rows:
  assumes "backed_but X db"
    and "\<And>p. p \<in> set (pt_payments db) \<Longrightarrow> payment_moved p (g p)"
    and "\<And>p. p \<in> set (pt_payments db) \<Longrightarrow> charged p \<Longrightarrow> pay_orderId p \<notin> X \<Longrightarrow> charged (g p)"
  shows "backed_but X (db\<lparr>pt_payments := map g (pt_payments db)\<rparr>)"
  unfolding backed_but_def
proof (intro conjI ballI impI)
  show "latest (pt_payments (db\<lparr>pt_payments := map g (pt_payments db)\<rparr>))"
    using assms(1,2) by (simp add: backed_but_def latest_map)
  fix h assume "h \<in> set (pt_headers (db\<lparr>pt_payments := map g (pt_payments db)\<rparr>))"
    "ph_orderId h \<notin> X" "ph_status h = P_AUTHORIZED"
  then obtain p where p: "p \<in> set (pt_payments db)" "pay_orderId p = ph_orderId h" "charged p"
    using assms(1) unfolding backed_but_def by auto
  moreover have "pay_orderId (g p) = ph_orderId h" using assms(2) [OF p(1)] p(2) by (simp add: payment_moved_def)
  ultimately show "\<exists>p \<in> set (pt_payments (db\<lparr>pt_payments := map g (pt_payments db)\<rparr>)).
      pay_orderId p = ph_orderId h \<and> charged p"
    using assms(3) [OF p(1)] \<open>ph_orderId h \<notin> X\<close> by auto
qed

lemma backed_updated:
  assumes "backed_but X db"
    and "\<And>p. p \<in> set (pt_payments db) \<Longrightarrow> hit p \<Longrightarrow> payment_moved p (f p)"
    and "\<And>p. p \<in> set (pt_payments db) \<Longrightarrow> hit p \<Longrightarrow> charged p \<Longrightarrow> pay_orderId p \<notin> X \<Longrightarrow> charged (f p)"
  shows "backed_but X (db\<lparr>pt_payments := update_where hit f (pt_payments db)\<rparr>)"
  unfolding update_where_def using assms(2,3) by (intro backed_rows [OF assms(1)]) auto

lemma updateStatus_pending_backed:
  "backed_but X db \<Longrightarrow> st \<noteq> PS_PENDING \<Longrightarrow> backed_but X (snd (updateStatus i st intent (Some PS_PENDING) db))"
  unfolding updateStatus_def Let_def snd_conv
  by (rule backed_updated) (auto simp: payment_moved_def withStatus_def charged_def payment_can_cases)

lemma updateStatus_order_backed:
  assumes "pay_ok db" "backed db" "p \<in> set (pt_payments db)" "payment_canTransition (pay_status p) st"
  shows "backed_but {pay_orderId p} (snd (updateStatus (pay_id p) st intent ex db))"
proof -
  have "q = p" if "q \<in> set (pt_payments db)" "pay_id q = pay_id p" for q
    using that one_row assms(1,3) by metis
  then show ?thesis
    unfolding updateStatus_def Let_def snd_conv using assms(4)
    by (intro backed_updated [OF backed_more [OF assms(2)]]) (auto simp: payment_moved_def withStatus_def)
qed

lemma bumpUpdatedAt_backed: "backed db \<Longrightarrow> backed (bumpUpdatedAt i st db)"
  unfolding bumpUpdatedAt_def by (rule backed_updated) (simp_all add: payment_moved_def charged_def)

lemma incrementKeyGen_backed: "backed db \<Longrightarrow> backed (incrementKeyGen i n db)"
  unfolding incrementKeyGen_def by (rule backed_updated) (simp_all add: payment_moved_def charged_def)

lemma backed_same:
  "backed_but X db \<Longrightarrow> pt_payments db' = pt_payments db \<Longrightarrow> pt_headers db' = pt_headers db \<Longrightarrow> backed_but X db'"
  by (simp add: backed_but_def)

text \<open>A fresh row goes to the end, where the newest-first read finds it; nothing else of its order lives.\<close>

lemma payment_insert_backed:
  assumes ins: "payment_insert p i db = Inr (row, db')" and st: "pay_status p = PS_PENDING" and b: "backed db"
  shows "backed db'"
proof -
  have row: "row = p\<lparr>pay_id := Some i, pay_updatedAt := pt_clock db\<rparr>"
      and db': "db' = db\<lparr>pt_payments := pt_payments db @ [row]\<rparr>"
      and alone: "\<forall>q \<in> set (pt_payments db). \<not> active_of (pay_orderId p) q"
    using ins st by (auto simp: payment_insert_def Let_def list_ex_iff retired_def split: if_splits)
  have "find_last (\<lambda>x. pay_orderId x = pay_orderId q) (pt_payments db @ [row]) = Some q"
    if "q \<in> set (pt_payments db @ [row])" "\<not> retired (pay_status q)" for q
  proof (cases "pay_orderId q = pay_orderId row")
    case True
    then have "q = row" using that alone row by (auto simp: active_of_def)
    then show ?thesis by (simp add: find_last_def row_simps)
  next
    case False
    then have "q \<in> set (pt_payments db)" using that(1) by auto
    then show ?thesis using False that(2) b by (simp add: backed_but_def latest_def find_last_def row_simps)
  qed
  then have "latest (pt_payments db')" by (simp add: latest_def db')
  moreover have "\<exists>p \<in> set (pt_payments db'). pay_orderId p = ph_orderId h \<and> charged p"
    if "h \<in> set (pt_headers db)" "ph_status h = P_AUTHORIZED" for h
    using that b by (auto simp: backed_but_def db')
  ultimately show ?thesis by (simp add: backed_but_def db')
qed


section \<open>Header rows\<close>

lemma header_inserted_backed:
  "ph_status row \<noteq> P_AUTHORIZED \<Longrightarrow> backed db \<Longrightarrow> backed (snd (insert_pay_header row db))"
  by (auto simp: insert_pay_header_def backed_but_def)

lemma insertOpen_backed: "backed db \<Longrightarrow> backed (snd (insertOpen o1 a c db))"
  unfolding insertOpen_def by (rule header_inserted_backed) simp_all

lemma insertFenced_backed: "backed db \<Longrightarrow> backed (snd (insertFenced o1 db))"
  unfolding insertFenced_def by (rule header_inserted_backed) simp_all

text \<open>An UPDATE of one order's header leaves the payments and the other headers.\<close>

lemma header_rewritten_backed:
  assumes upd: "update_pay_header o1 st at db = Inr db'" and b: "backed_but {o1} db"
    and o1: "\<And>h. ph_status (patch_header st at h) = P_AUTHORIZED \<Longrightarrow> h \<in> set (pt_headers db) \<Longrightarrow> ph_orderId h = o1 \<Longrightarrow>
      \<exists>p \<in> set (pt_payments db). pay_orderId p = o1 \<and> charged p"
  shows "backed db'"
  unfolding backed_but_def
proof (intro conjI ballI impI)
  note db' = update_pay_header_Inr [OF upd]
  show "latest (pt_payments db')" using b db' by (simp add: backed_but_def)
  fix h' assume "h' \<in> set (pt_headers db')" and h': "ph_status h' = P_AUTHORIZED"
  then obtain h where h: "h \<in> set (pt_headers db)" "h' = (if ph_orderId h = o1 then patch_header st at h else h)"
    using db' by (auto simp: set_update_where)
  have "\<exists>p \<in> set (pt_payments db). pay_orderId p = ph_orderId h' \<and> charged p"
  proof (cases "ph_orderId h = o1")
    case True
    then show ?thesis using o1 [of h] h h' by (simp add: patch_header_def)
  next
    case False
    then show ?thesis using b h h' by (simp add: backed_but_def)
  qed
  then show "\<exists>p \<in> set (pt_payments db'). pay_orderId p = ph_orderId h' \<and> charged p"
    using db' by simp
qed

lemma header_closed_backed:
  "update_pay_header o1 (Some st) None db = Inr db' \<Longrightarrow> st \<in> {P_CANCELLED, P_CAPTURED} \<Longrightarrow> backed_but {o1} db \<Longrightarrow>
     backed db'"
  by (erule header_rewritten_backed) (auto simp: patch_header_def)

lemma header_authorized_backed:
  assumes "update_pay_header o1 st at db = Inr db'" "backed db"
    and "p \<in> set (pt_payments db)" "pay_orderId p = o1" "charged p"
  shows "backed (outbox_append e db')"
proof -
  have "backed db'"
    by (rule header_rewritten_backed [OF assms(1) backed_more [OF assms(2)]]) (use assms(3-) in blast)
  then show ?thesis by (rule backed_same) (simp_all add: outbox_append_def)
qed

text \<open>A header that is shut is not AUTHORIZED, so its order needs no backing.\<close>

lemma shut_backed:
  assumes "pay_ok db" "shut db o1" "backed_but {o1} db"
  shows "backed db"
proof -
  obtain x where x: "x \<in> set (pt_headers db)" "ph_orderId x = o1" "ph_status x \<notin> {P_OPEN, P_AUTHORIZED}"
    using assms(2) by (auto simp: shut_def)
  have "ph_status h \<noteq> P_AUTHORIZED" if "h \<in> set (pt_headers db)" "ph_orderId h = o1" for h
  proof -
    have "h = x" using that x assms(1) unfolding pay_ok_def by (metis unique_key_row)
    then show ?thesis using x(3) by simp
  qed
  then show ?thesis using assms(3) by (auto simp: backed_but_def)
qed


section \<open>Every transaction keeps it\<close>

lemma keeps_backed_tx:
  "(\<And>a db'. m db = (Inr a, db') \<Longrightarrow> keeps_backed db db') \<Longrightarrow> keeps_backed db (snd (in_tx m db))"
  by (auto simp: in_tx_def split: prod.splits sum.splits)

lemma open_claim_backed: "open_claim inp db = (Inr a, db') \<Longrightarrow> keeps_backed db db'"
  by (auto simp: keeps_backed_def open_claim_def Let_def act_bind_Inr intro!: insertOpen_backed
      split: option.splits if_splits)

lemma auth_apply_backed:
  assumes pr: "prepared db pr" and run: "auth_apply pr db = (Inr a, db')"
  shows "keeps_backed db db'"
  unfolding keeps_backed_def
proof (intro impI)
  assume ok: "pay_ok db" and b: "backed db"
  from run show "backed db'"
  proof (cases rule: auth_apply_writes)
    case reads
    then show ?thesis using b by simp
  next
    case (records h p i db1 db2)
    let ?q = "(withStatus p PS_AUTHORIZED (Some (hc_intentId (pr_hold pr))))\<lparr>pay_updatedAt := pt_clock db\<rparr>"
    obtain r where r: "r \<in> set (pt_payments db)" "pay_orderId r = pr_orderId pr"
        "pay_providerSessionId r = pr_providerSessionId pr" and intent: "hc_intentId (pr_hold pr) \<noteq> []"
      using pr by (auto simp: prepared_def)
    have p: "p \<in> set (pt_payments db)" "pay_status p = PS_PENDING"
      using by_session [OF records(2)] decide_records [OF records(4)] by auto
    have "r = p"
      using r by_session [OF records(2)] ok unfolding pay_ok_def by (metis unique_key_row)
    have "?q \<in> set (pt_payments db1)"
      unfolding records(5) updateStatus_def Let_def snd_conv
      using p records(3) by (auto simp: set_update_where intro!: bexI [of _ p])
    moreover have "pay_orderId ?q = pr_orderId pr" "charged ?q"
      using r(2) \<open>r = p\<close> intent by (simp_all add: charged_def withStatus_def)
    moreover have "backed db1" unfolding records(5) using b by (rule updateStatus_pending_backed) simp
    ultimately show ?thesis
      unfolding records(7) using header_authorized_backed [OF records(6)] by blast
  qed
qed

lemma capture_settle_backed:
  assumes kn: "known db read" and run: "capture_settle read result db = (Inr a, db')"
  shows "keeps_backed db db'"
  unfolding keeps_backed_def
proof (intro impI)
  assume ok: "pay_ok db" and b: "backed db"
  obtain h p where h: "find_pay_header (pay_orderId read) db = Some h"
      and p: "findByProviderSessionId (pay_providerSessionId read) db = Some p"
    using run by (auto simp: capture_settle_def act_bind_Inr split: option.splits)
  have id: "pay_id read = pay_id p" "pay_orderId read = pay_orderId p" "p \<in> set (pt_payments db)"
    using known_row [OF ok kn p] by_session [OF p] by (simp_all add: payment_moved_def)
  have moved: "backed_but {pay_orderId read} (snd (updateStatus (pay_id read) st None None db))"
    if "pay_status p = PS_AUTHORIZED" "st \<in> {PS_FAILED, PS_SUCCEEDED}" for st
    using updateStatus_order_backed [OF ok b id(3)] that id(1,2) by (auto simp: payment_can_cases)
  show "backed db'"
    using run h p moved b
    by (auto simp: capture_settle_def act_bind_Inr act_try_def markFailed_def result_simps withStatus_def
        split: capture_intent_result.splits if_splits sum.splits
        intro: header_closed_backed backed_more)
qed

lemma cancel_flip_backed:
  assumes "cancel_flip missed o1 db = (Inr a, db')"
  shows "keeps_backed db db'"
  unfolding keeps_backed_def
proof (intro impI)
  assume "backed db"
  define db1 where "db1 = (if (if missed then None else find_pay_header o1 db) = None
      then snd (insertFenced o1 db) else db)"
  have "backed db1" using \<open>backed db\<close> by (simp add: db1_def insertFenced_backed)
  then show "backed db'"
    using assms
    by (auto simp: cancel_flip_def act_bind_Inr Let_def act_try_def db1_def
        split: option.splits if_splits cancel_decision.splits sum.splits prod.splits
        intro: header_closed_backed backed_more)
qed

text \<open>Recording what became of a cancelled attempt: the order's header is shut by then.\<close>

lemma cancel_record_backed:
  assumes kn: "known db attempt" and sh: "shut db (pay_orderId attempt)"
    and run: "cancel_record attempt rel db = (Inr a, db')"
  shows "keeps_backed db db'"
  unfolding keeps_backed_def
proof (intro impI)
  assume ok: "pay_ok db" and b: "backed db"
  obtain p where p: "findByProviderSessionId (pay_providerSessionId attempt) db = Some p"
    using run by (auto simp: cancel_record_def act_bind_Inr split: option.splits)
  have order: "pay_orderId p = pay_orderId attempt" "p \<in> set (pt_payments db)"
    using known_row [OF ok kn p] by_session [OF p] by (simp_all add: payment_moved_def)
  have moved: "backed_but {pay_orderId attempt} (snd (updateStatus (pay_id p) st intent ex db))"
    if "payment_canTransition (pay_status p) st" for st intent ex
    using updateStatus_order_backed [OF ok b order(2) that] order(1) by simp
  have still: "backed (snd (updateStatus (pay_id p) st intent ex db))"
    if "payment_canTransition (pay_status p) st" for st intent ex
  proof (rule shut_backed [OF _ _ moved [OF that]])
    show "pay_ok (snd (updateStatus (pay_id p) st intent ex db))"
      using updateStatus_row_evolves [OF order(2) that ok] ok by (simp add: pay_evolves_def)
    show "shut (snd (updateStatus (pay_id p) st intent ex db)) (pay_orderId attempt)"
      using sh by (simp add: shut_def)
  qed
  have closed: "backed db'"
    if "update_pay_header (pay_orderId attempt) (Some P_CAPTURED) None
        (snd (updateStatus (pay_id p) PS_SUCCEEDED None (Some st) db)) = Inr db'"
      and "pay_status p = st" "st = PS_PENDING \<or> st = PS_AUTHORIZED" for st
    by (rule header_closed_backed [OF that(1)]) (use that(2,3) in \<open>auto intro!: moved simp: payment_can_cases\<close>)
  have pend: "backed (snd (updateStatus (pay_id p) PS_EXPIRED None (Some PS_PENDING) db))"
    using b by (rule updateStatus_pending_backed) simp
  show "backed db'"
    using run p b
    by (auto simp: cancel_record_def act_bind_Inr act_try_def payment_can_cases
        split: released.splits if_splits sum.splits
        intro: pend still closed header_closed_backed backed_more)
qed


lemma open_insert_backed:
  assumes run: "open_insert env inp session paymentId retiring db = (Inr a, db')"
  shows "keeps_backed db db'"
  unfolding keeps_backed_def
proof (intro impI)
  assume b: "backed db"
  have store: "backed db2"
    if "payment_create (osi_orderId inp) prov s am c = Inr p" "payment_insert p paymentId db1 = Inr (row, db2)"
      "backed db1" for db1 db2 p row prov s am c
    using payment_insert_backed [OF that(2) _ that(3)] payment_create_Inr [OF that(1)] by simp
  have gone: "backed (snd (updateStatus i PS_EXPIRED None (Some PS_PENDING) db))" for i
    using b by (rule updateStatus_pending_backed) simp
  show "backed db'"
    using run b gone
    by (auto simp: open_insert_def Let_def act_bind_Inr step_Inr split: option.splits if_splits intro: store)
qed

lemma insertIfStillOpen_backed: "keeps_backed db (snd (insertIfStillOpen env inp session paymentId retiring db))"
proof -
  have "snd (insertIfStillOpen env inp session paymentId retiring db) =
      snd (in_tx (open_insert env inp session paymentId retiring) db)"
    by (auto simp: insertIfStillOpen_def split: prod.splits sum.splits pay_error.splits)
  then show ?thesis using keeps_backed_tx open_insert_backed by metis
qed

lemma logged_body_backed:
  assumes "\<And>ws a db'. apply1 (db\<lparr>pt_webhooks := ws\<rparr>) = (Inr a, db') \<Longrightarrow> keeps_backed (db\<lparr>pt_webhooks := ws\<rparr>) db'"
    and "logged_body prov ev eventId apply1 db = (Inr a, db')"
  shows "keeps_backed db db'"
  unfolding keeps_backed_def
proof (intro impI)
  assume ok: "pay_ok db" and b: "backed db"
  obtain fresh db1 where 1: "insertIfNew eventId prov (ve_providerEventId ev) (ve_type ev) (ve_payload ev) db =
      Inr (fresh, db1)"
    using assms(2) by (auto simp: logged_body_def act_bind_Inr step_Inr)
  obtain ws where ws: "db1 = db\<lparr>pt_webhooks := ws\<rparr>" using insertIfNew_Inr [OF 1] by blast
  have start: "pay_ok db1" "backed db1"
    using ok b webhooks_evolve [of db ws] by (simp_all add: ws pay_evolves_def backed_but_def)
  then have applied: "backed db2" if "apply1 db1 = (Inr x, db2)" for x db2
    using assms(1) [of ws] that by (auto simp: ws keeps_backed_def)
  have marked: "backed (markProcessed eventId db2)" "backed (markSkipped eventId db2)" if "backed db2" for db2
    using that by (simp_all add: markProcessed_def markSkipped_def backed_but_def)
  show "backed db'"
    using assms(2) 1 start(2) applied marked
    by (auto simp: logged_body_def act_bind_Inr step_Inr split: if_splits)
qed

lemma pay_tx_backed: "pay_tx S db db' \<Longrightarrow> keeps_backed db db'"
proof (induction rule: pay_tx.induct)
  case (tx_log_apply db pr prov ev eventId)
  then show ?case
    by (intro keeps_backed_tx, elim logged_body_backed [rotated])
       (auto simp: act_bind_Inr intro: auth_apply_backed [where pr = pr])
next
  case (tx_log_expire db prov ev eventId i)
  then show ?case
    by (intro keeps_backed_tx, elim logged_body_backed [rotated])
       (auto simp: act_bind_Inr expire_attempt_def keeps_backed_def intro!: updateStatus_pending_backed)
next
  case (tx_note db provider ev eventId a)
  then show ?case by (intro keeps_backed_tx, elim logged_body_backed [rotated]) simp
next
  case (tx_log_only db i prov ev)
  then show ?case
    using legacy_log_webhooks [of i prov ev db] by (auto simp: keeps_backed_def backed_but_def)
next
  case (tx_log_skip db i prov ev)
  then show ?case
    using legacy_log_webhooks [of i prov ev db] by (auto simp: keeps_backed_def backed_but_def markSkipped_def)
next
  case (tx_keygen db i n)
  then show ?case by (simp add: keeps_backed_def incrementKeyGen_backed)
next
  case (tx_bump db i st)
  then show ?case by (simp add: keeps_backed_def bumpUpdatedAt_backed)
next
  case (tx_expire db i)
  then show ?case by (simp add: keeps_backed_def updateStatus_pending_backed)
next
  case (tx_void db i intent)
  then show ?case by (simp add: keeps_backed_def updateStatus_pending_backed)
next
  case (tx_sweep db cutoff limit)
  then show ?case by (simp add: keeps_backed_def deleteReceivedBefore_def Let_def backed_but_def)
next
  case (tx_tick db t)
  then show ?case by (simp add: keeps_backed_def backed_but_def)
next
  case (tx_insert session db inp env paymentId retiring)
  then show ?case by (simp add: insertIfStillOpen_backed)
qed (auto intro!: keeps_backed_tx intro: open_claim_backed auth_apply_backed capture_settle_backed
    cancel_flip_backed cancel_record_backed)

lemma path_backed: "pay_path S db db' \<Longrightarrow> pay_ok db \<Longrightarrow> backed db \<Longrightarrow> backed db'"
proof (induction rule: rtranclp_induct)
  case (step a b)
  then show ?case using pay_tx_backed [OF step(2)] path_ok [OF step(1)] by (simp add: keeps_backed_def)
qed

lemma reached_backed: "pay_leads empty_pay_db db \<Longrightarrow> backed db"
proof -
  assume "pay_leads empty_pay_db db"
  then have "pay_path UNIV empty_pay_db db" using pay_leads_path empty_pay_ok by blast
  moreover have "backed empty_pay_db" by (simp add: backed_but_def latest_def empty_pay_db_def)
  ultimately show ?thesis using path_backed empty_pay_ok by blast
qed

text \<open>So a capture finds the payment it needs.\<close>

lemma authorized_capturable:
  assumes "pay_leads empty_pay_db db" "find_pay_header o1 db = Some h" "ph_status h = P_AUTHORIZED"
  obtains p c cs where "findByOrderId o1 db = Some p" "pay_status p = PS_AUTHORIZED"
    "pay_providerIntentId p = Some (c # cs)"
proof -
  have b: "backed db" using reached_backed [OF assms(1)] .
  obtain p where p: "p \<in> set (pt_payments db)" "pay_orderId p = o1" "charged p"
    using b find_pay_header_Some [OF assms(2)] assms(3) by (auto simp: backed_but_def)
  have "findByOrderId o1 db = Some p"
    using b p by (auto simp: backed_but_def latest_def findByOrderId_def charged_def retired_def)
  moreover obtain c cs where "pay_providerIntentId p = Some (c # cs)"
    using p(3) by (auto simp: charged_def neq_Nil_conv)
  ultimately show thesis using that p(3) by (simp add: charged_def)
qed

end
