(* ===== verification/Payment_Guarantees.thy ===== *)
theory Payment_Guarantees
  imports Payment_Backing
begin

text \<open>
  The properties of the payment participant: what holds of every store it can reach, with other calls
  interleaved; and what each operation answers, against the fence tables of the internal contract, when
  nothing else runs.
\<close>


section \<open>A call by itself\<close>

definition calm :: "pay_env \<Rightarrow> bool" where
  "calm env \<longleftrightarrow> pv_gap env = (\<lambda>_ db. db)"

text \<open>A gateway that expires the sessions and voids the holds it is asked to.\<close>

definition releases :: "pay_env \<Rightarrow> bool" where
  "releases env \<longleftrightarrow> (\<forall>s. pg_expireSession (pv_gw env) s = Inr Eso_expired) \<and>
     (\<forall>i k. pg_voidIntent (pv_gw env) i k = Inr Vio_voided)"

definition pay_status_of :: "pay_db \<Rightarrow> string \<Rightarrow> payment_order_status option" where
  "pay_status_of db o1 = map_option ph_status (find_pay_header o1 db)"

definition live_attempts :: "pay_db \<Rightarrow> string \<Rightarrow> payment list" where
  "live_attempts db o1 =
     filter (\<lambda>p. pay_orderId p = o1 \<and> pay_status p \<in> {PS_PENDING, PS_AUTHORIZED}) (pt_payments db)"

lemma calm_pause [simp]: "calm env \<Longrightarrow> pause env k db = (Inr (), db)"
  by (simp add: pause_def calm_def)

lemma calm_gaps: "calm env \<Longrightarrow> gaps S env"
  by (simp add: gaps_def calm_def)

lemma session_row:
  assumes "pay_ok db" "p \<in> set (pt_payments db)"
  shows "findByProviderSessionId (pay_providerSessionId p) db = Some p"
proof -
  have "findByProviderSessionId (pay_providerSessionId p) db \<noteq> None"
    using assms(2) by (auto simp: findByProviderSessionId_def find_last_def find_where_None)
  then obtain q where q: "findByProviderSessionId (pay_providerSessionId p) db = Some q" by blast
  moreover have "q = p"
    using by_session [OF q] assms unfolding pay_ok_def by (metis unique_key_row)
  ultimately show ?thesis by simp
qed

lemma find_pay_header_updated:
  assumes "update_pay_header o1 st at db = Inr db'"
  shows "find_pay_header o1 db' = map_option (patch_header st at) (find_pay_header o1 db)"
proof -
  have "find_where (\<lambda>h. ph_orderId h = o1) (update_where (\<lambda>h. ph_orderId h = o1) (patch_header st at) (pt_headers db)) =
      map_option (\<lambda>h. if ph_orderId h = o1 then patch_header st at h else h)
        (find_where (\<lambda>h. ph_orderId h = o1) (pt_headers db))"
    by (rule find_update_where) (simp add: patch_header_def)
  then have "find_pay_header o1 db' =
      map_option (\<lambda>h. if ph_orderId h = o1 then patch_header st at h else h) (find_pay_header o1 db)"
    using update_pay_header_Inr [OF assms] by (simp add: find_pay_header_def)
  also have "\<dots> = map_option (patch_header st at) (find_pay_header o1 db)"
    by (rule map_option_cong) (simp_all add: find_pay_header_Some)
  finally show ?thesis .
qed

lemma update_pay_header_payments:
  "update_pay_header o1 st at db = Inr db' \<Longrightarrow> pt_payments db' = pt_payments db \<and> pt_outbox db' = pt_outbox db"
  by (auto dest: update_pay_header_Inr)

text \<open>Closing a header that is not fenced cannot fail.\<close>

lemma close_header:
  assumes "pay_ok db" "find_pay_header o1 db = Some h" "ph_status h \<noteq> P_FENCED"
  obtains db' where "update_pay_header o1 (Some st) None db = Inr db'"
    "pt_payments db' = pt_payments db" "pay_status_of db' o1 = Some st"
proof -
  have "x = h" if "x \<in> set (pt_headers db)" "ph_orderId x = o1" for x
    using that find_pay_header_Some [OF assms(2)] assms(1) unfolding pay_ok_def by (metis unique_key_row)
  moreover have "header_check h" using find_pay_header_Some [OF assms(2)] assms(1) unfolding pay_ok_def by blast
  ultimately have "\<not> list_ex (\<lambda>x. ph_orderId x = o1 \<and> \<not> header_check (patch_header (Some st) None x)) (pt_headers db)"
    using assms(3) by (auto simp: list_ex_iff header_check_def patch_header_def)
  then obtain db' where db': "update_pay_header o1 (Some st) None db = Inr db'"
    by (simp add: update_pay_header_def)
  with find_pay_header_updated [OF db'] update_pay_header_payments [OF db'] assms(2) that show thesis
    by (simp add: pay_status_of_def patch_header_def)
qed

text \<open>Settling a capture: the payment and then the header take what the gateway said.\<close>

lemma capture_settles:
  assumes ok: "pay_ok db" and p: "p \<in> set (pt_payments db)" "pay_status p = PS_AUTHORIZED"
    and h: "find_pay_header (pay_orderId p) db = Some h" "ph_status h = P_AUTHORIZED"
  shows "\<exists>db'. in_tx (capture_settle p result) db =
       (Inr (if result = Cir_captured then Cap_CAPTURED else Cap_NOT_CAPTURABLE), db') \<and>
     pay_status_of db' (pay_orderId p) = Some (if result = Cir_captured then P_CAPTURED else P_CANCELLED)"
proof -
  define st where "st = (if result = Cir_captured then PS_SUCCEEDED else PS_FAILED)"
  define hst where "hst = (if result = Cir_captured then P_CAPTURED else P_CANCELLED)"
  let ?db = "snd (updateStatus (pay_id p) st None None db)"
  have ok1: "pay_ok ?db"
    using updateStatus_row_evolves [OF p(1) _ ok, of st None None] p(2) ok
    by (simp add: payment_can_cases pay_evolves_def st_def)
  obtain db' where db': "update_pay_header (pay_orderId p) (Some hst) None ?db = Inr db'"
      "pay_status_of db' (pay_orderId p) = Some hst"
    using close_header [OF ok1, of "pay_orderId p" h hst] h by auto
  have "capture_settle p result db = (Inr (if result = Cir_captured then Cap_CAPTURED else Cap_NOT_CAPTURABLE), db')"
    using h p db'(1) session_row [OF ok p(1)]
    by (cases result) (simp_all add: capture_settle_def act_bind_def markCaptured_def markFailed_def mark_def
        payment_assertTransition_def payment_can_cases withStatus_def act_try_def st_def hst_def)
  with db'(2) show ?thesis by (simp add: in_tx_def hst_def)
qed

lemma refused_call:
  "call (intent_key op p) = Inl e \<Longrightarrow> \<exists>db'. withIntentKey p op call db = (Inl e, db') \<and>
     pay_status_of db' o1 = pay_status_of db o1"
  by (simp add: withIntentKey_def act_bind_def incrementKeyGen_def pay_status_of_def find_pay_header_def)

lemma live_attempt_active:
  assumes "pay_ok db" "p \<in> set (live_attempts db o1)"
  shows "findActiveByOrderIdForUpdate o1 db = Some p \<and> p \<in> set (pt_payments db) \<and>
    pay_orderId p = o1 \<and> pay_status p \<in> {PS_PENDING, PS_AUTHORIZED}"
proof -
  have p: "p \<in> set (pt_payments db)" "pay_orderId p = o1" "pay_status p \<in> {PS_PENDING, PS_AUTHORIZED}"
    using assms(2) by (auto simp: live_attempts_def)
  then have act: "active_of o1 p" by (auto simp: active_of_def retired_def)
  then have "findActiveByOrderIdForUpdate o1 db \<noteq> None"
    using p(1) unfolding findActiveByOrderIdForUpdate_def find_where_None by blast
  then obtain q where q: "findActiveByOrderIdForUpdate o1 db = Some q" by blast
  then have "q \<in> set (pt_payments db)" "active_of o1 q"
    using find_where_Some unfolding findActiveByOrderIdForUpdate_def by metis+
  then have "q = p" using act p(1,2) assms(1) unfolding pay_ok_def active_of_def by blast
  with q p show ?thesis by simp
qed

text \<open>The transaction that flips the header: the table's answer and the order's live attempt, if any.\<close>

definition live_attempt :: "string \<Rightarrow> pay_db \<Rightarrow> payment option" where
  "live_attempt o1 db = (case findActiveByOrderIdForUpdate o1 db of
     Some p \<Rightarrow> if pay_status p \<in> {PS_PENDING, PS_AUTHORIZED} then Some p else None
   | None \<Rightarrow> None)"

lemma live_attempts_one:
  assumes "pay_ok db"
  shows "set (live_attempts db o1) = set_option (live_attempt o1 db)"
proof -
  have "p \<in> set (live_attempts db o1)" if "live_attempt o1 db = Some p" for p
  proof -
    have "findActiveByOrderIdForUpdate o1 db = Some p" "pay_status p \<in> {PS_PENDING, PS_AUTHORIZED}"
      using that by (auto simp: live_attempt_def split: option.splits if_splits)
    then show ?thesis
      using find_where_Some [of "active_of o1" "pt_payments db" p]
      by (auto simp: findActiveByOrderIdForUpdate_def live_attempts_def active_of_def)
  qed
  then show ?thesis using live_attempt_active [OF assms] by (auto simp: live_attempt_def)
qed

lemma flip_finish:
  "act_bind (act_get (findActiveByOrderIdForUpdate o1)) (\<lambda>active.
     act_return (out, case active of
       Some p \<Rightarrow> if pay_status p \<in> {PS_PENDING, PS_AUTHORIZED} then Some p else None
     | None \<Rightarrow> None)) db = (Inr (out, live_attempt o1 db), db)"
  by (simp add: act_bind_def live_attempt_def)

lemma flip_fences:
  assumes "find_pay_header o1 db = None"
  shows "cancel_flip missed o1 db =
    (let db1 = snd (insertFenced o1 db) in (Inr (Can_FENCED, live_attempt o1 db1), db1)) \<and>
    pay_status_of (snd (insertFenced o1 db)) o1 = Some P_FENCED"
proof -
  have "find_pay_header o1 (snd (insertFenced o1 db)) = Some \<lparr>ph_orderId = o1, ph_status = P_FENCED,
      ph_amountMinor = None, ph_currency = None, ph_authorizedAt = None\<rparr>" "fst (insertFenced o1 db)"
    using assms by (simp_all add: insertFenced_def insert_pay_header_def find_pay_header_def row_simps)
  with assms show ?thesis
    by (simp add: cancel_flip_def Let_def flip_finish pay_status_of_def)
qed

lemma flip_reads:
  assumes "find_pay_header o1 db = Some h"
  shows "cancel_flip missed o1 db =
    (case decide_cancel (Some (ph_status h)) of
       Do_captured_conflict \<Rightarrow> (Inr (Can_CAPTURED_CONFLICT, None), db)
     | Do_cancel \<Rightarrow> (case update_pay_header o1 (Some P_CANCELLED) None db of
         Inl e \<Rightarrow> (Inl e, db) | Inr db1 \<Rightarrow> (Inr (Can_CANCELLED, live_attempt o1 db1), db1))
     | _ \<Rightarrow> (Inr (Can_IDEMPOTENT, live_attempt o1 db), db))"
proof -
  have "insertFenced o1 db = (False, db)"
    using assms by (simp add: insertFenced_def insert_pay_header_def)
  then show ?thesis
    using assms
    by (cases missed; cases "decide_cancel (Some (ph_status h))";
        cases "update_pay_header o1 (Some P_CANCELLED) None db")
       (simp_all add: cancel_flip_def Let_def act_bind_def live_attempt_def act_try_def)
qed

lemma cancel_flips:
  assumes ok: "pay_ok db"
  shows "\<exists>attempt db'. in_tx (cancel_flip missed o1) db =
       (Inr (fst (payment_fence_cancel (pay_status_of db o1)), attempt), db') \<and>
     pay_status_of db' o1 = snd (payment_fence_cancel (pay_status_of db o1)) \<and>
     attempt = (if pay_status_of db o1 = Some P_CAPTURED then None else live_attempt o1 db')"
proof (cases "find_pay_header o1 db")
  case None
  then show ?thesis using flip_fences [OF None, of missed] by (simp add: in_tx_def pay_status_of_def Let_def)
next
  case (Some h)
  obtain db1 where "ph_status h \<noteq> P_FENCED \<Longrightarrow> update_pay_header o1 (Some P_CANCELLED) None db = Inr db1 \<and>
      pay_status_of db1 o1 = Some P_CANCELLED"
    using close_header [OF ok Some, of P_CANCELLED] by blast
  then show ?thesis using flip_reads [OF Some, of missed] Some
    by (cases "ph_status h") (simp_all add: in_tx_def pay_status_of_def)
qed

section \<open>A paid order\<close>

definition card_gw :: pay_gateway where
  "card_gw = \<lparr>pg_provider = ''stripe'',
     pg_createSession = (\<lambda>o1 a c e. Inr \<lparr>gs_providerSessionId = ''cs_1'', gs_redirectUrl = None, gs_clientSecret = None\<rparr>),
     pg_retrieveAuthorization = (\<lambda>s. Inr \<lparr>sa_sessionStatus = Session_complete, sa_redirectUrl = None,
       sa_intentId = Some ''pi_1'', sa_intentStatus = Some Int_requires_capture,
       sa_amountCapturableMinor = Some 500, sa_currency = Some ''vnd''\<rparr>),
     pg_expireSession = (\<lambda>s. Inr Eso_expired),
     pg_captureIntent = (\<lambda>i k. Inr Cir_captured),
     pg_voidIntent = (\<lambda>i k. Inr Vio_voided)\<rparr>"

definition card_env :: pay_env where
  "card_env = \<lparr>pv_gw = card_gw, pv_mintId = Some ''11'', pv_mintOutbox = Some ''12'', pv_now = 1000,
     pv_gap = (\<lambda>_ db. db)\<rparr>"

definition card_order :: open_session_input where
  "card_order = \<lparr>osi_orderId = ''30'', osi_amountMinor = 500, osi_currency = ''vnd'', osi_expiresAt = 100000\<rparr>"

definition card_event :: valid_event where
  "card_event = \<lparr>ve_providerEventId = ''evt_1'', ve_type = ''checkout.session.completed'',
     ve_payload = JObject [(''data'', JObject [(''object'', JObject [(''id'', JString ''cs_1'')])])]\<rparr>"

definition card_payment :: payment where
  "card_payment = \<lparr>pay_id = Some ''11'', pay_orderId = ''30'', pay_provider = ''stripe'',
     pay_providerSessionId = ''cs_1'', pay_providerIntentId = None, pay_amountMinor = 500,
     pay_currency = ''VND'', pay_status = PS_PENDING, pay_stripeKeyGen = 0, pay_updatedAt = 0\<rparr>"

definition opened_db :: pay_db where
  "opened_db = \<lparr>pt_payments = [card_payment],
     pt_headers = [\<lparr>ph_orderId = ''30'', ph_status = P_OPEN, ph_amountMinor = Some 500,
       ph_currency = Some ''VND'', ph_authorizedAt = None\<rparr>],
     pt_outbox = [], pt_webhooks = [], pt_clock = 0\<rparr>"

definition paid_db :: pay_db where
  "paid_db = \<lparr>pt_payments = [card_payment\<lparr>pay_providerIntentId := Some ''pi_1'', pay_status := PS_AUTHORIZED\<rparr>],
     pt_headers = [\<lparr>ph_orderId = ''30'', ph_status = P_AUTHORIZED, ph_amountMinor = Some 500,
       ph_currency = Some ''VND'', ph_authorizedAt = Some 1000\<rparr>],
     pt_outbox = [\<lparr>ae_id = ''12'', ae_paymentId = ''11'', ae_orderId = ''30'', ae_amountMinor = 500,
       ae_currency = ''VND'', ae_authorizedAt = 1000\<rparr>],
     pt_webhooks = [\<lparr>we_id = ''11'', we_provider = ''stripe'', we_providerEventId = ''evt_1'',
       we_type = ''checkout.session.completed'',
       we_payload = JObject [(''data'', JObject [(''object'', JObject [(''id'', JString ''cs_1'')])])],
       we_status = Wh_PROCESSED, we_receivedAt = 0, we_processedAt = Some 0\<rparr>],
     pt_clock = 0\<rparr>"

lemma card_opens: "pay_exec (Do_open_session card_env 0 card_order) empty_pay_db = opened_db"
  by code_simp

lemma card_pays: "pay_exec (Do_webhook card_env (Valid_event card_event)) opened_db = paid_db"
  by code_simp

lemma card_calm: "calm card_env" "releases card_env" "pg_captureIntent (pv_gw card_env) i k = Inr Cir_captured"
  by (simp_all add: calm_def releases_def card_env_def card_gw_def)

lemma opened_reached: "pay_leads empty_pay_db opened_db"
proof -
  have "fresh_session card_env 0 card_order empty_pay_db" by code_simp
  then have "pay_fair (Do_open_session card_env 0 card_order) empty_pay_db"
    using calm_gaps [OF card_calm(1)] by simp
  from leads_step [OF leads_stop this] show ?thesis by (simp only: card_opens)
qed

lemma paid_after_opened: "pay_leads opened_db paid_db"
  using leads_step [OF leads_stop, of "Do_webhook card_env (Valid_event card_event)" opened_db]
    calm_gaps [OF card_calm(1)] by (simp only: card_pays pay_fair.simps)

lemma paid_reached: "pay_leads empty_pay_db paid_db"
  using leads_step [OF opened_reached, of "Do_webhook card_env (Valid_event card_event)"]
    calm_gaps [OF card_calm(1)] by (simp only: card_pays pay_fair.simps)

lemma card_status:
  "pay_status_of opened_db ''30'' = Some P_OPEN" "pay_status_of paid_db ''30'' = Some P_AUTHORIZED"
  "card_payment \<in> set (pt_payments opened_db)"
proof -
  show "pay_status_of opened_db ''30'' = Some P_OPEN" by code_simp
  show "pay_status_of paid_db ''30'' = Some P_AUTHORIZED" by code_simp
  show "card_payment \<in> set (pt_payments opened_db)" by (simp add: opened_db_def)
qed



section \<open>What each operation answers\<close>

text \<open> C20: capture implements the contract's fence table. On any reachable store, with no other call
  interleaving: unless the order's header is AUTHORIZED, \<open>capture\<close> answers what the table says for it
  and the store is as it was. Under an AUTHORIZED header the order's newest payment is AUTHORIZED and
  carries an intent, the gateway is asked to capture that intent, and: when it captures, the answer and
  the header are the table's; when it says the intent cannot be captured, the answer is NOT_CAPTURABLE
  and the header is CANCELLED; when it fails, so does the call, and the header is still AUTHORIZED. \<close>

theorem capture_refines_contract:
  assumes "pay_leads empty_pay_db db" and "calm env"
  shows "\<exists>r db'. capture_execute env o1 db = (r, db') \<and>
     (if pay_status_of db o1 \<noteq> Some P_AUTHORIZED
      then (r, pay_status_of db' o1) = map_prod Inr id (payment_fence_capture (pay_status_of db o1)) \<and> db' = db
      else \<exists>p i. findByOrderId o1 db = Some p \<and> pay_status p = PS_AUTHORIZED \<and> pay_providerIntentId p = Some i \<and>
        (case pg_captureIntent (pv_gw env) i (intent_key ''capture'' p) of
           Inr Cir_captured \<Rightarrow>
             (r, pay_status_of db' o1) = map_prod Inr id (payment_fence_capture (pay_status_of db o1))
         | Inr (Cir_not_capturable _) \<Rightarrow> r = Inr Cap_NOT_CAPTURABLE \<and> pay_status_of db' o1 = Some P_CANCELLED
         | Inl e \<Rightarrow> r = Inl e \<and> pay_status_of db' o1 = Some P_AUTHORIZED))"
proof (cases "pay_status_of db o1 = Some P_AUTHORIZED")
  case True
  then obtain h where h: "find_pay_header o1 db = Some h" "ph_status h = P_AUTHORIZED"
    by (auto simp: pay_status_of_def)
  obtain p c cs where p: "findByOrderId o1 db = Some p" "pay_status p = PS_AUTHORIZED"
      "pay_providerIntentId p = Some (c # cs)"
    using authorized_capturable [OF assms(1) h] .
  have row: "p \<in> set (pt_payments db)" "find_pay_header (pay_orderId p) db = Some h" "pay_orderId p = o1"
    using by_order [OF p(1)] h(1) by simp_all
  have run: "capture_execute env o1 db =
      (case withIntentKey p ''capture'' (pg_captureIntent (pv_gw env) (c # cs)) db of
         (Inl e, db1) \<Rightarrow> (Inl e, db1) | (Inr a, db1) \<Rightarrow> in_tx (capture_settle p a) db1)"
    using h p assms(2) by (simp add: capture_execute_def act_bind_def split: prod.splits sum.splits)
  show ?thesis
  proof (cases "pg_captureIntent (pv_gw env) (c # cs) (intent_key ''capture'' p)")
    case (Inl e)
    then obtain db1 where "withIntentKey p ''capture'' (pg_captureIntent (pv_gw env) (c # cs)) db = (Inl e, db1)"
        "pay_status_of db1 o1 = Some P_AUTHORIZED"
      using refused_call [of "pg_captureIntent (pv_gw env) (c # cs)"] True by metis
    then show ?thesis using run True p Inl by auto
  next
    case (Inr a)
    then have "capture_execute env o1 db = in_tx (capture_settle p a) db" using run by (simp add: withIntentKey_def)
    then show ?thesis
      using capture_settles [OF reached_ok [OF assms(1)] row(1) p(2) row(2) h(2), of a] Inr True p row(3)
      by (cases a) auto
  qed
next
  case False
  then show ?thesis
    by (cases "pay_status_of db o1"; cases "the (pay_status_of db o1)")
       (auto simp: capture_execute_def act_bind_def pay_status_of_def)
qed

theorem capture_refines_contract_witness:
  "\<exists>db'. capture_execute card_env ''30'' paid_db = (Inr Cap_CAPTURED, db') \<and>
     pay_status_of db' ''30'' = Some P_CAPTURED"
  using capture_refines_contract [OF paid_reached card_calm(1), of "''30''"]
  by (auto simp: card_status card_calm(3))

text \<open>Releasing the attempt at a gateway that lets go of it, then recording that.\<close>

lemma live_after_update:
  assumes ok: "pay_ok db" and p: "live_attempt o1 db = Some p" and st: "st \<notin> {PS_PENDING, PS_AUTHORIZED}"
  shows "live_attempts (snd (updateStatus (pay_id p) st intent (Some (pay_status p)) db)) o1 = []"
proof -
  have live: "set (live_attempts db o1) = {p}" using live_attempts_one [OF ok] p by simp
  have "x \<notin> set (live_attempts (snd (updateStatus (pay_id p) st intent (Some (pay_status p)) db)) o1)" for x
  proof
    assume "x \<in> set (live_attempts (snd (updateStatus (pay_id p) st intent (Some (pay_status p)) db)) o1)"
    then obtain y where y: "y \<in> set (pt_payments db)"
        "x = (if pay_id y = pay_id p \<and> pay_status y = pay_status p
          then (withStatus y st intent)\<lparr>pay_updatedAt := pt_clock db\<rparr> else y)"
        "pay_orderId x = o1" "pay_status x \<in> {PS_PENDING, PS_AUTHORIZED}"
      by (auto simp: live_attempts_def updateStatus_def Let_def set_update_where)
    then have "x = y" using st by (auto simp: withStatus_def split: if_splits)
    then have "y \<in> set (live_attempts db o1)" using y by (auto simp: live_attempts_def)
    then have "y = p" using live by simp
    then show False using y st by (auto simp: withStatus_def)
  qed
  then show ?thesis by (metis list.set_intros(1) neq_Nil_conv)
qed

text \<open>What the release of a live attempt may leave, whatever the gateway answers.\<close>

lemma refused_hold:
  assumes "voidHold env p i db = (r, db1)"
  shows "case r of Inl e \<Rightarrow> pay_status_of db1 o1 = pay_status_of db o1 | Inr rel \<Rightarrow> db1 = db \<and> rel \<noteq> Rel_EXPIRED"
proof (cases "pg_voidIntent (pv_gw env) i (intent_key ''void'' p)")
  case (Inl e)
  then show ?thesis
    using assms refused_call [of "pg_voidIntent (pv_gw env) i" "''void''" p e db o1]
    by (auto simp: voidHold_def act_bind_def)
qed (use assms in \<open>auto simp: voidHold_def withIntentKey_def act_bind_def\<close>)

lemma released_attempt:
  assumes "cancel_release env p db = (r, db1)"
  shows "case r of Inl e \<Rightarrow> pay_status_of db1 o1 = pay_status_of db o1
    | Inr rel \<Rightarrow> db1 = db \<and> (rel = Rel_EXPIRED \<longrightarrow> pay_status p \<noteq> PS_AUTHORIZED)"
proof (cases "pay_status p = PS_AUTHORIZED")
  case True
  then show ?thesis using assms refused_hold [of env p "the (pay_providerIntentId p)" db r db1 o1]
    by (cases r) (simp_all add: cancel_release_def)
next
  case False
  then show ?thesis
    using assms refused_hold [of env p _ db r db1 o1]
    by (cases r) (auto simp: cancel_release_def act_bind_def split: sum.splits if_splits option.splits intent_status.splits)
qed

lemma releases_releases:
  assumes "releases env"
  obtains rel where "cancel_release env p db = (Inr rel, db)" "rel \<noteq> Rel_CAPTURED"
  using assms by (cases "pay_status p = PS_AUTHORIZED")
    (auto simp: cancel_release_def voidHold_def withIntentKey_def releases_def act_bind_def)

text \<open>Recording it leaves the order without a live attempt, and only a capture changes the header.\<close>

lemma recorded_attempt:
  assumes ok: "pay_ok db" and p: "live_attempt o1 db = Some p"
    and rel: "rel = Rel_EXPIRED \<longrightarrow> pay_status p \<noteq> PS_AUTHORIZED"
  shows "\<exists>db'. in_tx (cancel_record p rel) db = (Inr (rel = Rel_CAPTURED), db') \<and> live_attempts db' o1 = [] \<and>
     pay_status_of db' o1 = (if rel = Rel_CAPTURED then Some P_CAPTURED else pay_status_of db o1)"
proof -
  have row: "p \<in> set (pt_payments db)" "pay_orderId p = o1" "pay_status p \<in> {PS_PENDING, PS_AUTHORIZED}"
    using live_attempts_one [OF ok, of o1] p by (auto simp: live_attempts_def)
  have found: "findByProviderSessionId (pay_providerSessionId p) db = Some p" using session_row [OF ok row(1)] .
  let ?upd = "\<lambda>st intent. snd (updateStatus (pay_id p) st intent (Some (pay_status p)) db)"
  have none: "live_attempts (?upd st intent) o1 = []" if "st \<notin> {PS_PENDING, PS_AUTHORIZED}" for st intent
    by (rule live_after_update [OF ok p that])
  have same: "pay_status_of (?upd st intent) o1 = pay_status_of db o1" for st intent
    by (simp add: pay_status_of_def)
  show ?thesis
  proof (cases rel)
    case Rel_EXPIRED
    then have "pay_status p = PS_PENDING" using rel row(3) by simp
    then have "in_tx (cancel_record p rel) db = (Inr False, ?upd PS_EXPIRED None)"
      using found Rel_EXPIRED by (simp add: in_tx_def cancel_record_def act_bind_def)
    with none [of PS_EXPIRED] same Rel_EXPIRED show ?thesis by simp
  next
    case (Rel_VOIDED i)
    then have "in_tx (cancel_record p rel) db = (Inr False, ?upd PS_VOIDED i)"
      using found row(3) by (auto simp: in_tx_def cancel_record_def act_bind_def)
    with none [of PS_VOIDED] same Rel_VOIDED show ?thesis by simp
  next
    case Rel_CAPTURED
    let ?db = "?upd PS_SUCCEEDED None"
    have ok1: "pay_ok ?db"
      using updateStatus_row_evolves [OF row(1) _ ok, of PS_SUCCEEDED None "Some (pay_status p)"] row(3) ok
      by (auto simp: payment_can_cases pay_evolves_def)
    obtain h where h: "h \<in> set (pt_headers db)" "ph_orderId h = o1" "ph_status h \<noteq> P_FENCED"
      using ok row(1,2) unfolding pay_ok_def by blast
    then have "find_pay_header o1 ?db = Some h"
      using find_where_key [of ph_orderId "pt_headers db" h] ok by (simp add: pay_ok_def find_pay_header_def)
    then obtain db' where db': "update_pay_header o1 (Some P_CAPTURED) None ?db = Inr db'"
        "pt_payments db' = pt_payments ?db" "pay_status_of db' o1 = Some P_CAPTURED"
      using close_header [OF ok1 _ h(3)] by metis
    have "live_attempts db' o1 = []" using none [of PS_SUCCEEDED] db'(2) by (simp add: live_attempts_def)
    moreover have "in_tx (cancel_record p rel) db = (Inr True, db')"
      using found row(2,3) db'(1) Rel_CAPTURED
      by (auto simp: in_tx_def cancel_record_def act_bind_def act_try_def)
    ultimately show ?thesis using db'(3) Rel_CAPTURED by simp
  qed
qed



lemma closed_session:
  assumes "pay_status_of db (osi_orderId inp) = Some st" and "st \<noteq> P_OPEN"
  shows "open_execute env lead inp db = (Inr Closed, db)"
proof -
  obtain h where h: "find_pay_header (osi_orderId inp) db = Some h" "ph_status h = st"
    using assms(1) by (auto simp: pay_status_of_def)
  then have "insertOpen (osi_orderId inp) a c db = (False, db)" for a c
    by (simp add: insertOpen_def insert_pay_header_def)
  then have "in_tx (open_claim inp) db = (Inr None, db)"
    using h assms(2) by (cases st) (simp_all add: open_claim_def in_tx_def act_bind_def Let_def)
  then show ?thesis by (simp add: open_execute_def open_before_def act_bind_def)
qed

text \<open> C0: an open after the fence is closed never creates a session. When the order's header is
  anything but OPEN, \<open>openSession\<close> answers CLOSED, and the store is as it was. \<close>

theorem closed_order_refuses_session:
  assumes "pay_status_of db (osi_orderId inp) = Some st" and "st \<noteq> P_OPEN"
  shows "open_execute env lead inp db = (Inr Closed, db) \<and>
     payment_fence_open (Some st) = (Ses_CLOSED, Some st)"
  using closed_session [OF assms] assms(2) by (cases st) simp_all

theorem closed_order_refuses_session_witness:
  "open_execute card_env 0 card_order paid_db = (Inr Closed, paid_db)"
  using closed_order_refuses_session [of paid_db card_order P_AUTHORIZED card_env 0]
  by (simp add: card_status card_order_def)

text \<open> C18: cancel wins. Once an order's header is anything but OPEN, no attempt is ever added to the
  order again, whatever calls follow and however they interleave, and the header never returns to OPEN. \<close>

theorem closed_header_stays_closed:
  assumes "pay_leads empty_pay_db db" and "pay_status_of db o1 = Some st" and "st \<noteq> P_OPEN"
    and "pay_leads db db'"
  shows "attempts o1 db' = attempts o1 db \<and> pay_status_of db' o1 \<notin> {None, Some P_OPEN}"
proof -
  have ok: "pay_ok db" using assms(1) by (rule reached_ok)
  obtain h where h: "find_pay_header o1 db = Some h" "ph_status h = st"
    using assms(2) by (auto simp: pay_status_of_def)
  obtain h' where h': "h' \<in> set (pt_headers db')" "header_moved db db' h h'" and ok': "pay_ok db'"
    using pay_leads_evolves [OF assms(4) ok] find_pay_header_Some [OF h(1)] unfolding pay_grows_def by blast
  have "ph_orderId h = o1" using find_pay_header_Some [OF h(1)] by simp
  then have moved: "ph_orderId h' = o1" "ph_status h' \<noteq> P_OPEN" "attempts o1 db' = attempts o1 db"
    using h' h(2) assms(3) by (auto simp: header_moved_def)
  have "find_pay_header o1 db' = Some h'"
    using find_where_key [of ph_orderId "pt_headers db'" h'] h'(1) ok' moved(1)
    by (simp add: pay_ok_def find_pay_header_def)
  then show ?thesis using moved by (simp add: pay_status_of_def)
qed

theorem closed_header_stays_closed_witness:
  "attempts ''30'' (pay_exec (Do_cancel_order card_env False ''30'') paid_db) = [Some ''11'']"
proof -
  have "pay_leads paid_db (pay_exec (Do_cancel_order card_env False ''30'') paid_db)"
    using leads_step [OF leads_stop, of "Do_cancel_order card_env False ''30''" paid_db]
      calm_gaps [OF card_calm(1)] by simp
  moreover have "attempts ''30'' paid_db = [Some ''11'']" by code_simp
  ultimately show ?thesis
    using closed_header_stays_closed [OF paid_reached card_status(2)] by simp
qed

text \<open> C0: an order is authorized at most once. Over any calls and interleavings, an order's
  \<open>payment.authorized\<close> is written at most once, exactly when its header carries the authorization
  instant, and with the amount the first open locked in the header. \<close>

theorem authorized_at_most_once:
  assumes "pay_leads empty_pay_db db"
  shows "authorizations o1 db = (case find_pay_header o1 db of
       Some h \<Rightarrow> if ph_authorizedAt h = None then 0 else 1 | None \<Rightarrow> 0) \<and>
     list_all (\<lambda>e. ae_orderId e = o1 \<longrightarrow>
       map_option ph_amountMinor (find_pay_header o1 db) = Some (Some (ae_amountMinor e))) (pt_outbox db)"
proof (cases "find_pay_header o1 db")
  case None
  have ok: "pay_ok db" using assms by (rule reached_ok)
  have "authorizations o1 db = 0" using authorizations_none [OF ok None] .
  then show ?thesis using None
    by (auto simp: authorizations_def count_where_def filter_empty_conv list_all_iff)
next
  case (Some h)
  have ok: "pay_ok db" using assms by (rule reached_ok)
  have h: "h \<in> set (pt_headers db)" "ph_orderId h = o1" using find_pay_header_Some [OF Some] by auto
  have "authorizations o1 db = stamped h" using ok h unfolding pay_ok_def by blast
  moreover have "ph_amountMinor h = Some (ae_amountMinor e)"
    if e: "e \<in> set (pt_outbox db)" "ae_orderId e = o1" for e
  proof -
    obtain x where "x \<in> set (pt_headers db)" "ph_orderId x = o1" "ph_amountMinor x = Some (ae_amountMinor e)"
      using ok e unfolding pay_ok_def by blast
    moreover from this have "x = h" using ok h unfolding pay_ok_def by (metis unique_key_row)
    ultimately show ?thesis by simp
  qed
  ultimately show ?thesis using Some by (simp add: stamped_def list_all_iff)
qed

theorem authorized_at_most_once_witness: "authorizations ''30'' paid_db = 1"
proof -
  have "find_pay_header ''30'' paid_db = Some \<lparr>ph_orderId = ''30'', ph_status = P_AUTHORIZED,
      ph_amountMinor = Some 500, ph_currency = Some ''VND'', ph_authorizedAt = Some 1000\<rparr>" by code_simp
  then show ?thesis using authorized_at_most_once [OF paid_reached, of "''30''"] by simp
qed

text \<open> C21: a payment only ever moves along its state machine. Whatever calls run between two states of
  the store, a payment of the first is still there, with the id, order, session, amount and currency it
  had, in a status the machine leads to; one in a terminal status keeps it. \<close>

theorem payments_move_legally:
  assumes "pay_leads empty_pay_db db" and "p \<in> set (pt_payments db)" and "pay_leads db db'"
  shows "\<exists>q \<in> set (pt_payments db'). payment_moved p q \<and>
     (payment_terminal (pay_status p) \<longrightarrow> pay_status q = pay_status p)"
proof -
  obtain q where "q \<in> set (pt_payments db')" "payment_moved p q"
    using pay_leads_evolves [OF assms(3) reached_ok [OF assms(1)]] assms(2) unfolding pay_grows_def by blast
  moreover from this(2) have "payment_terminal (pay_status p) \<longrightarrow> pay_status q = pay_status p"
    using payment_machine.terminal_final by (auto simp: payment_moved_def)
  ultimately show ?thesis by blast
qed


theorem payments_move_legally_witness:
  "\<exists>q \<in> set (pt_payments paid_db). payment_moved card_payment q"
  using payments_move_legally [OF opened_reached card_status(3) paid_after_opened] by blast

section \<open>Idempotency keys and redelivery\<close>

text \<open>Retrying an intent call of one payment: each attempt reads the payment's row again and presents its key.\<close>

fun keys_presented :: "string \<Rightarrow> string option \<Rightarrow> (string \<Rightarrow> 'a pay_result) list \<Rightarrow> pay_db \<Rightarrow> string list" where
  "keys_presented op i [] db = []"
| "keys_presented op i (call # calls) db =
     (case find_where (\<lambda>p. pay_id p = i) (pt_payments db) of
        None \<Rightarrow> []
      | Some p \<Rightarrow> intent_key op p # keys_presented op i calls (snd (withIntentKey p op call db)))"

definition unsure :: "(string \<Rightarrow> 'a pay_result) \<Rightarrow> bool" where
  "unsure call \<longleftrightarrow> (\<forall>k. call k \<noteq> Inl (PayGatewayError True))"

lemma withIntentKey_unsure: "call (intent_key op p) \<noteq> Inl (PayGatewayError True) \<Longrightarrow>
    snd (withIntentKey p op call db) = db"
  by (simp add: withIntentKey_def split: sum.splits)

text \<open> C23: a retry never asks for the money twice. As long as the gateway has not said that a call was
  certainly not applied, every retry of a capture or void of a payment presents the same idempotency key. \<close>

theorem retries_present_one_key:
  assumes "find_where (\<lambda>p. pay_id p = i) (pt_payments db) = Some p" and "list_all unsure calls"
  shows "keys_presented op i calls db = replicate (length calls) (intent_key op p)"
  using assms
proof (induction calls)
  case (Cons call calls)
  then have "snd (withIntentKey p op call db) = db" by (intro withIntentKey_unsure) (simp add: unsure_def)
  with Cons show ?case by simp
qed simp

theorem retries_present_one_key_witness:
  "keys_presented ''capture'' (Some ''11'') [\<lambda>_. Inl (PayGatewayError False), \<lambda>_. Inr Cir_captured] paid_db =
     [''capture:11:0'', ''capture:11:0'']"
proof -
  let ?p = "card_payment\<lparr>pay_providerIntentId := Some ''pi_1'', pay_status := PS_AUTHORIZED\<rparr>"
  have "find_where (\<lambda>p. pay_id p = Some ''11'') (pt_payments paid_db) = Some ?p" by code_simp
  moreover have "intent_key ''capture'' ?p = ''capture:11:0''" by code_simp
  ultimately show ?thesis
    using retries_present_one_key [of "Some ''11''" paid_db ?p
        "[\<lambda>_. Inl (PayGatewayError False), \<lambda>_. Inr Cir_captured]" "''capture''"]
    by (simp add: unsure_def eval_nat_numeral)
qed

lemma insertIfNew_seen:
  "list_ex (same_event prov (ve_providerEventId ev)) (pt_webhooks db) \<Longrightarrow>
     insertIfNew i prov (ve_providerEventId ev) ty pl db = Inr (False, db)"
  by (simp add: insertIfNew_def)

text \<open>What a void the gateway refuses may touch: the payment's idempotency key generation, with the stamp
  of that write.\<close>

definition rekeyed :: "payment \<Rightarrow> payment \<Rightarrow> bool" where
  "rekeyed p q \<longleftrightarrow> pay_stripeKeyGen p \<le> pay_stripeKeyGen q \<and>
     q = p\<lparr>pay_stripeKeyGen := pay_stripeKeyGen q, pay_updatedAt := pay_updatedAt q\<rparr>"

definition same_money :: "pay_db \<Rightarrow> pay_db \<Rightarrow> bool" where
  "same_money db db' \<longleftrightarrow> list_all2 rekeyed (pt_payments db) (pt_payments db') \<and>
     pt_headers db' = pt_headers db \<and> pt_outbox db' = pt_outbox db \<and> pt_webhooks db' = pt_webhooks db"

lemma same_money_refl [simp]: "same_money db db"
  by (simp add: same_money_def rekeyed_def list.rel_refl)

lemma withIntentKey_same_money: "withIntentKey p op call db = (r, db') \<Longrightarrow> same_money db db'"
  by (auto simp: withIntentKey_def same_money_def incrementKeyGen_def update_where_def rekeyed_def
      list_all2_map2 list_all2_same act_bind_def split: sum.splits if_splits)

lemma auth_prepare_same_money:
  "calm env \<Longrightarrow> auth_prepare env p hold at db = (r, db') \<Longrightarrow> same_money db db'"
  by (auto simp: auth_prepare_def act_bind_def Let_def voidStray_def mintOne_def
      split: option.splits if_splits authorization_decision.splits prod.splits sum.splits
      dest: withIntentKey_same_money)

lemma logged_body_seen:
  "list_ex (same_event prov (ve_providerEventId ev)) (pt_webhooks db) \<Longrightarrow>
     in_tx (logged_body prov ev i body) db = (Inr App_duplicate, db)"
  by (simp add: in_tx_def logged_body_def act_bind_def insertIfNew_seen)

lemma same_money_seen:
  "same_money db db' \<Longrightarrow> list_ex P (pt_webhooks db') \<longleftrightarrow> list_ex P (pt_webhooks db)"
  by (simp add: same_money_def)

text \<open> C22: a redelivered webhook applies nothing. When the event is already in the webhook log, handling
  it again, with no other call interleaving, adds and removes no payment, changes no header, no outgoing
  event and not the log, and of a payment changes nothing but the generation of its idempotency key (with
  that write's stamp), which a stray hold's void the gateway refuses may raise - whatever the gateway
  answers meanwhile. \<close>

theorem redelivery_applies_nothing:
  assumes "list_ex (same_event (pg_provider (pv_gw env)) (ve_providerEventId ev)) (pt_webhooks db)"
    and "calm env"
  shows "same_money db (snd (webhook_execute env (Valid_event ev) db))"
proof -
  have logged: "in_tx (logged_body (pg_provider (pv_gw env)) ev i body) db1 = (Inr App_duplicate, db1)"
    if "same_money db db1" for i body db1
    using logged_body_seen assms(1) same_money_seen [OF that] by blast
  have completed: "same_money db (snd (webhook_completed env ev p db))" for p
  proof (cases "pg_retrieveAuthorization (pv_gw env) (pay_providerSessionId p)")
    case (Inr a)
    show ?thesis
    proof (cases "heldCharge a")
      case None
      then show ?thesis using Inr assms(2) logged
        by (auto simp: webhook_completed_def act_bind_def mintOne_def split: option.splits)
    next
      case (Some hold)
      obtain r db1 where p: "auth_prepare env p hold (pv_now env) db = (r, db1)" by fastforce
      with auth_prepare_same_money [OF assms(2) p] show ?thesis using Inr Some assms(2) logged
        by (auto simp: webhook_completed_def act_bind_def mintOne_def split: option.splits sum.splits)
    qed
  qed (simp add: webhook_completed_def act_bind_def)
  have expired: "same_money db (snd (webhook_expired env ev p db))" for p
    using assms(2) logged by (auto simp: webhook_expired_def act_bind_def mintOne_def split: option.splits)
  have tcc: "same_money db db1 \<and> (r = Inr None \<longrightarrow> db1 = db)" if "tcc_webhook_execute env ev db = (r, db1)" for r db1
    using that completed expired
    by (auto simp: tcc_webhook_execute_def act_bind_def split: option.splits if_splits prod.splits sum.splits)
       (metis snd_conv)+
  have legacy: "insertIfNew i (pg_provider (pv_gw env)) (ve_providerEventId ev) ty pl db = Inr (False, db)" for i ty pl
    using assms(1) by (rule insertIfNew_seen)
  obtain r db1 where r: "tcc_webhook_execute env ev db = (r, db1)" by fastforce
  show ?thesis
    using r tcc [OF r] assms(2) legacy
    by (cases r) (auto simp: webhook_execute_def act_bind_def in_tx_def mintOne_def split: option.splits)
qed

theorem redelivery_applies_nothing_witness:
  "same_money paid_db (snd (webhook_execute card_env (Valid_event card_event) paid_db))"
proof -
  have "list_ex (same_event (pg_provider (pv_gw card_env)) (ve_providerEventId card_event)) (pt_webhooks paid_db)"
    by code_simp
  from redelivery_applies_nothing [OF this card_calm(1)] show ?thesis .
qed

end
