(* ===== verification/Payment_Order.thy ===== *)
theory Payment_Order
  imports Payment_Guarantees
begin

text \<open>
  What the payment-service holds of one order, and what keeps it: a transaction that does not open a
  session for the order, take its money or let go of it can only authorize, expire or void a pending
  attempt; and the order's own commands, run by themselves, answer what the payment participant promises
  the checkout saga.
\<close>


section \<open>What others can change of an order\<close>

definition frame :: "string \<Rightarrow> pay_db \<Rightarrow> pay_db \<Rightarrow> bool" where
  "frame o1 db db' \<longleftrightarrow>
     (pay_status_of db' o1 = pay_status_of db o1 \<or>
      pay_status_of db o1 = Some P_OPEN \<and> pay_status_of db' o1 = Some P_AUTHORIZED) \<and>
     (\<forall>q \<in> set (pt_payments db'). pay_orderId q = o1 \<longrightarrow> (\<exists>p \<in> set (pt_payments db). pay_orderId p = o1 \<and>
        (pay_status q = pay_status p \<or>
         pay_status p = PS_PENDING \<and> pay_status q \<in> {PS_AUTHORIZED, PS_EXPIRED, PS_VOIDED})))"

lemma frame_refl [simp]: "frame o1 db db"
  by (auto simp: frame_def)

lemma frame_trans [trans]: "frame o1 a b \<Longrightarrow> frame o1 b c \<Longrightarrow> frame o1 a c"
  unfolding frame_def by (elim conjE, intro conjI) (auto, (metis payment_status.distinct)+)

lemma frame_same:
  assumes "pt_payments db' = pt_payments db" "pt_headers db' = pt_headers db"
  shows "frame o1 db db'"
  using assms by (auto simp: frame_def pay_status_of_def find_pay_header_def)

lemma frame_same_headers:
  assumes "pt_headers db' = pt_headers db"
    and "\<And>q. q \<in> set (pt_payments db') \<Longrightarrow> pay_orderId q = o1 \<Longrightarrow> \<exists>p \<in> set (pt_payments db). pay_orderId p = o1 \<and>
        (pay_status q = pay_status p \<or>
         pay_status p = PS_PENDING \<and> pay_status q \<in> {PS_AUTHORIZED, PS_EXPIRED, PS_VOIDED})"
  shows "frame o1 db db'"
  using assms by (auto simp: frame_def pay_status_of_def find_pay_header_def)

lemma frame_pending:
  assumes "st \<in> {PS_AUTHORIZED, PS_EXPIRED, PS_VOIDED}"
  shows "frame o1 db (snd (updateStatus i st intent (Some PS_PENDING) db))"
  using assms
  by (intro frame_same_headers) (auto simp: updateStatus_def Let_def set_update_where withStatus_def split: if_splits)

lemma frame_elsewhere:
  assumes "\<And>p. p \<in> set (pt_payments db) \<Longrightarrow> pay_id p = i \<Longrightarrow> pay_orderId p \<noteq> o1"
  shows "frame o1 db (snd (updateStatus i st intent ex db))"
  using assms
  by (intro frame_same_headers) (force simp: updateStatus_def Let_def set_update_where withStatus_def split: if_splits)+

lemma frame_bump [simp]: "frame o1 db (bumpUpdatedAt i st db)"
  by (rule frame_same_headers) (auto simp: bumpUpdatedAt_def set_update_where split: if_splits)

lemma frame_keygen [simp]: "frame o1 db (incrementKeyGen i n db)"
  by (rule frame_same_headers) (auto simp: incrementKeyGen_def set_update_where split: if_splits)

lemma frame_inserted_header:
  assumes "ph_orderId row \<noteq> o1"
  shows "frame o1 db (snd (insert_pay_header row db))"
  using assms
  by (auto simp: frame_def insert_pay_header_def pay_status_of_def find_pay_header_def find_where_append row_simps
      split: option.splits)

lemma frame_header_elsewhere:
  assumes "update_pay_header o2 st at db = Inr db'" "o2 \<noteq> o1"
  shows "frame o1 db db'"
proof -
  have "find_where (\<lambda>h. ph_orderId h = o1) (update_where (\<lambda>h. ph_orderId h = o2) (patch_header st at) hs) =
      find_where (\<lambda>h. ph_orderId h = o1) hs" for hs
    using assms(2) by (induction hs) (auto simp: row_simps patch_header_def)
  then show ?thesis
    using update_pay_header_Inr [OF assms(1)]
    by (auto simp: frame_def pay_status_of_def find_pay_header_def)
qed

lemma frame_header_authorized:
  assumes "update_pay_header o2 st at db = Inr db'"
    and "st = None \<or> st = Some P_AUTHORIZED \<and> pay_status_of db o2 = Some P_OPEN"
  shows "frame o1 db db'"
proof (cases "o2 = o1")
  case True
  then show ?thesis
    using assms(2) find_pay_header_updated [OF assms(1)] update_pay_header_payments [OF assms(1)]
    by (cases "find_pay_header o1 db") (auto simp: frame_def pay_status_of_def patch_header_def)
qed (use assms(1) in \<open>rule frame_header_elsewhere\<close>)

lemma frame_payment_elsewhere:
  assumes "payment_insert p i db = Inr (row, db')" "pay_orderId p \<noteq> o1"
  shows "frame o1 db db'"
  using assms by (intro frame_same_headers) (auto simp: payment_insert_def Let_def split: if_splits)

lemma frame_in_tx:
  "(\<And>a db'. m db = (Inr a, db') \<Longrightarrow> frame o1 db db') \<Longrightarrow> frame o1 db (snd (in_tx m db))"
  by (auto simp: in_tx_def split: prod.splits sum.splits)

lemma frame_claim:
  assumes "osi_orderId inp \<noteq> o1" "open_claim inp db = (Inr a, db')"
  shows "frame o1 db db'"
proof -
  have "db' = snd (insertOpen (osi_orderId inp) (osi_amountMinor inp) (js_upper (osi_currency inp)) db)"
    using assms(2) by (auto simp: open_claim_def Let_def act_bind_Inr split: option.splits if_splits)
  then show ?thesis using assms(1) by (simp add: insertOpen_def frame_inserted_header)
qed

lemma frame_open_insert:
  assumes "osi_orderId inp \<noteq> o1" "open_insert env inp session paymentId retiring db = (Inr a, db')"
  shows "frame o1 db db'"
proof -
  have store: "frame o1 db1 db2"
    if "payment_create (osi_orderId inp) prov s am c = Inr p" "payment_insert p paymentId db1 = Inr (row, db2)"
    for db1 db2 p row s prov am c
    using frame_payment_elsewhere [OF that(2)] payment_create_Inr [OF that(1)] assms(1) by simp
  have retired: "frame o1 db db2"
    if "payment_create (osi_orderId inp) prov s am c = Inr p"
      "payment_insert p paymentId (snd (updateStatus i PS_EXPIRED None (Some PS_PENDING) db)) = Inr (row, db2)"
    for i db2 p row s prov am c
    using store [OF that] by (intro frame_trans [OF frame_pending [of PS_EXPIRED o1 db i None]]) simp_all
  show ?thesis
    using assms(2)
    by (auto simp: open_insert_def Let_def act_bind_Inr step_Inr split: option.splits if_splits
        intro: store retired frame_pending)
qed

lemma frame_apply:
  assumes pr: "prepared db pr" and ok: "pay_ok db" and run: "auth_apply pr db = (Inr a, db')"
  shows "frame o1 db db'"
  using run
proof (cases rule: auth_apply_writes)
  case (records h p i db1 db2)
  have "ph_status h \<noteq> P_FENCED" using prepared_header [OF ok pr records(1,2)] .
  then have "decideAuthorization p h (pr_hold pr) = RECORD \<Longrightarrow> ph_status h = P_OPEN"
    using decide_record_open by blast
  moreover have "frame o1 db db1" unfolding records(5) by (rule frame_pending) simp
  ultimately have "frame o1 db db2"
    using records(1)
    by (intro frame_trans [OF _ frame_header_authorized [OF records(6)]]) (auto simp: pay_status_of_def records(5))
  then show ?thesis
    unfolding records(7) by (rule frame_trans) (rule frame_same, simp_all add: outbox_append_def)
qed simp

lemma known_elsewhere:
  assumes "pay_ok db" "known db read" "pay_orderId read \<noteq> o1"
    and "findByProviderSessionId (pay_providerSessionId read) db = Some p"
    and "q \<in> set (pt_payments db)" "pay_id q \<in> {pay_id read, pay_id p}"
  shows "pay_orderId q \<noteq> o1"
proof -
  have "payment_moved read p" using known_row [OF assms(1,2,4)] .
  then have "q = p"
    using one_row [OF assms(1) assms(5)] by_session [OF assms(4)] assms(6) by (auto simp: payment_moved_def)
  with \<open>payment_moved read p\<close> assms(3) show ?thesis by (simp add: payment_moved_def)
qed

lemma frame_settle:
  assumes ok: "pay_ok db" and kn: "known db read" and other: "pay_orderId read \<noteq> o1"
    and run: "capture_settle read result db = (Inr a, db')"
  shows "frame o1 db db'"
proof -
  obtain h p where h: "find_pay_header (pay_orderId read) db = Some h"
      and p: "findByProviderSessionId (pay_providerSessionId read) db = Some p"
    using run by (auto simp: capture_settle_def act_bind_Inr split: option.splits)
  have upd: "frame o1 db (snd (updateStatus (pay_id read) st None None db))" for st
    using known_elsewhere [OF ok kn other p] by (intro frame_elsewhere) simp
  have hdr: "frame o1 db2 db3" if "update_pay_header (pay_orderId read) st at db2 = Inr db3" for db2 db3 st at
    using frame_header_elsewhere [OF that other] .
  show ?thesis
    using run h p
    by (auto simp: capture_settle_def act_bind_Inr act_try_def markFailed_def result_simps withStatus_def
        split: capture_intent_result.splits if_splits sum.splits
        intro: hdr frame_trans [OF upd hdr])
qed

lemma frame_record:
  assumes ok: "pay_ok db" and kn: "known db read" and other: "pay_orderId read \<noteq> o1"
    and run: "cancel_record read rel db = (Inr a, db')"
  shows "frame o1 db db'"
proof -
  obtain p where p: "findByProviderSessionId (pay_providerSessionId read) db = Some p"
    using run by (auto simp: cancel_record_def act_bind_Inr split: option.splits)
  have upd: "frame o1 db (snd (updateStatus (pay_id p) st intent ex db))" for st intent ex
    using known_elsewhere [OF ok kn other p] by (intro frame_elsewhere) simp
  have hdr: "frame o1 db2 db3" if "update_pay_header (pay_orderId read) st at db2 = Inr db3" for db2 db3 st at
    using frame_header_elsewhere [OF that other] .
  show ?thesis
    using run p
    by (auto simp: cancel_record_def act_bind_Inr act_try_def
        split: released.splits if_splits sum.splits intro: hdr upd frame_trans [OF upd hdr])
qed

lemma frame_flip:
  assumes other: "o2 \<noteq> o1" and run: "cancel_flip missed o2 db = (Inr a, db')"
  shows "frame o1 db db'"
proof -
  define db1 where "db1 = (if (if missed then None else find_pay_header o2 db) = None
      then snd (insertFenced o2 db) else db)"
  have "frame o1 db db1" using other by (simp add: db1_def insertFenced_def frame_inserted_header)
  also have "frame o1 db1 db'"
    using run frame_header_elsewhere [OF _ other]
    by (auto simp: cancel_flip_def act_bind_Inr Let_def act_try_def db1_def
        split: option.splits if_splits cancel_decision.splits sum.splits prod.splits)
  finally show ?thesis .
qed

lemma frame_logged:
  assumes "\<And>ws a db'. m (db\<lparr>pt_webhooks := ws\<rparr>) = (Inr a, db') \<Longrightarrow> frame o1 (db\<lparr>pt_webhooks := ws\<rparr>) db'"
    and "logged_body prov ev eventId m db = (Inr a, db')"
  shows "frame o1 db db'"
proof -
  have mark: "frame o1 db2 (markProcessed i db2)" "frame o1 db2 (markSkipped i db2)" for i db2
    by (rule frame_same; simp add: markProcessed_def markSkipped_def)+
  have hooks: "frame o1 db (db\<lparr>pt_webhooks := ws\<rparr>)" for ws by (rule frame_same) simp_all
  obtain fresh db1 where 1: "insertIfNew eventId prov (ve_providerEventId ev) (ve_type ev) (ve_payload ev) db =
      Inr (fresh, db1)"
    using assms(2) by (auto simp: logged_body_def act_bind_Inr step_Inr)
  obtain ws where ws: "db1 = db\<lparr>pt_webhooks := ws\<rparr>" using insertIfNew_Inr [OF 1] by blast
  have "frame o1 db1 db'"
    using assms(2) 1 ws frame_trans [OF assms(1) mark(1)] frame_trans [OF assms(1) mark(2)]
    by (auto simp: logged_body_def act_bind_Inr step_Inr split: if_splits)
  with hooks [of ws] show ?thesis unfolding ws by (rule frame_trans)
qed

lemma frame_webhooks_only: "frame o1 db (db\<lparr>pt_webhooks := ws\<rparr>)"
  by (rule frame_same) simp_all

lemma prepared_webhooks' : "pay_ok (db\<lparr>pt_webhooks := ws\<rparr>) \<longleftrightarrow> pay_ok db"
  by (simp add: pay_ok_def authorizations_def)

text \<open>The frame of a transaction that does not concern the order, and of any sequence of them.\<close>

lemma tx_frame: "pay_tx S db db' \<Longrightarrow> pay_ok db \<Longrightarrow> o1 \<notin> S \<Longrightarrow> frame o1 db db'"
proof (induction rule: pay_tx.induct)
  case (tx_insert session db inp env paymentId retiring)
  have "snd (insertIfStillOpen env inp session paymentId retiring db) =
      snd (in_tx (open_insert env inp session paymentId retiring) db)"
    by (auto simp: insertIfStillOpen_def split: prod.splits sum.splits pay_error.splits)
  moreover have "osi_orderId inp \<noteq> o1" using tx_insert by auto
  ultimately show ?case using frame_in_tx frame_open_insert by metis
next
  case (tx_log_apply db pr prov ev eventId)
  then show ?case
    by (intro frame_in_tx, elim frame_logged [rotated])
       (auto simp: act_bind_Inr prepared_webhooks' intro: frame_apply [where pr = pr])
next
  case (tx_log_expire db prov ev eventId i)
  then show ?case
    by (intro frame_in_tx, elim frame_logged [rotated])
       (auto simp: act_bind_Inr expire_attempt_def intro: frame_pending)
next
  case (tx_note db provider ev eventId a)
  then show ?case by (intro frame_in_tx, elim frame_logged [rotated]) simp
next
  case (tx_log_only db i prov ev)
  then show ?case using legacy_log_webhooks [of i prov ev db] by (auto intro: frame_webhooks_only)
next
  case (tx_log_skip db i prov ev)
  then show ?case using legacy_log_webhooks [of i prov ev db] by (auto simp: markSkipped_def intro: frame_webhooks_only)
next
  case (tx_claim inp db)
  then show ?case by (intro frame_in_tx frame_claim [of inp]) auto
next
  case (tx_apply db pr)
  then show ?case by (intro frame_in_tx frame_apply [of db pr]) auto
next
  case (tx_settle db p result)
  then show ?case by (intro frame_in_tx frame_settle [of db p]) auto
next
  case (tx_flip o2 db missed)
  then show ?case by (intro frame_in_tx frame_flip [of o2]) auto
next
  case (tx_record db p rel)
  then show ?case by (intro frame_in_tx frame_record [of db p]) auto
qed (auto intro: frame_pending frame_same simp: deleteReceivedBefore_def Let_def)

lemma path_frame: "pay_path S db db' \<Longrightarrow> pay_ok db \<Longrightarrow> o1 \<notin> S \<Longrightarrow> frame o1 db db'"
proof (induction rule: rtranclp_induct)
  case (step b c)
  then show ?case using tx_frame [OF step.hyps(2)] path_ok [OF step.hyps(1)] frame_trans by blast
qed simp

section \<open>The standings the saga relies on\<close>

definition pay_void :: "string \<Rightarrow> pay_db \<Rightarrow> bool" where
  "pay_void o1 db \<longleftrightarrow> pay_status_of db o1 \<in> {Some P_CANCELLED, Some P_FENCED} \<and>
     (\<forall>p \<in> set (pt_payments db). pay_orderId p = o1 \<longrightarrow> pay_status p \<notin> {PS_PENDING, PS_AUTHORIZED, PS_SUCCEEDED})"

definition pay_paid :: "string \<Rightarrow> pay_db \<Rightarrow> bool" where
  "pay_paid o1 db \<longleftrightarrow> pay_status_of db o1 = Some P_CAPTURED"

definition pay_free :: "string \<Rightarrow> pay_db \<Rightarrow> bool" where
  "pay_free o1 db \<longleftrightarrow> pay_status_of db o1 \<in> {None, Some P_FENCED} \<and>
     (\<forall>p \<in> set (pt_payments db). pay_orderId p \<noteq> o1)"

text \<open>The store is consistent, and money was only taken for the order if its header says so.\<close>

definition order_pay_ok :: "string \<Rightarrow> pay_db \<Rightarrow> bool" where
  "order_pay_ok o1 db \<longleftrightarrow> pay_ok db \<and>
     ((\<exists>p \<in> set (pt_payments db). pay_orderId p = o1 \<and> pay_status p = PS_SUCCEEDED) \<longrightarrow> pay_paid o1 db)"

definition standing_kept :: "string \<Rightarrow> pay_db \<Rightarrow> pay_db \<Rightarrow> bool" where
  "standing_kept o1 db db' \<longleftrightarrow> order_pay_ok o1 db' \<and> (pay_void o1 db \<longrightarrow> pay_void o1 db') \<and>
     (pay_paid o1 db \<longrightarrow> pay_paid o1 db')"

definition free_kept :: "string \<Rightarrow> pay_db \<Rightarrow> pay_db \<Rightarrow> bool" where
  "free_kept o1 db db' \<longleftrightarrow> standing_kept o1 db db' \<and> (pay_free o1 db \<longrightarrow> pay_free o1 db')"

lemmas standings = pay_void_def pay_paid_def pay_free_def order_pay_ok_def standing_kept_def free_kept_def

lemma free_kept_refl [simp]: "order_pay_ok o1 db \<Longrightarrow> free_kept o1 db db"
  by (simp add: free_kept_def standing_kept_def)

lemma free_kept_trans [trans]: "free_kept o1 a b \<Longrightarrow> free_kept o1 b c \<Longrightarrow> free_kept o1 a c"
  by (simp add: free_kept_def standing_kept_def)

lemma frame_keeps:
  assumes "frame o1 db db'" "order_pay_ok o1 db" "pay_ok db'"
  shows "free_kept o1 db db'"
proof -
  have rows: "\<exists>p \<in> set (pt_payments db). pay_orderId p = o1 \<and> (pay_status q = pay_status p \<or>
        pay_status p = PS_PENDING \<and> pay_status q \<in> {PS_AUTHORIZED, PS_EXPIRED, PS_VOIDED})"
    if "q \<in> set (pt_payments db')" "pay_orderId q = o1" for q
    using assms(1) that unfolding frame_def by blast
  have st': "pay_status_of db' o1 = pay_status_of db o1 \<or>
      pay_status_of db o1 = Some P_OPEN \<and> pay_status_of db' o1 = Some P_AUTHORIZED"
    using assms(1) unfolding frame_def by blast
  show ?thesis
    unfolding free_kept_def standing_kept_def
  proof (intro conjI impI)
    show "order_pay_ok o1 db'" using assms(2,3) st' rows unfolding order_pay_ok_def pay_paid_def by fastforce
    show "pay_void o1 db \<Longrightarrow> pay_void o1 db'" using st' rows unfolding pay_void_def by fastforce
    show "pay_paid o1 db \<Longrightarrow> pay_paid o1 db'" using st' unfolding pay_paid_def by auto
    show "pay_free o1 db \<Longrightarrow> pay_free o1 db'" using st' rows unfolding pay_free_def by fastforce
  qed
qed

lemma status_header [simp]: "pse_header (participant_status db o1) = pay_status_of db o1"
  by (simp add: participant_status_def Let_def pay_status_of_def)

lemma status_nothing_live:
  "pay_void o1 db \<or> pay_free o1 db \<Longrightarrow>
     pay_status_of db o1 \<noteq> Some P_CAPTURED \<and>
     \<not> pse_hasAuthorizedAttempt (participant_status db o1) \<and> \<not> pse_hasSucceededAttempt (participant_status db o1)"
  by (auto simp: participant_status_def Let_def pay_void_def pay_free_def list_ex_iff)


section \<open>The order's own commands, run by themselves\<close>

lemma withIntentKey_cases:
  assumes "withIntentKey p op call db = (r, db')"
  shows "(\<exists>a. r = Inr a \<and> db' = db) \<or> (\<exists>e. r = Inl e) \<and> frame o1 db db'"
proof (cases "call (intent_key op p)")
  case (Inl e)
  then have "(r, db') = (Inl e, if e = PayGatewayError True
      then incrementKeyGen (pay_id p) (pay_stripeKeyGen p) db else db)"
    using assms [symmetric] by (simp add: withIntentKey_def)
  then show ?thesis by (cases "e = PayGatewayError True") simp_all
next
  case (Inr a)
  then show ?thesis using assms [symmetric] by (simp add: withIntentKey_def)
qed

definition unpaid :: "string \<Rightarrow> pay_db \<Rightarrow> bool" where
  "unpaid o1 db \<longleftrightarrow> (\<forall>p \<in> set (pt_payments db). pay_orderId p = o1 \<longrightarrow> pay_status p \<noteq> PS_SUCCEEDED)"

lemma unpaid_frame: "frame o1 db db' \<Longrightarrow> unpaid o1 db \<Longrightarrow> unpaid o1 db'"
  unfolding unpaid_def frame_def by fastforce

lemma unpaid_update: "st \<noteq> PS_SUCCEEDED \<Longrightarrow> unpaid o1 db \<Longrightarrow> unpaid o1 (snd (updateStatus i st intent ex db))"
  by (auto simp: unpaid_def updateStatus_def Let_def set_update_where withStatus_def split: if_splits)

lemma unpaid_header: "update_pay_header o2 st at db = Inr db' \<Longrightarrow> unpaid o1 db' \<longleftrightarrow> unpaid o1 db"
  by (auto simp: unpaid_def dest: update_pay_header_payments)

lemma header_taken:
  "update_pay_header o1 (Some P_CAPTURED) at db = Inr db' \<Longrightarrow> find_pay_header o1 db \<noteq> None \<Longrightarrow> pay_paid o1 db'"
  by (auto simp: pay_paid_def pay_status_of_def patch_header_def dest: find_pay_header_updated)

lemma settle_own:
  assumes ok: "pay_ok db" and p: "p \<in> set (pt_payments db)" "pay_status p = PS_AUTHORIZED" "pay_orderId p = o1"
    and un: "unpaid o1 db" and run: "in_tx (capture_settle p result) db = (r, db')"
  shows "unpaid o1 db' \<and> r \<notin> {Inr Cap_CAPTURED, Inr Cap_IDEMPOTENT} \<or> pay_paid o1 db'"
proof (cases r)
  case (Inl e)
  then show ?thesis using in_tx_Inl [of "capture_settle p result" db e db'] run un by simp
next
  case (Inr out)
  then have "capture_settle p result db = (Inr out, db')" using run by (simp add: in_tx_Inr)
  then show ?thesis
    using p un session_row [OF ok p(1)] Inr
    by (auto simp: capture_settle_def act_bind_Inr act_try_def markFailed_def result_simps withStatus_def
        unpaid_update unpaid_header split: option.splits capture_intent_result.splits if_splits sum.splits
        intro: header_taken)
qed

lemma capture_own:
  assumes calm: "calm env" and ok: "order_pay_ok o1 db" and run: "capture_execute env o1 db = (r, db')"
  shows "free_kept o1 db db' \<and> (r \<in> {Inr Cap_CAPTURED, Inr Cap_IDEMPOTENT} \<longrightarrow> pay_paid o1 db')"
proof (cases "pay_status_of db o1 = Some P_AUTHORIZED")
  case False
  then have "db' = db \<and> (r = Inr Cap_IDEMPOTENT \<longrightarrow> pay_paid o1 db) \<and> r \<noteq> Inr Cap_CAPTURED"
    using run
    by (cases "pay_status_of db o1"; cases "the (pay_status_of db o1)")
       (auto simp: capture_execute_def pay_status_of_def pay_paid_def)
  then show ?thesis using ok by auto
next
  case True
  have ok0: "pay_ok db" using ok by (simp add: order_pay_ok_def)
  have none: "\<not> pay_void o1 db" "\<not> pay_paid o1 db" "\<not> pay_free o1 db"
    using True by (simp_all add: pay_void_def pay_paid_def pay_free_def)
  have un: "unpaid o1 db" using ok none(2) unfolding order_pay_ok_def unpaid_def by blast
  have ok': "pay_ok db'"
    using capture_execute_runs [OF calm_gaps [OF calm] ok0, of o1 UNIV] run path_ok [OF _ ok0]
    by (simp add: runs_def)
  have "unpaid o1 db' \<and> r \<notin> {Inr Cap_CAPTURED, Inr Cap_IDEMPOTENT} \<or> pay_paid o1 db'"
  proof (cases "\<exists>p c cs. findByOrderId o1 db = Some p \<and> pay_providerIntentId p = Some (c # cs) \<and> pay_status p = PS_AUTHORIZED")
    case False
    then have "db' = db \<and> (\<exists>e. r = Inl e)"
      using run True calm
      by (cases "findByOrderId o1 db"; cases "pay_providerIntentId (the (findByOrderId o1 db))";
          cases "the (pay_providerIntentId (the (findByOrderId o1 db)))")
         (auto simp: capture_execute_def pay_status_of_def act_bind_def)
    then show ?thesis using un by auto
  next
    case p: True
    then obtain p c cs where p: "findByOrderId o1 db = Some p" "pay_providerIntentId p = Some (c # cs)"
        "pay_status p = PS_AUTHORIZED" by blast
    obtain x db1 where key: "withIntentKey p ''capture'' (pg_captureIntent (pv_gw env) (c # cs)) db = (x, db1)" by force
    with run p True calm have r: "(r, db') = (case x of Inl e \<Rightarrow> (Inl e, db1)
        | Inr result \<Rightarrow> in_tx (capture_settle p result) db1)"
      by (auto simp: capture_execute_def pay_status_of_def act_bind_def split: sum.splits)
    show ?thesis
      using withIntentKey_cases [OF key, of o1]
    proof (elim disjE exE conjE)
      fix a assume "x = Inr a" "db1 = db"
      then show ?thesis using settle_own [OF ok0 _ p(3) _ un, of a r db'] by_order [OF p(1)] r by simp
    next
      fix e assume "x = Inl e" "frame o1 db db1"
      then show ?thesis using r unpaid_frame [of o1 db db1] un by simp
    qed
  qed
  then show ?thesis using ok' none
    by (auto simp: free_kept_def standing_kept_def order_pay_ok_def unpaid_def)
qed

lemma flip_payments:
  assumes "in_tx (cancel_flip missed o1) db = (Inr x, db')"
  shows "pt_payments db' = pt_payments db"
proof -
  have run: "cancel_flip missed o1 db = (Inr x, db')" using assms by (simp add: in_tx_Inr)
  show ?thesis
  proof (cases "find_pay_header o1 db")
    case None
    then show ?thesis using run flip_fences [OF None, of missed]
      by (auto simp: Let_def insertFenced_def insert_pay_header_def)
  next
    case (Some h)
    then show ?thesis using run flip_reads [OF Some, of missed]
      by (auto split: cancel_decision.splits sum.splits dest: update_pay_header_payments)
  qed
qed

lemma cancel_release_cases:
  assumes "cancel_release env p db = (r, db')"
  shows "(\<exists>rel. r = Inr rel \<and> db' = db \<and> (rel = Rel_EXPIRED \<longrightarrow> pay_status p \<noteq> PS_AUTHORIZED)) \<or>
    (\<exists>e. r = Inl e) \<and> frame o1 db db'"
proof -
  have void: "(\<exists>rel. r = Inr rel \<and> db' = db \<and> rel \<noteq> Rel_EXPIRED) \<or> (\<exists>e. r = Inl e) \<and> frame o1 db db'"
    if run: "voidHold env p i db = (r, db')" for i
  proof -
    obtain x db1 where key: "withIntentKey p ''void'' (pg_voidIntent (pv_gw env) i) db = (x, db1)" by force
    show ?thesis
      using withIntentKey_cases [OF key, of o1] key run
      by (auto simp: voidHold_def act_bind_def split: if_splits)
  qed
  have rest: "(\<exists>rel. r = Inr rel \<and> db' = db) \<or> (\<exists>e. r = Inl e) \<and> frame o1 db db'"
    if "pay_status p \<noteq> PS_AUTHORIZED"
  proof (cases "pg_expireSession (pv_gw env) (pay_providerSessionId p)")
    case (Inl e)
    then show ?thesis using assms that by (auto simp: cancel_release_def act_bind_def)
  next
    case (Inr x)
    then show ?thesis
      using assms that
      by (cases "pg_retrieveAuthorization (pv_gw env) (pay_providerSessionId p)")
         (auto simp: cancel_release_def act_bind_def split: if_splits option.splits intent_status.splits dest!: void)
  qed
  show ?thesis
  proof (cases "pay_status p = PS_AUTHORIZED")
    case True
    then show ?thesis using void assms by (auto simp: cancel_release_def)
  next
    case False
    then show ?thesis using rest by blast
  qed
qed

lemma record_own:
  assumes ok: "pay_ok db" and live: "live_attempt o1 db = Some p" and st: "pay_status_of db o1 \<in> {Some P_CANCELLED, Some P_FENCED}"
    and un: "unpaid o1 db" and rel: "rel = Rel_EXPIRED \<longrightarrow> pay_status p \<noteq> PS_AUTHORIZED"
    and run: "in_tx (cancel_record p rel) db = (r, db')"
  shows "unpaid o1 db' \<and> (r = Inr False \<longrightarrow> pay_void o1 db') \<or> r = Inr True \<and> pay_paid o1 db'"
proof (cases r)
  case (Inl e)
  then show ?thesis using in_tx_Inl [of "cancel_record p rel" db e db'] run un by simp
next
  case (Inr conflict)
  have row: "p \<in> set (pt_payments db)" "pay_orderId p = o1" "pay_status p \<in> {PS_PENDING, PS_AUTHORIZED}"
    using live_attempts_one [OF ok, of o1] live by (auto simp: live_attempts_def)
  have run': "cancel_record p rel db = (Inr conflict, db')" using run Inr by (simp add: in_tx_Inr)
  note found = session_row [OF ok row(1)]
  have gone: "unpaid o1 (snd (updateStatus (pay_id p) st' i (Some (pay_status p)) db)) \<and>
      pay_void o1 (snd (updateStatus (pay_id p) st' i (Some (pay_status p)) db))"
    if "st' \<in> {PS_EXPIRED, PS_VOIDED}" for st' i
  proof -
    have "live_attempts (snd (updateStatus (pay_id p) st' i (Some (pay_status p)) db)) o1 = []"
      using that by (intro live_after_update [OF ok live]) auto
    moreover have "unpaid o1 (snd (updateStatus (pay_id p) st' i (Some (pay_status p)) db))"
      using that un by (intro unpaid_update) auto
    moreover have "pay_status_of (snd (updateStatus (pay_id p) st' i (Some (pay_status p)) db)) o1 = pay_status_of db o1"
      by (simp add: pay_status_of_def)
    ultimately show ?thesis
      using st by (auto simp: pay_void_def unpaid_def live_attempts_def filter_empty_conv)
  qed
  show ?thesis
  proof (cases rel)
    case Rel_EXPIRED
    then have "pay_status p = PS_PENDING" using rel row(3) by simp
    then show ?thesis using run' found gone [of PS_EXPIRED None] Inr Rel_EXPIRED
      by (auto simp: cancel_record_def act_bind_def)
  next
    case (Rel_VOIDED i)
    then show ?thesis using run' found gone [of PS_VOIDED i] row(3) Inr
      by (auto simp: cancel_record_def act_bind_def)
  next
    case Rel_CAPTURED
    then have "conflict" "pay_paid o1 db'"
      using run' found row st
      by (auto simp: cancel_record_def act_bind_Inr act_try_def pay_status_of_def
          split: sum.splits intro!: header_taken)
    then show ?thesis using Inr by simp
  qed
qed

lemma cancel_own:
  assumes calm: "calm env" and ok: "order_pay_ok o1 db" and run: "cancel_execute env missed o1 db = (r, db')"
  shows "free_kept o1 db db' \<and> (\<forall>out. r = Inr out \<longrightarrow> out \<noteq> Can_CAPTURED_CONFLICT \<longrightarrow> pay_void o1 db')"
proof -
  have ok0: "pay_ok db" using ok by (simp add: order_pay_ok_def)
  have ok': "pay_ok db'"
    using cancel_execute_runs [OF calm_gaps [OF calm] ok0, of o1 UNIV missed] run path_ok [OF _ ok0]
    by (simp add: runs_def)
  obtain attempt db1 where flip: "in_tx (cancel_flip missed o1) db =
        (Inr (fst (payment_fence_cancel (pay_status_of db o1)), attempt), db1)"
      and st: "pay_status_of db1 o1 = snd (payment_fence_cancel (pay_status_of db o1))"
      and att: "attempt = (if pay_status_of db o1 = Some P_CAPTURED then None else live_attempt o1 db1)"
    using cancel_flips [OF ok0] by blast
  note same = flip_payments [OF flip]
  have ok1: "pay_ok db1"
    using pay_tx_evolves [OF tx_flip [of o1 UNIV db missed]] flip ok0 by (simp add: pay_evolves_def)
  show ?thesis
  proof (cases "pay_paid o1 db")
    case True
    then have "r = Inr Can_CAPTURED_CONFLICT" "db' = db1" "pay_paid o1 db1"
      using run flip att st by (simp_all add: cancel_execute_def pay_paid_def)
    then show ?thesis using ok' True by (auto simp: standings)
  next
    case False
    have un: "unpaid o1 db" using ok False unfolding order_pay_ok_def unpaid_def by blast
    then have un1: "unpaid o1 db1" by (simp add: unpaid_def same)
    have closed: "pay_status_of db1 o1 \<in> {Some P_CANCELLED, Some P_FENCED}" "pay_free o1 db \<Longrightarrow> pay_free o1 db1"
      using st False same
      by (cases "pay_status_of db o1"; cases "the (pay_status_of db o1)"; auto simp: pay_paid_def pay_free_def)+
    show ?thesis
    proof (cases attempt)
      case None
      then have "live_attempts db1 o1 = []"
        using att False live_attempts_one [OF ok1, of o1] by (auto simp: pay_paid_def)
      then have "pay_void o1 db1"
        using closed(1) un1 by (auto simp: pay_void_def live_attempts_def filter_empty_conv unpaid_def)
      moreover have "db' = db1" using run flip None by (simp add: cancel_execute_def)
      ultimately show ?thesis using ok' False un1 closed(2) by (auto simp: standings unpaid_def)
    next
      case (Some p)
      then have live: "live_attempt o1 db1 = Some p" using att by (simp split: if_splits)
      then have "p \<in> set (pt_payments db)" "pay_orderId p = o1" "pay_status p \<in> {PS_PENDING, PS_AUTHORIZED}"
        using live_attempts_one [OF ok1, of o1] by (auto simp: live_attempts_def same)
      then have none: "\<not> pay_void o1 db" "\<not> pay_free o1 db" by (auto simp: pay_void_def pay_free_def)
      obtain x db2 where rel: "cancel_release env p db1 = (x, db2)" by force
      have end': "(r, db') = (case x of Inl e \<Rightarrow> (Inl e, db2) | Inr rel \<Rightarrow>
          (case in_tx (cancel_record p rel) db2 of (Inl e, db3) \<Rightarrow> (Inl e, db3)
           | (Inr conflict, db3) \<Rightarrow>
              (Inr (if conflict then Can_CAPTURED_CONFLICT else fst (payment_fence_cancel (pay_status_of db o1))), db3)))"
        using run flip Some rel calm
        by (auto simp: cancel_execute_def act_bind_def split: sum.splits prod.splits)
      show ?thesis
        using cancel_release_cases [OF rel, of o1]
      proof (elim disjE exE conjE)
        fix e assume "x = Inl e" "frame o1 db1 db2"
        then show ?thesis
          using end' unpaid_frame [OF _ un1] none False ok' by (auto simp: standings unpaid_def)
      next
        fix rel' assume x: "x = Inr rel'" "db2 = db1" "rel' = Rel_EXPIRED \<longrightarrow> pay_status p \<noteq> PS_AUTHORIZED"
        obtain y db3 where rec: "in_tx (cancel_record p rel') db1 = (y, db3)" by force
        from record_own [OF ok1 live closed(1) un1 x(3) rec] end' x rec none False ok'
        show ?thesis by (cases y) (auto simp: standings unpaid_def split: if_splits)
      qed
    qed
  qed
qed

lemma open_before_unpaid:
  assumes calm: "calm env" and ok: "pay_ok db" and un: "unpaid o1 db" and run: "open_before env lead inp db = (r, db')"
  shows "unpaid o1 db'"
proof -
  have claim: "unpaid o1 db1" "pay_ok db1" if "in_tx (open_claim inp) db = (c, db1)" for c db1
  proof -
    have "pt_payments db1 = pt_payments db"
      using that by (cases c) (auto simp: in_tx_def open_claim_def Let_def act_bind_def insertOpen_def
        insert_pay_header_def split: option.splits if_splits prod.splits)
    then show "unpaid o1 db1" using un by (simp add: unpaid_def)
    show "pay_ok db1"
      using pay_tx_evolves [OF tx_claim [of inp UNIV db]] ok that by (simp add: pay_evolves_def)
  qed
  have probe: "unpaid o1 db2" if "open_probe_step env active db1 = (x, db2)" "unpaid o1 db1" "pay_ok db1" for active db1 x db2
  proof -
    have "pay_path {} db1 db2"
      using open_probe_step_runs [OF calm_gaps [OF calm] that(3), of "{}" active] that(1) by (simp add: runs_def)
    from unpaid_frame [OF path_frame [OF this that(3), of o1] that(2)] show ?thesis by simp
  qed
  obtain c db1 where c: "in_tx (open_claim inp) db = (c, db1)" by force
  show ?thesis
  proof (cases "\<exists>active. c = Inr (Some active) \<and> \<not> osi_expiresAt inp < pv_now env + lead")
    case False
    then have "db' = db \<or> db' = db1"
      using run c by (cases c) (auto simp: open_before_def act_bind_def split: option.splits if_splits)
    then show ?thesis using un claim(1) [OF c] by blast
  next
    case True
    then obtain active where act: "c = Inr (Some active)" "\<not> osi_expiresAt inp < pv_now env + lead" by blast
    obtain x db2 where x: "open_probe_step env active db1 = (x, db2)" by force
    then have "db' = db2"
      using run c act calm
      by (auto simp: open_before_def act_bind_def mintOne_def split: sum.splits open_probe.splits option.splits prod.splits)
    then show ?thesis using probe [OF x] claim [OF c] by blast
  qed
qed

lemma insert_unpaid:
  assumes "unpaid o1 db" "insertIfStillOpen env inp session paymentId retiring db = (r, db')"
  shows "unpaid o1 db'"
proof -
  have store: "unpaid o1 db2" if "payment_create o2 prov s am c = Inr p" "payment_insert p i db1 = Inr (row, db2)" "unpaid o1 db1"
    for o2 prov s am c p i row db1 db2
    using that payment_create_Inr [OF that(1)] by (auto simp: payment_insert_def Let_def unpaid_def split: if_splits)
  have "unpaid o1 db2" if "open_insert env inp session paymentId retiring db = (Inr a, db2)" for a db2
    using that assms(1)
    by (auto simp: open_insert_def Let_def act_bind_Inr step_Inr unpaid_update split: option.splits if_splits
        elim!: store)
  then have "unpaid o1 (snd (in_tx (open_insert env inp session paymentId retiring) db))"
    using assms(1) by (auto simp: in_tx_def split: prod.splits sum.splits)
  moreover have "snd (insertIfStillOpen env inp session paymentId retiring db) =
      snd (in_tx (open_insert env inp session paymentId retiring) db)"
    by (auto simp: insertIfStillOpen_def split: prod.splits sum.splits pay_error.splits)
  ultimately show ?thesis using assms(2) by simp
qed

lemma open_own:
  assumes calm: "calm env" and ok: "order_pay_ok (osi_orderId inp) db" and fresh: "fresh_session env lead inp db"
    and run: "open_execute env lead inp db = (r, db')"
  shows "standing_kept (osi_orderId inp) db db'"
proof (cases "pay_status_of db (osi_orderId inp) \<in> {None, Some P_OPEN}")
  case False
  then have "db' = db" using closed_session run by auto
  then show ?thesis using ok by (simp add: standing_kept_def)
next
  case True
  have ok0: "pay_ok db" using ok by (simp add: order_pay_ok_def)
  have un: "unpaid (osi_orderId inp) db" using ok True unfolding order_pay_ok_def unpaid_def pay_paid_def by auto
  have "pay_ok db'"
    using open_execute_runs [OF calm_gaps [OF calm] ok0 fresh, of UNIV] run path_ok [OF _ ok0]
    by (simp add: runs_def)
  moreover have "unpaid (osi_orderId inp) db'"
  proof -
    obtain x db1 where x: "open_before env lead inp db = (x, db1)" by force
    note un1 = open_before_unpaid [OF calm ok0 un x]
    show ?thesis
    proof (cases "\<exists>session paymentId retiring. x = Inr (Inr (session, paymentId, retiring))")
      case True
      then obtain session paymentId retiring y db2 where s: "x = Inr (Inr (session, paymentId, retiring))"
          "insertIfStillOpen env inp session paymentId retiring db1 = (y, db2)"
        by (metis surj_pair)
      then have "db' = db2" using run x
        by (auto simp: open_execute_def act_bind_def split: sum.splits option.splits)
      then show ?thesis using insert_unpaid [OF un1 s(2)] by simp
    next
      case False
      then have "db' = db1" using run x
        by (auto simp: open_execute_def act_bind_def split: sum.splits)
      then show ?thesis using un1 by simp
    qed
  qed
  ultimately show ?thesis using True by (auto simp: standings unpaid_def)
qed

section \<open>Everyone else\<close>

fun calm_op :: "pay_op \<Rightarrow> bool" where
  "calm_op (Do_open_session env lead inp) \<longleftrightarrow> calm env"
| "calm_op (Do_capture_order env o1) \<longleftrightarrow> calm env"
| "calm_op (Do_cancel_order env missed o1) \<longleftrightarrow> calm env"
| "calm_op (Do_webhook env verified) \<longleftrightarrow> calm env"
| "calm_op (Do_reconcile envs now stale batch) \<longleftrightarrow> (\<forall>i. calm (envs i))"
| "calm_op _ \<longleftrightarrow> True"

fun leaves_to_saga :: "string \<Rightarrow> pay_op \<Rightarrow> bool" where
  "leaves_to_saga o1 (Do_open_session env lead inp) \<longleftrightarrow> osi_orderId inp \<noteq> o1"
| "leaves_to_saga o1 (Do_capture_order env o2) \<longleftrightarrow> o2 \<noteq> o1"
| "leaves_to_saga o1 _ \<longleftrightarrow> True"

lemma path_keeps:
  assumes "pay_path S db db'" "order_pay_ok o1 db" "o1 \<notin> S"
  shows "free_kept o1 db db'"
proof (rule frame_keeps [OF _ assms(2)])
  have ok: "pay_ok db" using assms(2) by (simp add: order_pay_ok_def)
  show "frame o1 db db'" using path_frame [OF assms(1) ok assms(3)] .
  show "pay_ok db'" using path_ok [OF assms(1) ok] .
qed

lemma kept_ok: "free_kept o1 db db' \<Longrightarrow> order_pay_ok o1 db'"
  by (simp add: free_kept_def standing_kept_def)

lemma reconcile_one_keeps:
  assumes calm: "calm env" and ok: "order_pay_ok o1 db" and run: "reconcile_one env p db = (r, db')"
  shows "free_kept o1 db db'"
proof (cases "pay_status p = PS_AUTHORIZED \<and> pay_orderId p = o1")
  case True
  then obtain x where "cancel_execute env False o1 db = (x, db')"
    using run by (cases "cancel_execute env False o1 db") (auto simp: reconcile_one_def act_bind_def split: sum.splits)
  then show ?thesis using cancel_own [OF calm ok] by blast
next
  case False
  have "pay_ok db" using ok by (simp add: order_pay_ok_def)
  then have "pay_path (- {o1}) db db'"
    using reconcile_one_runs [OF calm_gaps [OF calm], of db p "- {o1}"] False run by (auto simp: runs_def)
  then show ?thesis using path_keeps ok by blast
qed

lemma reconcile_all_keeps:
  assumes "\<And>i. calm (envs i)" and "order_pay_ok o1 db"
  shows "free_kept o1 db (snd (reconcile_all envs i ps sm db))"
  using assms(2)
proof (induction ps arbitrary: i sm db)
  case (Cons p ps)
  obtain r db1 where one: "reconcile_one (envs i) p db = (r, db1)" by force
  define db2 where "db2 = (case r of Inl _ \<Rightarrow> bumpUpdatedAt (pay_id p) (pay_status p) db1 | Inr _ \<Rightarrow> db1)"
  have 1: "free_kept o1 db db1" using reconcile_one_keeps [OF assms(1) Cons.prems one] .
  have "pay_path {} db1 db2" by (auto simp: db2_def intro: tx_bump split: sum.splits)
  then have 2: "free_kept o1 db1 db2" using path_keeps kept_ok [OF 1] by blast
  have "free_kept o1 db2 (snd (reconcile_all envs (Suc i) ps (count_outcome r sm) db2))"
    by (rule Cons.IH) (rule kept_ok [OF 2])
  with free_kept_trans [OF 1 2] show ?case
    using one free_kept_trans by (simp add: db2_def [symmetric])
qed simp

lemma others_keep:
  assumes ok: "order_pay_ok o1 db" and calm: "calm_op op" and fair: "pay_fair op db" and other: "leaves_to_saga o1 op"
  shows "free_kept o1 db (pay_exec op db)"
proof -
  have ok0: "pay_ok db" using ok by (simp add: order_pay_ok_def)
  show ?thesis
  proof (cases op)
    case (Do_open_session env lead inp)
    then have "pay_path (- {o1}) db (pay_exec op db)"
      using open_execute_runs [OF calm_gaps ok0, of env lead inp] calm fair other by (simp add: runs_def)
    then show ?thesis using path_keeps ok by blast
  next
    case (Do_capture_order env o2)
    then have "pay_path (- {o1}) db (pay_exec op db)"
      using capture_execute_runs [OF calm_gaps ok0, of env o2] calm other by (simp add: runs_def)
    then show ?thesis using path_keeps ok by blast
  next
    case (Do_cancel_order env missed o2)
    show ?thesis
    proof (cases "o2 = o1")
      case True
      obtain r db' where "cancel_execute env missed o1 db = (r, db')" by force
      then show ?thesis using Do_cancel_order True calm cancel_own [OF _ ok, of env missed r db'] by simp
    next
      case False
      then have "pay_path (- {o1}) db (pay_exec op db)"
        using Do_cancel_order cancel_execute_runs [OF calm_gaps ok0, of env o2] calm by (simp add: runs_def)
      then show ?thesis using path_keeps ok by blast
    qed
  next
    case (Do_webhook env verified)
    then have "pay_path {} db (pay_exec op db)"
      using webhook_execute_runs [OF calm_gaps ok0, of env] calm by (simp add: runs_def)
    then show ?thesis using path_keeps ok by blast
  next
    case (Do_reconcile envs now stale batch)
    then show ?thesis using reconcile_all_keeps [of envs o1 db] calm ok by (simp add: reconcile_execute_def Let_def)
  next
    case (Do_webhook_sweep cutoff limit)
    then have "pay_path {} db (pay_exec op db)" by (auto intro: tx_sweep)
    then show ?thesis using path_keeps ok by blast
  next
    case (Do_tick t)
    then have "pay_path {} db (pay_exec op db)" by (auto intro: tx_tick)
    then show ?thesis using path_keeps ok by blast
  qed
qed

end
