(* ===== verification/Checkout_Parties.thy ===== *)
theory Checkout_Parties
  imports Checkout_Workflow Inventory_Order Payment_Order
begin

text \<open>
  The three parties of a checkout put together: the order store, the inventory-service and the
  payment-service each keep the contract the workflow's proof asks of its port, so a checkout run that
  closes leaves them agreeing.
\<close>


section \<open>The order store as a port\<close>

definition order_status_of :: "string \<Rightarrow> order_db \<Rightarrow> order_status option" where
  "order_status_of i db = map_option or_status (find_where (\<lambda>r. or_id r = i) (od_orders db))"

lemma status_updated:
  assumes "od_orders db' = update_where (\<lambda>r. or_id r = i) f (od_orders db)" and "\<And>r. or_id (f r) = or_id r"
    and "\<And>r. or_status (f r) = st"
  shows "order_status_of j db' = (if j = i \<and> order_status_of i db \<noteq> None then Some st else order_status_of j db)"
proof -
  have "find_where (\<lambda>r. or_id r = j) (od_orders db') = map_option (\<lambda>r. if or_id r = i then f r else r)
      (find_where (\<lambda>r. or_id r = j) (od_orders db))"
    unfolding assms(1) by (rule find_update_where) (simp add: assms(2))
  then have j: "order_status_of j db' = map_option (\<lambda>r. if or_id r = i then st else or_status r)
      (find_where (\<lambda>r. or_id r = j) (od_orders db))"
    by (simp add: order_status_of_def option.map_comp comp_def if_distrib assms(3) cong: if_cong)
  show ?thesis
  proof (cases "find_where (\<lambda>r. or_id r = j) (od_orders db)")
    case None
    then show ?thesis using j by (auto simp: order_status_of_def)
  next
    case (Some r)
    then have "or_id r = j" using find_where_Some by fastforce
    then have "order_status_of j db' = Some (if j = i then st else or_status r)" using j Some by simp
    then show ?thesis using Some by (simp add: order_status_of_def split: if_splits)
  qed
qed

lemma status_same: "od_orders db' = od_orders db \<Longrightarrow> order_status_of j db' = order_status_of j db"
  by (simp add: order_status_of_def)

lemma locked_status:
  assumes "act_bind (lockOrder i) (\<lambda>locked. case locked of None \<Rightarrow> n | Some (ord, key) \<Rightarrow> f ord key) db = (Inr a, s)"
  obtains "order_status_of i db = None" "n db = (Inr a, s)"
  | ord key where "order_status_of i db = Some (ord_status ord)" "ord_id ord = Some i" "f ord key db = (Inr a, s)"
proof (cases "find_where (\<lambda>r. or_id r = i) (od_orders db)")
  case None
  then have "n db = (Inr a, s)" using assms by (simp add: lockOrder_def act_bind_def)
  with that(1) None show thesis by (simp add: order_status_of_def)
next
  case (Some row)
  then obtain ord where ord: "toDomainOrder row (itemRowsOf i db) = Inr ord"
      and rest: "f ord (or_idempotencyKey row) db = (Inr a, s)"
    using assms by (auto simp: lockOrder_def act_bind_Inr result_simps)
  have "or_id row = i" using find_where_Some [OF Some] by simp
  then show thesis
    using that(2) [of ord "or_idempotencyKey row"] toDomainOrder_Inr [OF ord] rest Some by (simp add: order_status_of_def)
qed

lemma locked_tx:
  assumes run: "in_tx (act_bind (lockOrder i) (\<lambda>locked. case locked of None \<Rightarrow> n | Some (ord, key) \<Rightarrow> f ord key)) db
      = (r, db')"
    and none: "\<And>a s. n db = (Inr a, s) \<Longrightarrow> order_status_of i db = None \<Longrightarrow> Q (Inr a) s"
    and found: "\<And>ord key a s. order_status_of i db = Some (ord_status ord) \<Longrightarrow> ord_id ord = Some i \<Longrightarrow>
      f ord key db = (Inr a, s) \<Longrightarrow> Q (Inr a) s"
    and failed: "\<And>e. Q (Inl e) db"
  shows "Q r db'"
proof (cases r)
  case (Inl e)
  then show ?thesis using run failed in_tx_Inl by metis
next
  case (Inr a)
  then have "act_bind (lockOrder i) (\<lambda>locked. case locked of None \<Rightarrow> n | Some (ord, key) \<Rightarrow> f ord key) db = (Inr a, db')"
    using run in_tx_Inr by metis
  then show ?thesis by (rule locked_status) (use none found Inr in auto)
qed

text \<open>What the two writes of the saga do to the status of an order.\<close>

definition status_write :: "string \<Rightarrow> order_status option \<Rightarrow> order_db \<Rightarrow> 'a option \<Rightarrow> order_db \<Rightarrow> bool" where
  "status_write i D db a db' \<longleftrightarrow>
     (\<forall>j. j \<noteq> i \<longrightarrow> order_status_of j db' = order_status_of j db) \<and>
     (order_status_of i db' = D \<or> a = None \<and> order_status_of i db' = order_status_of i db)"

lemma status_write_failed [simp]: "status_write i D db None db"
  by (simp add: status_write_def)

lemma markCompleted_status [simp]: "order_status_of j (markCompleted s k st b o1 db) = order_status_of j db"
  by (rule status_same) (simp add: markCompleted_def)

lemma append_outbox_status [simp]: "order_status_of j (append_outbox x rec db) = order_status_of j db"
  by (rule status_same) (simp add: append_outbox_def)

lemma update_order_status:
  assumes "\<And>r. or_id (f r) = or_id r" "\<And>r. or_status (f r) = st" "order_status_of i db \<noteq> None"
  shows "order_status_of j (update_order i f db) = (if j = i then Some st else order_status_of j db)"
  using status_updated [of "update_order i f db" i f db st j] assms by (simp add: update_order_def)

lemma tryInput_status:
  assumes run: "applyTryResult minted inp db = (r, db')"
    and inp: "inp = Try_held i \<and> outcome = HELD \<or> (\<exists>reason. inp = Try_refused i reason) \<and> outcome \<noteq> HELD"
  shows "status_write i (after_try outcome (order_status_of i db)) db (answered r) db'"
proof (cases "outcome = HELD")
  case True
  then have inp: "inp = Try_held i" using inp by simp
  show ?thesis
  proof (cases minted)
    case None
    then show ?thesis using run inp by (auto simp: applyTryResult_def answered_def)
  next
    case (Some x)
    show ?thesis
      using run [unfolded applyTryResult_def Some inp, simplified]
    proof (rule locked_tx, goal_cases)
      case (2 ord key a s)
      then show ?case
        by (auto simp: status_write_def after_try_def True act_bind_Inr result_simps order_confirmPlaced_def
            update_order_status split: option.splits if_splits)
    qed (auto simp: status_write_def after_try_def answered_def)
  qed
next
  case False
  then obtain reason where inp: "inp = Try_refused i reason" using inp by blast
  show ?thesis
    using run [unfolded applyTryResult_def inp, simplified]
  proof (rule locked_tx, goal_cases)
    case (2 ord key a s)
    then show ?case
      using False
      by (auto simp: status_write_def after_try_def act_bind_Inr result_simps order_reject_def
          update_order_status split: if_splits)
  qed (auto simp: status_write_def after_try_def answered_def False)
qed

lemma tryResult_status:
  "applyTryResult minted (try_write i outcome) db = (r, db') \<Longrightarrow>
     status_write i (after_try outcome (order_status_of i db)) db (answered r) db'"
  by (rule tryInput_status, assumption) (cases "outcome = HELD"; simp add: try_write_def)

lemma change_status:
  assumes run: "applyOrderChange minted (change_input i c) db = (r, db')"
  shows "status_write i (after_change c (order_status_of i db)) db (answered r) db'"
proof (cases "oc_to c \<noteq> CONFIRMING \<and> minted = None")
  case True
  then show ?thesis using run by (auto simp: applyOrderChange_def change_input_def answered_def)
next
  case False
  then show ?thesis
    using run [unfolded applyOrderChange_def Let_def]
  proof (simp only: change_input_def order_change_input.simps if_False, elim locked_tx, goal_cases)
    case (2 ord key a s)
    show ?case
    proof (cases "ord_status ord = oc_to c \<or> ord_status ord \<notin> set (oc_from c)")
      case True
      then show ?thesis using 2 by (auto simp: status_write_def after_change_def split: if_splits)
    next
      case False
      then obtain ord' where m: "moveForSaga ord (oc_to c) (od_clock db) (oc_reason c) (oc_paymentRef c) = Inr ord'"
        and tail: "act_bind (writeStatusChange ord') (\<lambda>_.
              act_bind
                (if oc_to c \<noteq> CONFIRMING
                 then act_bind (act_lift (st_lift (toFinalizedEvent ord'))) (\<lambda>ev.
                      act_modify (append_outbox (the minted) (toFinalizedOutboxRecord ev)))
                 else act_return ()) (\<lambda>_. act_return Sw_applied)) db = (Inr a, s)"
        using 2 by (auto simp: act_bind_Inr result_simps)
      note mv = moveForSaga_Inr [OF m]
      have "order_status_of j s = (if j = i then Some (oc_to c) else order_status_of j db)" for j
        using tail mv 2
        by (auto simp: act_bind_Inr result_simps writeStatusChange_def update_order_status split: if_splits)
      then show ?thesis using False 2 by (simp add: status_write_def after_change_def)
    qed
  qed (auto simp: status_write_def after_change_def answered_def)
qed

text \<open>Everyone else: other orders' writes, the REJECTED sweep, the idempotency keys.\<close>

fun leaves_order :: "string \<Rightarrow> order_op \<Rightarrow> bool" where
  "leaves_order o1 (Op_create (Some (i # ids)) ord key) \<longleftrightarrow> i \<noteq> o1"
| "leaves_order o1 (Op_try_result m (Try_held i)) \<longleftrightarrow> i \<noteq> o1"
| "leaves_order o1 (Op_try_result m (Try_refused i reason)) \<longleftrightarrow> i \<noteq> o1"
| "leaves_order o1 (Op_change m inp) \<longleftrightarrow> ci_orderId inp \<noteq> o1"
| "leaves_order o1 _ \<longleftrightarrow> True"

lemma created_status:
  assumes "createReserving m ord key db = (r, db')" "leaves_order o1 (Op_create m ord key)"
  shows "order_status_of o1 db' = order_status_of o1 db"
proof (cases r)
  case (Inl e)
  then have "db' = db" using assms(1)
    by (auto simp: createReserving_def split: option.splits list.splits dest: in_tx_Inl)
  then show ?thesis by simp
next
  case (Inr a)
  have new: "order_status_of o1 db2 = order_status_of o1 db"
    if "insert_order (new_order_row ord i k now) db = Inr db1" "insert_items rows db1 = Inr db2" "i \<noteq> o1" for i k now rows db1 db2
  proof -
    have "od_orders db2 = od_orders db @ [new_order_row ord i k now]"
      using that(1) insert_items_orders [OF that(2)] by (auto simp: insert_order_def split: if_splits)
    then show ?thesis using that(3)
      by (simp add: order_status_of_def find_where_append row_simps new_order_row_def split: option.splits)
  qed
  obtain i ids where m: "m = Some (i # ids)" "i \<noteq> o1"
    using assms Inr by (cases m; cases "the m") (auto simp: createReserving_def)
  show ?thesis
    using assms(1) [unfolded Inr m]
    by (auto simp: createReserving_def act_bind_Inr act_try_def result_simps split: if_splits sum.splits option.splits
        intro: new [OF _ _ m(2)])
qed

lemma swept_status:
  assumes "orders_ok db"
  shows "order_settled_away (order_status_of o1 db) (order_status_of o1 (snd (deleteRejectedBefore cutoff limit db)))"
proof -
  define doomed where "doomed = or_id ` set (take limit (filter (\<lambda>r. or_status r = REJECTED \<and>
            (case or_finalizedAt r of None \<Rightarrow> False | Some t \<Rightarrow> t < cutoff)) (od_orders db)))"
  have db': "od_orders (snd (deleteRejectedBefore cutoff limit db)) = filter (\<lambda>r. or_id r \<notin> doomed) (od_orders db)"
    by (simp add: deleteRejectedBefore_def Let_def doomed_def)
  have kept: "find_where (\<lambda>r. or_id r = o1) (filter (\<lambda>r. or_id r \<notin> doomed) rs) =
      (if o1 \<in> doomed then None else find_where (\<lambda>r. or_id r = o1) rs)" for rs
    by (induction rs) (auto simp: row_simps)
  have "order_status_of o1 db = Some REJECTED" if d: "o1 \<in> doomed"
  proof -
    obtain r where r: "r \<in> set (od_orders db)" "or_id r = o1" "or_status r = REJECTED"
      using d unfolding doomed_def by (auto dest!: in_set_takeD)
    then have "find_where (\<lambda>q. or_id q = or_id r) (od_orders db) = Some r"
      using assms by (intro find_where_key) (simp_all add: orders_ok_def)
    then show ?thesis using r by (simp add: order_status_of_def)
  qed
  then show ?thesis by (simp add: order_settled_away_def order_status_of_def db' kept)
qed

lemma others_status:
  assumes ok: "orders_ok db" and other: "leaves_order o1 op"
  shows "order_settled_away (order_status_of o1 db) (order_status_of o1 (order_exec op db))"
proof (cases op)
  case (Op_create m ord key)
  then show ?thesis using created_status [of m ord key db _ _ o1] other by (simp add: prod_eq_iff)
next
  case (Op_try_result m inp)
  obtain r db' where run: "applyTryResult m inp db = (r, db')" by force
  have "order_status_of o1 db' = order_status_of o1 db"
  proof (cases inp)
    case (Try_held i)
    then show ?thesis using tryInput_status [OF run, of i HELD] other Op_try_result by (simp add: status_write_def)
  next
    case (Try_refused i reason)
    then show ?thesis using tryInput_status [OF run, of i ERROR] other Op_try_result by (simp add: status_write_def)
  qed
  then show ?thesis using Op_try_result run by simp
next
  case (Op_change m inp)
  define c where "c = \<lparr>oc_from = ci_from inp, oc_to = ci_to inp, oc_reason = ci_reason inp, oc_paymentRef = ci_paymentRef inp\<rparr>"
  have "inp = change_input (ci_orderId inp) c" by (simp add: change_input_def c_def)
  moreover obtain r db' where run: "applyOrderChange m inp db = (r, db')" by force
  ultimately have "order_status_of o1 db' = order_status_of o1 db"
    using change_status [of m "ci_orderId inp" c db r db'] other Op_change by (simp add: status_write_def)
  then show ?thesis using Op_change run by simp
next
  case (Op_sweep_rejected cutoff limit)
  then show ?thesis using swept_status [OF ok] by simp
next
  case (Op_claim m c)
  have "od_orders (snd (tryInsertInProgress m c db)) = od_orders db"
    by (auto simp: tryInsertInProgress_def Let_def split: option.splits)
  with Op_claim show ?thesis by (simp add: order_status_of_def)
qed (simp_all add: order_status_of_def markCompleted_def deleteInProgress_def deleteExpiredInProgress_def deleteExpiredKeys_def Let_def)


section \<open>The three services as ports\<close>

text \<open>
  Whatever the minted ids, the transactions' time budgets and the gateway answer. A request may also never
  arrive, or be refused at the door. Calls of the payment service run by themselves here, no other
  transaction committing in their pauses.
\<close>

definition stock_lines :: "(string \<times> int) list \<Rightarrow> reservation_line list" where
  "stock_lines ls = map (\<lambda>(v, q). \<lparr>ln_variantId = v, ln_quantity = q\<rparr>) ls"

definition standing_of :: "payment_status_entry \<Rightarrow> payment_standing" where
  "standing_of e = \<lparr>ps_header = pse_header e, ps_authorizedPaymentId = pse_authorizedPaymentId e,
     ps_hasAuthorizedAttempt = pse_hasAuthorizedAttempt e, ps_hasSucceededAttempt = pse_hasSucceededAttempt e\<rparr>"

inductive stock_try :: "string \<Rightarrow> (string \<times> int) list \<Rightarrow> int \<Rightarrow> inv_db \<Rightarrow> try_outcome option \<Rightarrow> inv_db \<Rightarrow> bool" where
  stock_try_lost: "stock_try orderId ls until db None db"
| stock_try_ran: "valid_TryReservationDto (ce_called env) (stock_lines ls) until \<Longrightarrow>
    tryReserve cfg env orderId (stock_lines ls) until db = (r, db') \<Longrightarrow>
    stock_try orderId ls until db (answered r) db'"

inductive stock_command :: "reservation_command \<Rightarrow> string \<Rightarrow> inv_db \<Rightarrow> command_outcome option \<Rightarrow> inv_db \<Rightarrow> bool" where
  stock_command_lost: "stock_command op orderId db None db"
| stock_command_ran: "(ce_missed env \<Longrightarrow> op = Op_release) \<Longrightarrow> runCommand cfg env op orderId db = (r, db') \<Longrightarrow>
    stock_command op orderId db (answered r) db'"

definition checkout_services :: "(order_db, inv_db, pay_db) checkout_ports" where
  "checkout_services =
     \<lparr>cp_tryResult = (\<lambda>inp db a db'. \<exists>m r. applyTryResult m inp db = (r, db') \<and> a = answered r),
      cp_change = (\<lambda>inp db a db'. \<exists>m r. applyOrderChange m inp db = (r, db') \<and> a = answered r),
      cp_status = order_status_of,
      cp_otherOrders = (\<lambda>o1 db db'. \<exists>op. order_accepts op \<and> leaves_order o1 op \<and> db' = order_exec op db),
      cp_tryReserve = stock_try,
      cp_command = stock_command,
      cp_otherStock = (\<lambda>o1 db db'. \<exists>op. accepted op \<and> leaves_hold o1 op \<and> db' = inv_exec op db),
      cp_capture = (\<lambda>o1 db a db'. \<exists>env r. calm env \<and> capture_execute env o1 db = (r, db') \<and> a = answered r),
      cp_cancel = (\<lambda>o1 db a db'. \<exists>env missed r. calm env \<and> cancel_execute env missed o1 db = (r, db') \<and>
        a = answered r),
      cp_standing = (\<lambda>o1 db. standing_of (participant_status db o1)),
      cp_openSession = (\<lambda>o1 db db'. \<exists>env lead inp r. calm env \<and> osi_orderId inp = o1 \<and>
        fresh_session env lead inp db \<and> open_execute env lead inp db = (r, db')),
      cp_otherPayments = (\<lambda>o1 db db'. \<exists>op. calm_op op \<and> pay_fair op db \<and> leaves_to_saga o1 op \<and>
        db' = pay_exec op db)\<rparr>"

lemma services_answer:
  "applyTryResult m inp odb = (Inr w, odb') \<Longrightarrow> cp_tryResult checkout_services inp odb (Some w) odb'"
  "applyOrderChange m ch odb = (Inr w, odb') \<Longrightarrow> cp_change checkout_services ch odb (Some w) odb'"
  "valid_TryReservationDto (ce_called env) (stock_lines ls) until \<Longrightarrow>
     tryReserve cfg env o1 (stock_lines ls) until sdb = (Inr t, sdb') \<Longrightarrow>
     cp_tryReserve checkout_services o1 ls until sdb (Some t) sdb'"
  "\<not> ce_missed env \<Longrightarrow> runCommand cfg env op o1 sdb = (Inr out, sdb') \<Longrightarrow>
     cp_command checkout_services op o1 sdb (Some out) sdb'"
  "calm penv \<Longrightarrow> capture_execute penv o1 pdb = (Inr c, pdb') \<Longrightarrow> cp_capture checkout_services o1 pdb (Some c) pdb'"
  "calm penv \<Longrightarrow> fresh_session penv lead osi pdb \<Longrightarrow> open_execute penv lead osi pdb = (x, pdb') \<Longrightarrow>
     cp_openSession checkout_services (osi_orderId osi) pdb pdb'"
  "calm_op pop \<Longrightarrow> pay_fair pop pdb \<Longrightarrow> leaves_to_saga o1 pop \<Longrightarrow> cp_otherPayments checkout_services o1 pdb (pay_exec pop pdb)"
proof -
  show "valid_TryReservationDto (ce_called env) (stock_lines ls) until \<Longrightarrow>
      tryReserve cfg env o1 (stock_lines ls) until sdb = (Inr t, sdb') \<Longrightarrow>
      cp_tryReserve checkout_services o1 ls until sdb (Some t) sdb'"
    using stock_try_ran [of env ls until cfg o1 sdb "Inr t" sdb'] by (simp add: checkout_services_def answered_def)
  show "\<not> ce_missed env \<Longrightarrow> runCommand cfg env op o1 sdb = (Inr out, sdb') \<Longrightarrow>
      cp_command checkout_services op o1 sdb (Some out) sdb'"
    using stock_command_ran [of env op cfg o1 sdb "Inr out" sdb'] by (simp add: checkout_services_def answered_def)
qed (force simp: checkout_services_def answered_def)+

interpretation orders: order_port orders_ok "cp_status checkout_services o1"
    "\<lambda>r. cp_tryResult checkout_services (try_write o1 r)"
    "\<lambda>c. cp_change checkout_services (change_input o1 c)" "cp_otherOrders checkout_services o1"
  for o1
proof
  fix db r a db' assume ok: "orders_ok db" and run: "cp_tryResult checkout_services (try_write o1 r) db a db'"
  from run obtain m x where x: "applyTryResult m (try_write o1 r) db = (x, db')" "a = answered x"
    by (auto simp: checkout_services_def)
  show "orders_ok db' \<and> (cp_status checkout_services o1 db' = after_try r (cp_status checkout_services o1 db) \<or>
      a = None \<and> cp_status checkout_services o1 db' = cp_status checkout_services o1 db)"
    using tryResult_status [OF x(1)] applyTryResult_evolves [OF x(1)] ok x(2)
    by (simp add: status_write_def orders_evolve_def checkout_services_def)
next
  fix db c a db' assume ok: "orders_ok db" and run: "cp_change checkout_services (change_input o1 c) db a db'"
  from run obtain m x where x: "applyOrderChange m (change_input o1 c) db = (x, db')" "a = answered x"
    by (auto simp: checkout_services_def)
  show "orders_ok db' \<and> (cp_status checkout_services o1 db' = after_change c (cp_status checkout_services o1 db) \<or>
      a = None \<and> cp_status checkout_services o1 db' = cp_status checkout_services o1 db)"
    using change_status [OF x(1)] applyOrderChange_evolves [OF x(1)] ok x(2)
    by (simp add: status_write_def orders_evolve_def checkout_services_def)
next
  fix db db' assume ok: "orders_ok db" and run: "cp_otherOrders checkout_services o1 db db'"
  then obtain op where "order_accepts op" "leaves_order o1 op" "db' = order_exec op db"
    by (auto simp: checkout_services_def)
  then show "orders_ok db' \<and> order_settled_away (cp_status checkout_services o1 db) (cp_status checkout_services o1 db')"
    using others_status [OF ok] order_exec_evolves [of op db] ok by (simp add: orders_evolve_def checkout_services_def)
qed

interpretation stock: stock_port inv_ok "\<lambda>db. header_status db o1" "cp_tryReserve checkout_services o1"
    "\<lambda>op. cp_command checkout_services op o1" "cp_otherStock checkout_services o1"
  for o1
proof
  fix db ls until a db' assume ok: "inv_ok db" and run: "cp_tryReserve checkout_services o1 ls until db a db'"
  from run have "stock_try o1 ls until db a db'" by (simp add: checkout_services_def)
  then show "inv_ok db' \<and> hold_started (header_status db o1) (header_status db' o1) \<and>
      (a = Some Try_RESERVED \<longrightarrow> header_status db' o1 = Some R_HELD)"
  proof cases
    case (stock_try_ran env cfg r)
    then show ?thesis using try_hold [OF ok valid_lines_pos stock_try_ran(3), of _ _ o1] by simp
  qed (simp add: ok hold_started_def)
next
  fix db op b db' assume ok: "inv_ok db" and run: "cp_command checkout_services op o1 db b db'"
  from run have "stock_command op o1 db b db'" by (simp add: checkout_services_def)
  then show "inv_ok db' \<and> (case b of Some out \<Rightarrow> (out, header_status db' o1) = stock_fence op (header_status db o1)
      | None \<Rightarrow> header_status db' o1 = header_status db o1 \<or>
          header_status db' o1 = snd (stock_fence op (header_status db o1)))"
  proof cases
    case (stock_command_ran env cfg r)
    then show ?thesis using command_hold [OF ok stock_command_ran(3), of o1] by (cases r) (auto simp: answered_def)
  qed (simp add: ok)
next
  fix db db' assume ok: "inv_ok db" and run: "cp_otherStock checkout_services o1 db db'"
  then show "inv_ok db' \<and> (hold_started (header_status db o1) (header_status db' o1) \<or>
      hold_lapsed (header_status db o1) (header_status db' o1))"
    using others_hold [OF ok] by (auto simp: checkout_services_def)
qed

interpretation payments: payment_port "order_pay_ok o1" "pay_paid o1" "pay_void o1" "pay_free o1"
    "cp_standing checkout_services o1" "cp_capture checkout_services o1" "cp_cancel checkout_services o1"
    "cp_openSession checkout_services o1" "cp_otherPayments checkout_services o1"
  for o1
proof
  have captured: "free_kept o1 db db' \<and> (a \<in> {Some Cap_CAPTURED, Some Cap_IDEMPOTENT} \<longrightarrow> pay_paid o1 db')"
    if "order_pay_ok o1 db" "cp_capture checkout_services o1 db a db'" for db a db'
    using that capture_own [OF _ that(1)] by (auto simp: checkout_services_def)
  have cancelled: "free_kept o1 db db' \<and> (\<forall>out. a = Some out \<longrightarrow> out \<noteq> Can_CAPTURED_CONFLICT \<longrightarrow> pay_void o1 db')"
    if "order_pay_ok o1 db" "cp_cancel checkout_services o1 db a db'" for db a db'
    using that cancel_own [OF _ that(1)] by (auto simp: checkout_services_def)
  have other: "free_kept o1 db db'" if "order_pay_ok o1 db" "cp_otherPayments checkout_services o1 db db'" for db db'
    using that others_keep [OF that(1)] by (auto simp: checkout_services_def)
  have opened: "standing_kept o1 db db'" if "order_pay_ok o1 db" "cp_openSession checkout_services o1 db db'" for db db'
    using that open_own by (auto simp: checkout_services_def)
  fix db a db' b r out
  show "order_pay_ok o1 db' \<and> (pay_paid o1 db \<longrightarrow> pay_paid o1 db') \<and> (pay_void o1 db \<longrightarrow> pay_void o1 db')"
    if "order_pay_ok o1 db" "cp_capture checkout_services o1 db a db' \<or> cp_cancel checkout_services o1 db b db' \<or>
      cp_openSession checkout_services o1 db db' \<or> cp_otherPayments checkout_services o1 db db'"
    using that captured cancelled other opened unfolding free_kept_def standing_kept_def by blast
  show "pay_free o1 db'"
    if "order_pay_ok o1 db" "cp_capture checkout_services o1 db a db' \<or> cp_cancel checkout_services o1 db b db' \<or>
      cp_otherPayments checkout_services o1 db db'" "pay_free o1 db"
    using that captured cancelled other unfolding free_kept_def by blast
  show "pay_paid o1 db'"
    if "order_pay_ok o1 db" "cp_capture checkout_services o1 db (Some r) db'" "r \<in> {Cap_CAPTURED, Cap_IDEMPOTENT}"
    using captured [OF that(1,2)] that(3) by auto
  show "pay_void o1 db'"
    if "order_pay_ok o1 db" "cp_cancel checkout_services o1 db (Some out) db'" "payment_compensated out"
    using cancelled [OF that(1,2)] that(3) by (auto simp: payment_compensated_def)
  show "ps_header (cp_standing checkout_services o1 db) = Some P_CAPTURED" if "order_pay_ok o1 db" "pay_paid o1 db"
    using that by (simp add: checkout_services_def standing_of_def pay_paid_def)
  show "ps_header (cp_standing checkout_services o1 db) \<noteq> Some P_CAPTURED \<and>
      \<not> ps_hasAuthorizedAttempt (cp_standing checkout_services o1 db) \<and>
      \<not> ps_hasSucceededAttempt (cp_standing checkout_services o1 db)"
    if "order_pay_ok o1 db" "pay_void o1 db \<or> pay_free o1 db"
    using status_nothing_live [OF that(2)] by (simp add: checkout_services_def standing_of_def)
qed

interpretation checkout: checkout_parties checkout_services o1 orders_ok inv_ok "\<lambda>db. header_status db o1"
    "order_pay_ok o1" "pay_paid o1" "pay_void o1" "pay_free o1"
  for o1
  by unfold_locales

end
