(* ===== verification/Checkout_Agreement.thy ===== *)
theory Checkout_Agreement
  imports Checkout_Parties
begin

text \<open>
  What the parties of a checkout agree on: the properties of a whole run over the three services, and a
  run that pays, the concrete input of their witnesses.
\<close>


section \<open>A run that pays\<close>

definition pen_input :: saga_input where
  "pen_input = \<lparr>si_mode = M_checkout, si_orderId = ''30'', si_lines = [(''7'', 2)], si_totalMinor = 500,
     si_currency = ''VND'', si_tryStartedAt = Some 0, si_tryTimeoutMs = 1000, si_holdUntil = 9000\<rparr>"

definition pen_auth :: payment_authorization where
  "pen_auth = \<lparr>pa_paymentId = ''11'', pa_amountMinor = 500, pa_currency = ''VND'', pa_authorizedAt = 1000\<rparr>"

definition pen_confirm :: order_change where
  "pen_confirm = \<lparr>oc_from = [PENDING], oc_to = CONFIRMING, oc_reason = None, oc_paymentRef = None\<rparr>"

definition pen_pay :: order_change where
  "pen_pay = \<lparr>oc_from = [CONFIRMING], oc_to = PAID, oc_reason = Some ''saga:captured'', oc_paymentRef = Some ''11''\<rparr>"

definition new_ops :: "order_op list" where
  "new_ops = [Op_create (Some [''30'', ''31'']) pen_order (Some ''k1'')]"

definition new_stock :: "inv_op list" where
  "new_stock = [Do_set (Some ''1'') ''7'' 5]"

definition confirmed_orders :: order_db where
  "confirmed_orders = snd (applyOrderChange None (change_input ''30'' pen_confirm) (orders_after placed_ops))"

definition paid_orders :: order_db where
  "paid_orders = snd (applyOrderChange (Some ''33'') (change_input ''30'' pen_pay) confirmed_orders)"

definition sold_db :: inv_db where
  "sold_db = snd (runCommand calm_cfg calm_env Op_commit ''30'' short_db)"

definition charged_db :: pay_db where
  "charged_db = snd (capture_execute card_env ''30'' paid_db)"

lemma pen_orders:
  "order_status_of ''30'' (orders_after new_ops) = Some RESERVING"
  "applyTryResult (Some ''32'') (Try_held ''30'') (orders_after new_ops) = (Inr Sw_applied, orders_after placed_ops)"
  "order_status_of ''30'' (orders_after placed_ops) = Some PENDING"
  "applyOrderChange None (change_input ''30'' pen_confirm) (orders_after placed_ops) = (Inr Sw_applied, confirmed_orders)"
  "applyOrderChange (Some ''33'') (change_input ''30'' pen_pay) confirmed_orders = (Inr Sw_applied, paid_orders)"
  "order_status_of ''30'' paid_orders = Some PAID"
  by code_simp+

lemma pen_stock:
  "tryReserve calm_cfg calm_env ''30'' (stock_lines [(''7'', 2)]) 9000 (inv_after new_stock) = (Inr Try_RESERVED, short_db)"
  "runCommand calm_cfg calm_env Op_commit ''30'' short_db = (Inr Cmd_APPLIED, sold_db)"
  "valid_TryReservationDto 1000 (stock_lines [(''7'', 2)]) 9000"
  by code_simp+

lemma pen_pays:
  "open_execute card_env 0 card_order empty_pay_db = (fst (open_execute card_env 0 card_order empty_pay_db), opened_db)"
  "capture_execute card_env ''30'' paid_db = (Inr Cap_CAPTURED, charged_db)"
  "standing_of (participant_status paid_db ''30'') = \<lparr>ps_header = Some P_AUTHORIZED, ps_authorizedPaymentId = Some ''11'',
     ps_hasAuthorizedAttempt = True, ps_hasSucceededAttempt = False\<rparr>"
  "fresh_session card_env 0 card_order empty_pay_db"
  "pay_free ''30'' empty_pay_db"
  by code_simp+

definition await_auth :: saga_state where
  "await_auth = (initialCheckoutSagaState M_checkout)
     \<lparr>ss_step := S_AWAITING_AUTH, ss_orderStatus := Some PENDING, ss_tryOutcome := Some HELD\<rparr>"

definition committing :: saga_state where
  "committing = await_auth\<lparr>ss_step := S_COMMITTING_STOCK, ss_orderStatus := Some CONFIRMING,
     ss_authorization := Some pen_auth\<rparr>"

definition completed :: saga_state where
  "completed = committing\<lparr>ss_step := S_COMPLETED, ss_orderStatus := Some PAID\<rparr>"

definition pen_world ::
    "order_db \<Rightarrow> inv_db \<Rightarrow> pay_db \<Rightarrow> saga_state \<Rightarrow> work list \<Rightarrow> nat \<Rightarrow> (order_db, inv_db, pay_db) world" where
  "pen_world ord s p st W n = \<lparr>w_orders = ord, w_stock = s, w_pay = p, w_saga = st, w_work = mset W,
     w_tryRun = True, w_context = False, w_payCalls = n\<rparr>"

lemma pen_world_simps [simp]:
  "w_orders (pen_world ord s p st W n) = ord" "w_stock (pen_world ord s p st W n) = s"
  "w_pay (pen_world ord s p st W n) = p" "w_saga (pen_world ord s p st W n) = st"
  "w_work (pen_world ord s p st W n) = mset W" "w_payCalls (pen_world ord s p st W n) = n"
  by (simp_all add: pen_world_def)

lemmas pen_saga = await_auth_def committing_def completed_def initialCheckoutSagaState_def pen_auth_def saga_defs

definition pen_start :: "(order_db, inv_db, pay_db) world" where
  "pen_start = wf_start M_checkout (orders_after new_ops) (inv_after new_stock) empty_pay_db"

definition pen_paid :: "(order_db, inv_db, pay_db) world" where
  "pen_paid = pen_world paid_orders sold_db charged_db completed [] 0"

abbreviation pen_step where "pen_step \<equiv> wf_step checkout_services pen_input"
abbreviation pen_runs where "pen_runs \<equiv> wf_runs checkout_services pen_input"

lemma pen_tries:
  "pen_step pen_start (pen_world (orders_after new_ops) short_db empty_pay_db
     (initialCheckoutSagaState M_checkout) [W_tried HELD] 0)"
proof -
  have "attemptTry checkout_services pen_input (inv_after new_stock) (toReserveOutcome Try_RESERVED) short_db"
  proof (rule try_answered)
    show "planTry (si_tryStartedAt pen_input) (si_tryTimeoutMs pen_input) 0 = Some 1000"
      by (simp add: pen_input_def planTry_def)
    show "cp_tryReserve checkout_services (si_orderId pen_input) (si_lines pen_input) (si_holdUntil pen_input)
        (inv_after new_stock) (Some Try_RESERVED) short_db"
      using services_answer(3) [of calm_env "[(''7'', 2)]" 9000 calm_cfg "''30''" "inv_after new_stock"] pen_stock(1,3)
      by (simp add: pen_input_def calm_env_def)
  qed
  then show ?thesis
    using step_try [of pen_start checkout_services pen_input HELD short_db]
    by (simp add: pen_start_def wf_start_def pen_world_def)
qed

abbreviation pen_at where
  "pen_at k \<equiv> [
     pen_start,
     pen_world (orders_after new_ops) short_db empty_pay_db (initialCheckoutSagaState M_checkout) [W_tried HELD] 0,
     pen_world (orders_after placed_ops) short_db empty_pay_db (initialCheckoutSagaState M_checkout) [W_written HELD] 0,
     pen_world (orders_after placed_ops) short_db empty_pay_db await_auth [] 0,
     pen_world (orders_after placed_ops) short_db empty_pay_db await_auth [] 1,
     pen_world (orders_after placed_ops) short_db opened_db await_auth [] 0,
     pen_world (orders_after placed_ops) short_db paid_db await_auth [] 0,
     pen_world (orders_after placed_ops) short_db paid_db (await_auth\<lparr>ss_verifying := [''11'']\<rparr>)
       [W_execute [VERIFY_AUTHORIZATION pen_auth] []] 0,
     pen_world (orders_after placed_ops) short_db paid_db (await_auth\<lparr>ss_verifying := [''11'']\<rparr>)
       [W_verify pen_auth, W_execute [] []] 0,
     pen_world (orders_after placed_ops) short_db paid_db (await_auth\<lparr>ss_verifying := [''11'']\<rparr>)
       [W_verify pen_auth] 0,
     pen_world (orders_after placed_ops) short_db paid_db (await_auth\<lparr>ss_verifying := [''11'']\<rparr>)
       [W_verdict pen_auth VERIFIED] 0,
     pen_world (orders_after placed_ops) short_db paid_db committing
       [W_execute [CHANGE_ORDER pen_confirm, COMMIT_STOCK] []] 0,
     pen_world confirmed_orders short_db paid_db committing [W_execute [COMMIT_STOCK] []] 0,
     pen_world confirmed_orders sold_db paid_db committing [W_committed Cmd_APPLIED [] []] 0,
     pen_world confirmed_orders sold_db paid_db (committing\<lparr>ss_step := S_CAPTURING\<rparr>)
       [W_execute [CAPTURE_PAYMENT] [], W_execute [] []] 0,
     pen_world confirmed_orders sold_db paid_db (committing\<lparr>ss_step := S_CAPTURING\<rparr>) [W_execute [CAPTURE_PAYMENT] []] 0,
     pen_world confirmed_orders sold_db charged_db (committing\<lparr>ss_step := S_CAPTURING\<rparr>) [W_captured Sc_CAPTURED [] []] 0,
     pen_world confirmed_orders sold_db charged_db completed
       [W_execute [CHANGE_ORDER pen_pay] [], W_execute [] []] 0,
     pen_world confirmed_orders sold_db charged_db completed [W_execute [CHANGE_ORDER pen_pay] []] 0,
     pen_world paid_orders sold_db charged_db completed [W_execute [] []] 0,
     pen_paid] ! k"

lemma pen_places: "pen_step (pen_at 1) (pen_at 2)" "pen_step (pen_at 2) (pen_at 3)"
proof -
  show "pen_step (pen_at 1) (pen_at 2)"
    using step_tried [of "pen_at 1" HELD "{#}" checkout_services pen_input Sw_applied "orders_after placed_ops"]
      services_answer(1) [OF pen_orders(2)]
    by (simp add: pen_input_def pen_world_def try_write_def)
  show "pen_step (pen_at 2) (pen_at 3)"
    using step_written [of "pen_at 2" HELD "{#}" checkout_services pen_input]
    by (simp add: wf_apply_def spawned_def pen_world_def pen_saga)
qed

lemma pen_opens: "pen_step (pen_at 3) (pen_at 4)" "pen_step (pen_at 4) (pen_at 5)" "pen_step (pen_at 5) (pen_at 6)"
proof -
  have o1: "cp_openSession checkout_services ''30'' empty_pay_db opened_db"
    using services_answer(6) [OF card_calm(1) pen_pays(4,1)] by (simp add: card_order_def)
  have o2: "cp_otherPayments checkout_services ''30'' opened_db paid_db"
    using services_answer(7) [of "Do_webhook card_env (Valid_event card_event)" opened_db "''30''"]
      card_calm(1) calm_gaps [OF card_calm(1)] by (simp add: card_pays del: pay_exec.simps)
  show "pen_step (pen_at 3) (pen_at 4)"
    using step_pay [of checkout_services pen_input "pen_at 3"] pen_orders(3)
    by (simp add: pen_input_def checkout_services_def pen_world_def)
  show "pen_step (pen_at 4) (pen_at 5)"
    using step_open [of "pen_at 4" 0 checkout_services pen_input opened_db] o1 by (simp add: pen_input_def pen_world_def)
  show "pen_step (pen_at 5) (pen_at 6)"
    using step_payments [of checkout_services pen_input "pen_at 5" paid_db] o2 by (simp add: pen_input_def pen_world_def)
qed

lemma pen_verifies:
  "pen_step (pen_at 6) (pen_at 7)" "pen_step (pen_at 7) (pen_at 8)" "pen_step (pen_at 8) (pen_at 9)"
  "pen_step (pen_at 9) (pen_at 10)" "pen_step (pen_at 10) (pen_at 11)"
proof -
  show "pen_step (pen_at 6) (pen_at 7)"
    using step_authorized [of checkout_services pen_input "pen_at 6" pen_auth]
    by (simp add: pen_input_def wf_apply_def spawned_def pen_world_def pen_saga)
  show "pen_step (pen_at 7) (pen_at 8)"
    using step_verify [of "pen_at 7" pen_auth "[]" "[]" "{#}" checkout_services pen_input] by (simp add: pen_world_def)
  show "pen_step (pen_at 8) (pen_at 9)"
    using step_spawn [of "pen_at 8" "[]" "{#W_verify pen_auth#}" checkout_services pen_input]
    by (simp add: pen_world_def add_mset_commute)
  show "pen_step (pen_at 9) (pen_at 10)"
    using step_verdict [of "pen_at 9" pen_auth "{#}" VERIFIED checkout_services pen_input] pen_pays(3)
    by (simp add: pen_input_def pen_world_def checkout_services_def verifyAuthorization_def pen_auth_def)
  show "pen_step (pen_at 10) (pen_at 11)"
    using step_verified [of "pen_at 10" pen_auth VERIFIED "{#}" checkout_services pen_input]
    by (simp add: wf_apply_def spawned_def pen_world_def pen_saga pen_confirm_def)
qed

lemma pen_commits:
  "pen_step (pen_at 11) (pen_at 12)" "pen_step (pen_at 12) (pen_at 13)" "pen_step (pen_at 13) (pen_at 14)"
  "pen_step (pen_at 14) (pen_at 15)"
proof -
  show "pen_step (pen_at 11) (pen_at 12)"
    using step_change [of "pen_at 11" pen_confirm "[COMMIT_STOCK]" "[]" "{#}" checkout_services pen_input Sw_applied
        confirmed_orders] services_answer(2) [OF pen_orders(4)]
    by (simp add: pen_input_def pen_world_def)
  show "pen_step (pen_at 12) (pen_at 13)"
    using step_commit [of "pen_at 12" "[]" "[]" "{#}" checkout_services pen_input Cmd_APPLIED sold_db]
      services_answer(4) [OF _ pen_stock(2)]
    by (simp add: pen_input_def calm_env_def pen_world_def)
  show "pen_step (pen_at 13) (pen_at 14)"
    using step_committed [of "pen_at 13" Cmd_APPLIED "[]" "[]" "{#}" checkout_services pen_input]
    by (simp add: wf_apply_def spawned_def pen_world_def pen_saga)
  show "pen_step (pen_at 14) (pen_at 15)"
    using step_spawn [of "pen_at 14" "[]" "{#W_execute [CAPTURE_PAYMENT] []#}" checkout_services pen_input]
    by (simp add: pen_world_def add_mset_commute)
qed

lemma pen_captures:
  "pen_step (pen_at 15) (pen_at 16)" "pen_step (pen_at 16) (pen_at 17)" "pen_step (pen_at 17) (pen_at 18)"
  "pen_step (pen_at 18) (pen_at 19)" "pen_step (pen_at 19) (pen_at 20)"
proof -
  show "pen_step (pen_at 15) (pen_at 16)"
    using step_capture [of "pen_at 15" "[]" "[]" "{#}" checkout_services pen_input Cap_CAPTURED charged_db Sc_CAPTURED]
      services_answer(5) [OF card_calm(1) pen_pays(2)]
    by (simp add: pen_input_def pen_world_def)
  show "pen_step (pen_at 16) (pen_at 17)"
    using step_captured [of "pen_at 16" Sc_CAPTURED "[]" "[]" "{#}" checkout_services pen_input]
    by (simp add: wf_apply_def spawned_def pen_world_def pen_saga pen_pay_def)
  show "pen_step (pen_at 17) (pen_at 18)"
    using step_spawn [of "pen_at 17" "[]" "{#W_execute [CHANGE_ORDER pen_pay] []#}" checkout_services pen_input]
    by (simp add: pen_world_def add_mset_commute)
  show "pen_step (pen_at 18) (pen_at 19)"
    using step_change [of "pen_at 18" pen_pay "[]" "[]" "{#}" checkout_services pen_input Sw_applied
        paid_orders] services_answer(2) [OF pen_orders(5)]
    by (simp add: pen_input_def pen_world_def)
  show "pen_step (pen_at 19) (pen_at 20)"
    using step_spawn [of "pen_at 19" "[]" "{#}" checkout_services pen_input]
    by (simp add: pen_world_def pen_paid_def)
qed

lemma pen_run: "pen_runs (wf_start M_checkout (orders_after new_ops) (inv_after new_stock) empty_pay_db) pen_paid"
proof -
  note steps = pen_tries pen_places pen_opens pen_verifies pen_commits pen_captures
  have "pen_runs pen_start pen_paid"
    by (rule steps [THEN converse_rtranclp_into_rtranclp [where r = pen_step], simplified] rtranclp.rtrancl_refl)+
  then show ?thesis by (simp add: pen_start_def)
qed

lemma pen_accepts: "list_all order_accepts new_ops" "list_all accepted new_stock"
  by (simp_all add: new_ops_def new_stock_def pen_order_def valid_SetStockDto_def MAX_STOCK_ON_HAND_def)


section \<open>What a run leaves behind\<close>

text \<open>A run started on reachable stores, for an order that waits for its Try and nobody paid for.\<close>

lemma started_agrees:
  assumes "list_all order_accepts ops" "list_all accepted iops" "pay_leads empty_pay_db p"
    and "order_status_of o1 (orders_after ops) = Some RESERVING" "pay_free o1 p"
    and "wf_runs checkout_services inp (wf_start M_checkout (orders_after ops) (inv_after iops) p) w"
    and "si_orderId inp = o1" "si_mode inp = M_checkout"
  shows "checkout.agrees o1 w"
proof -
  have "order_pay_ok o1 p"
    using reached_ok [OF assms(3)] assms(5) by (auto simp: order_pay_ok_def pay_free_def)
  then have "checkout.agrees o1 (wf_start M_checkout (orders_after ops) (inv_after iops) p)"
    using assms(4,5) orders_after_ok [OF assms(1)] inv_after_ok [OF assms(2)]
    by (intro checkout.start_agrees) (simp_all add: checkout_services_def)
  then show ?thesis by (rule checkout.runs_agree [OF assms(6-8)])
qed

text \<open> C1: a checkout that has settled is consistent across the three services. Take a checkout run of an
  order that waits for its Try and has no payment, over reachable stores, with the steps of the workflow,
  lost and repeated activities, stragglers, signals, pay calls and everyone else's requests in any order.
  When the run has closed, the order is settled and the checkout invariants of the order domain find
  nothing: a paid order has its stock committed and its money captured, and any other order holds no stock
  and no money, authorized or taken. (A rejected order may have been swept away since.) \<close>

theorem closed_checkout_is_clean:
  assumes "list_all order_accepts ops" and "list_all accepted iops" and "pay_leads empty_pay_db p"
    and "order_status_of (si_orderId inp) (orders_after ops) = Some RESERVING" and "pay_free (si_orderId inp) p"
    and "si_mode inp = M_checkout"
    and "wf_runs checkout_services inp (wf_start M_checkout (orders_after ops) (inv_after iops) p) w"
    and "wf_closed w"
  shows "case order_status_of (si_orderId inp) (w_orders w) of
      None \<Rightarrow> ss_orderStatus (w_saga w) = Some REJECTED
    | Some D \<Rightarrow> evaluateCheckoutInvariants \<lparr>sc_status = D, sc_stock = header_status (w_stock w) (si_orderId inp),
        sc_payment = standing_of (participant_status (w_pay w) (si_orderId inp))\<rparr> = Inr []"
proof -
  have w: "checkout.agrees (si_orderId inp) w" using started_agrees [OF assms(1-5,7) refl assms(6)] .
  show ?thesis
    using checkout.closed_clean [OF w assms(8)] checkout.closed_settled [OF w assms(8)]
    by (auto simp: checkout_services_def split: option.splits)
qed

theorem closed_checkout_is_clean_witness:
  "evaluateCheckoutInvariants \<lparr>sc_status = PAID, sc_stock = header_status sold_db ''30'',
     sc_payment = standing_of (participant_status charged_db ''30'')\<rparr> = Inr []"
proof -
  have "wf_closed pen_paid" by (simp add: wf_closed_def pen_paid_def pen_world_def completed_def)
  from closed_checkout_is_clean [OF pen_accepts leads_stop _ _ _ pen_run this] show ?thesis
    using pen_orders(1,6) pen_pays(5) by (simp add: pen_input_def pen_paid_def)
qed

text \<open> C2: an order is only ever PAID with the goods and the money behind it. At every moment of such a
  run, not only when it has closed, a PAID order has its stock committed and its payment captured. \<close>

theorem paid_order_is_backed:
  assumes "list_all order_accepts ops" and "list_all accepted iops" and "pay_leads empty_pay_db p"
    and "order_status_of (si_orderId inp) (orders_after ops) = Some RESERVING" and "pay_free (si_orderId inp) p"
    and "si_mode inp = M_checkout"
    and "wf_runs checkout_services inp (wf_start M_checkout (orders_after ops) (inv_after iops) p) w"
    and "order_status_of (si_orderId inp) (w_orders w) = Some PAID"
  shows "header_status (w_stock w) (si_orderId inp) = Some R_COMMITTED \<and>
    pay_status_of (w_pay w) (si_orderId inp) = Some P_CAPTURED"
proof -
  have w: "checkout.agrees (si_orderId inp) w" using started_agrees [OF assms(1-5,7) refl assms(6)] .
  show ?thesis
    using checkout.paid_backed [OF w] assms(8) by (simp add: checkout_services_def pay_paid_def)
qed

theorem paid_order_is_backed_witness:
  "header_status sold_db ''30'' = Some R_COMMITTED \<and> pay_status_of charged_db ''30'' = Some P_CAPTURED"
  using paid_order_is_backed [OF pen_accepts leads_stop _ _ _ pen_run] pen_orders(1,6) pen_pays(5)
  by (simp add: pen_input_def pen_paid_def)

end
