(* ===== verification/Snowflake_Codec.thy ===== *)
theory Snowflake_Codec
  imports Prelude
begin

text \<open>
  The id layout (\<^verbatim>\<open>packages/id-codec/src/snowflake.codec.ts\<close>): 45 bits of milliseconds since the epoch, 8
  bits of node, 10 bits of sequence, written in decimal. BigInts are integers, and the checks that keep
  the value in 63 bits are the code's own. Fields are whole numbers here: the code refuses any other.
\<close>

unbundle bit_operations_syntax


section \<open>Layout\<close>

definition EPOCH_MS :: int where "EPOCH_MS = 1767225600000"
definition LAYOUT_VERSION :: nat where "LAYOUT_VERSION = 2"
definition TIMESTAMP_BITS :: nat where "TIMESTAMP_BITS = 45"
definition NODE_BITS :: nat where "NODE_BITS = 8"
definition SEQUENCE_BITS :: nat where "SEQUENCE_BITS = 10"
definition NODE_COUNT :: int where "NODE_COUNT = 2 ^ NODE_BITS"
definition SEQUENCE_COUNT :: int where "SEQUENCE_COUNT = 2 ^ SEQUENCE_BITS"
definition MAX_TIMESTAMP_MS :: int where "MAX_TIMESTAMP_MS = EPOCH_MS + 2 ^ TIMESTAMP_BITS - 1"
definition MIN_TIMESTAMP_MS :: int where "MIN_TIMESTAMP_MS = EPOCH_MS + 1"
definition NODE_SHIFT :: nat where "NODE_SHIFT = SEQUENCE_BITS"
definition TIMESTAMP_SHIFT :: nat where "TIMESTAMP_SHIFT = SEQUENCE_BITS + NODE_BITS"
definition NODE_MASK :: int where "NODE_MASK = NODE_COUNT - 1"
definition SEQUENCE_MASK :: int where "SEQUENCE_MASK = SEQUENCE_COUNT - 1"
definition MIN_ROUTABLE_ID :: int where "MIN_ROUTABLE_ID = push_bit TIMESTAMP_SHIFT 1"
definition MAX_VALUE :: int where "MAX_VALUE = push_bit 63 1 - 1"

lemmas id_layout = EPOCH_MS_def TIMESTAMP_BITS_def NODE_BITS_def SEQUENCE_BITS_def NODE_COUNT_def
  SEQUENCE_COUNT_def MAX_TIMESTAMP_MS_def MIN_TIMESTAMP_MS_def NODE_SHIFT_def TIMESTAMP_SHIFT_def
  NODE_MASK_def SEQUENCE_MASK_def MIN_ROUTABLE_ID_def MAX_VALUE_def

record snowflake_fields =
  sf_tsMs :: int
  sf_nodeId :: int
  sf_sequence :: int

datatype id_error = Out_of_range string | Not_routable


section \<open>Encoding and decoding\<close>

definition CANONICAL_DECIMAL :: "string \<Rightarrow> bool" where
  "CANONICAL_DECIMAL s \<longleftrightarrow> s \<noteq> [] \<and> list_all is_digit s \<and> hd s \<noteq> CHR ''0'' \<and> length s \<le> 19"

definition toRoutable :: "string \<Rightarrow> int option" where
  "toRoutable s =
     (if \<not> CANONICAL_DECIMAL s then None
      else let parsed = int (nat_of_dec s) in
        if MIN_ROUTABLE_ID \<le> parsed \<and> parsed \<le> MAX_VALUE then Some parsed else None)"

definition assertField :: "string \<Rightarrow> int \<Rightarrow> int \<Rightarrow> int \<Rightarrow> id_error + unit" where
  "assertField name value mn mx = (if value < mn \<or> mx < value then Inl (Out_of_range name) else Inr ())"

definition id_encode :: "snowflake_fields \<Rightarrow> id_error + string" where
  "id_encode f =
     ebind (assertField ''tsMs'' (sf_tsMs f) MIN_TIMESTAMP_MS MAX_TIMESTAMP_MS) (\<lambda>_.
     ebind (assertField ''nodeId'' (sf_nodeId f) 0 (NODE_COUNT - 1)) (\<lambda>_.
     ebind (assertField ''sequence'' (sf_sequence f) 0 (SEQUENCE_COUNT - 1)) (\<lambda>_.
       let value = push_bit TIMESTAMP_SHIFT (sf_tsMs f - EPOCH_MS) OR push_bit NODE_SHIFT (sf_nodeId f) OR sf_sequence f
       in Inr (dec_of_nat (nat value)))))"

definition id_decode :: "string \<Rightarrow> id_error + snowflake_fields" where
  "id_decode s =
     (case toRoutable s of
        None \<Rightarrow> Inl Not_routable
      | Some value \<Rightarrow> Inr \<lparr>sf_tsMs = drop_bit TIMESTAMP_SHIFT value + EPOCH_MS,
          sf_nodeId = drop_bit NODE_SHIFT value AND NODE_MASK, sf_sequence = value AND SEQUENCE_MASK\<rparr>)"

definition isRoutableId :: "string \<Rightarrow> bool" where
  "isRoutableId s \<longleftrightarrow> toRoutable s \<noteq> None"


section \<open>The value of an id\<close>

definition fields_ok :: "snowflake_fields \<Rightarrow> bool" where
  "fields_ok f \<longleftrightarrow> MIN_TIMESTAMP_MS \<le> sf_tsMs f \<and> sf_tsMs f \<le> MAX_TIMESTAMP_MS \<and>
     0 \<le> sf_nodeId f \<and> sf_nodeId f < NODE_COUNT \<and> 0 \<le> sf_sequence f \<and> sf_sequence f < SEQUENCE_COUNT"

definition id_value :: "snowflake_fields \<Rightarrow> int" where
  "id_value f = (sf_tsMs f - EPOCH_MS) * 2 ^ 18 + sf_nodeId f * 2 ^ 10 + sf_sequence f"

lemma or_below: "0 \<le> b \<Longrightarrow> b < 2 ^ n \<Longrightarrow> push_bit n a OR b = a * 2 ^ n + b" for a b :: int
proof -
  assume b: "0 \<le> b" "b < 2 ^ n"
  then have "take_bit n b = b" by (simp add: take_bit_int_eq_self)
  then have "\<not> bit b k" if "n \<le> k" for k by (metis bit_take_bit_iff not_less that)
  then have "\<not> bit (push_bit n a) k \<or> \<not> bit b k" for k by (auto simp: bit_push_bit_iff)
  then have "push_bit n a AND b = 0" by (auto simp: bit_eq_iff bit_and_iff)
  then have "push_bit n a + b = push_bit n a OR b" by (rule disjunctive_add_eq_or)
  then show ?thesis by (simp add: push_bit_eq_mult)
qed

lemma encode_value:
  assumes "fields_ok f"
  shows "push_bit TIMESTAMP_SHIFT (sf_tsMs f - EPOCH_MS) OR push_bit NODE_SHIFT (sf_nodeId f) OR sf_sequence f = id_value f"
proof -
  have s: "push_bit NODE_SHIFT (sf_nodeId f) OR sf_sequence f = sf_nodeId f * 2 ^ 10 + sf_sequence f"
    using assms or_below [of "sf_sequence f" 10 "sf_nodeId f"] by (simp add: fields_ok_def id_layout)
  have "0 \<le> sf_nodeId f * 2 ^ 10 + sf_sequence f" "sf_nodeId f * 2 ^ 10 + sf_sequence f < 2 ^ 18"
    using assms by (auto simp: fields_ok_def id_layout)
  from or_below [OF this, of "sf_tsMs f - EPOCH_MS"] show ?thesis
    by (simp add: or.assoc s id_value_def TIMESTAMP_SHIFT_def SEQUENCE_BITS_def NODE_BITS_def)
qed

lemma assertField_Inr [simp]: "assertField name v mn mx = Inr u \<longleftrightarrow> mn \<le> v \<and> v \<le> mx"
  by (auto simp: assertField_def)

lemma encode_cases: "id_encode f = Inr s \<longleftrightarrow> fields_ok f \<and> s = dec_of_nat (nat (id_value f))"
proof -
  have ok: "fields_ok f \<longleftrightarrow> (MIN_TIMESTAMP_MS \<le> sf_tsMs f \<and> sf_tsMs f \<le> MAX_TIMESTAMP_MS) \<and>
      (0 \<le> sf_nodeId f \<and> sf_nodeId f \<le> NODE_COUNT - 1) \<and> 0 \<le> sf_sequence f \<and> sf_sequence f \<le> SEQUENCE_COUNT - 1"
    by (auto simp: fields_ok_def)
  have "id_encode f = Inr s \<longleftrightarrow> fields_ok f \<and> s = dec_of_nat (nat (push_bit TIMESTAMP_SHIFT (sf_tsMs f - EPOCH_MS) OR
      push_bit NODE_SHIFT (sf_nodeId f) OR sf_sequence f))"
    unfolding id_encode_def Let_def ok by (simp add: ebind_Inr_iff eq_commute [of s])
  then show ?thesis using encode_value [of f] by auto
qed

lemma encode_ok: "fields_ok f \<Longrightarrow> id_encode f = Inr (dec_of_nat (nat (id_value f)))"
  by (simp add: encode_cases)

lemma field_bounds:
  assumes "fields_ok f"
  shows "1 \<le> sf_tsMs f - EPOCH_MS" "sf_tsMs f - EPOCH_MS < 2 ^ 45" "0 \<le> sf_nodeId f" "sf_nodeId f < 2 ^ 8"
    "0 \<le> sf_sequence f" "sf_sequence f < 2 ^ 10"
  using assms by (simp_all add: fields_ok_def MIN_TIMESTAMP_MS_def MAX_TIMESTAMP_MS_def NODE_COUNT_def SEQUENCE_COUNT_def
      TIMESTAMP_BITS_def NODE_BITS_def SEQUENCE_BITS_def)

lemma digit_split: "0 \<le> r \<Longrightarrow> r < m \<Longrightarrow> (a * m + r) mod m = r \<and> (a * m + r) div m = a" for a m r :: int
  by (simp add: mod_pos_pos_trivial div_pos_pos_trivial)

lemma value_split:
  fixes t n q :: int
  assumes n: "0 \<le> n" "n < 2 ^ 8" and q: "0 \<le> q" "q < 2 ^ 10"
  shows "(t * 2 ^ 18 + n * 2 ^ 10 + q) mod 2 ^ 10 = q" "(t * 2 ^ 18 + n * 2 ^ 10 + q) div 2 ^ 10 = t * 2 ^ 8 + n"
    "(t * 2 ^ 18 + n * 2 ^ 10 + q) div 2 ^ 18 = t"
proof -
  have v: "t * 2 ^ 18 + n * 2 ^ 10 + q = (t * 2 ^ 8 + n) * 2 ^ 10 + q"
      "t * 2 ^ 18 + n * 2 ^ 10 + q = t * 2 ^ 18 + (n * 2 ^ 10 + q)" by (simp_all add: algebra_simps)
  show "(t * 2 ^ 18 + n * 2 ^ 10 + q) mod 2 ^ 10 = q" "(t * 2 ^ 18 + n * 2 ^ 10 + q) div 2 ^ 10 = t * 2 ^ 8 + n"
    unfolding v(1) using digit_split [OF q] by blast+
  have "0 \<le> n * 2 ^ 10 + q" "n * 2 ^ 10 + q < 2 ^ 18" using n q by simp_all
  from digit_split [OF this] show "(t * 2 ^ 18 + n * 2 ^ 10 + q) div 2 ^ 18 = t" unfolding v(2) by blast
qed

lemma value_bounds: "fields_ok f \<Longrightarrow> MIN_ROUTABLE_ID \<le> id_value f \<and> id_value f \<le> MAX_VALUE"
  using field_bounds [of f]
  by (simp add: id_value_def MIN_ROUTABLE_ID_def MAX_VALUE_def TIMESTAMP_SHIFT_def SEQUENCE_BITS_def NODE_BITS_def)

lemma value_fields:
  assumes "fields_ok f"
  shows "id_value f div 2 ^ 18 = sf_tsMs f - EPOCH_MS" "id_value f div 2 ^ 10 mod 2 ^ 8 = sf_nodeId f"
    "id_value f mod 2 ^ 10 = sf_sequence f"
proof -
  note split = value_split [OF field_bounds(3-6) [OF assms], of "sf_tsMs f - EPOCH_MS", folded id_value_def]
  show "id_value f div 2 ^ 18 = sf_tsMs f - EPOCH_MS" "id_value f mod 2 ^ 10 = sf_sequence f" by (fact split)+
  show "id_value f div 2 ^ 10 mod 2 ^ 8 = sf_nodeId f"
    unfolding split(2) using digit_split [OF field_bounds(3,4) [OF assms]] by blast
qed

lemma value_unique:
  assumes "fields_ok f" "fields_ok g" "id_value f = id_value g"
  shows "f = g"
  using value_fields [OF assms(1)] value_fields [OF assms(2)] assms(3)
  by (simp add: snowflake_fields.equality)


section \<open>Round trip and order\<close>

lemma decode_value:
  assumes "toRoutable s = Some v"
  shows "id_decode s = Inr \<lparr>sf_tsMs = v div 2 ^ 18 + EPOCH_MS, sf_nodeId = v div 2 ^ 10 mod 2 ^ 8,
    sf_sequence = v mod 2 ^ 10\<rparr>"
proof -
  have "x AND 255 = x mod 2 ^ 8" "x AND 1023 = x mod 2 ^ 10" for x :: int
    using take_bit_eq_mask [of 8 x] take_bit_eq_mask [of 10 x] by (simp_all add: take_bit_eq_mod mask_eq_exp_minus_1)
  then show ?thesis
    using assms by (simp add: id_decode_def drop_bit_eq_div TIMESTAMP_SHIFT_def NODE_SHIFT_def NODE_MASK_def
        SEQUENCE_MASK_def NODE_COUNT_def SEQUENCE_COUNT_def SEQUENCE_BITS_def NODE_BITS_def)
qed

lemma routable_printed:
  assumes "MIN_ROUTABLE_ID \<le> v" "v \<le> MAX_VALUE"
  shows "toRoutable (dec_of_nat (nat v)) = Some v"
proof -
  have v: "0 < nat v" "nat v < 10 ^ 19"
    using assms by (simp_all add: MIN_ROUTABLE_ID_def MAX_VALUE_def TIMESTAMP_SHIFT_def SEQUENCE_BITS_def NODE_BITS_def)
  then have "CANONICAL_DECIMAL (dec_of_nat (nat v))"
    using dec_of_nat_length [of 19 "nat v"] dec_of_nat_hd [of "nat v"] dec_of_nat_digits [of "nat v"]
    by (simp add: CANONICAL_DECIMAL_def list_all_iff)
  then show ?thesis using assms v by (simp add: toRoutable_def Let_def)
qed

lemma routable_Some:
  assumes "toRoutable s = Some v"
  shows "MIN_ROUTABLE_ID \<le> v \<and> v \<le> MAX_VALUE \<and> s = dec_of_nat (nat v)"
  using assms dec_of_nat_of_dec [of s]
  by (auto simp: toRoutable_def CANONICAL_DECIMAL_def list_all_iff Let_def split: if_splits)

lemma decoded_fields:
  assumes "toRoutable s = Some v" and "id_decode s = Inr f"
  shows "fields_ok f \<and> id_value f = v"
proof -
  have v: "2 ^ 18 \<le> v" "v < 2 ^ 63"
    using routable_Some [OF assms(1)]
    by (simp_all add: MIN_ROUTABLE_ID_def MAX_VALUE_def TIMESTAMP_SHIFT_def SEQUENCE_BITS_def NODE_BITS_def)
  have f: "sf_tsMs f = v div 2 ^ 18 + EPOCH_MS" "sf_nodeId f = v div 2 ^ 10 mod 2 ^ 8" "sf_sequence f = v mod 2 ^ 10"
    using decode_value [OF assms(1)] assms(2) by auto
  have t: "1 \<le> v div 2 ^ 18" "v div 2 ^ 18 < 2 ^ 45" using v by simp_all
  then have "fields_ok f"
    using f by (simp add: fields_ok_def MIN_TIMESTAMP_MS_def MAX_TIMESTAMP_MS_def NODE_COUNT_def SEQUENCE_COUNT_def
      TIMESTAMP_BITS_def NODE_BITS_def SEQUENCE_BITS_def)
  moreover have "id_value f = (v div 2 ^ 10 div 2 ^ 8 * 2 ^ 8 + v div 2 ^ 10 mod 2 ^ 8) * 2 ^ 10 + v mod 2 ^ 10"
    unfolding id_value_def f by (simp add: zdiv_zmult2_eq [symmetric])
  then have "id_value f = v" by (simp only: div_mult_mod_eq)
  ultimately show ?thesis by simp
qed

lemma decode_encode: "id_encode f = Inr s \<longleftrightarrow> id_decode s = Inr f"
proof
  assume "id_encode f = Inr s"
  then have f: "fields_ok f" "s = dec_of_nat (nat (id_value f))" by (simp_all add: encode_cases)
  then have "toRoutable s = Some (id_value f)" using value_bounds [OF f(1)] routable_printed by simp
  from decode_value [OF this] show "id_decode s = Inr f" using value_fields [OF f(1)] by simp
next
  assume d: "id_decode s = Inr f"
  then obtain v where v: "toRoutable s = Some v" by (auto simp: id_decode_def split: option.splits)
  then show "id_encode f = Inr s" using decoded_fields [OF v d] routable_Some [OF v] by (simp add: encode_cases)
qed

text \<open> C31: encoding and decoding are inverse, both ways. A string is the encoding of some fields exactly when
  it decodes to them: no id has two spellings, no two triples of timestamp, node and sequence share an id,
  and everything the decoder accepts is the encoding of what it reads. \<close>

theorem id_round_trip: "id_encode f = Inr s \<longleftrightarrow> id_decode s = Inr f"
  by (rule decode_encode)

lemma digit_less:
  fixes a b m r q :: int
  assumes "0 \<le> r" "r < m" "0 \<le> q" "q < m"
  shows "a * m + r < b * m + q \<longleftrightarrow> a < b \<or> a = b \<and> r < q"
proof -
  have less: "x * m + u < y * m + w" if "x < y" "u < m" "0 \<le> w" for x y u w
  proof -
    have "(x + 1) * m \<le> y * m" using that assms by (intro mult_right_mono) auto
    with that show ?thesis by (simp add: algebra_simps)
  qed
  consider "a < b" | "a = b" | "b < a" by linarith
  then show ?thesis
    using less [of a b r q] less [of b a q r] assms by cases auto
qed

lemma value_less:
  assumes "fields_ok f" "fields_ok g"
  shows "id_value f < id_value g \<longleftrightarrow> sf_tsMs f < sf_tsMs g \<or> sf_tsMs f = sf_tsMs g \<and>
      (sf_nodeId f < sf_nodeId g \<or> sf_nodeId f = sf_nodeId g \<and> sf_sequence f < sf_sequence g)"
proof -
  note f = field_bounds [OF assms(1)] and g = field_bounds [OF assms(2)]
  have n: "0 \<le> sf_nodeId x * 2 ^ 10 + sf_sequence x" "sf_nodeId x * 2 ^ 10 + sf_sequence x < 2 ^ 18"
    if "fields_ok x" for x using field_bounds [OF that] by simp_all
  have "id_value f < id_value g \<longleftrightarrow> sf_tsMs f - EPOCH_MS < sf_tsMs g - EPOCH_MS \<or> sf_tsMs f - EPOCH_MS = sf_tsMs g - EPOCH_MS \<and>
      sf_nodeId f * 2 ^ 10 + sf_sequence f < sf_nodeId g * 2 ^ 10 + sf_sequence g"
    unfolding id_value_def add.assoc by (rule digit_less [OF n [OF assms(1)] n [OF assms(2)]])
  then show ?thesis using digit_less [OF f(5,6) g(5,6), of "sf_nodeId f" "sf_nodeId g"] by simp
qed

text \<open> C32: ids fit the database's bigint and sort by time. The number an encoded id prints lies between
  2^18 and 2^63 - 1, its string has at most 19 digits, and one id's number is below another's exactly when
  its timestamp, then node, then sequence come first. \<close>

theorem ids_sort_by_time:
  assumes "id_encode f = Inr a" and "id_encode g = Inr b"
  shows "2 ^ 18 \<le> int (nat_of_dec a) \<and> int (nat_of_dec a) < 2 ^ 63 \<and> length a \<le> 19 \<and>
    (nat_of_dec a < nat_of_dec b \<longleftrightarrow> sf_tsMs f < sf_tsMs g \<or> sf_tsMs f = sf_tsMs g \<and>
      (sf_nodeId f < sf_nodeId g \<or> sf_nodeId f = sf_nodeId g \<and> sf_sequence f < sf_sequence g))"
proof -
  have f: "fields_ok f" "a = dec_of_nat (nat (id_value f))" and g: "fields_ok g" "b = dec_of_nat (nat (id_value g))"
    using assms by (simp_all add: encode_cases)
  have v: "2 ^ 18 \<le> id_value f" "id_value f < 2 ^ 63" "2 ^ 18 \<le> id_value g"
    using value_bounds [OF f(1)] value_bounds [OF g(1)]
    by (simp_all add: MIN_ROUTABLE_ID_def MAX_VALUE_def TIMESTAMP_SHIFT_def SEQUENCE_BITS_def NODE_BITS_def)
  have a: "nat_of_dec a = nat (id_value f)" and b: "nat_of_dec b = nat (id_value g)" using f(2) g(2) by simp_all
  have i: "int (nat (id_value f)) = id_value f" using v(1) by simp
  have l: "length a \<le> 19" using v(2) dec_of_nat_length [of 19 "nat (id_value f)"] f(2) by simp
  have less: "nat (id_value f) < nat (id_value g) \<longleftrightarrow> id_value f < id_value g"
    using v(3) by (intro nat_less_eq_zless) (rule order_trans [OF _ v(1)], simp)
  show ?thesis
    unfolding a b i less value_less [OF f(1) g(1)] using v(1,2) l by blast
qed

theorem ids_sort_by_time_witness:
  "nat_of_dec ''8591612313777883'' < nat_of_dec ''8591612313777884''"
proof -
  have d: "id_decode ''8591612313777883'' = Inr \<lparr>sf_tsMs = 1800000000000, sf_nodeId = 173, sf_sequence = 731\<rparr>"
      "id_decode ''8591612313777884'' = Inr \<lparr>sf_tsMs = 1800000000000, sf_nodeId = 173, sf_sequence = 732\<rparr>"
    using decode_value [of "''8591612313777883''" 8591612313777883] decode_value [of "''8591612313777884''" 8591612313777884]
    by (simp_all add: toRoutable_def CANONICAL_DECIMAL_def is_digit_def nat_of_dec_def digit_val_def id_layout Let_def)
  from ids_sort_by_time [OF d [folded decode_encode]] show ?thesis by simp
qed

end
