(* ===== verification/Snowflake_Generator.thy ===== *)
theory Snowflake_Generator
  imports Snowflake_Codec
begin

text \<open>
  The generator of one node (\<^verbatim>\<open>packages/id-generator/src/snowflake.generator.ts\<close>). Its clock is a parameter:
  the sequence of readings it will give, whatever they are. Each call of \<open>wallMs\<close>, \<open>monotonicMs\<close> and
  \<open>elapsedNs\<close> takes the next one; the state counts the readings taken.
\<close>


section \<open>Clock and state\<close>

record identity_clock =
  wallMs :: "nat \<Rightarrow> int"
  monotonicMs :: "nat \<Rightarrow> int"
  elapsedNs :: "nat \<Rightarrow> int"

definition NS_PER_MS :: int where "NS_PER_MS = 1000000"
definition SPIN_DEADLINE_NS :: int where "SPIN_DEADLINE_NS = 10 * NS_PER_MS"
definition SPIN_LOOP_CAP :: nat where "SPIN_LOOP_CAP = 40000"
definition NO_STALL :: int where "NO_STALL = -1"

datatype stall_reason = Stall_deadline | Stall_loop_cap

datatype mint_error = Clock_stalled stall_reason | Mint_range id_error | Lease_not_held

record generator =
  ge_nodeId :: int
  ge_lastMs :: int
  ge_sequence :: int
  ge_offsetMs :: int
  ge_stalls :: nat
  ge_stalledAtMs :: int
  ge_originWallMs :: int
  ge_originMonotonicMs :: int
  ge_liftMs :: int
  ge_reads :: nat

type_synonym 'a gen_act = "(generator, mint_error, 'a) act"

text \<open>\<open>reads\<close>: how many readings the process has taken of its clock.\<close>

definition new_generator :: "identity_clock \<Rightarrow> int \<Rightarrow> int option \<Rightarrow> nat \<Rightarrow> id_error + generator" where
  "new_generator clk nodeId floorMs reads =
     (if nodeId < 0 \<or> NODE_COUNT \<le> nodeId then Inl (Out_of_range ''nodeId'')
      else if (case floorMs of None \<Rightarrow> False | Some f \<Rightarrow> f < 0 \<or> MAX_TIMESTAMP_MS \<le> f) then Inl (Out_of_range ''floorMs'')
      else let wall = wallMs clk reads in
        Inr \<lparr>ge_nodeId = nodeId, ge_lastMs = 0, ge_sequence = 0, ge_offsetMs = 0, ge_stalls = 0,
          ge_stalledAtMs = NO_STALL, ge_originWallMs = wall, ge_originMonotonicMs = monotonicMs clk (reads + 1),
          ge_liftMs = (case floorMs of None \<Rightarrow> 0 | Some f \<Rightarrow> max 0 (f + 1 - wall)), ge_reads = reads + 2\<rparr>)"

definition lastTimestampMs :: "generator \<Rightarrow> int" where
  "lastTimestampMs g = ge_lastMs g"


section \<open>Minting\<close>

definition gen_now :: "identity_clock \<Rightarrow> generator \<Rightarrow> int \<times> generator" where
  "gen_now clk g =
     (let monotonic = ge_originWallMs g + ge_liftMs g + (monotonicMs clk (ge_reads g) - ge_originMonotonicMs g);
          behind = wallMs clk (ge_reads g + 1) - (monotonic + ge_offsetMs g);
          offset = (if 0 < behind then ge_offsetMs g + behind else ge_offsetMs g)
      in (monotonic + offset, g\<lparr>ge_offsetMs := offset, ge_reads := ge_reads g + 2\<rparr>))"

definition gen_elapsed :: "identity_clock \<Rightarrow> generator \<Rightarrow> int \<times> generator" where
  "gen_elapsed clk g = (elapsedNs clk (ge_reads g), g\<lparr>ge_reads := ge_reads g + 1\<rparr>)"

definition stall :: "int \<Rightarrow> stall_reason \<Rightarrow> int gen_act" where
  "stall ms reason g = (Inl (Clock_stalled reason), g\<lparr>ge_stalledAtMs := ms, ge_stalls := ge_stalls g + 1\<rparr>)"

fun spin_loop :: "identity_clock \<Rightarrow> int \<Rightarrow> int \<Rightarrow> nat \<Rightarrow> int gen_act" where
  "spin_loop clk ms deadlineNs 0 g = stall ms Stall_loop_cap g"
| "spin_loop clk ms deadlineNs (Suc n) g =
     (let (tsMs, g1) = gen_now clk g in
      if ms < tsMs then (Inr tsMs, g1\<lparr>ge_stalledAtMs := NO_STALL\<rparr>)
      else let (elapsed, g2) = gen_elapsed clk g1 in
        if elapsed > deadlineNs
        then let (again, g3) = gen_now clk g2 in
          if again \<le> ms then stall ms Stall_deadline g3 else spin_loop clk ms deadlineNs n g3
        else spin_loop clk ms deadlineNs n g2)"

definition spinPast :: "identity_clock \<Rightarrow> int \<Rightarrow> int gen_act" where
  "spinPast clk ms g =
     (let (start, g1) = gen_elapsed clk g in
      spin_loop clk ms (start + SPIN_DEADLINE_NS) (if ge_stalledAtMs g1 = ms then 1 else SPIN_LOOP_CAP) g1)"

definition gen_stamp :: "int \<Rightarrow> int \<Rightarrow> string gen_act" where
  "gen_stamp tsMs sequence g =
     (let g1 = g\<lparr>ge_sequence := sequence, ge_lastMs := tsMs\<rparr> in
      case id_encode \<lparr>sf_tsMs = tsMs, sf_nodeId = ge_nodeId g, sf_sequence = sequence\<rparr> of
        Inl e \<Rightarrow> (Inl (Mint_range e), g1)
      | Inr s \<Rightarrow> (Inr s, g1))"

definition gen_generate :: "identity_clock \<Rightarrow> string gen_act" where
  "gen_generate clk g =
     (let (tsMs, g1) = gen_now clk g in
      if tsMs \<le> ge_lastMs g1 then
        (if ge_sequence g1 = SEQUENCE_COUNT - 1
         then act_bind (spinPast clk (ge_lastMs g1)) (\<lambda>ts. gen_stamp ts 0) g1
         else gen_stamp (ge_lastMs g1) (ge_sequence g1 + 1) g1)
      else gen_stamp tsMs 0 g1)"



section \<open>What a mint does\<close>

text \<open>The position of a generator, and what a call leaves: the same origin, a later position.\<close>

definition gen_before :: "generator \<Rightarrow> generator \<Rightarrow> bool" where
  "gen_before g h \<longleftrightarrow> ge_lastMs g < ge_lastMs h \<or> ge_lastMs g = ge_lastMs h \<and> ge_sequence g < ge_sequence h"

definition gen_same :: "generator \<Rightarrow> generator \<Rightarrow> bool" where
  "gen_same g h \<longleftrightarrow> ge_nodeId h = ge_nodeId g \<and> ge_originWallMs h = ge_originWallMs g \<and>
     ge_originMonotonicMs h = ge_originMonotonicMs g \<and> ge_liftMs h = ge_liftMs g \<and>
     ge_offsetMs g \<le> ge_offsetMs h \<and> ge_reads g \<le> ge_reads h"

definition gen_still :: "generator \<Rightarrow> generator \<Rightarrow> bool" where
  "gen_still g h \<longleftrightarrow> gen_same g h \<and> ge_lastMs h = ge_lastMs g \<and> ge_sequence h = ge_sequence g"

lemmas gen_moves = gen_before_def gen_same_def gen_still_def

lemma gen_still_refl [simp]: "gen_still g g"
  by (simp add: gen_moves)

lemma gen_still_trans [trans]: "gen_still f g \<Longrightarrow> gen_still g h \<Longrightarrow> gen_still f h"
  by (simp add: gen_moves)

lemma gen_before_trans [trans]: "gen_before f g \<Longrightarrow> gen_before g h \<Longrightarrow> gen_before f h"
  by (auto simp: gen_before_def)

text \<open>What the clock's own monotonicity gives: no reading below the origin.\<close>

definition gen_sound :: "identity_clock \<Rightarrow> generator \<Rightarrow> bool" where
  "gen_sound clk g \<longleftrightarrow> 0 \<le> ge_offsetMs g \<and> (\<forall>k \<ge> ge_reads g. ge_originMonotonicMs g \<le> monotonicMs clk k)"

lemma gen_sound_same: "gen_sound clk g \<Longrightarrow> gen_same g h \<Longrightarrow> gen_sound clk h"
  by (auto simp: gen_sound_def gen_same_def)

lemma gen_still_sound: "gen_still g h \<Longrightarrow> gen_sound clk g \<Longrightarrow> gen_sound clk h"
  using gen_sound_same by (simp add: gen_still_def)

lemma gen_still_base: "gen_still g h \<Longrightarrow> ge_originWallMs h + ge_liftMs h = ge_originWallMs g + ge_liftMs g"
  by (simp add: gen_still_def gen_same_def)

lemma now_still:
  assumes "gen_now clk g = (t, g')"
  shows "gen_still g g'"
  using assms by (auto simp: gen_now_def Let_def gen_moves)

lemma now_above:
  assumes "gen_now clk g = (t, g')" "gen_sound clk g"
  shows "ge_originWallMs g + ge_liftMs g \<le> t"
proof -
  have "ge_originMonotonicMs g \<le> monotonicMs clk (ge_reads g)" "0 \<le> ge_offsetMs g"
    using assms(2) by (simp_all add: gen_sound_def)
  then show ?thesis using assms(1) by (auto simp: gen_now_def Let_def)
qed

lemma elapsed_still: "gen_elapsed clk g = (e, g') \<Longrightarrow> gen_still g g'"
  by (auto simp: gen_elapsed_def gen_moves)

lemma stalled_still [simp]: "gen_still g (g\<lparr>ge_stalledAtMs := a, ge_stalls := b\<rparr>)" "gen_still g (g\<lparr>ge_stalledAtMs := a\<rparr>)"
  by (simp_all add: gen_moves)

text \<open>A spin leaves the position alone; what it answers is past the millisecond it waited out.\<close>

lemma spin_loop_still:
  "spin_loop clk ms d n g = (r, g') \<Longrightarrow>
     gen_still g g' \<and> (\<forall>t. r = Inr t \<longrightarrow> ms < t \<and> (gen_sound clk g \<longrightarrow> ge_originWallMs g + ge_liftMs g \<le> t))"
proof (induction n arbitrary: g)
  case 0
  then show ?case using stalled_still(1) by (auto simp: stall_def)
next
  case (Suc n)
  obtain t1 g1 where n1: "gen_now clk g = (t1, g1)" by force
  obtain e g2 where e: "gen_elapsed clk g1 = (e, g2)" by force
  obtain t3 g3 where n3: "gen_now clk g2 = (t3, g3)" by force
  note s1 = now_still [OF n1] and s2 = gen_still_trans [OF now_still [OF n1] elapsed_still [OF e]]
  note s3 = gen_still_trans [OF s2 now_still [OF n3]]
  have rest: ?case if h: "gen_still g h" and run: "spin_loop clk ms d n h = (r, g')" for h
    using Suc.IH [OF run] gen_still_trans [OF h] gen_still_sound [OF h] unfolding gen_still_base [OF h] by blast
  show ?case
  proof (cases "ms < t1")
    case True
    then have "r = Inr t1" "g' = g1\<lparr>ge_stalledAtMs := NO_STALL\<rparr>" using Suc.prems n1 by simp_all
    then show ?thesis using True gen_still_trans [OF s1] now_above [OF n1] by simp
  next
    case False
    show ?thesis
    proof (cases "d < e \<and> t3 \<le> ms")
      case True
      then have "r = Inl (Clock_stalled Stall_deadline)" "g' = g3\<lparr>ge_stalledAtMs := ms, ge_stalls := ge_stalls g3 + 1\<rparr>"
        using False Suc.prems n1 e n3 by (simp_all add: stall_def)
      then show ?thesis using gen_still_trans [OF s3] by simp
    next
      case go: False
      then have "spin_loop clk ms d n (if d < e then g3 else g2) = (r, g')"
        using False Suc.prems n1 e n3 by (simp split: if_splits)
      then show ?thesis by (rule rest [rotated]) (simp add: s2 s3)
    qed
  qed
qed

lemma spinPast_still:
  assumes "spinPast clk ms g = (r, g')"
  shows "gen_still g g' \<and> (\<forall>t. r = Inr t \<longrightarrow> ms < t \<and> (gen_sound clk g \<longrightarrow> ge_originWallMs g + ge_liftMs g \<le> t))"
proof -
  obtain e g1 where e: "gen_elapsed clk g = (e, g1)" by force
  note s1 = elapsed_still [OF e]
  obtain d n where "spin_loop clk ms d n g1 = (r, g')" using assms e by (auto simp: spinPast_def)
  from spin_loop_still [OF this] show ?thesis
    using gen_still_trans [OF s1] gen_still_sound [OF s1] unfolding gen_still_base [OF s1] by blast
qed

text \<open>The outcome of a call: nothing moved, or the position moved on; an id carries the new position.\<close>

definition gen_stamped :: "identity_clock \<Rightarrow> generator \<Rightarrow> mint_error + string \<Rightarrow> generator \<Rightarrow> bool" where
  "gen_stamped clk g r g' \<longleftrightarrow> gen_same g g' \<and>
     (gen_still g g' \<and> (\<forall>s. r \<noteq> Inr s) \<or> gen_before g g' \<and>
        (ge_lastMs g' = ge_lastMs g \<or> (gen_sound clk g \<longrightarrow> ge_originWallMs g + ge_liftMs g \<le> ge_lastMs g')) \<and>
        (\<forall>s. r = Inr s \<longrightarrow>
          id_encode \<lparr>sf_tsMs = ge_lastMs g', sf_nodeId = ge_nodeId g', sf_sequence = ge_sequence g'\<rparr> = Inr s))"

lemma stamp_stamped:
  assumes "gen_stamp ts sq h = (r, g')" and "gen_still g h"
    and "ge_lastMs g < ts \<or> ge_lastMs g = ts \<and> ge_sequence g < sq"
    and "ts = ge_lastMs g \<or> (gen_sound clk g \<longrightarrow> ge_originWallMs g + ge_liftMs g \<le> ts)"
  shows "gen_stamped clk g r g'"
  using assms by (auto simp: gen_stamp_def Let_def gen_stamped_def gen_moves split: sum.splits)

lemma generate_stamped:
  assumes "gen_generate clk g = (r, g')"
  shows "gen_stamped clk g r g'"
proof -
  obtain ts g1 where n: "gen_now clk g = (ts, g1)" by force
  note s1 = now_still [OF n]
  have pos: "ge_lastMs g1 = ge_lastMs g" "ge_sequence g1 = ge_sequence g" using s1 by (simp_all add: gen_still_def)
  show ?thesis
  proof (cases "ts \<le> ge_lastMs g1")
    case False
    then have "gen_stamp ts 0 g1 = (r, g')" using assms n by (simp add: gen_generate_def)
    then show ?thesis using False pos now_above [OF n] by (intro stamp_stamped [OF _ s1]) auto
  next
    case le: True
    show ?thesis
    proof (cases "ge_sequence g1 = SEQUENCE_COUNT - 1")
      case False
      then have "gen_stamp (ge_lastMs g1) (ge_sequence g1 + 1) g1 = (r, g')" using assms n le by (simp add: gen_generate_def)
      then show ?thesis using pos by (intro stamp_stamped [OF _ s1]) auto
    next
      case True
      obtain x g2 where x: "spinPast clk (ge_lastMs g1) g1 = (x, g2)" by force
      note sp = spinPast_still [OF x]
      have s2: "gen_still g g2" using gen_still_trans [OF s1] sp by blast
      show ?thesis
      proof (cases x)
        case (Inl e)
        then have "r = Inl e" "g' = g2" using assms n le True x by (simp_all add: gen_generate_def)
        then show ?thesis using s2 by (simp add: gen_stamped_def gen_still_def)
      next
        case (Inr t)
        then have "gen_stamp t 0 g2 = (r, g')" using assms n le True x by (simp add: gen_generate_def)
        moreover have "ge_lastMs g < t" "gen_sound clk g \<longrightarrow> ge_originWallMs g + ge_liftMs g \<le> t"
          using sp Inr pos gen_still_sound [OF s1] unfolding gen_still_base [OF s1] by auto
        ultimately show ?thesis by (intro stamp_stamped [OF _ s2]) auto
      qed
    qed
  qed
qed


section \<open>Ids of one generator\<close>

text \<open>The ids of \<open>n\<close> successive calls; a call that throws gives none.\<close>

fun gen_ids :: "identity_clock \<Rightarrow> nat \<Rightarrow> generator \<Rightarrow> string list" where
  "gen_ids clk 0 g = []"
| "gen_ids clk (Suc n) g =
     (case gen_generate clk g of (Inl e, g') \<Rightarrow> gen_ids clk n g' | (Inr s, g') \<Rightarrow> s # gen_ids clk n g')"

definition gen_id_of :: "generator \<Rightarrow> string \<Rightarrow> bool" where
  "gen_id_of g s \<longleftrightarrow> id_encode \<lparr>sf_tsMs = ge_lastMs g, sf_nodeId = ge_nodeId g, sf_sequence = ge_sequence g\<rparr> = Inr s"

lemma stamped_before:
  "gen_stamped clk g r g' \<Longrightarrow> (gen_before g g' \<or> gen_still g g') \<and> ge_nodeId g' = ge_nodeId g \<and>
     (\<forall>s. r = Inr s \<longrightarrow> gen_before g g' \<and> gen_id_of g' s)"
  by (auto simp: gen_stamped_def gen_id_of_def gen_same_def)

lemma ids_after: "s \<in> set (gen_ids clk n g) \<Longrightarrow> \<exists>h. gen_before g h \<and> ge_nodeId h = ge_nodeId g \<and> gen_id_of h s"
proof (induction n arbitrary: g)
  case (Suc n)
  obtain r g' where r: "gen_generate clk g = (r, g')" by force
  note st = stamped_before [OF generate_stamped [OF r]]
  have on: "gen_before g h" if "gen_before g' h" for h
    using st that gen_before_trans by (auto simp: gen_still_def gen_before_def)
  show ?case
  proof (cases "r = Inr s")
    case True
    then show ?thesis using st by blast
  next
    case False
    then have "s \<in> set (gen_ids clk n g')" using Suc.prems r by (auto split: sum.splits)
    then show ?thesis using Suc.IH st on by metis
  qed
qed simp

lemma ids_ascend:
  assumes "gen_id_of g a" "gen_id_of h b" "gen_before g h" "ge_nodeId h = ge_nodeId g"
  shows "nat_of_dec a < nat_of_dec b"
proof -
  let ?f = "\<lparr>sf_tsMs = ge_lastMs g, sf_nodeId = ge_nodeId g, sf_sequence = ge_sequence g\<rparr>"
  let ?k = "\<lparr>sf_tsMs = ge_lastMs h, sf_nodeId = ge_nodeId h, sf_sequence = ge_sequence h\<rparr>"
  have f: "fields_ok ?f" "a = dec_of_nat (nat (id_value ?f))" and k: "fields_ok ?k" "b = dec_of_nat (nat (id_value ?k))"
    using assms(1,2) by (simp_all add: gen_id_of_def encode_cases)
  have "id_value ?f < id_value ?k" using assms(3,4) value_less [OF f(1) k(1)] by (auto simp: gen_before_def)
  moreover have "0 < id_value ?f" using value_bounds [OF f(1)]
    by (simp add: MIN_ROUTABLE_ID_def TIMESTAMP_SHIFT_def SEQUENCE_BITS_def NODE_BITS_def)
  ultimately show ?thesis using f(2) k(2) by simp
qed

text \<open>A generator that was given a floor: what it stamps lies above it.\<close>

definition gen_floored :: "identity_clock \<Rightarrow> int \<Rightarrow> generator \<Rightarrow> bool" where
  "gen_floored clk f g \<longleftrightarrow> gen_sound clk g \<and> f < ge_originWallMs g + ge_liftMs g \<and> (ge_lastMs g = 0 \<or> f < ge_lastMs g)"

lemma floored_stamped:
  assumes "gen_floored clk f g" "gen_stamped clk g r g'"
  shows "gen_floored clk f g'"
proof -
  have same: "gen_same g g'" using assms(2) by (simp add: gen_stamped_def)
  have "gen_sound clk g'" using gen_sound_same [OF _ same] assms(1) by (simp add: gen_floored_def)
  moreover have "ge_originWallMs g' + ge_liftMs g' = ge_originWallMs g + ge_liftMs g" using same by (simp add: gen_same_def)
  ultimately show ?thesis using assms by (auto simp: gen_floored_def gen_stamped_def gen_still_def)
qed

definition clock_runs :: "identity_clock \<Rightarrow> nat \<Rightarrow> bool" where
  "clock_runs clk k \<longleftrightarrow> (\<forall>i j. k \<le> i \<longrightarrow> i \<le> j \<longrightarrow> monotonicMs clk i \<le> monotonicMs clk j)"

lemma new_floored:
  assumes "new_generator clk node f k = Inr g" "clock_runs clk k"
  shows "gen_floored clk (case f of None \<Rightarrow> ge_originWallMs g - 1 | Some x \<Rightarrow> x) g \<and> ge_nodeId g = node \<and>
    ge_lastMs g = 0 \<and> k \<le> ge_reads g"
  using assms by (auto simp: new_generator_def Let_def gen_floored_def gen_sound_def clock_runs_def split: if_splits option.splits)

lemma stamped_ts: "gen_id_of g s \<Longrightarrow> ge_lastMs g \<noteq> 0"
  by (auto simp: gen_id_of_def encode_cases fields_ok_def MIN_TIMESTAMP_MS_def EPOCH_MS_def)

lemma floored_ids:
  "gen_floored clk f g \<Longrightarrow> s \<in> set (gen_ids clk n g) \<Longrightarrow> \<exists>h. f < ge_lastMs h \<and> ge_nodeId h = ge_nodeId g \<and> gen_id_of h s"
proof (induction n arbitrary: g)
  case (Suc n)
  obtain r g' where r: "gen_generate clk g = (r, g')" by force
  note st = stamped_before [OF generate_stamped [OF r]] and fl = floored_stamped [OF Suc.prems(1) generate_stamped [OF r]]
  show ?case
  proof (cases "r = Inr s")
    case True
    then have "gen_id_of g' s" using st by blast
    then show ?thesis using fl stamped_ts st by (auto simp: gen_floored_def)
  next
    case False
    then have "s \<in> set (gen_ids clk n g')" using Suc.prems(2) r by (auto split: sum.splits)
    then show ?thesis using Suc.IH [OF fl] st by metis
  qed
qed simp

lemma spin_reads: "ge_reads (snd (spin_loop clk ms d n g)) \<le> ge_reads g + 5 * n"
proof (induction n arbitrary: g)
  case 0
  then show ?case by (simp add: stall_def)
next
  case (Suc n)
  have r: "ge_reads (snd (gen_now clk h)) = ge_reads h + 2" "ge_reads (snd (gen_elapsed clk h)) = ge_reads h + 1" for h
    by (simp_all add: gen_now_def gen_elapsed_def Let_def)
  obtain t1 g1 where n1: "gen_now clk g = (t1, g1)" by force
  obtain e g2 where e: "gen_elapsed clk g1 = (e, g2)" by force
  obtain t3 g3 where n3: "gen_now clk g2 = (t3, g3)" by force
  have "ge_reads g1 = ge_reads g + 2" "ge_reads g2 = ge_reads g + 3" "ge_reads g3 = ge_reads g + 5"
    using r(1) [of g] r(2) [of g1] r(1) [of g2] n1 e n3 by simp_all
  then show ?case
    using Suc.IH [of g2] Suc.IH [of g3] n1 e n3 by (simp add: stall_def)
qed

lemma generate_reads: "ge_reads (snd (gen_generate clk g)) \<le> ge_reads g + 3 + 5 * SPIN_LOOP_CAP"
proof -
  obtain ts g1 where n: "gen_now clk g = (ts, g1)" by force
  have r1: "ge_reads g1 = ge_reads g + 2" using n by (auto simp: gen_now_def Let_def)
  have stamp: "ge_reads (snd (gen_stamp t q h)) = ge_reads h" for t q h
    by (simp add: gen_stamp_def Let_def split: sum.splits)
  have spin: "ge_reads (snd (spinPast clk ms h)) \<le> ge_reads h + 1 + 5 * SPIN_LOOP_CAP" for ms h
  proof -
    obtain e h1 where e: "gen_elapsed clk h = (e, h1)" by force
    have "ge_reads h1 = ge_reads h + 1" using e by (auto simp: gen_elapsed_def)
    then show ?thesis
      using spin_reads [of clk ms "e + SPIN_DEADLINE_NS" 1 h1] spin_reads [of clk ms "e + SPIN_DEADLINE_NS" SPIN_LOOP_CAP h1] e
      by (simp add: spinPast_def SPIN_LOOP_CAP_def)
  qed
  have "ge_reads (snd (act_bind (spinPast clk (ge_lastMs g1)) (\<lambda>ts. gen_stamp ts 0) g1)) \<le> ge_reads g + 3 + 5 * SPIN_LOOP_CAP"
    using spin [of "ge_lastMs g1" g1] stamp r1 by (auto simp: act_bind_def split: prod.splits sum.splits)
  then show ?thesis using n stamp r1 by (simp add: gen_generate_def)
qed

text \<open> C33: a generator never repeats or goes back. However its clock behaves - stands still, steps back, is
  corrected by any amount - and however many calls throw on the way, the ids of one generator, read as
  numbers, strictly increase. \<close>

theorem generated_ids_increase: "sorted_wrt (<) (map nat_of_dec (gen_ids clk n g))"
proof (induction n arbitrary: g)
  case (Suc n)
  obtain r g' where r: "gen_generate clk g = (r, g')" by force
  show ?case
  proof (cases r)
    case (Inl e)
    then show ?thesis using Suc.IH [of g'] r by simp
  next
    case (Inr s)
    have s: "gen_id_of g' s" using stamped_before [OF generate_stamped [OF r]] Inr by simp
    have "nat_of_dec s < nat_of_dec t" if "t \<in> set (gen_ids clk n g')" for t
      using ids_after [OF that] ids_ascend [OF s] by metis
    then show ?thesis using Suc.IH [of g'] r Inr by simp
  qed
qed simp

text \<open> C34: a generator starts above its floor. As long as the process's monotonic clock does not go back,
  every id of a generator that was given a floor carries its node and a timestamp above the floor,
  wherever the wall clock stands and however it is stepped. \<close>

theorem ids_start_above_floor:
  assumes "new_generator clk node (Some f) k = Inr g" and "clock_runs clk k" and "s \<in> set (gen_ids clk n g)"
  shows "\<exists>x. id_decode s = Inr x \<and> f < sf_tsMs x \<and> sf_nodeId x = node"
proof -
  have g: "gen_floored clk f g" "ge_nodeId g = node" using new_floored [OF assms(1,2)] by simp_all
  obtain h where h: "f < ge_lastMs h" "ge_nodeId h = node" "gen_id_of h s"
    using floored_ids [OF g(1) assms(3)] g(2) by metis
  then show ?thesis unfolding gen_id_of_def decode_encode by force
qed

definition still_clock :: identity_clock where
  "still_clock = \<lparr>wallMs = (\<lambda>_. 1800000000000), monotonicMs = (\<lambda>_. 5), elapsedNs = (\<lambda>_. 0)\<rparr>"

theorem ids_start_above_floor_witness:
  "\<exists>s g. new_generator still_clock 173 (Some 1800000000041) 0 = Inr g \<and> s \<in> set (gen_ids still_clock 2 g) \<and>
     (\<exists>x. id_decode s = Inr x \<and> 1800000000041 < sf_tsMs x \<and> sf_nodeId x = 173)"
proof -
  obtain g where g: "new_generator still_clock 173 (Some 1800000000041) 0 = Inr g"
    by (simp add: new_generator_def still_clock_def id_layout)
  have "gen_ids still_clock 2 g \<noteq> []"
    using g by (auto simp: numeral_2_eq_2 new_generator_def still_clock_def id_layout gen_generate_def gen_now_def gen_stamp_def
      encode_ok fields_ok_def Let_def)
  then obtain s where s: "s \<in> set (gen_ids still_clock 2 g)" by (meson list.set_sel(1))
  show ?thesis
    using ids_start_above_floor [OF g _ s] g s by (auto simp: clock_runs_def still_clock_def)
qed

text \<open> C35: a mint never waits long on a clock. Whatever the clock does, one call takes at most 200003
  readings of it before it returns an id or throws. \<close>

theorem mint_reads_bounded: "ge_reads (snd (gen_generate clk g)) \<le> ge_reads g + 200003"
  using generate_reads [of clk g] by (simp add: SPIN_LOOP_CAP_def)

end
