(* ===== verification/Node_Lease.thy ===== *)
theory Node_Lease
  imports Snowflake_Generator
begin

text \<open>
  How replicas share the node ids: the lease a process holds (\<^verbatim>\<open>packages/id-generator/src/node-lease.ts\<close>), the
  etcd keyspace it is leased from (\<^verbatim>\<open>apps/id-service/src/lease/etcd-lease-keyspace.ts\<close>,
  \<^verbatim>\<open>etcd-lease-store.ts\<close>, \<^verbatim>\<open>lift-floors.ts\<close>), and a system of any number of replicas, whose steps are the
  separate round trips of each operation. Clocks are arbitrary, answers may be lost, leases expire at any
  moment, processes crash and start again. A transaction whose answer was lost took effect by then or
  never does.
\<close>


section \<open>The keyspace\<close>

definition LEASED_NODE_MIN :: int where "LEASED_NODE_MIN = 0 + 1"
definition LEASED_NODE_MAX :: int where "LEASED_NODE_MAX = NODE_COUNT - 2"

record owner_record =
  ow_holder :: string
  ow_claimFloorMs :: "int option"
  ow_createRevision :: nat
  ow_lease :: nat

text \<open>A floor key has its value and its mod revision.\<close>

record node_entry =
  en_owner :: "owner_record option"
  en_floor :: "(int \<times> nat) option"

record keyspace =
  ks_initialized :: bool
  ks_emptySince :: "int option"
  ks_node :: "int \<Rightarrow> node_entry"
  ks_revision :: nat
  ks_leases :: "nat list"
  ks_nextLease :: nat

definition isHeldBy :: "node_entry \<Rightarrow> nat \<Rightarrow> bool" where
  "isHeldBy e generation \<longleftrightarrow> (case en_owner e of None \<Rightarrow> False | Some ow \<Rightarrow> ow_createRevision ow = generation)"

definition floorOf :: "node_entry \<Rightarrow> int option" where
  "floorOf e = map_option fst (en_floor e)"

definition floorRevision :: "node_entry \<Rightarrow> nat" where
  "floorRevision e = (case en_floor e of None \<Rightarrow> 0 | Some (v, r) \<Rightarrow> r)"

abbreviation or_zero :: "int option \<Rightarrow> int" where
  "or_zero x \<equiv> (case x of None \<Rightarrow> 0 | Some v \<Rightarrow> v)"

definition leased_nodes :: "int list" where
  "leased_nodes = [LEASED_NODE_MIN .. LEASED_NODE_MAX]"

definition ownedBy :: "nat \<Rightarrow> keyspace \<Rightarrow> (int \<times> node_entry) option" where
  "ownedBy leaseId ks = find_where (\<lambda>(n, e). case en_owner e of None \<Rightarrow> False | Some ow \<Rightarrow> ow_lease ow = leaseId)
     (map (\<lambda>n. (n, ks_node ks n)) leased_nodes)"

definition freeOldestFirst :: "keyspace \<Rightarrow> (int \<times> node_entry) list" where
  "freeOldestFirst ks = sort_key (\<lambda>(n, e). floorRevision e)
     (filter (\<lambda>(n, e). en_owner e = None) (map (\<lambda>n. (n, ks_node ks n)) leased_nodes))"

definition put_entry :: "int \<Rightarrow> node_entry \<Rightarrow> keyspace \<Rightarrow> keyspace" where
  "put_entry n e ks = ks\<lparr>ks_node := (ks_node ks)(n := e), ks_revision := ks_revision ks + 1\<rparr>"

text \<open>A lease runs out, or is revoked: the keys attached to it go.\<close>

definition drop_lease :: "nat \<Rightarrow> keyspace \<Rightarrow> keyspace" where
  "drop_lease leaseId ks = ks\<lparr>ks_leases := filter (\<lambda>l. l \<noteq> leaseId) (ks_leases ks),
     ks_node := (\<lambda>n. let e = ks_node ks n in
       case en_owner e of None \<Rightarrow> e | Some ow \<Rightarrow> if ow_lease ow = leaseId then e\<lparr>en_owner := None\<rparr> else e)\<rparr>"


section \<open>The store's transactions\<close>

record lease_grant =
  lg_nodeId :: int
  lg_generation :: nat
  lg_floorMs :: "int option"
  lg_leaseUntilMs :: int
  lg_nowMs :: int

definition claim_txn ::
    "string \<Rightarrow> nat \<Rightarrow> int \<Rightarrow> int \<Rightarrow> int \<times> node_entry \<Rightarrow> keyspace \<Rightarrow> lease_grant option \<times> keyspace" where
  "claim_txn holder leaseId ttlMs nowMs candidate ks =
     (let (n, entry) = candidate; floorMs = floorOf entry; ceilingMs = max nowMs (or_zero floorMs) + ttlMs;
          revision = ks_revision ks + 1; now = ks_node ks n in
      if en_owner now = None \<and> floorRevision now = floorRevision entry
      then (Some \<lparr>lg_nodeId = n, lg_generation = revision, lg_floorMs = floorMs, lg_leaseUntilMs = ceilingMs, lg_nowMs = nowMs\<rparr>,
            put_entry n \<lparr>en_owner = Some \<lparr>ow_holder = holder, ow_claimFloorMs = floorMs, ow_createRevision = revision,
              ow_lease = leaseId\<rparr>, en_floor = Some (ceilingMs, revision)\<rparr> ks)
      else (None, ks))"

definition raiseCeiling :: "int \<Rightarrow> node_entry \<Rightarrow> nat \<Rightarrow> int \<Rightarrow> int \<Rightarrow> keyspace \<Rightarrow> int option \<times> keyspace" where
  "raiseCeiling n entry generation stampedMs ttlMs ks =
     (let ceilingMs = max (or_zero (floorOf entry)) (stampedMs + ttlMs) in
      if isHeldBy (ks_node ks n) generation
      then (Some ceilingMs, put_entry n ((ks_node ks n)\<lparr>en_floor := Some (ceilingMs, ks_revision ks + 1)\<rparr>) ks)
      else (None, ks))"

definition release_txn :: "int \<Rightarrow> node_entry \<Rightarrow> nat \<Rightarrow> int option \<Rightarrow> keyspace \<Rightarrow> keyspace" where
  "release_txn n entry generation lastMs ks =
     (let floorMs = max (or_zero (case en_owner entry of None \<Rightarrow> None | Some ow \<Rightarrow> ow_claimFloorMs ow)) (or_zero lastMs) in
      if isHeldBy (ks_node ks n) generation
      then put_entry n \<lparr>en_owner = None, en_floor = Some (floorMs, ks_revision ks + 1)\<rparr> ks
      else ks)"

text \<open>The floor lift: refused while a node is held; a chunk of nodes at a time, then the marker.\<close>

definition requireSettled :: "int \<Rightarrow> int \<Rightarrow> keyspace \<Rightarrow> bool \<times> keyspace" where
  "requireSettled nowMs settleMs ks =
     (case ks_emptySince ks of
        None \<Rightarrow> (False, ks\<lparr>ks_emptySince := Some nowMs, ks_revision := ks_revision ks + 1\<rparr>)
      | Some t \<Rightarrow> (\<not> 0 < t + settleMs - nowMs, ks))"

definition lift_chunk :: "int \<Rightarrow> (int \<times> node_entry) list \<Rightarrow> keyspace \<Rightarrow> bool \<times> keyspace" where
  "lift_chunk nowMs chunk ks =
     (if list_all (\<lambda>(n, e). en_owner (ks_node ks n) = None \<and> floorRevision (ks_node ks n) = floorRevision e) chunk
      then (True, ks\<lparr>ks_node := fold (\<lambda>(n, e) f. f(n := \<lparr>en_owner = None,
              en_floor = Some (max (or_zero (floorOf e)) nowMs, ks_revision ks + 1)\<rparr>)) chunk (ks_node ks),
            ks_revision := ks_revision ks + 1\<rparr>)
      else (False, ks))"

definition lift_mark :: "keyspace \<Rightarrow> keyspace" where
  "lift_mark ks = ks\<lparr>ks_initialized := True, ks_emptySince := None, ks_revision := ks_revision ks + 1\<rparr>"


section \<open>The lease a process holds\<close>

datatype lease_phase = Ph_idle | Ph_acquiring | Ph_held | Ph_lost | Ph_exhausted | Ph_released

record lease_options =
  lo_holder :: string
  lo_ttlMs :: int
  lo_fenceMarginMs :: int
  lo_maxFloorAheadMs :: int

type_synonym clock_reading = "int \<times> int"

record held_lease =
  hl_nodeId :: int
  hl_generation :: nat
  hl_generator :: generator
  hl_anchor :: clock_reading
  hl_leaseUntilMs :: int

text \<open>
  The round trip an operation waits for: an acquire about to read the keyspace, with candidates left to
  claim, re-adopting its own node, or with its grant on the way; a renewal about to read its node, about
  to raise the ceiling, or with the new ceiling on the way; a release about to read its node or to write.
\<close>

datatype lease_call =
    Acq_read clock_reading
  | Acq_claim clock_reading nat "(int \<times> node_entry) list"
  | Acq_readopt clock_reading int node_entry nat
  | Acq_granted clock_reading lease_grant
  | Ren_read clock_reading int
  | Ren_raise clock_reading node_entry int
  | Ren_raised clock_reading int
  | Rel_read int nat "int option"
  | Rel_write int nat "int option" node_entry

record replica =
  rp_clock :: identity_clock
  rp_reads :: nat
  rp_phase :: lease_phase
  rp_held :: "held_lease option"
  rp_draining :: bool
  rp_call :: "lease_call option"
  rp_retiredLastMs :: int
  rp_pendingLease :: "nat option"

definition lease_read :: "replica \<Rightarrow> clock_reading \<times> replica" where
  "lease_read rp = ((wallMs (rp_clock rp) (rp_reads rp), monotonicMs (rp_clock rp) (rp_reads rp + 1)),
     rp\<lparr>rp_reads := rp_reads rp + 2\<rparr>)"

definition lease_fenced :: "lease_options \<Rightarrow> replica \<Rightarrow> bool \<times> replica" where
  "lease_fenced opts rp =
     (case rp_held rp of
        None \<Rightarrow> (True, rp)
      | Some h \<Rightarrow>
          let ((wall, mono), rp1) = lease_read rp; (wall0, mono0) = hl_anchor h;
              monotonicElapsed = mono - mono0; wallElapsed = wall - wall0
          in (lo_ttlMs opts - lo_fenceMarginMs opts \<le> max monotonicElapsed wallElapsed \<or>
              lo_fenceMarginMs opts < wallElapsed - monotonicElapsed \<or>
              hl_leaseUntilMs h < lastTimestampMs (hl_generator h), rp1))"

datatype lease_state = Ls_idle | Ls_acquiring | Ls_held | Ls_fenced | Ls_draining | Ls_lost | Ls_exhausted | Ls_released

text \<open>The state as reported: of a held lease it takes another look at the clock.\<close>

definition lease_state_of :: "lease_options \<Rightarrow> replica \<Rightarrow> lease_state \<times> replica" where
  "lease_state_of opts rp =
     (case rp_phase rp of
        Ph_idle \<Rightarrow> (Ls_idle, rp) | Ph_acquiring \<Rightarrow> (Ls_acquiring, rp) | Ph_lost \<Rightarrow> (Ls_lost, rp)
      | Ph_exhausted \<Rightarrow> (Ls_exhausted, rp) | Ph_released \<Rightarrow> (Ls_released, rp)
      | Ph_held \<Rightarrow> let (f, rp1) = lease_fenced opts rp in
          (if f then Ls_fenced else if rp_draining rp then Ls_draining else Ls_held, rp1))"

text \<open>Refusing to mint names the state.\<close>

definition not_held :: "lease_options \<Rightarrow> replica \<Rightarrow> (mint_error + string) \<times> replica" where
  "not_held opts rp = (Inl Lease_not_held, snd (lease_state_of opts rp))"

definition retire :: "lease_phase \<Rightarrow> replica \<Rightarrow> replica" where
  "retire ph rp = rp\<lparr>rp_retiredLastMs := (case rp_held rp of None \<Rightarrow> rp_retiredLastMs rp
       | Some h \<Rightarrow> max (rp_retiredLastMs rp) (lastTimestampMs (hl_generator h))), rp_held := None, rp_phase := ph\<rparr>"

definition lease_generate :: "lease_options \<Rightarrow> replica \<Rightarrow> (mint_error + string) \<times> replica" where
  "lease_generate opts rp =
     (let (fenced, rp1) = lease_fenced opts rp in
      case rp_held rp1 of
        None \<Rightarrow> not_held opts rp1
      | Some h \<Rightarrow>
          if fenced then not_held opts rp1
          else let (r, g) = gen_generate (rp_clock rp1) ((hl_generator h)\<lparr>ge_reads := rp_reads rp1\<rparr>);
                   rp2 = rp1\<lparr>rp_held := Some (h\<lparr>hl_generator := g\<rparr>), rp_reads := ge_reads g\<rparr>
               in case r of
                    Inl e \<Rightarrow> (Inl e, rp2)
                  | Inr s \<Rightarrow> let (late, rp3) = lease_fenced opts rp2 in
                      if late then not_held opts rp3 else (Inr s, rp3))"

definition lease_acquire :: "replica \<Rightarrow> replica" where
  "lease_acquire rp =
     (if rp_draining rp \<or> rp_phase rp \<in> {Ph_held, Ph_released} \<or> rp_call rp \<noteq> None then rp
      else let (anchor, rp1) = lease_read (rp\<lparr>rp_phase := Ph_acquiring\<rparr>) in rp1\<lparr>rp_call := Some (Acq_read anchor)\<rparr>)"

definition lease_granted :: "lease_options \<Rightarrow> clock_reading \<Rightarrow> lease_grant \<Rightarrow> replica \<Rightarrow> replica" where
  "lease_granted opts anchor grant rp =
     (let rp1 = rp\<lparr>rp_call := None\<rparr> in
      if (case lg_floorMs grant of None \<Rightarrow> False | Some f \<Rightarrow> lo_maxFloorAheadMs opts < f - lg_nowMs grant)
      then rp1\<lparr>rp_call := Some (Rel_read (lg_nodeId grant) (lg_generation grant) None)\<rparr>
      else case new_generator (rp_clock rp1) (lg_nodeId grant)
             (Some (max (or_zero (lg_floorMs grant)) (rp_retiredLastMs rp1))) (rp_reads rp1) of
          Inl e \<Rightarrow> rp1
        | Inr g \<Rightarrow> rp1\<lparr>rp_held := Some \<lparr>hl_nodeId = lg_nodeId grant, hl_generation = lg_generation grant,
              hl_generator = g, hl_anchor = anchor, hl_leaseUntilMs = lg_leaseUntilMs grant\<rparr>,
            rp_phase := Ph_held, rp_reads := ge_reads g\<rparr>)"

definition lease_renew :: "replica \<Rightarrow> replica" where
  "lease_renew rp =
     (case rp_held rp of
        None \<Rightarrow> rp
      | Some h \<Rightarrow> if rp_call rp \<noteq> None then rp
          else let (anchor, rp1) = lease_read rp in
            rp1\<lparr>rp_call := Some (Ren_read anchor (lastTimestampMs (hl_generator h)))\<rparr>)"

definition lease_release :: "replica \<Rightarrow> replica" where
  "lease_release rp =
     (let rp1 = rp\<lparr>rp_draining := True\<rparr> in
      if rp_call rp1 \<noteq> None then rp1
      else case rp_held rp1 of
          None \<Rightarrow> retire Ph_released rp1
        | Some h \<Rightarrow> let lastMs = lastTimestampMs (hl_generator h) in
            (retire Ph_released rp1)\<lparr>rp_call := Some (Rel_read (hl_nodeId h) (hl_generation h)
              (if lastMs = 0 then None else Some lastMs))\<rparr>)"


section \<open>Round trips of the store's operations\<close>

text \<open>\<open>acquireUnderLease\<close>: the etcd lease to claim under, then one read of the whole keyspace.\<close>

definition acquire_read :: "clock_reading \<Rightarrow> replica \<Rightarrow> keyspace \<Rightarrow> replica \<times> keyspace" where
  "acquire_read anchor rp ks =
     (let alive = (case rp_pendingLease rp of None \<Rightarrow> False | Some l \<Rightarrow> l \<in> set (ks_leases ks));
          leaseId = (if alive then the (rp_pendingLease rp) else ks_nextLease ks);
          ks1 = (if alive then ks else ks\<lparr>ks_leases := leaseId # ks_leases ks, ks_nextLease := ks_nextLease ks + 1\<rparr>);
          rp1 = rp\<lparr>rp_pendingLease := Some leaseId\<rparr>
      in if \<not> ks_initialized ks1 then (rp1\<lparr>rp_call := None\<rparr>, ks1)
         else case ownedBy leaseId ks1 of
             Some (n, e) \<Rightarrow> (rp1\<lparr>rp_call := Some (Acq_readopt anchor n e leaseId)\<rparr>, ks1)
           | None \<Rightarrow> (rp1\<lparr>rp_call := Some (Acq_claim anchor leaseId (freeOldestFirst ks1))\<rparr>, ks1))"

text \<open>One claim, of candidate \<open>k\<close>.\<close>

definition acquire_claim ::
    "lease_options \<Rightarrow> int \<Rightarrow> clock_reading \<Rightarrow> nat \<Rightarrow> (int \<times> node_entry) list \<Rightarrow> nat \<Rightarrow> replica \<Rightarrow> keyspace \<Rightarrow>
     replica \<times> keyspace" where
  "acquire_claim opts nowMs anchor leaseId free k rp ks =
     (if leaseId \<notin> set (ks_leases ks) then (rp\<lparr>rp_call := None, rp_pendingLease := None\<rparr>, ks)
      else case claim_txn (lo_holder opts) leaseId (lo_ttlMs opts) nowMs (free ! k) ks of
          (Some grant, ks1) \<Rightarrow> (rp\<lparr>rp_call := Some (Acq_granted anchor grant), rp_pendingLease := None\<rparr>, ks1)
        | (None, ks1) \<Rightarrow> (rp\<lparr>rp_call := Some (Acq_claim anchor leaseId (take k free @ drop (Suc k) free))\<rparr>, ks1))"

definition acquire_readopt ::
    "lease_options \<Rightarrow> int \<Rightarrow> clock_reading \<Rightarrow> int \<Rightarrow> node_entry \<Rightarrow> replica \<Rightarrow> keyspace \<Rightarrow> replica \<times> keyspace" where
  "acquire_readopt opts nowMs anchor n e rp ks =
     (case en_owner e of
        None \<Rightarrow> (rp\<lparr>rp_call := None\<rparr>, ks)
      | Some ow \<Rightarrow>
          (case raiseCeiling n e (ow_createRevision ow) nowMs (lo_ttlMs opts) ks of
             (None, ks1) \<Rightarrow> (rp\<lparr>rp_call := None\<rparr>, ks1)
           | (Some ceilingMs, ks1) \<Rightarrow>
               (rp\<lparr>rp_pendingLease := None, rp_call := Some (Acq_granted anchor
                  \<lparr>lg_nodeId = n, lg_generation = ow_createRevision ow, lg_floorMs = ow_claimFloorMs ow,
                   lg_leaseUntilMs = ceilingMs, lg_nowMs = nowMs\<rparr>)\<rparr>, ks1)))"

definition renew_read :: "int \<Rightarrow> clock_reading \<Rightarrow> int \<Rightarrow> held_lease \<Rightarrow> replica \<Rightarrow> keyspace \<Rightarrow> replica" where
  "renew_read nowMs anchor lastMs h rp ks =
     (let e = ks_node ks (hl_nodeId h) in
      if \<not> isHeldBy e (hl_generation h) \<or> ow_lease (the (en_owner e)) \<notin> set (ks_leases ks)
      then retire Ph_lost (rp\<lparr>rp_call := None\<rparr>)
      else rp\<lparr>rp_call := Some (Ren_raise anchor e (max nowMs lastMs))\<rparr>)"

definition renew_raise ::
    "lease_options \<Rightarrow> clock_reading \<Rightarrow> node_entry \<Rightarrow> int \<Rightarrow> held_lease \<Rightarrow> replica \<Rightarrow> keyspace \<Rightarrow> replica \<times> keyspace" where
  "renew_raise opts anchor e stampedMs h rp ks =
     (case raiseCeiling (hl_nodeId h) e (hl_generation h) stampedMs (lo_ttlMs opts) ks of
        (None, ks1) \<Rightarrow> (retire Ph_lost (rp\<lparr>rp_call := None\<rparr>), ks1)
      | (Some ceilingMs, ks1) \<Rightarrow> (rp\<lparr>rp_call := Some (Ren_raised anchor ceilingMs)\<rparr>, ks1))"

definition renew_raised :: "clock_reading \<Rightarrow> int \<Rightarrow> held_lease \<Rightarrow> replica \<Rightarrow> replica" where
  "renew_raised anchor ceilingMs h rp =
     rp\<lparr>rp_call := None, rp_held := Some (h\<lparr>hl_anchor := anchor, hl_leaseUntilMs := ceilingMs\<rparr>)\<rparr>"

definition release_read :: "int \<Rightarrow> nat \<Rightarrow> int option \<Rightarrow> replica \<Rightarrow> keyspace \<Rightarrow> replica" where
  "release_read n generation lastMs rp ks =
     (if \<not> isHeldBy (ks_node ks n) generation then rp\<lparr>rp_call := None\<rparr>
      else rp\<lparr>rp_call := Some (Rel_write n generation lastMs (ks_node ks n))\<rparr>)"


section \<open>The system\<close>

record id_system =
  sy_keys :: keyspace
  sy_replica :: "nat \<Rightarrow> replica"
  sy_lift :: "(int \<times> (int \<times> node_entry) list) option"
  sy_minted :: "(int \<times> nat \<times> string) list"

definition started :: "identity_clock \<Rightarrow> replica" where
  "started clk = \<lparr>rp_clock = clk, rp_reads = 0, rp_phase = Ph_idle, rp_held = None, rp_draining = False,
     rp_call = None, rp_retiredLastMs = 0, rp_pendingLease = None\<rparr>"

definition with_replica :: "nat \<Rightarrow> replica \<Rightarrow> id_system \<Rightarrow> id_system" where
  "with_replica i rp s = s\<lparr>sy_replica := (sy_replica s)(i := rp)\<rparr>"

definition with_round_trip :: "nat \<Rightarrow> replica \<times> keyspace \<Rightarrow> id_system \<Rightarrow> id_system" where
  "with_round_trip i p s = s\<lparr>sy_replica := (sy_replica s)(i := fst p), sy_keys := snd p\<rparr>"

text \<open>A write that took effect although its answer never came.\<close>

inductive write_lands :: "lease_options \<Rightarrow> replica \<Rightarrow> keyspace \<Rightarrow> keyspace \<Rightarrow> bool" for opts rp ks where
  lands_claim: "rp_call rp = Some (Acq_claim anchor leaseId free) \<Longrightarrow> k < length free \<Longrightarrow>
    leaseId \<in> set (ks_leases ks) \<Longrightarrow>
    write_lands opts rp ks (snd (claim_txn (lo_holder opts) leaseId (lo_ttlMs opts) nowMs (free ! k) ks))"
| lands_readopt: "rp_call rp = Some (Acq_readopt anchor n e leaseId) \<Longrightarrow>
    write_lands opts rp ks (snd (acquire_readopt opts nowMs anchor n e rp ks))"
| lands_raise: "rp_call rp = Some (Ren_raise anchor e stampedMs) \<Longrightarrow> rp_held rp = Some h \<Longrightarrow>
    write_lands opts rp ks (snd (renew_raise opts anchor e stampedMs h rp ks))"
| lands_release: "rp_call rp = Some (Rel_write n generation lastMs e) \<Longrightarrow>
    write_lands opts rp ks (release_txn n e generation lastMs ks)"

definition remote_call :: "lease_call option \<Rightarrow> bool" where
  "remote_call c \<longleftrightarrow> (case c of None \<Rightarrow> False | Some (Acq_granted a g) \<Rightarrow> False | Some (Ren_raised a c) \<Rightarrow> False | _ \<Rightarrow> True)"

inductive id_step :: "(nat \<Rightarrow> lease_options) \<Rightarrow> id_system \<Rightarrow> id_system \<Rightarrow> bool" for opts where
  mints: "rp_held (sy_replica s i) = Some h \<Longrightarrow> lease_generate (opts i) (sy_replica s i) = (Inr x, rp) \<Longrightarrow>
    id_step opts s ((with_replica i rp s)\<lparr>sy_minted := (hl_nodeId h, hl_generation h, x) # sy_minted s\<rparr>)"
| mint_fails: "lease_generate (opts i) (sy_replica s i) = (Inl e, rp) \<Longrightarrow> id_step opts s (with_replica i rp s)"
| acquires: "id_step opts s (with_replica i (lease_acquire (sy_replica s i)) s)"
| acquire_reads: "rp_call (sy_replica s i) = Some (Acq_read anchor) \<Longrightarrow>
    id_step opts s (with_round_trip i (acquire_read anchor (sy_replica s i) (sy_keys s)) s)"
| acquire_claims: "rp_call (sy_replica s i) = Some (Acq_claim anchor leaseId free) \<Longrightarrow> k < length free \<Longrightarrow>
    id_step opts s (with_round_trip i (acquire_claim (opts i) nowMs anchor leaseId free k (sy_replica s i) (sy_keys s)) s)"
| acquire_exhausted: "rp_call (sy_replica s i) = Some (Acq_claim anchor leaseId []) \<Longrightarrow>
    id_step opts s (with_round_trip i ((sy_replica s i)\<lparr>rp_call := None, rp_pendingLease := None,
      rp_phase := Ph_exhausted\<rparr>, sy_keys s) s)"
| acquire_readopts: "rp_call (sy_replica s i) = Some (Acq_readopt anchor n e leaseId) \<Longrightarrow>
    id_step opts s (with_round_trip i (acquire_readopt (opts i) nowMs anchor n e (sy_replica s i) (sy_keys s)) s)"
| granted: "rp_call (sy_replica s i) = Some (Acq_granted anchor grant) \<Longrightarrow>
    id_step opts s (with_replica i (lease_granted (opts i) anchor grant (sy_replica s i)) s)"
| renews: "id_step opts s (with_replica i (lease_renew (sy_replica s i)) s)"
| renew_reads: "rp_call (sy_replica s i) = Some (Ren_read anchor lastMs) \<Longrightarrow> rp_held (sy_replica s i) = Some h \<Longrightarrow>
    id_step opts s (with_replica i (renew_read nowMs anchor lastMs h (sy_replica s i) (sy_keys s)) s)"
| renew_raises: "rp_call (sy_replica s i) = Some (Ren_raise anchor e stampedMs) \<Longrightarrow> rp_held (sy_replica s i) = Some h \<Longrightarrow>
    id_step opts s (with_round_trip i (renew_raise (opts i) anchor e stampedMs h (sy_replica s i) (sy_keys s)) s)"
| renewed: "rp_call (sy_replica s i) = Some (Ren_raised anchor ceilingMs) \<Longrightarrow> rp_held (sy_replica s i) = Some h \<Longrightarrow>
    id_step opts s (with_replica i (renew_raised anchor ceilingMs h (sy_replica s i)) s)"
| drains: "id_step opts s (with_replica i ((sy_replica s i)\<lparr>rp_draining := True\<rparr>) s)"
| releases: "id_step opts s (with_replica i (lease_release (sy_replica s i)) s)"
| release_reads: "rp_call (sy_replica s i) = Some (Rel_read n generation lastMs) \<Longrightarrow>
    id_step opts s (with_replica i (release_read n generation lastMs (sy_replica s i) (sy_keys s)) s)"
| release_writes: "rp_call (sy_replica s i) = Some (Rel_write n generation lastMs e) \<Longrightarrow>
    id_step opts s (with_round_trip i ((sy_replica s i)\<lparr>rp_call := None\<rparr>, release_txn n e generation lastMs (sy_keys s)) s)"
| call_fails: "remote_call (rp_call (sy_replica s i)) \<Longrightarrow>
    id_step opts s (with_replica i ((sy_replica s i)\<lparr>rp_call := None\<rparr>) s)"
| answer_lost: "write_lands (opts i) (sy_replica s i) (sy_keys s) ks \<Longrightarrow>
    id_step opts s (with_round_trip i ((sy_replica s i)\<lparr>rp_call := None\<rparr>, ks) s)"
| lease_ends: "id_step opts s (s\<lparr>sy_keys := drop_lease leaseId (sy_keys s)\<rparr>)"
| restarts: "clock_runs clk 0 \<Longrightarrow> id_step opts s (with_replica i (started clk) s)"
| lift_starts: "list_all (\<lambda>n. en_owner (ks_node (sy_keys s) n) = None) leased_nodes \<Longrightarrow>
    id_step opts s (s\<lparr>sy_lift := Some (nowMs, map (\<lambda>n. (n, ks_node (sy_keys s) n)) leased_nodes)\<rparr>)"
| lift_settles: "id_step opts s (s\<lparr>sy_keys := snd (requireSettled nowMs settleMs (sy_keys s))\<rparr>)"
| lift_writes: "sy_lift s = Some (nowMs, es) \<Longrightarrow> es \<noteq> [] \<Longrightarrow> lift_chunk nowMs (take 50 es) (sy_keys s) = (ok, ks) \<Longrightarrow>
    id_step opts s (s\<lparr>sy_keys := ks, sy_lift := (if ok then Some (nowMs, drop 50 es) else None)\<rparr>)"
| lift_ends: "sy_lift s = Some (nowMs, []) \<Longrightarrow> id_step opts s (s\<lparr>sy_keys := lift_mark (sy_keys s), sy_lift := None\<rparr>)"

definition lease_options_ok :: "lease_options \<Rightarrow> bool" where
  "lease_options_ok opts \<longleftrightarrow> lo_holder opts \<noteq> [] \<and> 0 < lo_ttlMs opts \<and> 0 < lo_fenceMarginMs opts \<and>
     lo_fenceMarginMs opts < lo_ttlMs opts \<and> 0 \<le> lo_maxFloorAheadMs opts"

definition empty_keys :: keyspace where
  "empty_keys = \<lparr>ks_initialized = False, ks_emptySince = None, ks_node = (\<lambda>_. \<lparr>en_owner = None, en_floor = None\<rparr>),
     ks_revision = 0, ks_leases = [], ks_nextLease = 0\<rparr>"

definition id_start :: "(nat \<Rightarrow> identity_clock) \<Rightarrow> id_system" where
  "id_start clks = \<lparr>sy_keys = empty_keys, sy_replica = (\<lambda>i. started (clks i)), sy_lift = None, sy_minted = []\<rparr>"

end
