(* ===== verification/Id_Uniqueness.thy ===== *)
theory Id_Uniqueness
  imports Node_Lease
begin

text \<open>
  No id is ever handed out twice by the replicas that share a keyspace, whatever their clocks, lost
  answers, expiries and crashes. A tenure is a node under one generation: what it may stamp lies above
  the floor it was claimed over and below the ceiling it reserved, and the tenures of a node take turns.
\<close>


section \<open>Tenures\<close>

record tenure =
  tn_node :: int
  tn_gen :: nat
  tn_low :: int
  tn_limit :: int
  tn_pos :: "(int \<times> int) option"

definition at_most :: "int \<times> int \<Rightarrow> int \<times> int \<Rightarrow> bool" where
  "at_most p q \<longleftrightarrow> fst p < fst q \<or> fst p = fst q \<and> snd p \<le> snd q"

lemma at_most_refl [simp]: "at_most p p"
  by (simp add: at_most_def)

lemma at_most_trans: "at_most p q \<Longrightarrow> at_most q r \<Longrightarrow> at_most p r"
  by (auto simp: at_most_def)

definition held_tenure :: "held_lease \<Rightarrow> int \<Rightarrow> tenure" where
  "held_tenure h limit = \<lparr>tn_node = hl_nodeId h, tn_gen = hl_generation h,
     tn_low = ge_originWallMs (hl_generator h) + ge_liftMs (hl_generator h), tn_limit = limit,
     tn_pos = Some (ge_lastMs (hl_generator h), ge_sequence (hl_generator h))\<rparr>"

definition grant_tenure :: "lease_grant \<Rightarrow> tenure" where
  "grant_tenure g = \<lparr>tn_node = lg_nodeId g, tn_gen = lg_generation g, tn_low = or_zero (lg_floorMs g) + 1,
     tn_limit = lg_leaseUntilMs g, tn_pos = None\<rparr>"

definition tenure_of :: "replica \<Rightarrow> tenure option" where
  "tenure_of rp =
     (case rp_held rp of
        Some h \<Rightarrow> Some (held_tenure h (case rp_call rp of Some (Ren_raised a c) \<Rightarrow> c | _ \<Rightarrow> hl_leaseUntilMs h))
      | None \<Rightarrow> (case rp_call rp of Some (Acq_granted a g) \<Rightarrow> Some (grant_tenure g) | _ \<Rightarrow> None))"

text \<open>A release under way: its node, its generation and the last timestamp stamped.\<close>

definition releasing :: "replica \<Rightarrow> (int \<times> nat \<times> int) option" where
  "releasing rp = (case rp_call rp of
     Some (Rel_read n g l) \<Rightarrow> Some (n, g, or_zero l) | Some (Rel_write n g l e) \<Rightarrow> Some (n, g, or_zero l) | _ \<Rightarrow> None)"

text \<open>Two tenures of a node take turns.\<close>

definition turns :: "tenure \<Rightarrow> tenure \<Rightarrow> bool" where
  "turns t u \<longleftrightarrow> (tn_node t = tn_node u \<longrightarrow> tn_gen t \<noteq> tn_gen u \<and>
     (tn_gen t < tn_gen u \<longrightarrow> tn_limit t < tn_low u) \<and> (tn_gen u < tn_gen t \<longrightarrow> tn_limit u < tn_low t))"

lemma turns_sym: "turns t u \<longleftrightarrow> turns u t"
  by (auto simp: turns_def)


section \<open>What the keyspace guarantees\<close>

abbreviation floor_at :: "keyspace \<Rightarrow> int \<Rightarrow> int" where
  "floor_at ks n \<equiv> or_zero (floorOf (ks_node ks n))"

text \<open>A value \<open>v\<close> promised or stamped under generation \<open>g\<close> is under what the next holder starts above.\<close>

definition covered :: "keyspace \<Rightarrow> int \<Rightarrow> nat \<Rightarrow> int \<Rightarrow> bool" where
  "covered ks n g v \<longleftrightarrow> g \<le> ks_revision ks \<and>
     (case en_owner (ks_node ks n) of
        None \<Rightarrow> v \<le> floor_at ks n
      | Some ow \<Rightarrow> if ow_createRevision ow = g then v \<le> floor_at ks n
          else v \<le> or_zero (ow_claimFloorMs ow) \<and> g < ow_createRevision ow)"

lemma covered_same:
  assumes "covered ks n g v" "en_owner (ks_node ks' n) = en_owner (ks_node ks n)" "en_floor (ks_node ks' n) = en_floor (ks_node ks n)"
    and "ks_revision ks \<le> ks_revision ks'"
  shows "covered ks' n g v"
proof -
  have fl: "floorOf (ks_node ks' n) = floorOf (ks_node ks n)" using assms(3) by (simp add: floorOf_def)
  show ?thesis using assms(1,4) unfolding covered_def assms(2) fl by (blast intro: le_trans)
qed

definition entry_ok :: "keyspace \<Rightarrow> node_entry \<Rightarrow> bool" where
  "entry_ok ks e \<longleftrightarrow>
     (\<forall>v r. en_floor e = Some (v, r) \<longrightarrow> 0 < r \<and> r \<le> ks_revision ks) \<and>
     (\<forall>ow. en_owner e = Some ow \<longrightarrow> ow_createRevision ow \<le> ks_revision ks \<and>
        or_zero (ow_claimFloorMs ow) \<le> or_zero (floorOf e) \<and> ow_lease ow < ks_nextLease ks)"

definition keys_ok :: "keyspace \<Rightarrow> bool" where
  "keys_ok ks \<longleftrightarrow> (\<forall>n. entry_ok ks (ks_node ks n)) \<and> (\<forall>l \<in> set (ks_leases ks). l < ks_nextLease ks)"

text \<open>An entry read earlier: where its revisions still stand, so does what it said.\<close>

definition snap_ok :: "keyspace \<Rightarrow> int \<Rightarrow> node_entry \<Rightarrow> bool" where
  "snap_ok ks n e \<longleftrightarrow> entry_ok ks e \<and>
     (floorRevision e = floorRevision (ks_node ks n) \<longrightarrow> floorOf e = floorOf (ks_node ks n)) \<and>
     (\<forall>ow ow'. en_owner e = Some ow \<longrightarrow> en_owner (ks_node ks n) = Some ow' \<longrightarrow>
        ow_createRevision ow' = ow_createRevision ow \<longrightarrow> ow' = ow)"

definition keys_move :: "keyspace \<Rightarrow> keyspace \<Rightarrow> bool" where
  "keys_move ks ks' \<longleftrightarrow> ks_revision ks \<le> ks_revision ks' \<and> ks_nextLease ks \<le> ks_nextLease ks' \<and>
     (\<forall>n. (en_floor (ks_node ks' n) = en_floor (ks_node ks n) \<or>
            (\<exists>v r. en_floor (ks_node ks' n) = Some (v, r) \<and> ks_revision ks < r)) \<and>
          (en_owner (ks_node ks' n) = en_owner (ks_node ks n) \<or> en_owner (ks_node ks' n) = None \<or>
            (\<exists>ow. en_owner (ks_node ks' n) = Some ow \<and> ks_revision ks < ow_createRevision ow)))"

lemma current_snap [simp]: "keys_ok ks \<Longrightarrow> snap_ok ks n (ks_node ks n)"
  by (simp add: snap_ok_def keys_ok_def)

lemma snap_moved:
  assumes e: "snap_ok ks n e" and m: "keys_move ks ks'"
  shows "snap_ok ks' n e"
proof -
  have rev: "ks_revision ks \<le> ks_revision ks'" "ks_nextLease ks \<le> ks_nextLease ks'"
    and fl: "en_floor (ks_node ks' n) = en_floor (ks_node ks n) \<or>
        (\<exists>v r. en_floor (ks_node ks' n) = Some (v, r) \<and> ks_revision ks < r)"
    and own: "en_owner (ks_node ks' n) = en_owner (ks_node ks n) \<or> en_owner (ks_node ks' n) = None \<or>
        (\<exists>ow. en_owner (ks_node ks' n) = Some ow \<and> ks_revision ks < ow_createRevision ow)"
    using m by (simp_all add: keys_move_def)
  have eo: "entry_ok ks e" using e by (simp add: snap_ok_def)
  then have "entry_ok ks' e" using rev by (force simp: entry_ok_def)
  moreover have "floorOf e = floorOf (ks_node ks' n)" if "floorRevision e = floorRevision (ks_node ks' n)"
    using fl
  proof
    assume "en_floor (ks_node ks' n) = en_floor (ks_node ks n)"
    then show ?thesis using e that by (simp add: snap_ok_def floorOf_def floorRevision_def)
  next
    assume "\<exists>v r. en_floor (ks_node ks' n) = Some (v, r) \<and> ks_revision ks < r"
    moreover have "floorRevision e \<le> ks_revision ks"
      using eo by (auto simp: entry_ok_def floorRevision_def split: option.splits)
    ultimately show ?thesis using that by (auto simp: floorRevision_def)
  qed
  moreover have "ow' = ow" if "en_owner e = Some ow" "en_owner (ks_node ks' n) = Some ow'"
      "ow_createRevision ow' = ow_createRevision ow" for ow ow'
    using own that e eo by (auto simp: snap_ok_def entry_ok_def)
  ultimately show ?thesis unfolding snap_ok_def by blast
qed


section \<open>What the transactions keep\<close>

text \<open>
  A change of the keyspace that breaks no promise, except for those above \<open>w\<close> under the one generation it
  writes for.
\<close>

definition spares :: "keyspace \<Rightarrow> keyspace \<Rightarrow> (int \<times> nat \<times> int) option \<Rightarrow> bool" where
  "spares ks ks' W \<longleftrightarrow> keys_ok ks' \<and> keys_move ks ks' \<and>
     (\<forall>n g v. covered ks n g v \<longrightarrow> (\<forall>w. W = Some (n, g, w) \<longrightarrow> v \<le> w) \<longrightarrow> covered ks' n g v)"

lemma spares_refl: "keys_ok ks \<Longrightarrow> spares ks ks W"
  by (simp add: spares_def keys_move_def)

lemma spares_weak: "spares ks ks' None \<Longrightarrow> spares ks ks' W"
  by (simp add: spares_def)

text \<open>What a write of one node has to show.\<close>

lemma put_spares:
  assumes ok: "keys_ok ks"
    and fl: "en_floor e = Some (v, ks_revision ks + 1)"
    and own: "en_owner e = en_owner (ks_node ks n) \<or> en_owner e = None \<or>
        (\<exists>ow. en_owner e = Some ow \<and> ow_createRevision ow = ks_revision ks + 1 \<and> ow_lease ow < ks_nextLease ks)"
    and base: "\<And>ow. en_owner e = Some ow \<Longrightarrow> or_zero (ow_claimFloorMs ow) \<le> v"
    and cov: "\<And>g x. covered ks n g x \<Longrightarrow> (\<And>w. W = Some (n, g, w) \<Longrightarrow> x \<le> w) \<Longrightarrow> covered (put_entry n e ks) n g x"
  shows "spares ks (put_entry n e ks) W"
proof -
  have old: "entry_ok ks (ks_node ks m)" for m using ok by (simp add: keys_ok_def)
  have keep: "entry_ok (put_entry n e ks) (ks_node ks m)" for m
    using old [of m] by (force simp: entry_ok_def put_entry_def)
  have "entry_ok (put_entry n e ks) e"
    unfolding entry_ok_def
  proof (intro conjI allI impI)
    fix u r assume "en_floor e = Some (u, r)"
    then show "0 < r" "r \<le> ks_revision (put_entry n e ks)" using fl by (simp_all add: put_entry_def)
  next
    fix ow assume ow: "en_owner e = Some ow"
    show "or_zero (ow_claimFloorMs ow) \<le> or_zero (floorOf e)" using base [OF ow] fl by (simp add: floorOf_def)
    have "ow_createRevision ow \<le> ks_revision ks + 1 \<and> ow_lease ow < ks_nextLease ks"
      using own
    proof (elim disjE)
      assume "en_owner e = en_owner (ks_node ks n)"
      then have "en_owner (ks_node ks n) = Some ow" using ow by simp
      then show ?thesis using old [of n] by (simp add: entry_ok_def)
    qed (use ow in auto)
    then show "ow_createRevision ow \<le> ks_revision (put_entry n e ks)" "ow_lease ow < ks_nextLease (put_entry n e ks)"
      by (simp_all add: put_entry_def)
  qed
  then have "keys_ok (put_entry n e ks)" using ok keep by (simp add: keys_ok_def put_entry_def)
  moreover have "keys_move ks (put_entry n e ks)"
    using own fl by (fastforce simp: keys_move_def put_entry_def)
  moreover have "covered (put_entry n e ks) m g x"
    if "covered ks m g x" "\<forall>w. W = Some (m, g, w) \<longrightarrow> x \<le> w" for m g x
  proof (cases "m = n")
    case True
    then show ?thesis using cov that by simp
  next
    case False
    then show ?thesis using that(1) covered_same by (simp add: put_entry_def)
  qed
  ultimately show ?thesis by (simp add: spares_def)
qed

lemma claim_spares:
  assumes ok: "keys_ok ks" and e: "snap_ok ks n e" and ttl: "0 < ttl" and l: "leaseId < ks_nextLease ks"
  shows "spares ks (snd (claim_txn holder leaseId ttl nowMs (n, e) ks)) W"
proof (cases "en_owner (ks_node ks n) = None \<and> floorRevision (ks_node ks n) = floorRevision e")
  case False
  then show ?thesis using ok by (auto simp: claim_txn_def Let_def spares_refl)
next
  case True
  then have fl: "floorOf e = floorOf (ks_node ks n)" using e by (simp add: snap_ok_def)
  have "spares ks (put_entry n \<lparr>en_owner = Some \<lparr>ow_holder = holder, ow_claimFloorMs = floorOf e,
      ow_createRevision = ks_revision ks + 1, ow_lease = leaseId\<rparr>,
      en_floor = Some (max nowMs (or_zero (floorOf e)) + ttl, ks_revision ks + 1)\<rparr> ks) W"
  proof (rule put_spares [OF ok])
    fix g x assume "covered ks n g x"
    then show "covered (put_entry n \<lparr>en_owner = Some \<lparr>ow_holder = holder, ow_claimFloorMs = floorOf e,
      ow_createRevision = ks_revision ks + 1, ow_lease = leaseId\<rparr>,
      en_floor = Some (max nowMs (or_zero (floorOf e)) + ttl, ks_revision ks + 1)\<rparr> ks) n g x"
      using True fl by (simp add: covered_def put_entry_def)
  qed (use ttl l in auto)
  then show ?thesis using True by (simp add: claim_txn_def Let_def)
qed

lemma raise_spares:
  assumes ok: "keys_ok ks" and e: "snap_ok ks n e" and h: "isHeldBy e g"
  shows "spares ks (snd (raiseCeiling n e g st ttl ks)) (Some (n, g, max (or_zero (floorOf e)) (st + ttl)))"
proof (cases "isHeldBy (ks_node ks n) g")
  case False
  then show ?thesis using ok by (simp add: raiseCeiling_def Let_def spares_refl)
next
  case True
  then obtain ow where ow: "en_owner (ks_node ks n) = Some ow" "ow_createRevision ow = g"
    by (auto simp: isHeldBy_def split: option.splits)
  then have "en_owner e = Some ow" using e h by (auto simp: snap_ok_def isHeldBy_def split: option.splits)
  then have "or_zero (ow_claimFloorMs ow) \<le> or_zero (floorOf e)" using e by (simp add: snap_ok_def entry_ok_def)
  then have base: "or_zero (ow_claimFloorMs ow) \<le> max (or_zero (floorOf e)) (st + ttl)" by simp
  have "spares ks (put_entry n ((ks_node ks n)\<lparr>en_floor := Some (max (or_zero (floorOf e)) (st + ttl),
      ks_revision ks + 1)\<rparr>) ks) (Some (n, g, max (or_zero (floorOf e)) (st + ttl)))"
  proof (rule put_spares [OF ok])
    fix h x
    assume c: "covered ks n h x" and w: "\<And>w. Some (n, g, max (or_zero (floorOf e)) (st + ttl)) = Some (n, h, w) \<Longrightarrow> x \<le> w"
    have "x \<le> max (or_zero (floorOf e)) (st + ttl)" if "h = g" using w that by blast
    then show "covered (put_entry n ((ks_node ks n)\<lparr>en_floor := Some (max (or_zero (floorOf e)) (st + ttl),
        ks_revision ks + 1)\<rparr>) ks) n h x"
      using c ow by (auto simp: covered_def put_entry_def floorOf_def)
  qed (use ow base in auto)
  then show ?thesis using True by (simp add: raiseCeiling_def Let_def)
qed

lemma release_spares:
  assumes ok: "keys_ok ks" and e: "snap_ok ks n e" and h: "isHeldBy e g"
  shows "spares ks (release_txn n e g l ks) (Some (n, g, or_zero l))"
proof (cases "isHeldBy (ks_node ks n) g")
  case False
  then show ?thesis using ok by (simp add: release_txn_def Let_def spares_refl)
next
  case True
  then obtain ow where ow: "en_owner (ks_node ks n) = Some ow" "ow_createRevision ow = g"
    by (auto simp: isHeldBy_def split: option.splits)
  then have eo: "en_owner e = Some ow" using e h by (auto simp: snap_ok_def isHeldBy_def split: option.splits)
  have cov: "covered (put_entry n \<lparr>en_owner = None, en_floor = Some (max (or_zero (ow_claimFloorMs ow)) (or_zero l),
      ks_revision ks + 1)\<rparr> ks) n h x" if "covered ks n h x" "\<And>w. Some (n, g, or_zero l) = Some (n, h, w) \<Longrightarrow> x \<le> w" for h x
  proof (cases "h = g")
    case True
    then have "x \<le> or_zero l" using that(2) by blast
    then show ?thesis using that(1) by (simp add: covered_def put_entry_def floorOf_def)
  next
    case False
    then have "x \<le> or_zero (ow_claimFloorMs ow)" "h \<le> ks_revision ks" using that(1) ow by (simp_all add: covered_def)
    then show ?thesis by (simp add: covered_def put_entry_def floorOf_def)
  qed
  then show ?thesis
    using True eo by (simp add: release_txn_def Let_def) (rule put_spares [OF ok], auto)
qed

lemma drop_spares:
  assumes ok: "keys_ok ks"
  shows "spares ks (drop_lease l ks) W"
proof -
  let ?ks = "drop_lease l ks"
  have r: "ks_revision ?ks = ks_revision ks" "ks_nextLease ?ks = ks_nextLease ks"
    and f: "en_floor (ks_node ?ks n) = en_floor (ks_node ks n)"
    and o: "en_owner (ks_node ?ks n) = en_owner (ks_node ks n) \<or> en_owner (ks_node ?ks n) = None" for n
    by (auto simp: drop_lease_def Let_def split: option.splits)
  have old: "entry_ok ks (ks_node ks n)" for n using ok by (simp add: keys_ok_def)
  have "keys_ok ?ks"
    unfolding keys_ok_def
  proof (intro conjI allI ballI)
    fix n show "entry_ok ?ks (ks_node ?ks n)" using old [of n] o [of n] f [of n] r by (auto simp: entry_ok_def floorOf_def)
  next
    fix k assume "k \<in> set (ks_leases ?ks)" then show "k < ks_nextLease ?ks" using ok r by (simp add: keys_ok_def drop_lease_def)
  qed
  moreover have "keys_move ks ?ks" using r f o by (simp add: keys_move_def) metis
  moreover have "covered ?ks n g v" if c: "covered ks n g v" for n g v
  proof -
    have fl: "floorOf (ks_node ?ks n) = floorOf (ks_node ks n)" using f by (simp add: floorOf_def)
    show ?thesis
    proof (cases "en_owner (ks_node ?ks n) = en_owner (ks_node ks n)")
      case True
      then show ?thesis using covered_same [OF c] f r by simp
    next
      case False
      then have n: "en_owner (ks_node ?ks n) = None" using o by blast
      obtain ow where ow: "en_owner (ks_node ks n) = Some ow" using False n by (cases "en_owner (ks_node ks n)") auto
      have "v \<le> floor_at ks n" using c ow old [of n] by (auto simp: covered_def entry_ok_def split: if_splits)
      then show ?thesis using c n fl r by (simp add: covered_def)
    qed
  qed
  ultimately show ?thesis by (simp add: spares_def)
qed

text \<open>A change of the bookkeeping only.\<close>

lemma same_nodes_spares:
  assumes ok: "keys_ok ks" and n: "ks_node ks' = ks_node ks" and r: "ks_revision ks \<le> ks_revision ks'"
    and l: "ks_nextLease ks \<le> ks_nextLease ks'" "\<And>k. k \<in> set (ks_leases ks') \<Longrightarrow> k < ks_nextLease ks'"
  shows "spares ks ks' W"
proof -
  have "entry_ok ks (ks_node ks m)" for m using ok by (simp add: keys_ok_def)
  then have "entry_ok ks' (ks_node ks m)" for m using r l(1) unfolding entry_ok_def by (meson le_trans less_le_trans)
  then have "keys_ok ks'" using n l(2) by (simp add: keys_ok_def)
  moreover have "covered ks' m g v" if "covered ks m g v" for m g v
    using covered_same [OF that] n r by simp
  ultimately show ?thesis using n r l(1) by (simp add: spares_def keys_move_def)
qed

text \<open>A chunk of the floor lift.\<close>

lemma fold_chunk:
  "fold (\<lambda>(n, e) f. f(n := F e)) chunk f0 m = f0 m \<or> (\<exists>e. (m, e) \<in> set chunk \<and> fold (\<lambda>(n, e) f. f(n := F e)) chunk f0 m = F e)"
proof (induction chunk arbitrary: f0)
  case (Cons c chunk)
  obtain n e where c: "c = (n, e)" by force
  show ?case using Cons.IH [of "f0(n := F e)"] c by (cases "m = n") auto
qed simp

lemma lift_chunk_spares:
  assumes ok: "keys_ok ks" and sn: "\<And>n e. (n, e) \<in> set chunk \<Longrightarrow> snap_ok ks n e" and run: "lift_chunk nowMs chunk ks = (b, ks')"
  shows "spares ks ks' W"
proof (cases b)
  case False
  then show ?thesis using run ok by (auto simp: lift_chunk_def spares_refl split: if_splits)
next
  case True
  let ?F = "\<lambda>e. \<lparr>en_owner = None, en_floor = Some (max (or_zero (floorOf e)) nowMs, ks_revision ks + 1)\<rparr>"
  have c: "en_owner (ks_node ks n) = None" "floorRevision (ks_node ks n) = floorRevision e" if "(n, e) \<in> set chunk" for n e
    using run True that by (auto simp: lift_chunk_def list_all_iff split: if_splits)
  have ks': "ks' = ks\<lparr>ks_node := fold (\<lambda>(n, e) f. f(n := ?F e)) chunk (ks_node ks), ks_revision := ks_revision ks + 1\<rparr>"
    using run True by (auto simp: lift_chunk_def split: if_splits)
  have at: "ks_node ks' n = ks_node ks n \<or>
      (en_owner (ks_node ks n) = None \<and> en_owner (ks_node ks' n) = None \<and>
        (\<exists>v. en_floor (ks_node ks' n) = Some (v, ks_revision ks + 1) \<and> floor_at ks n \<le> v))" for n
  proof -
    consider "ks_node ks' n = ks_node ks n" | e where "(n, e) \<in> set chunk" "ks_node ks' n = ?F e"
      using fold_chunk [of ?F chunk "ks_node ks" n] ks' by auto
    then show ?thesis
    proof cases
      case (2 e)
      then have "floorOf e = floorOf (ks_node ks n)" using sn c by (metis snap_ok_def)
      then show ?thesis using 2 c by simp
    qed simp
  qed
  have r: "ks_revision ks' = ks_revision ks + 1" "ks_nextLease ks' = ks_nextLease ks" "ks_leases ks' = ks_leases ks"
    using ks' by simp_all
  have old: "entry_ok ks (ks_node ks n)" for n using ok by (simp add: keys_ok_def)
  have "entry_ok ks' (ks_node ks' n)" for n
    using at [of n]
  proof
    assume "ks_node ks' n = ks_node ks n" then show ?thesis using old [of n] r by (force simp: entry_ok_def)
  next
    assume "en_owner (ks_node ks n) = None \<and> en_owner (ks_node ks' n) = None \<and>
        (\<exists>v. en_floor (ks_node ks' n) = Some (v, ks_revision ks + 1) \<and> floor_at ks n \<le> v)"
    then show ?thesis using r by (auto simp: entry_ok_def)
  qed
  then have "keys_ok ks'" using ok r by (simp add: keys_ok_def)
  moreover have "(en_floor (ks_node ks' n) = en_floor (ks_node ks n) \<or>
            (\<exists>v r. en_floor (ks_node ks' n) = Some (v, r) \<and> ks_revision ks < r)) \<and>
          (en_owner (ks_node ks' n) = en_owner (ks_node ks n) \<or> en_owner (ks_node ks' n) = None)" for n
    using at [of n] by auto
  then have "keys_move ks ks'" using r unfolding keys_move_def by (simp, blast)
  moreover have "covered ks' n g v" if "covered ks n g v" for n g v
    using at [of n]
  proof
    assume "ks_node ks' n = ks_node ks n" then show ?thesis using covered_same [OF that] r by simp
  next
    assume "en_owner (ks_node ks n) = None \<and> en_owner (ks_node ks' n) = None \<and>
        (\<exists>v. en_floor (ks_node ks' n) = Some (v, ks_revision ks + 1) \<and> floor_at ks n \<le> v)"
    then show ?thesis using that r by (auto simp: covered_def floorOf_def)
  qed
  ultimately show ?thesis by (simp add: spares_def)
qed


section \<open>The replicas\<close>

text \<open>What was minted: node, generation, timestamp, sequence.\<close>

type_synonym stamps = "(int \<times> nat \<times> int \<times> int) set"

definition stamps :: "(int \<times> nat \<times> string) list \<Rightarrow> stamps" where
  "stamps m = {(n, g, ts, sq). \<exists>x. (n, g, x) \<in> set m \<and>
     id_decode x = Inr \<lparr>sf_tsMs = ts, sf_nodeId = n, sf_sequence = sq\<rparr>}"

definition tenure_ok :: "keyspace \<Rightarrow> stamps \<Rightarrow> tenure \<Rightarrow> bool" where
  "tenure_ok ks S t \<longleftrightarrow> covered ks (tn_node t) (tn_gen t) (tn_limit t) \<and>
     (\<forall>g ts sq. (tn_node t, g, ts, sq) \<in> S \<longrightarrow> (g < tn_gen t \<longrightarrow> ts < tn_low t) \<and> (tn_gen t < g \<longrightarrow> tn_limit t < ts) \<and>
        (g = tn_gen t \<longrightarrow> (\<exists>p. tn_pos t = Some p \<and> at_most (ts, sq) p) \<and> ts \<le> tn_limit t))"

text \<open>The generations an etcd lease owns a node under.\<close>

definition owned_under :: "keyspace \<Rightarrow> nat option \<Rightarrow> (int \<times> nat) set" where
  "owned_under ks p = {(n, g). \<exists>ow. en_owner (ks_node ks n) = Some ow \<and> p = Some (ow_lease ow) \<and> g = ow_createRevision ow}"

definition rights :: "keyspace \<Rightarrow> replica \<Rightarrow> (int \<times> nat) set" where
  "rights ks rp = {(n, g). (\<exists>t. tenure_of rp = Some t \<and> n = tn_node t \<and> g = tn_gen t) \<or>
     (\<exists>l. releasing rp = Some (n, g, l)) \<or> (n, g) \<in> owned_under ks (rp_pendingLease rp)}"

definition held_ok :: "replica \<Rightarrow> held_lease \<Rightarrow> bool" where
  "held_ok rp h \<longleftrightarrow> rp_phase rp = Ph_held \<and> rp_pendingLease rp = None \<and> hl_nodeId h = ge_nodeId (hl_generator h) \<and>
     ge_reads (hl_generator h) \<le> rp_reads rp \<and>
     gen_floored (rp_clock rp) (ge_originWallMs (hl_generator h) + ge_liftMs (hl_generator h) - 1) (hl_generator h)"

definition call_ok :: "keyspace \<Rightarrow> replica \<Rightarrow> bool" where
  "call_ok ks rp \<longleftrightarrow>
     (case rp_call rp of
        None \<Rightarrow> True
      | Some (Acq_read a) \<Rightarrow> rp_held rp = None
      | Some (Acq_claim a l free) \<Rightarrow> rp_held rp = None \<and> rp_pendingLease rp = Some l \<and> (\<forall>(n, e) \<in> set free. snap_ok ks n e)
      | Some (Acq_readopt a n e l) \<Rightarrow> rp_held rp = None \<and> snap_ok ks n e \<and>
          (\<exists>ow. en_owner e = Some ow \<and> rp_pendingLease rp = Some (ow_lease ow))
      | Some (Acq_granted a g) \<Rightarrow> rp_held rp = None \<and> rp_pendingLease rp = None
      | Some (Ren_read a l) \<Rightarrow> rp_held rp \<noteq> None
      | Some (Ren_raise a e st) \<Rightarrow> (\<exists>h. rp_held rp = Some h \<and> snap_ok ks (hl_nodeId h) e \<and> isHeldBy e (hl_generation h) \<and>
          hl_leaseUntilMs h \<le> or_zero (floorOf e))
      | Some (Ren_raised a c) \<Rightarrow> (\<exists>h. rp_held rp = Some h \<and> hl_leaseUntilMs h \<le> c)
      | Some (Rel_read n g l) \<Rightarrow> rp_held rp = None \<and> rp_pendingLease rp = None
      | Some (Rel_write n g l e) \<Rightarrow> rp_held rp = None \<and> rp_pendingLease rp = None \<and> snap_ok ks n e \<and> isHeldBy e g)"

definition solo :: "keyspace \<Rightarrow> stamps \<Rightarrow> replica \<Rightarrow> bool" where
  "solo ks S rp \<longleftrightarrow> clock_runs (rp_clock rp) 0 \<and> (\<forall>h. rp_held rp = Some h \<longrightarrow> held_ok rp h) \<and> call_ok ks rp \<and>
     (\<forall>t. tenure_of rp = Some t \<longrightarrow> tenure_ok ks S t) \<and>
     (\<forall>n g l. releasing rp = Some (n, g, l) \<longrightarrow> g \<le> ks_revision ks \<and> (\<forall>ts sq. (n, g, ts, sq) \<in> S \<longrightarrow> ts \<le> l)) \<and>
     (\<forall>p. rp_pendingLease rp = Some p \<longrightarrow> p < ks_nextLease ks) \<and>
     (\<forall>n g ts sq. (n, g) \<in> owned_under ks (rp_pendingLease rp) \<longrightarrow> (n, g, ts, sq) \<notin> S)"

definition apart :: "keyspace \<Rightarrow> replica \<Rightarrow> replica \<Rightarrow> bool" where
  "apart ks rp rq \<longleftrightarrow> rights ks rp \<inter> rights ks rq = {} \<and>
     (\<forall>t u. tenure_of rp = Some t \<longrightarrow> tenure_of rq = Some u \<longrightarrow> turns t u) \<and>
     (rp_pendingLease rp = rp_pendingLease rq \<longrightarrow> rp_pendingLease rp = None)"

lemma apart_sym: "apart ks rp rq \<longleftrightarrow> apart ks rq rp"
  unfolding apart_def using turns_sym by (metis Int_commute)

definition ids_ok :: "keyspace \<Rightarrow> (int \<times> nat \<times> string) list \<Rightarrow> bool" where
  "ids_ok ks m \<longleftrightarrow> distinct (map (\<lambda>(n, g, x). x) m) \<and>
     (\<forall>(n, g, x) \<in> set m. \<exists>ts sq. id_decode x = Inr \<lparr>sf_tsMs = ts, sf_nodeId = n, sf_sequence = sq\<rparr>) \<and>
     (\<forall>(n, g, ts, sq) \<in> stamps m. covered ks n g ts)"

definition ids_inv :: "id_system \<Rightarrow> bool" where
  "ids_inv s \<longleftrightarrow> keys_ok (sy_keys s) \<and> ids_ok (sy_keys s) (sy_minted s) \<and>
     (\<forall>t es. sy_lift s = Some (t, es) \<longrightarrow> (\<forall>(n, e) \<in> set es. snap_ok (sy_keys s) n e)) \<and>
     (\<forall>i. solo (sy_keys s) (stamps (sy_minted s)) (sy_replica s i)) \<and>
     (\<forall>i j. i \<noteq> j \<longrightarrow> apart (sy_keys s) (sy_replica s i) (sy_replica s j))"

lemma call_ok_same:
  assumes "rp_call rp' = rp_call rp" "rp_held rp' = rp_held rp" "rp_pendingLease rp' = rp_pendingLease rp"
  shows "call_ok ks rp' = call_ok ks rp"
  unfolding call_ok_def assms ..

lemma shape_same:
  assumes "rp_call rp' = rp_call rp" "rp_held rp' = rp_held rp"
  shows "tenure_of rp' = tenure_of rp" "releasing rp' = releasing rp"
  unfolding tenure_of_def releasing_def assms by (rule refl)+

text \<open>What a replica relies on survives the transactions of the others.\<close>

lemma call_ok_moved: "call_ok ks rp \<Longrightarrow> keys_move ks ks' \<Longrightarrow> call_ok ks' rp"
  using snap_moved by (auto simp: call_ok_def split: option.splits lease_call.splits)

lemma rights_cov: "solo ks S rp \<Longrightarrow> keys_ok ks \<Longrightarrow> (n, g) \<in> rights ks rp \<Longrightarrow> g \<le> ks_revision ks"
  by (auto simp: rights_def solo_def tenure_ok_def covered_def keys_ok_def entry_ok_def owned_under_def)

lemma solo_spared:
  assumes s: "solo ks S rp" and sp: "spares ks ks' W"
    and w: "\<And>t w. tenure_of rp = Some t \<Longrightarrow> W = Some (tn_node t, tn_gen t, w) \<Longrightarrow> tn_limit t \<le> w"
    and own: "owned_under ks' (rp_pendingLease rp) \<subseteq> owned_under ks (rp_pendingLease rp)"
  shows "solo ks' S rp"
proof -
  have mv: "keys_move ks ks'" using sp by (simp add: spares_def)
  have r: "ks_revision ks \<le> ks_revision ks'" "ks_nextLease ks \<le> ks_nextLease ks'" using mv by (simp_all add: keys_move_def)
  have "tenure_ok ks' S t" if t: "tenure_of rp = Some t" for t
  proof -
    have "tenure_ok ks S t" using s t by (simp add: solo_def)
    then show ?thesis using sp w [OF t] unfolding tenure_ok_def spares_def by blast
  qed
  moreover have "call_ok ks' rp" using s call_ok_moved [OF _ mv] by (simp add: solo_def)
  ultimately show ?thesis using s own r unfolding solo_def by (meson le_trans less_le_trans subsetD)
qed

lemma rights_owned:
  "owned_under ks' (rp_pendingLease rp) \<subseteq> owned_under ks (rp_pendingLease rp) \<Longrightarrow> rights ks' rp \<subseteq> rights ks rp"
  by (auto simp: rights_def)

lemma inv_parts:
  assumes "ids_inv s"
  shows "keys_ok (sy_keys s)" "ids_ok (sy_keys s) (sy_minted s)" "solo (sy_keys s) (stamps (sy_minted s)) (sy_replica s i)"
    "i \<noteq> j \<Longrightarrow> apart (sy_keys s) (sy_replica s i) (sy_replica s j)"
    "sy_lift s = Some (t, es) \<Longrightarrow> (n, e) \<in> set es \<Longrightarrow> snap_ok (sy_keys s) n e"
  using assms by (auto simp: ids_inv_def)

lemma replica_step:
  assumes s: "ids_inv s" and sp: "spares (sy_keys s) ks' W"
    and w: "\<And>n g w. W = Some (n, g, w) \<Longrightarrow> (n, g) \<in> rights (sy_keys s) (sy_replica s i) \<and>
        (\<forall>ts sq. (n, g, ts, sq) \<in> stamps (sy_minted s) \<longrightarrow> ts \<le> w)"
    and so: "solo ks' (stamps (sy_minted s)) rp'"
    and ri: "rights ks' rp' \<subseteq> rights (sy_keys s) (sy_replica s i) \<union> {(n, g). ks_revision (sy_keys s) < g}"
    and pe: "\<And>p. rp_pendingLease rp' = Some p \<Longrightarrow> rp_pendingLease (sy_replica s i) = Some p \<or> ks_nextLease (sy_keys s) \<le> p"
    and ow: "\<And>n ow. en_owner (ks_node ks' n) = Some ow \<Longrightarrow> en_owner (ks_node (sy_keys s) n) = Some ow \<or>
        rp_pendingLease (sy_replica s i) = Some (ow_lease ow)"
    and tu: "\<And>t u. tenure_of rp' = Some t \<Longrightarrow> covered (sy_keys s) (tn_node u) (tn_gen u) (tn_limit u) \<Longrightarrow>
        (tn_node u, tn_gen u) \<notin> rights (sy_keys s) (sy_replica s i) \<Longrightarrow>
        (\<And>t'. tenure_of (sy_replica s i) = Some t' \<Longrightarrow> turns t' u) \<Longrightarrow> turns t u"
  shows "ids_inv (with_round_trip i (rp', ks') s)"
proof -
  let ?ks = "sy_keys s" and ?S = "stamps (sy_minted s)"
  note parts = inv_parts [OF s]
  have mv: "keys_move ?ks ks'" using sp by (simp add: spares_def)
  have own: "owned_under ks' (rp_pendingLease (sy_replica s j)) \<subseteq> owned_under ?ks (rp_pendingLease (sy_replica s j))"
    if "j \<noteq> i" for j
  proof -
    have "rp_pendingLease (sy_replica s i) \<noteq> Some l" if "rp_pendingLease (sy_replica s j) = Some l" for l
      using parts(4) [of i j] \<open>j \<noteq> i\<close> that unfolding apart_def by force
    then show ?thesis using ow unfolding owned_under_def by blast
  qed
  have others: "solo ks' ?S (sy_replica s j)" if j: "j \<noteq> i" for j
  proof (rule solo_spared [OF parts(3) sp _ own [OF j]])
    fix t w' assume t: "tenure_of (sy_replica s j) = Some t" and "W = Some (tn_node t, tn_gen t, w')"
    then have "(tn_node t, tn_gen t) \<in> rights ?ks (sy_replica s i)" using w by blast
    moreover have "(tn_node t, tn_gen t) \<in> rights ?ks (sy_replica s j)" using t by (simp add: rights_def)
    moreover have "rights ?ks (sy_replica s i) \<inter> rights ?ks (sy_replica s j) = {}"
      using parts(4) [of i j] j unfolding apart_def by simp
    ultimately show "tn_limit t \<le> w'" by blast
  qed
  have ap: "apart ks' rp' (sy_replica s j)" if j: "j \<noteq> i" for j
  proof -
    have a: "apart ?ks (sy_replica s i) (sy_replica s j)" using parts(4) [of i j] j by simp
    have r: "rights ks' (sy_replica s j) \<subseteq> rights ?ks (sy_replica s j)" using rights_owned own j by blast
    moreover have "g \<le> ks_revision ?ks" if "(n, g) \<in> rights ?ks (sy_replica s j)" for n g
      using rights_cov [OF parts(3) parts(1) that] .
    ultimately have "rights ks' rp' \<inter> rights ks' (sy_replica s j) = {}"
      using ri a unfolding apart_def by (fastforce simp: not_le [symmetric])
    moreover have "turns t u" if t: "tenure_of rp' = Some t" and u: "tenure_of (sy_replica s j) = Some u" for t u
    proof (rule tu [OF t])
      show "covered ?ks (tn_node u) (tn_gen u) (tn_limit u)" using parts(3) [of j] u by (simp add: solo_def tenure_ok_def)
      have "(tn_node u, tn_gen u) \<in> rights ?ks (sy_replica s j)" using u by (simp add: rights_def)
      then show "(tn_node u, tn_gen u) \<notin> rights ?ks (sy_replica s i)" using a unfolding apart_def by blast
      show "turns t' u" if "tenure_of (sy_replica s i) = Some t'" for t' using a u that unfolding apart_def by blast
    qed
    moreover have "rp_pendingLease rp' = None" if e: "rp_pendingLease rp' = rp_pendingLease (sy_replica s j)"
    proof (rule ccontr)
      assume "rp_pendingLease rp' \<noteq> None"
      then obtain p where p: "rp_pendingLease rp' = Some p" by blast
      then have "p < ks_nextLease ?ks" using e parts(3) [of j] by (simp add: solo_def)
      then have "rp_pendingLease (sy_replica s i) = Some p" using pe [OF p] by simp
      then show False using a e p unfolding apart_def by simp
    qed
    ultimately show ?thesis unfolding apart_def by blast
  qed
  have apo: "apart ks' (sy_replica s j) (sy_replica s k)" if "j \<noteq> i" "k \<noteq> i" "j \<noteq> k" for j k
  proof -
    have "rights ks' (sy_replica s j) \<subseteq> rights ?ks (sy_replica s j)" "rights ks' (sy_replica s k) \<subseteq> rights ?ks (sy_replica s k)"
      using rights_owned own that by blast+
    then show ?thesis using parts(4) [OF that(3)] unfolding apart_def by blast
  qed
  have "covered ks' n g ts" if x: "(n, g, ts, sq) \<in> ?S" for n g ts sq
  proof -
    have "covered ?ks n g ts" using parts(2) x unfolding ids_ok_def by fast
    moreover have "ts \<le> w'" if "W = Some (n, g, w')" for w' using w [OF that] x by blast
    ultimately show ?thesis using sp unfolding spares_def by blast
  qed
  then have "ids_ok ks' (sy_minted s)" using parts(2) unfolding ids_ok_def by fast
  moreover have "snap_ok ks' n e" if "sy_lift s = Some (t, es)" "(n, e) \<in> set es" for t es n e
    using snap_moved [OF parts(5) [OF that] mv] .
  moreover have "keys_ok ks'" using sp by (simp add: spares_def)
  ultimately show ?thesis
    using others so ap apo apart_sym unfolding ids_inv_def with_round_trip_def by (auto simp: fun_upd_def)
qed

text \<open>A step of a replica alone.\<close>

lemma local_step:
  assumes s: "ids_inv s" and so: "solo (sy_keys s) (stamps (sy_minted s)) rp'"
    and ri: "rights (sy_keys s) rp' \<subseteq> rights (sy_keys s) (sy_replica s i)"
    and pe: "rp_pendingLease rp' = None \<or> rp_pendingLease rp' = rp_pendingLease (sy_replica s i)"
    and tu: "\<And>t. tenure_of rp' = Some t \<Longrightarrow> \<exists>t'. tenure_of (sy_replica s i) = Some t' \<and>
       tn_node t = tn_node t' \<and> tn_gen t = tn_gen t' \<and> tn_limit t = tn_limit t' \<and> tn_low t' \<le> tn_low t"
  shows "ids_inv (with_replica i rp' s)"
proof -
  have "ids_inv (with_round_trip i (rp', sy_keys s) s)"
  proof (rule replica_step [OF s spares_refl [OF inv_parts(1) [OF s], of None] _ so])
    show "rights (sy_keys s) rp' \<subseteq> rights (sy_keys s) (sy_replica s i) \<union> {(n, g). ks_revision (sy_keys s) < g}" using ri by blast
    fix t u assume "tenure_of rp' = Some t"
    from tu [OF this] obtain t' where t': "tenure_of (sy_replica s i) = Some t'"
      "tn_node t = tn_node t'" "tn_gen t = tn_gen t'" "tn_limit t = tn_limit t'" "tn_low t' \<le> tn_low t" by blast
    assume "\<And>t'. tenure_of (sy_replica s i) = Some t' \<Longrightarrow> turns t' u"
    then show "turns t u" using t' by (fastforce simp: turns_def)
  qed (use pe in auto)
  then show ?thesis by (simp add: with_round_trip_def with_replica_def)
qed

text \<open>A step of the keyspace alone.\<close>

lemma keys_step:
  assumes s: "ids_inv s" and sp: "spares (sy_keys s) ks' None"
    and ow: "\<And>n ow. en_owner (ks_node ks' n) = Some ow \<Longrightarrow> en_owner (ks_node (sy_keys s) n) = Some ow"
  shows "ids_inv (s\<lparr>sy_keys := ks'\<rparr>)"
proof -
  let ?rp = "sy_replica s 0"
  have o: "owned_under ks' p \<subseteq> owned_under (sy_keys s) p" for p using ow by (auto simp: owned_under_def)
  have "ids_inv (with_round_trip 0 (?rp, ks') s)"
  proof (rule replica_step [OF s sp])
    show "solo ks' (stamps (sy_minted s)) ?rp" using solo_spared [OF inv_parts(3) [OF s] sp _ o] by blast
    show "rights ks' ?rp \<subseteq> rights (sy_keys s) ?rp \<union> {(n, g). ks_revision (sy_keys s) < g}" using rights_owned [OF o] by blast
  qed (use ow in auto)
  then show ?thesis by (simp add: with_round_trip_def)
qed


section \<open>Steps of a replica alone\<close>

text \<open>A step that gives up promises or keeps them.\<close>

lemma quiet_solo:
  assumes s: "solo ks S rp" and c: "clock_runs (rp_clock rp') 0" and h: "\<And>h. rp_held rp' = Some h \<Longrightarrow> held_ok rp' h"
    and k: "call_ok ks rp'" and t: "tenure_of rp' = None \<or> tenure_of rp' = tenure_of rp"
    and l: "releasing rp' = None \<or> releasing rp' = releasing rp"
    and p: "rp_pendingLease rp' = None \<or> rp_pendingLease rp' = rp_pendingLease rp"
  shows "solo ks S rp'" "rights ks rp' \<subseteq> rights ks rp"
proof -
  have o: "owned_under ks (rp_pendingLease rp') = {} \<or> owned_under ks (rp_pendingLease rp') = owned_under ks (rp_pendingLease rp)"
    using p by (auto simp: owned_under_def)
  show "rights ks rp' \<subseteq> rights ks rp"
  proof (rule subrelI)
    fix n g assume "(n, g) \<in> rights ks rp'"
    then consider t' where "tenure_of rp' = Some t'" "n = tn_node t'" "g = tn_gen t'" | v where "releasing rp' = Some (n, g, v)"
      | "(n, g) \<in> owned_under ks (rp_pendingLease rp')" by (auto simp: rights_def)
    then show "(n, g) \<in> rights ks rp"
    proof cases
      case (1 t')
      then have "tenure_of rp = Some t'" using t by auto
      then show ?thesis using 1 by (simp add: rights_def)
    next
      case (2 v)
      then have "releasing rp = Some (n, g, v)" using l by auto
      then show ?thesis by (simp add: rights_def)
    next
      case 3
      then show ?thesis using o by (auto simp: rights_def)
    qed
  qed
  have "tenure_ok ks S t'" if "tenure_of rp' = Some t'" for t' using s t that by (auto simp: solo_def)
  moreover have "g \<le> ks_revision ks \<and> (\<forall>ts sq. (n, g, ts, sq) \<in> S \<longrightarrow> ts \<le> v)" if "releasing rp' = Some (n, g, v)" for n g v
  proof -
    have "releasing rp = Some (n, g, v)" using l that by auto
    then show ?thesis using s unfolding solo_def by blast
  qed
  moreover have "q < ks_nextLease ks" if "rp_pendingLease rp' = Some q" for q using s p that by (auto simp: solo_def)
  moreover have "(n, g, ts, sq) \<notin> S" if "(n, g) \<in> owned_under ks (rp_pendingLease rp')" for n g ts sq
    using s o that by (auto simp: solo_def)
  ultimately show "solo ks S rp'" using c h k unfolding solo_def by blast
qed

lemma quiet_step:
  assumes s: "ids_inv s" and c: "clock_runs (rp_clock rp') 0" and h: "\<And>h. rp_held rp' = Some h \<Longrightarrow> held_ok rp' h"
    and k: "call_ok (sy_keys s) rp'" and t: "tenure_of rp' = None \<or> tenure_of rp' = tenure_of (sy_replica s i)"
    and l: "releasing rp' = None \<or> releasing rp' = releasing (sy_replica s i)"
    and p: "rp_pendingLease rp' = None \<or> rp_pendingLease rp' = rp_pendingLease (sy_replica s i)"
  shows "ids_inv (with_replica i rp' s)"
  using local_step [OF s quiet_solo(1) [OF inv_parts(3) [OF s] c h k t l p] quiet_solo(2) [OF inv_parts(3) [OF s] c h k t l p] p] t
  by auto

lemmas shape_simps = tenure_of_def releasing_def call_ok_def

lemma held_replica:
  assumes "ids_inv s" "rp_held (sy_replica s i) = Some h"
  shows "held_ok (sy_replica s i) h"
  using inv_parts(3) [OF assms(1)] assms(2) by (simp add: solo_def)

lemma replica_facts:
  assumes "ids_inv s"
  shows "clock_runs (rp_clock (sy_replica s i)) 0" "call_ok (sy_keys s) (sy_replica s i)"
    "rp_held (sy_replica s i) = None \<or> (\<exists>h. rp_held (sy_replica s i) = Some h \<and> held_ok (sy_replica s i) h)"
  using inv_parts(3) [OF assms] by (auto simp: solo_def)

text \<open>Time passing, and flags that carry no promise.\<close>

lemma held_later: "held_ok rp h \<Longrightarrow> rp_phase rp' = Ph_held \<Longrightarrow> rp_pendingLease rp' = rp_pendingLease rp \<Longrightarrow>
    rp_clock rp' = rp_clock rp \<Longrightarrow> rp_reads rp \<le> rp_reads rp' \<Longrightarrow> held_ok rp' h"
  by (simp add: held_ok_def)

lemma drain_step: "ids_inv s \<Longrightarrow> ids_inv (with_replica i ((sy_replica s i)\<lparr>rp_draining := True\<rparr>) s)"
  using replica_facts [of s i] held_replica
  by (intro quiet_step) (auto simp: shape_simps held_ok_def split: option.splits lease_call.splits)

lemma start_step: "ids_inv s \<Longrightarrow> clock_runs clk 0 \<Longrightarrow> ids_inv (with_replica i (started clk) s)"
  by (intro quiet_step) (auto simp: shape_simps started_def)

lemma acquire_step:
  assumes s: "ids_inv s"
  shows "ids_inv (with_replica i (lease_acquire (sy_replica s i)) s)"
proof (cases "rp_draining (sy_replica s i) \<or> rp_phase (sy_replica s i) \<in> {Ph_held, Ph_released} \<or> rp_call (sy_replica s i) \<noteq> None")
  case True
  then have "lease_acquire (sy_replica s i) = sy_replica s i" by (simp add: lease_acquire_def)
  then show ?thesis using s by (simp add: with_replica_def)
next
  case False
  then have "rp_held (sy_replica s i) = None" using replica_facts(3) [OF s, of i] by (auto simp: held_ok_def)
  then show ?thesis
    using False replica_facts(1) [OF s, of i]
    by (intro quiet_step [OF s]) (auto simp: lease_acquire_def lease_read_def shape_simps)
qed

lemma renew_step:
  assumes s: "ids_inv s"
  shows "ids_inv (with_replica i (lease_renew (sy_replica s i)) s)"
proof (cases "rp_held (sy_replica s i) = None \<or> rp_call (sy_replica s i) \<noteq> None")
  case True
  then have "lease_renew (sy_replica s i) = sy_replica s i" by (auto simp: lease_renew_def split: option.splits)
  then show ?thesis using s by (simp add: with_replica_def)
next
  case False
  then obtain h where h: "rp_held (sy_replica s i) = Some h" by auto
  show ?thesis
    using False replica_facts(1) [OF s, of i] held_replica [OF s h] h
    by (intro quiet_step [OF s]) (auto simp: lease_renew_def lease_read_def shape_simps held_ok_def)
qed

lemma lost_step:
  assumes s: "ids_inv s"
  shows "ids_inv (with_replica i (retire Ph_lost ((sy_replica s i)\<lparr>rp_call := None\<rparr>)) s)"
  using replica_facts(1) [OF s, of i] by (intro quiet_step [OF s]) (auto simp: retire_def shape_simps)

lemma renew_read_step:
  assumes s: "ids_inv s" and h: "rp_held (sy_replica s i) = Some h" and c: "rp_call (sy_replica s i) = Some (Ren_read anchor lastMs)"
  shows "ids_inv (with_replica i (renew_read nowMs anchor lastMs h (sy_replica s i) (sy_keys s)) s)"
proof (cases "\<not> isHeldBy (ks_node (sy_keys s) (hl_nodeId h)) (hl_generation h) \<or>
    ow_lease (the (en_owner (ks_node (sy_keys s) (hl_nodeId h)))) \<notin> set (ks_leases (sy_keys s))")
  case True
  then show ?thesis using lost_step [OF s, of i] by (simp add: renew_read_def Let_def)
next
  case False
  have "tenure_ok (sy_keys s) (stamps (sy_minted s)) (held_tenure h (hl_leaseUntilMs h))"
    using inv_parts(3) [OF s, of i] h c by (simp add: solo_def tenure_of_def)
  then have "covered (sy_keys s) (hl_nodeId h) (hl_generation h) (hl_leaseUntilMs h)"
    by (simp add: tenure_ok_def held_tenure_def)
  then have "hl_leaseUntilMs h \<le> or_zero (floorOf (ks_node (sy_keys s) (hl_nodeId h)))"
    using False by (auto simp: covered_def isHeldBy_def split: option.splits)
  then show ?thesis
    using False replica_facts(1) [OF s, of i] held_replica [OF s h] h c inv_parts(1) [OF s]
    by (intro quiet_step [OF s]) (simp_all add: renew_read_def Let_def shape_simps held_ok_def)
qed

lemma renewed_step:
  assumes s: "ids_inv s" and h: "rp_held (sy_replica s i) = Some h" and c: "rp_call (sy_replica s i) = Some (Ren_raised anchor v)"
  shows "ids_inv (with_replica i (renew_raised anchor v h (sy_replica s i)) s)"
  using replica_facts(1) [OF s, of i] held_replica [OF s h] h c
  by (intro quiet_step [OF s]) (auto simp: renew_raised_def shape_simps held_ok_def held_tenure_def)

lemma release_read_step:
  assumes s: "ids_inv s" and c: "rp_call (sy_replica s i) = Some (Rel_read n g l)"
  shows "ids_inv (with_replica i (release_read n g l (sy_replica s i) (sy_keys s)) s)"
  using replica_facts(1,2) [OF s, of i] c inv_parts(1) [OF s]
  by (intro quiet_step [OF s]) (auto simp: release_read_def shape_simps)

lemma fail_step:
  assumes s: "ids_inv s" and c: "remote_call (rp_call (sy_replica s i))"
  shows "ids_inv (with_replica i ((sy_replica s i)\<lparr>rp_call := None\<rparr>) s)"
  using replica_facts [OF s, of i] held_replica [OF s] c
  by (intro quiet_step [OF s]) (auto simp: shape_simps remote_call_def held_ok_def split: option.splits lease_call.splits)

lemma exhausted_step:
  assumes s: "ids_inv s" and c: "rp_call (sy_replica s i) = Some (Acq_claim anchor leaseId [])"
  shows "ids_inv (with_replica i ((sy_replica s i)\<lparr>rp_call := None, rp_pendingLease := None, rp_phase := Ph_exhausted\<rparr>) s)"
  using replica_facts [OF s, of i] c
  by (intro quiet_step [OF s]) (auto simp: shape_simps)


section \<open>Minting, a grant, a release\<close>

lemma fenced_cases:
  assumes "lease_fenced opts rp = (b, rp')"
  shows "\<exists>k. rp' = rp\<lparr>rp_reads := k\<rparr> \<and> rp_reads rp \<le> k \<and>
    (\<not> b \<longrightarrow> (\<exists>h. rp_held rp = Some h \<and> ge_lastMs (hl_generator h) \<le> hl_leaseUntilMs h))"
proof (cases "rp_held rp")
  case None
  then show ?thesis using assms by (auto simp: lease_fenced_def intro!: exI [of _ "rp_reads rp"])
next
  case (Some h)
  then show ?thesis
    using assms
    by (auto simp: lease_fenced_def lease_read_def lastTimestampMs_def Let_def split: prod.splits intro!: exI [of _ "rp_reads rp + 2"])
qed

lemma not_held_cases:
  assumes "not_held opts rp = (r, rp')"
  shows "\<exists>k e. rp' = rp\<lparr>rp_reads := k\<rparr> \<and> rp_reads rp \<le> k \<and> r = Inl e"
proof -
  obtain f rp1 where f: "lease_fenced opts rp = (f, rp1)" by force
  obtain k where k: "rp1 = rp\<lparr>rp_reads := k\<rparr>" "rp_reads rp \<le> k" using fenced_cases [OF f] by blast
  have "rp' = rp1 \<or> rp' = rp" "r = Inl Lease_not_held"
    using assms f by (auto simp: not_held_def lease_state_of_def split: lease_phase.splits)
  moreover have "rp = rp\<lparr>rp_reads := rp_reads rp\<rparr>" by simp
  ultimately show ?thesis using k by blast
qed

text \<open>A call to mint reads the clock, and may move the generator of the lease it holds.\<close>

definition mint_moves :: "replica \<Rightarrow> mint_error + string \<Rightarrow> replica \<Rightarrow> bool" where
  "mint_moves rp r rp' \<longleftrightarrow> (\<exists>h g r0 k0 k. rp_held rp = Some h \<and> rp_reads rp \<le> k0 \<and>
     gen_stamped (rp_clock rp) ((hl_generator h)\<lparr>ge_reads := k0\<rparr>) r0 g \<and> ge_reads g \<le> k \<and>
     rp' = rp\<lparr>rp_held := Some (h\<lparr>hl_generator := g\<rparr>), rp_reads := k\<rparr> \<and>
     (\<forall>x. r = Inr x \<longrightarrow> r0 = Inr x \<and> ge_lastMs g \<le> hl_leaseUntilMs h))"

lemma generate_cases:
  assumes "lease_generate opts rp = (r, rp')"
  shows "(\<exists>k e. rp' = rp\<lparr>rp_reads := k\<rparr> \<and> rp_reads rp \<le> k \<and> r = Inl e) \<or> mint_moves rp r rp'"
proof -
  obtain b rp1 where f: "lease_fenced opts rp = (b, rp1)" by force
  obtain k1 where k1: "rp1 = rp\<lparr>rp_reads := k1\<rparr>" "rp_reads rp \<le> k1" using fenced_cases [OF f] by blast
  show ?thesis
  proof (cases "rp_held rp = None \<or> b")
    case True
    then have "not_held opts rp1 = (r, rp')"
      using assms f k1 by (auto simp: lease_generate_def split: option.splits)
    from not_held_cases [OF this] k1 show ?thesis by (fastforce intro: le_trans)
  next
    case False
    then obtain h where h: "rp_held rp = Some h" "\<not> b" by auto
    let ?g = "(hl_generator h)\<lparr>ge_reads := k1\<rparr>"
    obtain r0 g where g: "gen_generate (rp_clock rp) ?g = (r0, g)" by force
    note st = generate_stamped [OF g]
    let ?rp = "rp\<lparr>rp_held := Some (h\<lparr>hl_generator := g\<rparr>), rp_reads := ge_reads g\<rparr>"
    obtain late rp3 where l: "lease_fenced opts ?rp = (late, rp3)" by force
    obtain k3 where k3: "rp3 = ?rp\<lparr>rp_reads := k3\<rparr>" "rp_reads ?rp \<le> k3"
        "\<not> late \<longrightarrow> (\<exists>h. rp_held ?rp = Some h \<and> ge_lastMs (hl_generator h) \<le> hl_leaseUntilMs h)"
      using fenced_cases [OF l] by blast
    have run: "lease_generate opts rp = (case r0 of Inl e \<Rightarrow> (Inl e, ?rp) | Inr s \<Rightarrow> (if late then not_held opts rp3 else (Inr s, rp3)))"
      using f k1 h g l by (simp add: lease_generate_def split: sum.splits)
    have moved: "mint_moves rp r (rp\<lparr>rp_held := Some (h\<lparr>hl_generator := g\<rparr>), rp_reads := k\<rparr>)"
      if "ge_reads g \<le> k" "\<And>x. r = Inr x \<Longrightarrow> r0 = Inr x \<and> ge_lastMs g \<le> hl_leaseUntilMs h" for k
      unfolding mint_moves_def using h k1 st that by blast
    show ?thesis
    proof (cases r0)
      case (Inl e)
      then show ?thesis using moved [of "ge_reads g"] run assms by simp
    next
      case (Inr y)
      show ?thesis
      proof (cases late)
        case True
        then have "not_held opts rp3 = (r, rp')" using run assms Inr by simp
        then obtain k e where "rp' = rp3\<lparr>rp_reads := k\<rparr>" "rp_reads rp3 \<le> k" "r = Inl e" using not_held_cases by blast
        then show ?thesis using moved [of k] k3 by simp
      next
        case False
        then have "r = Inr y" "rp' = rp3" using run assms Inr by simp_all
        then show ?thesis using moved [of k3] k3 False Inr by simp
      qed
    qed
  qed
qed

lemma covered_mono: "covered ks n g v \<Longrightarrow> w \<le> v \<Longrightarrow> covered ks n g w"
  by (auto simp: covered_def split: option.splits if_splits)

lemma tenure_ok_advances:
  assumes "tenure_ok ks S t" "tn_node u = tn_node t" "tn_gen u = tn_gen t" "tn_limit u = tn_limit t" "tn_low t \<le> tn_low u"
    and "\<And>p. tn_pos t = Some p \<Longrightarrow> \<exists>q. tn_pos u = Some q \<and> at_most p q"
  shows "tenure_ok ks S u"
  unfolding tenure_ok_def assms(2-4)
proof (intro conjI allI impI)
  show "covered ks (tn_node t) (tn_gen t) (tn_limit t)" using assms(1) by (simp add: tenure_ok_def)
next
  fix g ts sq assume x: "(tn_node t, g, ts, sq) \<in> S"
  show "ts < tn_low u" if "g < tn_gen t" using assms(1,5) x that by (force simp: tenure_ok_def)
  show "tn_limit t < ts" if "tn_gen t < g" using assms(1) x that by (force simp: tenure_ok_def)
  show "ts \<le> tn_limit t" if "g = tn_gen t" using assms(1) x that by (simp add: tenure_ok_def)
  show "\<exists>p. tn_pos u = Some p \<and> at_most (ts, sq) p" if "g = tn_gen t"
  proof -
    have "\<exists>p. tn_pos t = Some p \<and> at_most (ts, sq) p" using assms(1) x that unfolding tenure_ok_def by blast
    then show ?thesis using assms(6) at_most_trans by blast
  qed
qed

lemma solo_insert:
  assumes s: "solo ks S rp"
    and t: "\<And>t. tenure_of rp = Some t \<Longrightarrow> tn_node t = n \<Longrightarrow> (g < tn_gen t \<longrightarrow> ts < tn_low t) \<and> (tn_gen t < g \<longrightarrow> tn_limit t < ts) \<and>
        (g = tn_gen t \<longrightarrow> (\<exists>p. tn_pos t = Some p \<and> at_most (ts, sq) p) \<and> ts \<le> tn_limit t)"
    and r: "\<And>l. releasing rp \<noteq> Some (n, g, l)" and o: "(n, g) \<notin> owned_under ks (rp_pendingLease rp)"
  shows "solo ks (insert (n, g, ts, sq) S) rp"
proof -
  have "tenure_ok ks (insert (n, g, ts, sq) S) u" if u: "tenure_of rp = Some u" for u
  proof -
    have "tenure_ok ks S u" using s u by (simp add: solo_def)
    then show ?thesis using t [OF u] unfolding tenure_ok_def by blast
  qed
  then show ?thesis using s r o unfolding solo_def by blast
qed

lemma moved_generator:
  assumes h: "held_ok rp h" and st: "gen_stamped (rp_clock rp) ((hl_generator h)\<lparr>ge_reads := k0\<rparr>) r0 g"
    and k: "rp_reads rp \<le> k0" "ge_reads g \<le> k"
  shows "held_ok (rp\<lparr>rp_held := Some (h\<lparr>hl_generator := g\<rparr>), rp_reads := k\<rparr>) (h\<lparr>hl_generator := g\<rparr>)"
    and "ge_originWallMs g + ge_liftMs g = ge_originWallMs (hl_generator h) + ge_liftMs (hl_generator h)"
    and "ge_nodeId g = hl_nodeId h"
    and "at_most (ge_lastMs (hl_generator h), ge_sequence (hl_generator h)) (ge_lastMs g, ge_sequence g)"
proof -
  let ?g0 = "(hl_generator h)\<lparr>ge_reads := k0\<rparr>"
  have fl: "gen_floored (rp_clock rp) (ge_originWallMs (hl_generator h) + ge_liftMs (hl_generator h) - 1) ?g0"
    using h k by (simp add: held_ok_def gen_floored_def gen_sound_def)
  have same: "gen_same ?g0 g" using st by (simp add: gen_stamped_def)
  then show o: "ge_originWallMs g + ge_liftMs g = ge_originWallMs (hl_generator h) + ge_liftMs (hl_generator h)"
    and n: "ge_nodeId g = hl_nodeId h" using h by (simp_all add: gen_same_def held_ok_def)
  show "held_ok (rp\<lparr>rp_held := Some (h\<lparr>hl_generator := g\<rparr>), rp_reads := k\<rparr>) (h\<lparr>hl_generator := g\<rparr>)"
    using h floored_stamped [OF fl st] n o k by (simp add: held_ok_def)
  show "at_most (ge_lastMs (hl_generator h), ge_sequence (hl_generator h)) (ge_lastMs g, ge_sequence g)"
    using stamped_before [OF st] by (auto simp: gen_still_def gen_before_def at_most_def)
qed

lemma reads_step:
  assumes s: "ids_inv s" and k: "rp_reads (sy_replica s i) \<le> k"
  shows "ids_inv (with_replica i ((sy_replica s i)\<lparr>rp_reads := k\<rparr>) s)"
proof (rule quiet_step [OF s])
  show "held_ok ((sy_replica s i)\<lparr>rp_reads := k\<rparr>) h" if "rp_held ((sy_replica s i)\<lparr>rp_reads := k\<rparr>) = Some h" for h
    using held_replica [OF s, of i h] that k by (simp add: held_ok_def)
  show "call_ok (sy_keys s) ((sy_replica s i)\<lparr>rp_reads := k\<rparr>)"
    using replica_facts(2) [OF s, of i] by (subst call_ok_same) simp_all
  show "tenure_of ((sy_replica s i)\<lparr>rp_reads := k\<rparr>) = None \<or>
      tenure_of ((sy_replica s i)\<lparr>rp_reads := k\<rparr>) = tenure_of (sy_replica s i)" by (rule disjI2, rule shape_same) simp_all
  show "releasing ((sy_replica s i)\<lparr>rp_reads := k\<rparr>) = None \<or>
      releasing ((sy_replica s i)\<lparr>rp_reads := k\<rparr>) = releasing (sy_replica s i)" by (rule disjI2, rule shape_same) simp_all
qed (use replica_facts(1) [OF s, of i] in simp_all)

lemma call_ok_moved_generator:
  assumes "call_ok ks rp" "rp_held rp = Some h"
  shows "call_ok ks (rp\<lparr>rp_held := Some (h\<lparr>hl_generator := g\<rparr>), rp_reads := k\<rparr>)"
  using assms by (auto simp: call_ok_def split: option.splits lease_call.splits)

lemma held_idle:
  assumes "call_ok ks rp" "rp_held rp = Some h"
  shows "releasing rp = None" "\<exists>c. hl_leaseUntilMs h \<le> c \<and> tenure_of rp = Some (held_tenure h c)"
  using assms by (auto simp: releasing_def tenure_of_def call_ok_def split: option.splits lease_call.splits)

lemma moved_step:
  assumes s: "ids_inv s" and h: "rp_held (sy_replica s i) = Some h"
    and st: "gen_stamped (rp_clock (sy_replica s i)) ((hl_generator h)\<lparr>ge_reads := k0\<rparr>) r0 g"
    and k: "rp_reads (sy_replica s i) \<le> k0" "ge_reads g \<le> k"
  shows "ids_inv (with_replica i ((sy_replica s i)\<lparr>rp_held := Some (h\<lparr>hl_generator := g\<rparr>), rp_reads := k\<rparr>) s)"
proof -
  let ?rp = "sy_replica s i" and ?h = "h\<lparr>hl_generator := g\<rparr>" and ?ks = "sy_keys s" and ?S = "stamps (sy_minted s)"
  let ?rp' = "?rp\<lparr>rp_held := Some ?h, rp_reads := k\<rparr>"
  note so = inv_parts(3) [OF s, of i] and hk = held_replica [OF s h] and m = moved_generator [OF held_replica [OF s h] st k]
  have c: "call_ok ?ks ?rp" using replica_facts [OF s] by blast
  have c': "call_ok ?ks ?rp'" using call_ok_moved_generator [OF c h] .
  obtain v where t: "tenure_of ?rp = Some (held_tenure h v)" using held_idle(2) [OF c h] by blast
  have t': "tenure_of ?rp' = Some (held_tenure ?h v)"
    using t h by (auto simp: tenure_of_def held_tenure_def split: option.splits lease_call.splits)
  have "tenure_ok ?ks ?S (held_tenure h v)" using so t by (simp add: solo_def)
  then have ok: "tenure_ok ?ks ?S (held_tenure ?h v)"
    by (rule tenure_ok_advances) (use m in \<open>auto simp: held_tenure_def\<close>)
  have p: "rp_pendingLease ?rp = None" using hk by (simp add: held_ok_def)
  have r: "releasing ?rp = None" "releasing ?rp' = None" using held_idle(1) [OF c h] held_idle(1) [OF c'] by simp_all
  have "solo ?ks ?S ?rp'"
    using so t' ok p r c' m(1) by (simp add: solo_def)
  moreover have "rights ?ks ?rp' \<subseteq> rights ?ks ?rp" using t t' r p by (auto simp: rights_def held_tenure_def)
  ultimately show ?thesis
    using t t' m p by (intro local_step [OF s]) (auto simp: held_tenure_def)
qed

lemma stamps_Cons:
  "id_decode x = Inr \<lparr>sf_tsMs = ts, sf_nodeId = n, sf_sequence = sq\<rparr> \<Longrightarrow> stamps ((n, g, x) # m) = insert (n, g, ts, sq) (stamps m)"
  by (auto simp: stamps_def)

text \<open>The id just stamped is new.\<close>

lemma minted_new:
  assumes s: "ids_inv s" and h: "rp_held (sy_replica s i) = Some h" and x: "gen_id_of (hl_generator h) x"
    and le: "ge_lastMs (hl_generator h) \<le> hl_leaseUntilMs h"
    and new: "(hl_nodeId h, hl_generation h, ge_lastMs (hl_generator h), ge_sequence (hl_generator h)) \<notin> stamps (sy_minted s)"
  shows "ids_inv (s\<lparr>sy_minted := (hl_nodeId h, hl_generation h, x) # sy_minted s\<rparr>)"
proof -
  let ?rp = "sy_replica s i" and ?ks = "sy_keys s" and ?S = "stamps (sy_minted s)"
  let ?n = "hl_nodeId h" and ?g = "hl_generation h" and ?ts = "ge_lastMs (hl_generator h)" and ?sq = "ge_sequence (hl_generator h)"
  note so = inv_parts(3) [OF s] and hk = held_replica [OF s h]
  have c: "call_ok ?ks ?rp" using replica_facts [OF s] by blast
  obtain v where v: "hl_leaseUntilMs h \<le> v" "tenure_of ?rp = Some (held_tenure h v)" using held_idle(2) [OF c h] by blast
  have dec: "id_decode x = Inr \<lparr>sf_tsMs = ?ts, sf_nodeId = ?n, sf_sequence = ?sq\<rparr>"
    using x hk decode_encode by (simp add: gen_id_of_def held_ok_def)
  have low: "ge_originWallMs (hl_generator h) + ge_liftMs (hl_generator h) \<le> ?ts"
    using hk stamped_ts [OF x] by (auto simp: held_ok_def gen_floored_def)
  have tok: "tenure_ok ?ks ?S (held_tenure h v)" using so [of i] v by (simp add: solo_def)
  have S: "stamps ((?n, ?g, x) # sy_minted s) = insert (?n, ?g, ?ts, ?sq) ?S" using stamps_Cons [OF dec] .
  have fresh: "x \<noteq> y" if y: "(n, g, y) \<in> set (sy_minted s)" for n g y
  proof
    assume xy: "x = y"
    then have "n = ?n" using inv_parts(2) [OF s] y dec by (force simp: ids_ok_def)
    then have st: "(?n, g, ?ts, ?sq) \<in> ?S" using y dec xy by (auto simp: stamps_def)
    then show False using tok low le v(1) new by (cases g ?g rule: linorder_cases) (force simp: tenure_ok_def held_tenure_def)+
  qed
  have cov: "covered ?ks ?n ?g ?ts" using tok le v(1) covered_mono by (force simp: tenure_ok_def held_tenure_def)
  have me: "(?n, ?g) \<in> rights ?ks ?rp" using v by (simp add: rights_def held_tenure_def)
  have "solo ?ks (insert (?n, ?g, ?ts, ?sq) ?S) (sy_replica s j)" for j
  proof (cases "j = i")
    case True
    then show ?thesis
      using held_idle(1) [OF c h] hk v le by (intro solo_insert [OF so]) (auto simp: held_tenure_def held_ok_def owned_under_def)
  next
    case False
    then have a: "apart ?ks ?rp (sy_replica s j)" using inv_parts(4) [OF s, of i j] by simp
    then have no: "(?n, ?g) \<notin> rights ?ks (sy_replica s j)" using me unfolding apart_def by blast
    show ?thesis
    proof (rule solo_insert [OF so])
      fix u assume u: "tenure_of (sy_replica s j) = Some u" "tn_node u = ?n"
      then have "turns (held_tenure h v) u" using a v unfolding apart_def by blast
      then show "(?g < tn_gen u \<longrightarrow> ?ts < tn_low u) \<and> (tn_gen u < ?g \<longrightarrow> tn_limit u < ?ts) \<and>
          (?g = tn_gen u \<longrightarrow> (\<exists>p. tn_pos u = Some p \<and> at_most (?ts, ?sq) p) \<and> ?ts \<le> tn_limit u)"
        using u(2) le v(1) low by (auto simp: turns_def held_tenure_def)
    qed (use no in \<open>auto simp: rights_def\<close>)
  qed
  moreover have "ids_ok ?ks ((?n, ?g, x) # sy_minted s)"
  proof -
    have "x \<notin> set (map (\<lambda>(n, g, x). x) (sy_minted s))" using fresh by auto
    then show ?thesis using inv_parts(2) [OF s] dec cov unfolding ids_ok_def S by auto
  qed
  ultimately show ?thesis using s unfolding ids_inv_def by (simp add: S)
qed

lemma mint_step:
  assumes s: "ids_inv s" and h: "rp_held (sy_replica s i) = Some h" and run: "lease_generate opts (sy_replica s i) = (Inr x, rp)"
  shows "ids_inv ((with_replica i rp s)\<lparr>sy_minted := (hl_nodeId h, hl_generation h, x) # sy_minted s\<rparr>)"
proof -
  let ?rp = "sy_replica s i"
  have "mint_moves ?rp (Inr x) rp" using generate_cases [OF run] by blast
  then obtain g k0 k where k: "rp_reads ?rp \<le> k0" "ge_reads g \<le> k"
      and st: "gen_stamped (rp_clock ?rp) ((hl_generator h)\<lparr>ge_reads := k0\<rparr>) (Inr x) g"
      and rp: "rp = ?rp\<lparr>rp_held := Some (h\<lparr>hl_generator := g\<rparr>), rp_reads := k\<rparr>" and le: "ge_lastMs g \<le> hl_leaseUntilMs h"
    using h unfolding mint_moves_def by auto
  let ?s = "with_replica i rp s" and ?h = "h\<lparr>hl_generator := g\<rparr>"
  have i: "ids_inv ?s" using moved_step [OF s h st k] rp by simp
  have b: "gen_before ((hl_generator h)\<lparr>ge_reads := k0\<rparr>) g" "gen_id_of g x" using stamped_before [OF st] by simp_all
  have c: "call_ok (sy_keys s) ?rp" using replica_facts [OF s] by blast
  obtain v where "tenure_of ?rp = Some (held_tenure h v)" using held_idle(2) [OF c h] by blast
  then have "tenure_ok (sy_keys s) (stamps (sy_minted s)) (held_tenure h v)" using inv_parts(3) [OF s, of i] by (simp add: solo_def)
  then have "at_most (ts, sq) (ge_lastMs (hl_generator h), ge_sequence (hl_generator h))"
    if "(hl_nodeId h, hl_generation h, ts, sq) \<in> stamps (sy_minted s)" for ts sq
    using that by (auto simp: tenure_ok_def held_tenure_def)
  then have "(hl_nodeId h, hl_generation h, ge_lastMs g, ge_sequence g) \<notin> stamps (sy_minted s)"
    using b(1) by (fastforce simp: gen_before_def at_most_def)
  then show ?thesis
    using minted_new [OF i, of i ?h x] b(2) le rp by (simp add: with_replica_def)
qed

text \<open>A grant: its tenure becomes a held lease, or is released.\<close>

lemma grant_step:
  assumes s: "ids_inv s" and c: "rp_call (sy_replica s i) = Some (Acq_granted anchor grant)"
  shows "ids_inv (with_replica i (lease_granted opts anchor grant (sy_replica s i)) s)"
proof -
  let ?rp = "sy_replica s i" and ?ks = "sy_keys s" and ?S = "stamps (sy_minted s)"
  note so = inv_parts(3) [OF s, of i]
  have none: "rp_held ?rp = None" "rp_pendingLease ?rp = None" using replica_facts(2) [OF s, of i] c by (simp_all add: call_ok_def)
  have t: "tenure_of ?rp = Some (grant_tenure grant)" using none c by (simp add: tenure_of_def)
  then have tok: "tenure_ok ?ks ?S (grant_tenure grant)" using so by (simp add: solo_def)
  then have mine: "(lg_nodeId grant, lg_generation grant, ts, sq) \<notin> ?S" for ts sq
    by (auto simp: tenure_ok_def grant_tenure_def)
  have known: "lg_generation grant \<le> ks_revision ?ks" using tok by (simp add: tenure_ok_def covered_def grant_tenure_def)
  define floor where "floor = max (or_zero (lg_floorMs grant)) (rp_retiredLastMs ?rp)"
  define over where "over = (case lg_floorMs grant of None \<Rightarrow> False | Some f \<Rightarrow> lo_maxFloorAheadMs opts < f - lg_nowMs grant)"
  show ?thesis
  proof (cases over)
    case True
    let ?rp' = "?rp\<lparr>rp_call := Some (Rel_read (lg_nodeId grant) (lg_generation grant) None)\<rparr>"
    have res: "lease_granted opts anchor grant ?rp = ?rp'"
      using True by (simp add: lease_granted_def over_def)
    have "solo ?ks ?S ?rp'"
      using replica_facts(1) [OF s, of i] none mine known by (auto simp: solo_def shape_simps owned_under_def)
    moreover have "rights ?ks ?rp' \<subseteq> rights ?ks ?rp"
      using t none by (auto simp: rights_def tenure_of_def releasing_def owned_under_def grant_tenure_def)
    moreover have "tenure_of ?rp' = None" using none by (simp add: tenure_of_def)
    ultimately show ?thesis unfolding res by (intro local_step [OF s]) simp_all
  next
    case False
    show ?thesis
    proof (cases "new_generator (rp_clock ?rp) (lg_nodeId grant) (Some floor) (rp_reads ?rp)")
      case (Inl e)
      then have "lease_granted opts anchor grant ?rp = ?rp\<lparr>rp_call := None\<rparr>"
        using False by (simp add: lease_granted_def over_def floor_def)
      then show ?thesis
        using none replica_facts(1) [OF s, of i] by (intro quiet_step [OF s]) (simp_all add: shape_simps)
    next
      case (Inr g)
      define h where "h = \<lparr>hl_nodeId = lg_nodeId grant, hl_generation = lg_generation grant,
        hl_generator = g, hl_anchor = anchor, hl_leaseUntilMs = lg_leaseUntilMs grant\<rparr>"
      let ?rp' = "?rp\<lparr>rp_call := None, rp_held := Some h, rp_phase := Ph_held, rp_reads := ge_reads g\<rparr>"
      have res: "lease_granted opts anchor grant ?rp = ?rp'"
        using False Inr by (simp add: lease_granted_def over_def floor_def h_def)
      have "clock_runs (rp_clock ?rp) (rp_reads ?rp)" using replica_facts(1) [OF s, of i] by (simp add: clock_runs_def)
      from new_floored [OF Inr this] have g: "gen_floored (rp_clock ?rp) floor g" "ge_nodeId g = lg_nodeId grant" "ge_lastMs g = 0"
        by simp_all
      then have ho: "held_ok ?rp' h" using none by (simp add: held_ok_def h_def gen_floored_def)
      have t': "tenure_of ?rp' = Some (held_tenure h (lg_leaseUntilMs grant))" by (simp add: tenure_of_def h_def)
      have low: "tn_low (grant_tenure grant) \<le> tn_low (held_tenure h (lg_leaseUntilMs grant))"
        using g(1) by (simp add: gen_floored_def floor_def held_tenure_def grant_tenure_def h_def)
      have "tenure_ok ?ks ?S (held_tenure h (lg_leaseUntilMs grant))"
        using tok by (rule tenure_ok_advances [OF _ _ _ _ low]) (simp_all add: held_tenure_def grant_tenure_def h_def)
      then have "solo ?ks ?S ?rp'"
        using t' ho replica_facts(1) [OF s, of i] none by (simp add: solo_def releasing_def owned_under_def call_ok_def)
      moreover have "rights ?ks ?rp' \<subseteq> rights ?ks ?rp"
        using t t' none by (auto simp: rights_def releasing_def owned_under_def grant_tenure_def held_tenure_def h_def)
      ultimately show ?thesis
        unfolding res using t t' low none
        by (intro local_step [OF s]) (auto simp: held_tenure_def grant_tenure_def h_def)
    qed
  qed
qed

lemma release_step:
  assumes s: "ids_inv s"
  shows "ids_inv (with_replica i (lease_release (sy_replica s i)) s)"
proof (cases "rp_call (sy_replica s i)")
  case (Some c)
  then have "lease_release (sy_replica s i) = (sy_replica s i)\<lparr>rp_draining := True\<rparr>" by (simp add: lease_release_def)
  then show ?thesis using drain_step [OF s] by simp
next
  case None
  let ?rp = "sy_replica s i" and ?ks = "sy_keys s" and ?S = "stamps (sy_minted s)"
  show ?thesis
  proof (cases "rp_held ?rp")
    case no: None
    then have "lease_release ?rp = retire Ph_released (?rp\<lparr>rp_draining := True\<rparr>)" using None by (simp add: lease_release_def)
    then show ?thesis
      using None no replica_facts(1) [OF s, of i] by (intro quiet_step [OF s]) (simp_all add: retire_def shape_simps)
  next
    case (Some h)
    define last where "last = ge_lastMs (hl_generator h)"
    define rp' where "rp' = (retire Ph_released (?rp\<lparr>rp_draining := True\<rparr>))\<lparr>rp_call := Some (Rel_read (hl_nodeId h) (hl_generation h)
        (if last = 0 then None else Some last))\<rparr>"
    have res: "lease_release ?rp = rp'"
      using None Some by (simp add: lease_release_def lastTimestampMs_def rp'_def last_def)
    have t: "tenure_of ?rp = Some (held_tenure h (hl_leaseUntilMs h))" using None Some by (simp add: tenure_of_def)
    then have tok: "tenure_ok ?ks ?S (held_tenure h (hl_leaseUntilMs h))" using inv_parts(3) [OF s, of i] by (simp add: solo_def)
    then have st: "ts \<le> last" if "(hl_nodeId h, hl_generation h, ts, sq) \<in> ?S" for ts sq
      using that by (fastforce simp: tenure_ok_def held_tenure_def last_def at_most_def)
    have known: "hl_generation h \<le> ks_revision ?ks" using tok by (simp add: tenure_ok_def covered_def held_tenure_def)
    have f: "rp_held rp' = None" "rp_pendingLease rp' = None" "rp_clock rp' = rp_clock ?rp"
      "rp_call rp' = Some (Rel_read (hl_nodeId h) (hl_generation h) (if last = 0 then None else Some last))"
      using held_replica [OF s Some] by (simp_all add: rp'_def retire_def held_ok_def)
    then have r: "releasing rp' = Some (hl_nodeId h, hl_generation h, last)" "tenure_of rp' = None"
      by (simp_all add: releasing_def tenure_of_def)
    have "solo ?ks ?S rp'"
      using f r st known replica_facts(1) [OF s, of i] by (auto simp: solo_def owned_under_def call_ok_def)
    moreover have "rights ?ks rp' \<subseteq> rights ?ks ?rp"
      using t f r by (auto simp: rights_def owned_under_def held_tenure_def)
    ultimately show ?thesis unfolding res using f r by (intro local_step [OF s]) simp_all
  qed
qed


section \<open>The store's round trips\<close>

text \<open>A transaction of a replica that promises nothing new to it.\<close>

lemma store_step:
  assumes s: "ids_inv s" and sp: "spares (sy_keys s) ks' W"
    and w: "\<And>n g w. W = Some (n, g, w) \<Longrightarrow> (n, g) \<in> rights (sy_keys s) (sy_replica s i) \<and>
        (\<forall>ts sq. (n, g, ts, sq) \<in> stamps (sy_minted s) \<longrightarrow> ts \<le> w)"
    and ow: "\<And>n ow. en_owner (ks_node ks' n) = Some ow \<Longrightarrow> en_owner (ks_node (sy_keys s) n) = Some ow"
    and so: "solo (sy_keys s) (stamps (sy_minted s)) rp'" and ri: "rights (sy_keys s) rp' \<subseteq> rights (sy_keys s) (sy_replica s i)"
    and te: "\<And>t. tenure_of rp' = Some t \<Longrightarrow> tenure_of (sy_replica s i) = Some t \<and> (\<forall>w. W = Some (tn_node t, tn_gen t, w) \<longrightarrow> tn_limit t \<le> w)"
    and pe: "rp_pendingLease rp' = None \<or> rp_pendingLease rp' = rp_pendingLease (sy_replica s i)"
  shows "ids_inv (with_round_trip i (rp', ks') s)"
proof -
  have o: "owned_under ks' p \<subseteq> owned_under (sy_keys s) p" for p using ow by (auto simp: owned_under_def)
  show ?thesis
  proof (rule replica_step [OF s sp w])
    show "solo ks' (stamps (sy_minted s)) rp'" using solo_spared [OF so sp _ o] te by blast
    show "rights ks' rp' \<subseteq> rights (sy_keys s) (sy_replica s i) \<union> {(n, g). ks_revision (sy_keys s) < g}"
      using rights_owned [OF o] ri by blast
    show "turns t u" if "tenure_of rp' = Some t" "\<And>t'. tenure_of (sy_replica s i) = Some t' \<Longrightarrow> turns t' u" for t u
      using te that by blast
  qed (use pe ow in auto)
qed

lemma ownedBy_Some:
  assumes "ownedBy l ks = Some (n, e)"
  shows "e = ks_node ks n" "\<exists>ow. en_owner e = Some ow \<and> ow_lease ow = l"
proof -
  obtain p where "find_where (\<lambda>(n, e). case en_owner e of None \<Rightarrow> False | Some ow \<Rightarrow> ow_lease ow = l)
     (map (\<lambda>n. (n, ks_node ks n)) leased_nodes) = Some p" "p = (n, e)" using assms by (simp add: ownedBy_def)
  from find_where_Some [OF this(1)] this(2) show "e = ks_node ks n" "\<exists>ow. en_owner e = Some ow \<and> ow_lease ow = l"
    by (auto split: option.splits)
qed

lemma acquire_read_step:
  assumes s: "ids_inv s" and c: "rp_call (sy_replica s i) = Some (Acq_read anchor)"
  shows "ids_inv (with_round_trip i (acquire_read anchor (sy_replica s i) (sy_keys s)) s)"
proof -
  let ?rp = "sy_replica s i" and ?ks = "sy_keys s" and ?S = "stamps (sy_minted s)"
  define alive where "alive = (case rp_pendingLease ?rp of None \<Rightarrow> False | Some l \<Rightarrow> l \<in> set (ks_leases ?ks))"
  define l where "l = (if alive then the (rp_pendingLease ?rp) else ks_nextLease ?ks)"
  define ks1 where "ks1 = (if alive then ?ks else ?ks\<lparr>ks_leases := l # ks_leases ?ks, ks_nextLease := ks_nextLease ?ks + 1\<rparr>)"
  define call where "call = (if \<not> ks_initialized ks1 then None else
     case ownedBy l ks1 of Some (n, e) \<Rightarrow> Some (Acq_readopt anchor n e l) | None \<Rightarrow> Some (Acq_claim anchor l (freeOldestFirst ks1)))"
  have res: "acquire_read anchor ?rp ?ks = (?rp\<lparr>rp_pendingLease := Some l, rp_call := call\<rparr>, ks1)"
    unfolding acquire_read_def Let_def alive_def [symmetric] l_def [symmetric] ks1_def [symmetric]
    by (simp add: call_def split: option.splits)
  have call: "call = None \<or> (\<exists>n e. call = Some (Acq_readopt anchor n e l) \<and> ownedBy l ks1 = Some (n, e)) \<or>
      call = Some (Acq_claim anchor l (freeOldestFirst ks1))"
    by (auto simp: call_def split: option.splits)
  let ?rp' = "?rp\<lparr>rp_pendingLease := Some l, rp_call := call\<rparr>"
  have held: "rp_held ?rp = None" using replica_facts(2) [OF s, of i] c by (simp add: call_ok_def)
  have old: "rp_pendingLease ?rp = Some l" if alive using that by (auto simp: alive_def l_def split: option.splits)
  have sp: "spares ?ks ks1 None"
    by (rule same_nodes_spares [OF inv_parts(1) [OF s]])
      (use inv_parts(1) [OF s] in \<open>auto simp: ks1_def l_def keys_ok_def split: if_splits\<close>)
  have ok1: "keys_ok ks1" using sp by (simp add: spares_def)
  have n1: "ks_node ks1 = ks_node ?ks" by (simp add: ks1_def)
  have call1: "call_ok ks1 ?rp'"
    using call held ownedBy_Some [of l ks1] current_snap [OF ok1] by (auto simp: call_ok_def freeOldestFirst_def)
  have owned: "owned_under ks1 (Some l) \<subseteq> owned_under ?ks (rp_pendingLease ?rp)"
  proof (cases alive)
    case True
    then show ?thesis using old n1 by (simp add: owned_under_def)
  next
    case False
    have "ow_lease ow \<noteq> l" if "en_owner (ks_node ?ks n) = Some ow" for n ow
    proof -
      have "ow_lease ow < ks_nextLease ?ks" using inv_parts(1) [OF s] that by (simp add: keys_ok_def entry_ok_def)
      then show ?thesis using False by (simp add: l_def)
    qed
    then show ?thesis using n1 by (auto simp: owned_under_def)
  qed
  have t: "tenure_of ?rp' = None" "releasing ?rp' = None" using call held by (auto simp: tenure_of_def releasing_def)
  have less: "l < ks_nextLease ks1"
  proof (cases alive)
    case True
    then show ?thesis using inv_parts(3) [OF s, of i] old by (simp add: solo_def ks1_def)
  next
    case False
    then show ?thesis by (simp add: ks1_def l_def)
  qed
  have no: "(n, g, ts, sq) \<notin> ?S" if "(n, g) \<in> owned_under ks1 (Some l)" for n g ts sq
    using inv_parts(3) [OF s, of i] owned that unfolding solo_def by blast
  have "solo ks1 ?S ?rp'"
    using replica_facts(1) [OF s, of i] held call1 t less no by (simp add: solo_def)
  moreover have "rights ks1 ?rp' \<subseteq> rights ?ks ?rp" using t owned by (auto simp: rights_def)
  moreover have "rp_pendingLease ?rp = Some l \<or> ks_nextLease ?ks \<le> l" using old by (auto simp: l_def)
  ultimately show ?thesis
    unfolding res using t n1 by (intro replica_step [OF s sp]) auto
qed

text \<open>A claim either finds the node taken or its floor moved, or gives the node away.\<close>

definition claimed :: "string \<Rightarrow> nat \<Rightarrow> int \<Rightarrow> int \<Rightarrow> int \<Rightarrow> node_entry \<Rightarrow> keyspace \<Rightarrow> keyspace" where
  "claimed holder l ttl nowMs n e ks = put_entry n \<lparr>en_owner = Some \<lparr>ow_holder = holder, ow_claimFloorMs = floorOf e,
     ow_createRevision = ks_revision ks + 1, ow_lease = l\<rparr>,
     en_floor = Some (max nowMs (or_zero (floorOf e)) + ttl, ks_revision ks + 1)\<rparr> ks"

definition claim_grant :: "int \<Rightarrow> int \<Rightarrow> int \<Rightarrow> node_entry \<Rightarrow> keyspace \<Rightarrow> lease_grant" where
  "claim_grant ttl nowMs n e ks = \<lparr>lg_nodeId = n, lg_generation = ks_revision ks + 1, lg_floorMs = floorOf e,
     lg_leaseUntilMs = max nowMs (or_zero (floorOf e)) + ttl, lg_nowMs = nowMs\<rparr>"

lemma claim_cases:
  assumes e: "snap_ok ks n e"
  obtains "claim_txn holder l ttl nowMs (n, e) ks = (None, ks)"
  | "en_owner (ks_node ks n) = None" "floorOf (ks_node ks n) = floorOf e"
    "claim_txn holder l ttl nowMs (n, e) ks = (Some (claim_grant ttl nowMs n e ks), claimed holder l ttl nowMs n e ks)"
proof (cases "en_owner (ks_node ks n) = None \<and> floorRevision (ks_node ks n) = floorRevision e")
  case True
  then have "floorOf (ks_node ks n) = floorOf e" using e by (simp add: snap_ok_def)
  then show ?thesis using True that(2) by (simp add: claim_txn_def Let_def claimed_def claim_grant_def)
next
  case False
  then show ?thesis using that(1) by (auto simp: claim_txn_def Let_def)
qed

lemma claimed_owner:
  "en_owner (ks_node (claimed holder l ttl nowMs n e ks) m) = (if m = n then Some \<lparr>ow_holder = holder,
     ow_claimFloorMs = floorOf e, ow_createRevision = ks_revision ks + 1, ow_lease = l\<rparr> else en_owner (ks_node ks m))"
  by (simp add: claimed_def put_entry_def)

text \<open>What a replica may be left with after a claim took effect: nothing, or the grant.\<close>

lemma claimed_step:
  assumes s: "ids_inv s" and c: "rp_call (sy_replica s i) = Some (Acq_claim anchor l free)" and e: "(n, e) \<in> set free"
    and ttl: "0 < ttl" and free: "en_owner (ks_node (sy_keys s) n) = None" "floorOf (ks_node (sy_keys s) n) = floorOf e"
    and run: "claim_txn holder l ttl nowMs (n, e) (sy_keys s) = (Some (claim_grant ttl nowMs n e (sy_keys s)), ks')"
    and rp': "rp' = (sy_replica s i)\<lparr>rp_call := None\<rparr> \<or>
      rp' = (sy_replica s i)\<lparr>rp_call := Some (Acq_granted anchor (claim_grant ttl nowMs n e (sy_keys s))), rp_pendingLease := None\<rparr>"
  shows "ids_inv (with_round_trip i (rp', ks') s)"
proof -
  let ?rp = "sy_replica s i" and ?ks = "sy_keys s" and ?S = "stamps (sy_minted s)" and ?g = "claim_grant ttl nowMs n e (sy_keys s)"
  let ?r = "ks_revision ?ks + 1" and ?ow = "\<lambda>n. en_owner (ks_node ks' n)"
  have k: "rp_held ?rp = None" "rp_pendingLease ?rp = Some l" "snap_ok ?ks n e"
    using replica_facts(2) [OF s, of i] c e by (auto simp: call_ok_def)
  have less: "l < ks_nextLease ?ks" using inv_parts(3) [OF s, of i] k by (simp add: solo_def)
  have sp: "spares ?ks ks' None" using claim_spares [OF inv_parts(1) [OF s] k(3) ttl less, of holder nowMs None] run by simp
  have ks': "ks' = claimed holder l ttl nowMs n e ?ks" using run claim_cases [OF k(3), of holder l ttl nowMs] by auto
  have stamp: "g \<le> ks_revision ?ks" "ts \<le> or_zero (floorOf e)" if "(n, g, ts, sq) \<in> ?S" for g ts sq
    using inv_parts(2) [OF s] that free by (auto simp: ids_ok_def covered_def)
  have own: "owned_under ks' (Some l) \<subseteq> insert (n, ?r) (owned_under ?ks (Some l))"
    unfolding ks' by (force simp: owned_under_def claimed_owner split: if_splits)
  have no: "(m, g, ts, sq) \<notin> ?S" if "(m, g) \<in> owned_under ks' (Some l)" for m g ts sq
  proof (cases "m = n \<and> g = ?r")
    case True
    then show ?thesis using stamp(1) by force
  next
    case False
    then have "(m, g) \<in> owned_under ?ks (rp_pendingLease ?rp)" using own that k by auto
    then show ?thesis using inv_parts(3) [OF s, of i] unfolding solo_def by blast
  qed
  have cov: "covered ks' n ?r (max nowMs (or_zero (floorOf e)) + ttl)"
    by (simp add: ks' covered_def claimed_def put_entry_def floorOf_def)
  have tok: "tenure_ok ks' ?S (grant_tenure ?g)"
    using cov stamp by (force simp: tenure_ok_def grant_tenure_def claim_grant_def)
  have ten: "tenure_of rp' = None \<or> tenure_of rp' = Some (grant_tenure ?g) \<and> rp_pendingLease rp' = None"
    and rel: "releasing rp' = None" and held: "rp_held rp' = None" and clk: "rp_clock rp' = rp_clock ?rp"
    and pen: "rp_pendingLease rp' = None \<or> rp_pendingLease rp' = Some l" and cok: "call_ok ks' rp'"
    using rp' k by (auto simp: shape_simps)
  have nl: "ks_nextLease ks' = ks_nextLease ?ks" by (simp add: ks' claimed_def put_entry_def)
  have "\<forall>m g ts sq. (m, g) \<in> owned_under ks' (rp_pendingLease rp') \<longrightarrow> (m, g, ts, sq) \<notin> ?S"
    using pen no by (auto simp: owned_under_def)
  then have so: "solo ks' ?S rp'"
    using replica_facts(1) [OF s, of i] ten rel held clk pen cok tok less nl by (auto simp: solo_def)
  show ?thesis
  proof (rule replica_step [OF s sp _ so])
    show "rights ks' rp' \<subseteq> rights ?ks ?rp \<union> {(n, g). ks_revision ?ks < g}"
    proof (rule subrelI)
      fix m g assume "(m, g) \<in> rights ks' rp'"
      then have "(m, g) \<in> insert (n, ?r) (owned_under ?ks (Some l))"
      proof -
        consider "tenure_of rp' = Some (grant_tenure ?g)" "(m, g) = (n, ?r)" | "(m, g) \<in> owned_under ks' (rp_pendingLease rp')"
          using \<open>(m, g) \<in> rights ks' rp'\<close> ten rel by (auto simp: rights_def grant_tenure_def claim_grant_def)
        then show ?thesis
        proof cases
          case 2
          then have "(m, g) \<in> owned_under ks' (Some l)" using pen by (auto simp: owned_under_def)
          then show ?thesis using own by blast
        qed simp
      qed
      then show "(m, g) \<in> rights ?ks ?rp \<union> {(n, g). ks_revision ?ks < g}" using k by (auto simp: rights_def)
    qed
    show "rp_pendingLease ?rp = Some p \<or> ks_nextLease ?ks \<le> p" if "rp_pendingLease rp' = Some p" for p
      using that pen k by auto
    show "en_owner (ks_node ?ks m) = Some ow \<or> rp_pendingLease ?rp = Some (ow_lease ow)" if "?ow m = Some ow" for m ow
      using that k by (auto simp: ks' claimed_owner split: if_splits)
    show "turns t u" if t: "tenure_of rp' = Some t" and u: "covered ?ks (tn_node u) (tn_gen u) (tn_limit u)" for t u
    proof -
      have "t = grant_tenure ?g" using ten t by auto
      moreover have "tn_gen u \<le> ks_revision ?ks \<and> tn_limit u \<le> or_zero (floorOf e)" if "tn_node u = n"
        using u that free by (auto simp: covered_def)
      ultimately show ?thesis by (auto simp: turns_def grant_tenure_def claim_grant_def)
    qed
  qed auto
qed

lemma acquire_claim_step:
  assumes s: "ids_inv s" and c: "rp_call (sy_replica s i) = Some (Acq_claim anchor l free)" and k: "k < length free"
    and ttl: "0 < lo_ttlMs opts"
  shows "ids_inv (with_round_trip i (acquire_claim opts nowMs anchor l free k (sy_replica s i) (sy_keys s)) s)"
proof -
  let ?rp = "sy_replica s i" and ?ks = "sy_keys s"
  have held: "rp_held ?rp = None" "rp_pendingLease ?rp = Some l" and sn: "\<And>n e. (n, e) \<in> set free \<Longrightarrow> snap_ok ?ks n e"
    using replica_facts(2) [OF s, of i] c by (auto simp: call_ok_def)
  obtain n e where ne: "free ! k = (n, e)" by force
  then have mem: "(n, e) \<in> set free" using k by (metis nth_mem)
  have quiet: "ids_inv (with_round_trip i (rp', ?ks) s)" if "ids_inv (with_replica i rp' s)" for rp'
    using that by (simp add: with_round_trip_def with_replica_def)
  show ?thesis
  proof (cases "l \<in> set (ks_leases ?ks)")
    case False
    then show ?thesis
      using held replica_facts(1) [OF s, of i]
      by (simp add: acquire_claim_def) (intro quiet quiet_step [OF s], auto simp: shape_simps)
  next
    case True
    show ?thesis
    proof (cases rule: claim_cases [OF sn [OF mem], of "lo_holder opts" l "lo_ttlMs opts" nowMs])
      case 1
      have "\<forall>(m, d) \<in> set (take k free @ drop (Suc k) free). snap_ok ?ks m d"
        using sn by (auto dest: in_set_takeD in_set_dropD)
      then have "ids_inv (with_replica i (?rp\<lparr>rp_call := Some (Acq_claim anchor l (take k free @ drop (Suc k) free))\<rparr>) s)"
        using held replica_facts(1) [OF s, of i]
        by (intro quiet_step [OF s]) (auto simp: shape_simps)
      then show ?thesis using True 1 ne quiet by (simp add: acquire_claim_def)
    next
      case 2
      show ?thesis
        using claimed_step [OF s c mem ttl 2(1,2) 2(3) disjI2 [OF refl]] True 2(3) ne by (simp add: acquire_claim_def)
    qed
  qed
qed

lemma claim_lands_step:
  assumes s: "ids_inv s" and c: "rp_call (sy_replica s i) = Some (Acq_claim anchor l free)" and k: "k < length free" and ttl: "0 < ttl"
  shows "ids_inv (with_round_trip i ((sy_replica s i)\<lparr>rp_call := None\<rparr>, snd (claim_txn holder l ttl nowMs (free ! k) (sy_keys s))) s)"
proof -
  obtain n e where ne: "free ! k = (n, e)" by force
  then have mem: "(n, e) \<in> set free" using k by (metis nth_mem)
  then have sn: "snap_ok (sy_keys s) n e" using replica_facts(2) [OF s, of i] c by (auto simp: call_ok_def)
  show ?thesis
  proof (cases rule: claim_cases [OF sn, of holder l ttl nowMs])
    case 1
    then show ?thesis using fail_step [OF s, of i] c ne by (simp add: remote_call_def with_round_trip_def with_replica_def)
  next
    case 2
    then show ?thesis using claimed_step [OF s c mem ttl 2(1,2) 2(3) disjI1 [OF refl]] ne by simp
  qed
qed

text \<open>Raising the ceiling: refused unless the generation still owns the node.\<close>

lemma raise_cases:
  obtains "raiseCeiling n e g st ttl ks = (None, ks)"
  | "isHeldBy (ks_node ks n) g"
    "raiseCeiling n e g st ttl ks = (Some (max (or_zero (floorOf e)) (st + ttl)),
       put_entry n ((ks_node ks n)\<lparr>en_floor := Some (max (or_zero (floorOf e)) (st + ttl), ks_revision ks + 1)\<rparr>) ks)"
  using that by (cases "isHeldBy (ks_node ks n) g") (simp_all add: raiseCeiling_def Let_def)

lemma raised_owner: "en_owner (ks_node (put_entry n ((ks_node ks n)\<lparr>en_floor := f\<rparr>) ks) m) = en_owner (ks_node ks m)"
  by (simp add: put_entry_def)

lemma raised_covers:
  "isHeldBy (ks_node ks n) g \<Longrightarrow> g \<le> ks_revision ks \<Longrightarrow>
     covered (put_entry n ((ks_node ks n)\<lparr>en_floor := Some (v, r)\<rparr>) ks) n g v"
  by (auto simp: covered_def put_entry_def floorOf_def isHeldBy_def split: option.splits)

lemma held_covers:
  "isHeldBy (ks_node ks n) g \<Longrightarrow> covered ks n h v \<Longrightarrow> h \<noteq> g \<Longrightarrow> h < g"
  by (auto simp: covered_def isHeldBy_def split: option.splits)

lemma still_replica:
  assumes s: "ids_inv s"
  shows "ids_inv (with_round_trip i (rp', sy_keys s) s) \<longleftrightarrow> ids_inv (with_replica i rp' s)"
  by (simp add: with_round_trip_def with_replica_def)

lemma readopt_step:
  assumes s: "ids_inv s" and c: "rp_call (sy_replica s i) = Some (Acq_readopt anchor n e l)"
  shows "ids_inv (with_round_trip i (acquire_readopt opts nowMs anchor n e (sy_replica s i) (sy_keys s)) s)"
    and "ids_inv (with_round_trip i ((sy_replica s i)\<lparr>rp_call := None\<rparr>,
      snd (acquire_readopt opts nowMs anchor n e (sy_replica s i) (sy_keys s))) s)"
proof -
  let ?rp = "sy_replica s i" and ?ks = "sy_keys s" and ?S = "stamps (sy_minted s)"
  obtain ow where k: "rp_held ?rp = None" "snap_ok ?ks n e" "en_owner e = Some ow" "rp_pendingLease ?rp = Some (ow_lease ow)"
    using replica_facts(2) [OF s, of i] c by (auto simp: call_ok_def)
  let ?g = "ow_createRevision ow" and ?v = "max (or_zero (floorOf e)) (nowMs + lo_ttlMs opts)"
  let ?ks' = "put_entry n ((ks_node ?ks n)\<lparr>en_floor := Some (?v, ks_revision ?ks + 1)\<rparr>) ?ks"
  have h: "isHeldBy e ?g" using k by (simp add: isHeldBy_def)
  have failed: "ids_inv (with_replica i (?rp\<lparr>rp_call := None\<rparr>) s)"
    using fail_step [OF s, of i] c by (simp add: remote_call_def)
  have "ids_inv (with_round_trip i (acquire_readopt opts nowMs anchor n e ?rp ?ks) s) \<and>
      ids_inv (with_round_trip i (?rp\<lparr>rp_call := None\<rparr>, snd (acquire_readopt opts nowMs anchor n e ?rp ?ks)) s)"
  proof (cases rule: raise_cases [of n e ?g nowMs "lo_ttlMs opts" ?ks])
    case 1
    then show ?thesis using failed k still_replica [OF s] by (simp add: acquire_readopt_def)
  next
    case 2
    have own: "en_owner (ks_node ?ks n) = Some ow"
      using 2(1) k by (auto simp: isHeldBy_def snap_ok_def split: option.splits)
    let ?grant = "\<lparr>lg_nodeId = n, lg_generation = ?g, lg_floorMs = ow_claimFloorMs ow, lg_leaseUntilMs = ?v, lg_nowMs = nowMs\<rparr>"
    have res: "acquire_readopt opts nowMs anchor n e ?rp ?ks = (?rp\<lparr>rp_pendingLease := None, rp_call := Some (Acq_granted anchor ?grant)\<rparr>, ?ks')"
      using 2(2) k by (simp add: acquire_readopt_def)
    have sp: "spares ?ks ?ks' (Some (n, ?g, ?v))"
      using raise_spares [OF inv_parts(1) [OF s] k(2) h, of nowMs "lo_ttlMs opts"] 2(2) by simp
    have mine: "(n, ?g) \<in> rights ?ks ?rp" using own k by (auto simp: rights_def owned_under_def)
    have no: "(n, ?g, ts, sq) \<notin> ?S" for ts sq
      using inv_parts(3) [OF s, of i] own k by (auto simp: solo_def owned_under_def)
    have w: "(m, g) \<in> rights ?ks ?rp \<and> (\<forall>ts sq. (m, g, ts, sq) \<in> ?S \<longrightarrow> ts \<le> w)" if "Some (n, ?g, ?v) = Some (m, g, w)" for m g w
      using that mine no by auto
    have below: "g < ?g \<and> ts \<le> or_zero (ow_claimFloorMs ow)" if "(n, g, ts, sq) \<in> ?S" for g ts sq
    proof -
      have "g \<noteq> ?g" using that no by auto
      then show ?thesis using inv_parts(2) [OF s] that own by (fastforce simp: ids_ok_def covered_def)
    qed
    have rev: "?g \<le> ks_revision ?ks" using inv_parts(1) [OF s] own by (simp add: keys_ok_def entry_ok_def)
    have tok: "tenure_ok ?ks' ?S (grant_tenure ?grant)"
      using raised_covers [OF 2(1) rev, of ?v] below by (force simp: tenure_ok_def grant_tenure_def)
    let ?rp1 = "?rp\<lparr>rp_pendingLease := None, rp_call := Some (Acq_granted anchor ?grant)\<rparr>"
    have ten: "tenure_of ?rp1 = Some (grant_tenure ?grant)" "releasing ?rp1 = None" using k by (simp_all add: shape_simps)
    have so: "solo ?ks' ?S ?rp1"
      using replica_facts(1) [OF s, of i] k tok ten by (simp add: solo_def owned_under_def call_ok_def)
    have ri: "rights ?ks' ?rp1 \<subseteq> rights ?ks ?rp"
      using mine ten by (auto simp: rights_def owned_under_def grant_tenure_def)
    have "ids_inv (with_round_trip i (?rp1, ?ks') s)"
    proof (rule replica_step [OF s sp w so])
      show "turns t u" if t: "tenure_of ?rp1 = Some t" and u: "covered ?ks (tn_node u) (tn_gen u) (tn_limit u)"
          and nr: "(tn_node u, tn_gen u) \<notin> rights ?ks ?rp" for t u
      proof -
        have "t = grant_tenure ?grant" using ten t by simp
        moreover have "tn_gen u < ?g \<and> tn_limit u \<le> or_zero (ow_claimFloorMs ow)" if "tn_node u = n"
        proof -
          have "tn_gen u \<noteq> ?g" using nr mine that by auto
          then show ?thesis using u that own by (simp add: covered_def)
        qed
        ultimately show ?thesis by (auto simp: turns_def grant_tenure_def)
      qed
    qed (use ri raised_owner in auto)
    moreover have "ids_inv (with_round_trip i (?rp\<lparr>rp_call := None\<rparr>, ?ks') s)"
    proof (rule store_step [OF s sp w])
      show "solo ?ks ?S (?rp\<lparr>rp_call := None\<rparr>)" "rights ?ks (?rp\<lparr>rp_call := None\<rparr>) \<subseteq> rights ?ks ?rp"
        using k replica_facts(1) [OF s, of i] by (intro quiet_solo [OF inv_parts(3) [OF s, of i]]; simp add: shape_simps)+
      show "tenure_of ?rp = Some t \<and> (\<forall>w. Some (n, ?g, ?v) = Some (tn_node t, tn_gen t, w) \<longrightarrow> tn_limit t \<le> w)"
        if "tenure_of (?rp\<lparr>rp_call := None\<rparr>) = Some t" for t
        using that k by (simp add: tenure_of_def)
    qed (use raised_owner in auto)
    ultimately show ?thesis using res by simp
  qed
  then show "ids_inv (with_round_trip i (acquire_readopt opts nowMs anchor n e ?rp ?ks) s)"
    "ids_inv (with_round_trip i (?rp\<lparr>rp_call := None\<rparr>, snd (acquire_readopt opts nowMs anchor n e ?rp ?ks)) s)" by blast+
qed

lemma renew_raise_step:
  assumes s: "ids_inv s" and h: "rp_held (sy_replica s i) = Some h" and c: "rp_call (sy_replica s i) = Some (Ren_raise anchor e st)"
  shows "ids_inv (with_round_trip i (renew_raise opts anchor e st h (sy_replica s i) (sy_keys s)) s)"
    and "ids_inv (with_round_trip i ((sy_replica s i)\<lparr>rp_call := None\<rparr>,
      snd (renew_raise opts anchor e st h (sy_replica s i) (sy_keys s))) s)"
proof -
  let ?rp = "sy_replica s i" and ?ks = "sy_keys s" and ?S = "stamps (sy_minted s)" and ?n = "hl_nodeId h" and ?g = "hl_generation h"
  have k: "snap_ok ?ks ?n e" "isHeldBy e ?g" "hl_leaseUntilMs h \<le> or_zero (floorOf e)"
    using replica_facts(2) [OF s, of i] c h by (simp_all add: call_ok_def)
  let ?v = "max (or_zero (floorOf e)) (st + lo_ttlMs opts)"
  let ?ks' = "put_entry ?n ((ks_node ?ks ?n)\<lparr>en_floor := Some (?v, ks_revision ?ks + 1)\<rparr>) ?ks"
  let ?t = "held_tenure h (hl_leaseUntilMs h)" and ?u = "held_tenure h ?v"
  have t: "tenure_of ?rp = Some ?t" using h c by (simp add: tenure_of_def)
  then have tok: "tenure_ok ?ks ?S ?t" using inv_parts(3) [OF s, of i] by (simp add: solo_def)
  note ho = held_replica [OF s h]
  have failed: "ids_inv (with_replica i (?rp\<lparr>rp_call := None\<rparr>) s)" using fail_step [OF s, of i] c by (simp add: remote_call_def)
  have "ids_inv (with_round_trip i (renew_raise opts anchor e st h ?rp ?ks) s) \<and>
      ids_inv (with_round_trip i (?rp\<lparr>rp_call := None\<rparr>, snd (renew_raise opts anchor e st h ?rp ?ks)) s)"
  proof (cases rule: raise_cases [of ?n e ?g st "lo_ttlMs opts" ?ks])
    case 1
    then show ?thesis using failed lost_step [OF s, of i] still_replica [OF s] by (simp add: renew_raise_def)
  next
    case 2
    have res: "renew_raise opts anchor e st h ?rp ?ks = (?rp\<lparr>rp_call := Some (Ren_raised anchor ?v)\<rparr>, ?ks')"
      using 2(2) by (simp add: renew_raise_def)
    have sp: "spares ?ks ?ks' (Some (?n, ?g, ?v))"
      using raise_spares [OF inv_parts(1) [OF s] k(1,2), of st "lo_ttlMs opts"] 2(2) by simp
    have mine: "(?n, ?g) \<in> rights ?ks ?rp" using t by (auto simp: rights_def held_tenure_def)
    have st: "ts \<le> ?v" if "(?n, ?g, ts, sq) \<in> ?S" for ts sq
      using tok that k(3) by (force simp: tenure_ok_def held_tenure_def)
    have w: "(m, g) \<in> rights ?ks ?rp \<and> (\<forall>ts sq. (m, g, ts, sq) \<in> ?S \<longrightarrow> ts \<le> w)"
      if "Some (?n, ?g, ?v) = Some (m, g, w)" for m g w using that mine st by auto
    let ?rp1 = "?rp\<lparr>rp_call := Some (Ren_raised anchor ?v)\<rparr>"
    have ten: "tenure_of ?rp1 = Some ?u" "releasing ?rp1 = None" using h by (simp_all add: shape_simps)
    have p: "rp_pendingLease ?rp = None" using ho by (simp add: held_ok_def)
    have "g < ?g" if "(?n, g, ts, sq) \<in> ?S" "g \<noteq> ?g" for g ts sq
      using inv_parts(2) [OF s] that held_covers [OF 2(1)] by (fastforce simp: ids_ok_def)
    moreover have "covered ?ks' ?n ?g ?v"
      using raised_covers [OF 2(1)] tok by (simp add: tenure_ok_def covered_def held_tenure_def)
    ultimately have tok': "tenure_ok ?ks' ?S ?u"
      using tok st unfolding tenure_ok_def by (simp add: held_tenure_def) (metis less_asym)
    have so: "solo ?ks' ?S ?rp1"
      using replica_facts(1) [OF s, of i] h ho k p tok' ten by (simp add: solo_def owned_under_def call_ok_def held_ok_def)
    have ri: "rights ?ks' ?rp1 \<subseteq> rights ?ks ?rp" using mine ten p by (auto simp: rights_def owned_under_def held_tenure_def)
    have "ids_inv (with_round_trip i (?rp1, ?ks') s)"
    proof (rule replica_step [OF s sp w so])
      show "turns t' u" if t': "tenure_of ?rp1 = Some t'" and u: "covered ?ks (tn_node u) (tn_gen u) (tn_limit u)"
          and nr: "(tn_node u, tn_gen u) \<notin> rights ?ks ?rp" and old: "\<And>t'. tenure_of ?rp = Some t' \<Longrightarrow> turns t' u" for t' u
      proof -
        have "t' = ?u" using ten t' by simp
        moreover have "turns ?t u" using old t by simp
        moreover have "tn_gen u < ?g" if "tn_node u = ?n"
        proof -
          have "tn_gen u \<noteq> ?g" using nr mine that by auto
          then show ?thesis using held_covers [OF 2(1)] u that by simp
        qed
        ultimately show ?thesis by (auto simp: turns_def held_tenure_def)
      qed
    qed (use ri raised_owner p in auto)
    moreover have "ids_inv (with_round_trip i (?rp\<lparr>rp_call := None\<rparr>, ?ks') s)"
    proof (rule store_step [OF s sp w])
      show "solo ?ks ?S (?rp\<lparr>rp_call := None\<rparr>)" "rights ?ks (?rp\<lparr>rp_call := None\<rparr>) \<subseteq> rights ?ks ?rp"
        using h ho c replica_facts(1) [OF s, of i]
        by (intro quiet_solo [OF inv_parts(3) [OF s, of i]]; simp add: shape_simps held_ok_def)+
      show "tenure_of ?rp = Some t' \<and> (\<forall>w. Some (?n, ?g, ?v) = Some (tn_node t', tn_gen t', w) \<longrightarrow> tn_limit t' \<le> w)"
        if "tenure_of (?rp\<lparr>rp_call := None\<rparr>) = Some t'" for t'
        using that h t k(3) by (auto simp: tenure_of_def held_tenure_def)
    qed (use raised_owner in auto)
    ultimately show ?thesis using res by simp
  qed
  then show "ids_inv (with_round_trip i (renew_raise opts anchor e st h ?rp ?ks) s)"
    "ids_inv (with_round_trip i (?rp\<lparr>rp_call := None\<rparr>, snd (renew_raise opts anchor e st h ?rp ?ks)) s)" by blast+
qed

lemma release_write_step:
  assumes s: "ids_inv s" and c: "rp_call (sy_replica s i) = Some (Rel_write n g l e)"
  shows "ids_inv (with_round_trip i ((sy_replica s i)\<lparr>rp_call := None\<rparr>, release_txn n e g l (sy_keys s)) s)"
proof -
  let ?rp = "sy_replica s i" and ?ks = "sy_keys s"
  have k: "rp_held ?rp = None" "rp_pendingLease ?rp = None" "snap_ok ?ks n e" "isHeldBy e g"
    using replica_facts(2) [OF s, of i] c by (simp_all add: call_ok_def)
  have r: "releasing ?rp = Some (n, g, or_zero l)" using c by (simp add: releasing_def)
  show ?thesis
  proof (rule store_step [OF s release_spares [OF inv_parts(1) [OF s] k(3,4)]])
    show "(m, h) \<in> rights ?ks ?rp \<and> (\<forall>ts sq. (m, h, ts, sq) \<in> stamps (sy_minted s) \<longrightarrow> ts \<le> w)"
      if "Some (n, g, or_zero l) = Some (m, h, w)" for m h w
      using that r inv_parts(3) [OF s, of i] by (auto simp: rights_def solo_def)
    show "solo ?ks (stamps (sy_minted s)) (?rp\<lparr>rp_call := None\<rparr>)" "rights ?ks (?rp\<lparr>rp_call := None\<rparr>) \<subseteq> rights ?ks ?rp"
      using k replica_facts(1) [OF s, of i] by (intro quiet_solo [OF inv_parts(3) [OF s, of i]]; simp add: shape_simps)+
    show "en_owner (ks_node ?ks m) = Some ow" if "en_owner (ks_node (release_txn n e g l ?ks) m) = Some ow" for m ow
      using that by (auto simp: release_txn_def Let_def put_entry_def split: if_splits)
  qed (use k in \<open>simp_all add: tenure_of_def\<close>)
qed


section \<open>The whole system\<close>

lemma lift_set:
  assumes "ids_inv s" and "\<And>t es n e. L = Some (t, es) \<Longrightarrow> (n, e) \<in> set es \<Longrightarrow> snap_ok (sy_keys s) n e"
  shows "ids_inv (s\<lparr>sy_lift := L\<rparr>)"
  using assms unfolding ids_inv_def by auto

lemma lift_write_step:
  assumes s: "ids_inv s" and l: "sy_lift s = Some (t, es)" and run: "lift_chunk t (take 50 es) (sy_keys s) = (ok, ks')"
  shows "ids_inv (s\<lparr>sy_keys := ks', sy_lift := (if ok then Some (t, drop 50 es) else None)\<rparr>)"
proof -
  have sn: "snap_ok (sy_keys s) n e" if "(n, e) \<in> set es" for n e using inv_parts(5) [OF s l that] .
  have sp: "spares (sy_keys s) ks' None"
    by (rule lift_chunk_spares [OF inv_parts(1) [OF s] _ run]) (use sn in \<open>auto dest: in_set_takeD\<close>)
  have "en_owner (ks_node (sy_keys s) n) = Some ow" if o: "en_owner (ks_node ks' n) = Some ow" for n ow
  proof (cases ok)
    case True
    let ?F = "\<lambda>e. \<lparr>en_owner = None, en_floor = Some (max (or_zero (floorOf e)) t, ks_revision (sy_keys s) + 1)\<rparr>"
    have "ks_node ks' = fold (\<lambda>(n, e) f. f(n := ?F e)) (take 50 es) (ks_node (sy_keys s))"
      using run True by (auto simp: lift_chunk_def split: if_splits)
    then show ?thesis using fold_chunk [of ?F "take 50 es" "ks_node (sy_keys s)" n] o by auto
  next
    case False
    then show ?thesis using run o by (auto simp: lift_chunk_def split: if_splits)
  qed
  then have "ids_inv (s\<lparr>sy_keys := ks'\<rparr>)" using keys_step [OF s sp] by blast
  moreover have "snap_ok ks' n e" if "(n, e) \<in> set (drop 50 es)" for n e
    using snap_moved [OF sn] sp that by (auto simp: spares_def dest: in_set_dropD)
  ultimately have "ids_inv (s\<lparr>sy_keys := ks'\<rparr>\<lparr>sy_lift := (if ok then Some (t, drop 50 es) else None)\<rparr>)"
    by (intro lift_set) (auto split: if_splits)
  then show ?thesis by simp
qed

lemma bookkeeping_step:
  assumes s: "ids_inv s" and n: "ks_node ks' = ks_node (sy_keys s)" and r: "ks_revision (sy_keys s) \<le> ks_revision ks'"
    and l: "ks_nextLease ks' = ks_nextLease (sy_keys s)" "ks_leases ks' = ks_leases (sy_keys s)"
  shows "ids_inv (s\<lparr>sy_keys := ks'\<rparr>)"
proof (rule keys_step [OF s])
  show "spares (sy_keys s) ks' None"
    by (rule same_nodes_spares [OF inv_parts(1) [OF s] n r]) (use l inv_parts(1) [OF s] in \<open>auto simp: keys_ok_def\<close>)
qed (use n in simp)

lemma drop_step: "ids_inv s \<Longrightarrow> ids_inv (s\<lparr>sy_keys := drop_lease l (sy_keys s)\<rparr>)"
  by (intro keys_step drop_spares)
    (auto simp: inv_parts(1) drop_lease_def Let_def split: option.splits if_splits)

lemma step_inv:
  assumes "id_step opts s s'" and s: "ids_inv s" and opts: "\<And>i. lease_options_ok (opts i)"
  shows "ids_inv s'"
proof -
  have ttl: "0 < lo_ttlMs (opts i)" for i using opts by (simp add: lease_options_ok_def)
  show ?thesis
    using assms(1)
  proof cases
    case (mints i h x rp)
    then show ?thesis using mint_step [OF s] by simp
  next
    case (mint_fails i e rp)
    then show ?thesis
      using generate_cases [OF mint_fails(2)] reads_step [OF s, of i] moved_step [OF s] by (auto simp: mint_moves_def)
  next
    case (answer_lost i ks)
    show ?thesis
      using answer_lost(2)
    proof cases
      case (lands_claim anchor l free k nowMs)
      then show ?thesis using claim_lands_step [OF s _ _ ttl] answer_lost(1) by simp
    next
      case (lands_readopt anchor n e l nowMs)
      then show ?thesis using readopt_step(2) [OF s] answer_lost(1) by simp
    next
      case (lands_raise anchor e st h)
      then show ?thesis using renew_raise_step(2) [OF s] answer_lost(1) by simp
    next
      case (lands_release n g l e)
      then show ?thesis using release_write_step [OF s] answer_lost(1) by simp
    qed
  next
    case (lift_starts nowMs)
    have "ids_inv (s\<lparr>sy_lift := Some (nowMs, map (\<lambda>n. (n, ks_node (sy_keys s) n)) leased_nodes)\<rparr>)"
      by (rule lift_set [OF s]) (use current_snap [OF inv_parts(1) [OF s]] in auto)
    then show ?thesis using lift_starts by simp
  next
    case (lift_settles nowMs settleMs)
    then show ?thesis
      using bookkeeping_step [OF s] by (auto simp: requireSettled_def split: option.splits)
  next
    case (lift_ends nowMs)
    have "ids_inv (s\<lparr>sy_keys := lift_mark (sy_keys s)\<rparr>)" by (rule bookkeeping_step [OF s]) (simp_all add: lift_mark_def)
    from lift_set [OF this, of None] show ?thesis using lift_ends by simp
  next
    case (acquire_exhausted i anchor l)
    then show ?thesis using exhausted_step [OF s, of i] still_replica [OF s] by simp
  qed (use s acquire_step acquire_read_step acquire_claim_step [OF s _ _ ttl] readopt_step(1) grant_step renew_step renew_read_step
      renew_raise_step(1) renewed_step drain_step release_step release_read_step release_write_step fail_step start_step
      drop_step lift_write_step in simp_all)
qed

lemma start_inv: "(\<And>i. clock_runs (clks i) 0) \<Longrightarrow> ids_inv (id_start clks)"
  by (auto simp: ids_inv_def id_start_def keys_ok_def entry_ok_def empty_keys_def ids_ok_def stamps_def solo_def apart_def
      started_def shape_simps rights_def owned_under_def)

lemma reachable_inv:
  assumes "(id_step opts)\<^sup>*\<^sup>* (id_start clks) s" "\<And>i. lease_options_ok (opts i)" "\<And>i. clock_runs (clks i) 0"
  shows "ids_inv s"
  using assms(1) by (induction rule: rtranclp_induct) (use start_inv assms step_inv in blast)+

end
