(* ===== verification/Id_Run.thy ===== *)
theory Id_Run
  imports Id_Uniqueness
begin

text \<open>
  What the replicas and the floor lift achieve together: a lift that nobody disturbs comes to its end, and
  the ids of all replicas are different, with a run in which two of them are minted.
\<close>


text \<open>The options of the runs shown below.\<close>

definition run_options :: "nat \<Rightarrow> lease_options" where
  "run_options i = \<lparr>lo_holder = ''a'', lo_ttlMs = 10, lo_fenceMarginMs = 3, lo_maxFloorAheadMs = 3\<rparr>"


section \<open>The floor lift runs to its end\<close>

lemma leased_nodes_distinct: "distinct leased_nodes"
  by (simp add: leased_nodes_def)

lemma fold_out: "m \<notin> fst ` set xs \<Longrightarrow> fold (\<lambda>(n, e) f. f(n := F e)) xs g m = g m"
  by (induction xs arbitrary: g) force+

lemma fold_in: "distinct (map fst xs) \<Longrightarrow> (m, d) \<in> set xs \<Longrightarrow> fold (\<lambda>(n, e) f. f(n := F e)) xs g m = F d"
proof (induction xs arbitrary: g)
  case (Cons x xs)
  obtain k c where x: "x = (k, c)" by force
  show ?case
  proof (cases "(m, d) = x")
    case True
    then have "m \<notin> fst ` set xs" using Cons.prems(1) x by simp
    from fold_out [OF this, of F "g(m := F d)"] show ?thesis using True [symmetric] by (simp only: fold_simps comp_apply prod.case fun_upd_same)
  next
    case False
    then have "(m, d) \<in> set xs" "distinct (map fst xs)" using Cons.prems x by auto
    from Cons.IH [OF this(2,1), of "g(k := F c)"] show ?thesis
      using x by (simp only: fold_simps comp_apply prod.case)
  qed
qed simp

text \<open>The nodes \<open>N\<close> lifted, the others and the leases as they were.\<close>

definition lifted :: "int \<Rightarrow> int set \<Rightarrow> keyspace \<Rightarrow> keyspace \<Rightarrow> bool" where
  "lifted nowMs N ks ks' \<longleftrightarrow> ks_leases ks' = ks_leases ks \<and> (\<forall>n. n \<notin> N \<longrightarrow> ks_node ks' n = ks_node ks n) \<and>
    (\<forall>n \<in> N. en_owner (ks_node ks' n) = None \<and> floor_at ks' n = max (floor_at ks n) nowMs)"

lemma lifted_empty: "lifted nowMs {} ks ks"
  by (simp add: lifted_def)

lemma lifted_union:
  assumes a: "lifted nowMs N ks ks1" and b: "lifted nowMs M ks1 ks2" and d: "N \<inter> M = {}"
  shows "lifted nowMs (N \<union> M) ks ks2"
  unfolding lifted_def
proof (intro conjI ballI allI impI)
  show "ks_leases ks2 = ks_leases ks" using a b by (simp add: lifted_def)
  show "ks_node ks2 n = ks_node ks n" if "n \<notin> N \<union> M" for n using a b that by (simp add: lifted_def)
  fix n assume n: "n \<in> N \<union> M"
  have "en_owner (ks_node ks2 n) = None \<and> floor_at ks2 n = max (floor_at ks n) nowMs"
  proof (cases "n \<in> M")
    case True
    then have "ks_node ks1 n = ks_node ks n" using a d by (auto simp: lifted_def)
    then show ?thesis using b True by (simp add: lifted_def)
  next
    case False
    then have "ks_node ks2 n = ks_node ks1 n" "n \<in> N" using b n by (auto simp: lifted_def)
    then show ?thesis using a by (simp add: lifted_def)
  qed
  then show "en_owner (ks_node ks2 n) = None" "floor_at ks2 n = max (floor_at ks n) nowMs" by blast+
qed

lemma chunk_lifts:
  assumes d: "distinct (map fst chunk)" and e: "\<And>n e. (n, e) \<in> set chunk \<Longrightarrow> ks_node ks n = e \<and> en_owner e = None"
  shows "\<exists>ks'. lift_chunk nowMs chunk ks = (True, ks') \<and> lifted nowMs (fst ` set chunk) ks ks'"
proof -
  let ?F = "\<lambda>e. \<lparr>en_owner = None, en_floor = Some (max (or_zero (floorOf e)) nowMs, ks_revision ks + 1)\<rparr>"
  let ?f = "fold (\<lambda>(n, e) f. f(n := ?F e)) chunk (ks_node ks)"
  have "list_all (\<lambda>(n, e). en_owner (ks_node ks n) = None \<and> floorRevision (ks_node ks n) = floorRevision e) chunk"
    using e by (fastforce simp: list_all_iff)
  then have run: "lift_chunk nowMs chunk ks = (True, ks\<lparr>ks_node := ?f, ks_revision := ks_revision ks + 1\<rparr>)"
    by (simp add: lift_chunk_def)
  have "en_owner (?f n) = None \<and> or_zero (floorOf (?f n)) = max (floor_at ks n) nowMs" if n: "n \<in> fst ` set chunk" for n
  proof -
    obtain c where "(n, c) \<in> set chunk" using n by (metis imageE prod.collapse)
    then have "?f n = ?F c" "ks_node ks n = c" using fold_in [OF d, of n c ?F] e by auto
    then show ?thesis by (simp add: floorOf_def)
  qed
  then show ?thesis unfolding run using fold_out [of _ chunk ?F "ks_node ks"] by (auto simp: lifted_def)
qed

text \<open>The chunks still to write are written, whatever their number.\<close>

lemma lift_runs:
  assumes "sy_lift s = Some (nowMs, es)" "distinct (map fst es)"
    and "\<And>n e. (n, e) \<in> set es \<Longrightarrow> ks_node (sy_keys s) n = e \<and> en_owner e = None"
  shows "\<exists>ks. (id_step opts)\<^sup>*\<^sup>* s (s\<lparr>sy_keys := ks, sy_lift := Some (nowMs, [])\<rparr>) \<and> lifted nowMs (fst ` set es) (sy_keys s) ks"
  using assms
proof (induction "length es" arbitrary: s es rule: less_induct)
  case less
  show ?case
  proof (cases "es = []")
    case True
    have "s\<lparr>sy_keys := sy_keys s, sy_lift := Some (nowMs, [])\<rparr> = s" using less.prems(1) True by simp
    then have "(id_step opts)\<^sup>*\<^sup>* s (s\<lparr>sy_keys := sy_keys s, sy_lift := Some (nowMs, [])\<rparr>)" by simp
    then show ?thesis using True lifted_empty by (intro exI [of _ "sy_keys s"]) simp
  next
    case False
    let ?c = "take 50 es" and ?r = "drop 50 es"
    have parts: "set es = set ?c \<union> set ?r" by (metis append_take_drop_id set_append)
    have "map fst es = map fst ?c @ map fst ?r" by (metis append_take_drop_id map_append)
    then have dist: "distinct (map fst ?c)" "distinct (map fst ?r)" "fst ` set ?c \<inter> fst ` set ?r = {}"
      using less.prems(2) by simp_all
    have "\<exists>ks. lift_chunk nowMs ?c (sy_keys s) = (True, ks) \<and> lifted nowMs (fst ` set ?c) (sy_keys s) ks"
      by (rule chunk_lifts [OF dist(1)]) (use less.prems(3) parts in blast)
    then obtain ks where ks: "lift_chunk nowMs ?c (sy_keys s) = (True, ks)" "lifted nowMs (fst ` set ?c) (sy_keys s) ks" by blast
    let ?s = "s\<lparr>sy_keys := ks, sy_lift := Some (nowMs, ?r)\<rparr>"
    have step: "id_step opts s ?s" using lift_writes [OF less.prems(1) False ks(1)] by simp
    have kept: "ks_node (sy_keys ?s) n = e \<and> en_owner e = None" if "(n, e) \<in> set ?r" for n e
    proof -
      have "n \<notin> fst ` set ?c" using dist(3) that by force
      then show ?thesis using ks(2) less.prems(3) [of n e] parts that by (auto simp: lifted_def)
    qed
    have "length ?r < length es" "sy_lift ?s = Some (nowMs, ?r)" using False by simp_all
    from less.hyps [OF this dist(2) kept]
    obtain ks' where ks': "(id_step opts)\<^sup>*\<^sup>* ?s (?s\<lparr>sy_keys := ks', sy_lift := Some (nowMs, [])\<rparr>)"
        "lifted nowMs (fst ` set ?r) (sy_keys ?s) ks'" by blast
    have "lifted nowMs (fst ` set ?c \<union> fst ` set ?r) (sy_keys s) ks'"
      using lifted_union [OF ks(2) _ dist(3), of ks'] ks'(2) by simp
    then have "lifted nowMs (fst ` set es) (sy_keys s) ks'" using parts by (simp add: image_Un)
    moreover have "(id_step opts)\<^sup>*\<^sup>* s (s\<lparr>sy_keys := ks', sy_lift := Some (nowMs, [])\<rparr>)"
      using converse_rtranclp_into_rtranclp [of "id_step opts", OF step ks'(1)] by simp
    ultimately show ?thesis by blast
  qed
qed

lemma lift_done:
  assumes "list_all (\<lambda>n. en_owner (ks_node (sy_keys s) n) = None) leased_nodes"
  shows "\<exists>ks. (id_step opts)\<^sup>*\<^sup>* s (s\<lparr>sy_keys := ks, sy_lift := None\<rparr>) \<and> ks_initialized ks \<and> lifted nowMs (set leased_nodes) (sy_keys s) ks"
proof -
  let ?es = "map (\<lambda>n. (n, ks_node (sy_keys s) n)) leased_nodes"
  let ?s = "s\<lparr>sy_lift := Some (nowMs, ?es)\<rparr>"
  have start: "id_step opts s ?s" using lift_starts [OF assms] .
  have es: "map fst ?es = leased_nodes" by (simp add: comp_def)
  have dist: "distinct (map fst ?es)" unfolding es by (rule leased_nodes_distinct)
  have dom: "fst ` set ?es = set leased_nodes" unfolding set_map [symmetric] es ..
  have free: "ks_node (sy_keys ?s) n = e \<and> en_owner e = None" if "(n, e) \<in> set ?es" for n e
    using that assms by (auto simp: list_all_iff)
  have "\<exists>ks. (id_step opts)\<^sup>*\<^sup>* ?s (?s\<lparr>sy_keys := ks, sy_lift := Some (nowMs, [])\<rparr>) \<and> lifted nowMs (fst ` set ?es) (sy_keys ?s) ks"
    by (rule lift_runs [OF _ dist free]) simp_all
  then obtain ks where ks: "(id_step opts)\<^sup>*\<^sup>* ?s (s\<lparr>sy_keys := ks, sy_lift := Some (nowMs, [])\<rparr>)"
      "lifted nowMs (set leased_nodes) (sy_keys s) ks" unfolding dom by auto
  let ?s2 = "s\<lparr>sy_keys := ks, sy_lift := Some (nowMs, [])\<rparr>" and ?s3 = "s\<lparr>sy_keys := lift_mark ks, sy_lift := None\<rparr>"
  have "id_step opts ?s2 ?s3" using lift_ends [of ?s2 nowMs opts] by simp
  then have "(id_step opts)\<^sup>*\<^sup>* s ?s3"
    using start ks(1) by (meson converse_rtranclp_into_rtranclp rtranclp.rtrancl_into_rtrancl)
  then show ?thesis using ks(2) by (intro exI [of _ "lift_mark ks"]) (simp add: lift_mark_def lifted_def)
qed

text \<open> C36: the floor lift gets done. From any state in which no node is held, the lift has a run to its end
  that no replica takes part in: the keyspace is then marked as lifted and open for claims, every node is
  still free, and its floor is the highest of what it was and of the lift's time. \<close>

theorem lift_completes:
  assumes "list_all (\<lambda>n. en_owner (ks_node (sy_keys s) n) = None) leased_nodes"
  shows "\<exists>s'. (id_step opts)\<^sup>*\<^sup>* s s' \<and> ks_initialized (sy_keys s') \<and> sy_replica s' = sy_replica s \<and> sy_minted s' = sy_minted s \<and>
    (\<forall>n \<in> set leased_nodes. en_owner (ks_node (sy_keys s') n) = None \<and>
       floor_at (sy_keys s') n = max (floor_at (sy_keys s) n) nowMs)"
proof -
  obtain ks where ks: "(id_step opts)\<^sup>*\<^sup>* s (s\<lparr>sy_keys := ks, sy_lift := None\<rparr>)" "ks_initialized ks"
      "lifted nowMs (set leased_nodes) (sy_keys s) ks" using lift_done [OF assms] by blast
  then show ?thesis by (intro exI [of _ "s\<lparr>sy_keys := ks, sy_lift := None\<rparr>"]) (simp add: lifted_def)
qed

theorem lift_completes_witness:
  "\<exists>s'. (id_step run_options)\<^sup>*\<^sup>* (id_start (\<lambda>_. still_clock)) s' \<and>
     ks_initialized (sy_keys s') \<and> floor_at (sy_keys s') 254 = 1700000000000"
proof -
  have "list_all (\<lambda>n. en_owner (ks_node (sy_keys (id_start (\<lambda>_. still_clock))) n) = None) leased_nodes"
    by (simp add: list_all_iff id_start_def empty_keys_def)
  from lift_completes [OF this, of run_options 1700000000000]
  obtain s' where "(id_step run_options)\<^sup>*\<^sup>* (id_start (\<lambda>_. still_clock)) s'" "ks_initialized (sy_keys s')"
    "\<forall>n \<in> set leased_nodes. floor_at (sy_keys s') n = max (floor_at (sy_keys (id_start (\<lambda>_. still_clock))) n) 1700000000000"
    by blast
  moreover have "254 \<in> set leased_nodes" by (simp add: leased_nodes_def LEASED_NODE_MIN_def LEASED_NODE_MAX_def id_layout)
  moreover have "floor_at (sy_keys (id_start (\<lambda>_. still_clock))) 254 = 0" by (simp add: id_start_def empty_keys_def floorOf_def)
  ultimately show ?thesis by fastforce
qed


section \<open>A run that mints\<close>

text \<open>A replica that holds a node under the still clock, its generator at sequence number \<open>q\<close> or before its first id.\<close>

definition ready :: "int \<Rightarrow> int \<Rightarrow> replica \<Rightarrow> bool" where
  "ready n q rp \<longleftrightarrow> rp_clock rp = still_clock \<and> 1 \<le> n \<and> n \<le> 254 \<and> (\<exists>h. rp_held rp = Some h \<and>
     hl_anchor h = (1800000000000, 5) \<and> hl_leaseUntilMs h = 1800000000010 \<and> (let g = hl_generator h in ge_nodeId g = n \<and>
       ge_originWallMs g = 1800000000000 \<and> ge_originMonotonicMs g = 5 \<and> ge_liftMs g = 0 \<and> ge_offsetMs g = 0 \<and>
       (ge_lastMs g = 0 \<and> q = -1 \<or> ge_lastMs g = 1800000000000 \<and> ge_sequence g = q)))"

lemma still_stamp:
  assumes "1 \<le> n" "n \<le> 254" "0 \<le> q" "q \<le> 1023"
  shows "\<exists>x. id_encode \<lparr>sf_tsMs = 1800000000000, sf_nodeId = n, sf_sequence = q\<rparr> = Inr x"
  using assms by (auto simp: encode_ok fields_ok_def id_layout)

lemma ready_fenced:
  assumes "rp_held rp = Some h" "rp_clock rp = still_clock" "hl_anchor h = (1800000000000, 5)"
    and "ge_lastMs (hl_generator h) \<le> hl_leaseUntilMs h"
  shows "lease_fenced (run_options i) rp = (False, rp\<lparr>rp_reads := rp_reads rp + 2\<rparr>)"
  using assms by (simp add: lease_fenced_def lease_read_def run_options_def still_clock_def lastTimestampMs_def)

lemma ready_mints:
  assumes r: "ready n q rp" and q: "-1 \<le> q" "q < 1000"
  shows "\<exists>h x rp'. rp_held rp = Some h \<and> lease_generate (run_options i) rp = (Inr x, rp') \<and> ready n (q + 1) rp'"
proof -
  obtain h where h: "rp_held rp = Some h" "hl_anchor h = (1800000000000, 5)" "hl_leaseUntilMs h = 1800000000010"
    using r by (auto simp: ready_def)
  have c: "rp_clock rp = still_clock" and n: "1 \<le> n" "n \<le> 254" using r by (simp_all add: ready_def)
  let ?g = "hl_generator h"
  have g: "ge_nodeId ?g = n" "ge_originWallMs ?g = 1800000000000" "ge_originMonotonicMs ?g = 5" "ge_liftMs ?g = 0" "ge_offsetMs ?g = 0"
    and at: "ge_lastMs ?g = 0 \<and> q = -1 \<or> ge_lastMs ?g = 1800000000000 \<and> ge_sequence ?g = q"
    using r h by (auto simp: ready_def Let_def)
  let ?g0 = "?g\<lparr>ge_reads := rp_reads rp + 2\<rparr>"
  let ?g1 = "?g\<lparr>ge_reads := rp_reads rp + 4, ge_lastMs := 1800000000000, ge_sequence := q + 1\<rparr>"
  obtain x where x: "id_encode \<lparr>sf_tsMs = 1800000000000, sf_nodeId = n, sf_sequence = q + 1\<rparr> = Inr x"
    using still_stamp [OF n, of "q + 1"] q by auto
  have gen: "gen_generate still_clock ?g0 = (Inr x, ?g1)"
    using at g x q by (auto simp: gen_generate_def gen_now_def gen_stamp_def still_clock_def Let_def SEQUENCE_COUNT_def SEQUENCE_BITS_def)
  let ?rp2 = "rp\<lparr>rp_held := Some (h\<lparr>hl_generator := ?g1\<rparr>), rp_reads := rp_reads rp + 4\<rparr>"
  let ?rp3 = "?rp2\<lparr>rp_reads := rp_reads rp + 4 + 2\<rparr>"
  have f1: "lease_fenced (run_options i) rp = (False, rp\<lparr>rp_reads := rp_reads rp + 2\<rparr>)"
    using ready_fenced [OF h(1) c h(2)] h(3) at by auto
  have f2: "lease_fenced (run_options i) ?rp2 = (False, ?rp3)"
    using ready_fenced [of ?rp2 "h\<lparr>hl_generator := ?g1\<rparr>" i] h c by simp
  have "lease_generate (run_options i) rp = (Inr x, ?rp3)"
    using f1 f2 gen h c by (simp add: lease_generate_def)
  moreover have "ready n (q + 1) ?rp3" using h c n g by (simp add: ready_def Let_def)
  ultimately show ?thesis using h by blast
qed

lemma first_free:
  assumes "lifted 1700000000000 (set leased_nodes) empty_keys ks" "ks_node ks1 = ks_node ks"
  shows "ownedBy l ks1 = None" "\<exists>n rest. freeOldestFirst ks1 = (n, ks_node ks n) # rest \<and> n \<in> set leased_nodes"
proof -
  have free: "en_owner (ks_node ks1 n) = None" if "n \<in> set leased_nodes" for n using assms that by (simp add: lifted_def)
  then show "ownedBy l ks1 = None" by (auto simp: ownedBy_def find_where_None)
  have "1 \<in> set leased_nodes" by (simp add: leased_nodes_def LEASED_NODE_MIN_def LEASED_NODE_MAX_def id_layout)
  then have "(1, ks_node ks1 1) \<in> set (freeOldestFirst ks1)" using free by (simp add: freeOldestFirst_def)
  then obtain n e rest where f: "freeOldestFirst ks1 = (n, e) # rest" by (cases "freeOldestFirst ks1") auto
  then have "(n, e) \<in> set (freeOldestFirst ks1)" by simp
  then have "e = ks_node ks1 n" "n \<in> set leased_nodes" by (auto simp: freeOldestFirst_def)
  then show "\<exists>n rest. freeOldestFirst ks1 = (n, ks_node ks n) # rest \<and> n \<in> set leased_nodes" using f assms(2) by simp
qed

text \<open>From the first start to a node held: the lift, and one acquire.\<close>

lemma run_acquires:
  "\<exists>s n. (id_step run_options)\<^sup>*\<^sup>* (id_start (\<lambda>_. still_clock)) s \<and> ready n (-1) (sy_replica s 0) \<and> sy_minted s = []"
proof -
  let ?s0 = "id_start (\<lambda>_. still_clock)" and ?a = "(1800000000000, 5) :: clock_reading"
  have k0: "sy_keys ?s0 = empty_keys" by (simp add: id_start_def)
  have "list_all (\<lambda>n. en_owner (ks_node (sy_keys ?s0) n) = None) leased_nodes"
    by (simp add: list_all_iff id_start_def empty_keys_def)
  from lift_done [OF this, of run_options 1700000000000] obtain ks where
    ks: "(id_step run_options)\<^sup>*\<^sup>* ?s0 (?s0\<lparr>sy_keys := ks, sy_lift := None\<rparr>)" "ks_initialized ks"
      "lifted 1700000000000 (set leased_nodes) empty_keys ks" unfolding k0 by blast
  define s1 where "s1 = ?s0\<lparr>sy_keys := ks, sy_lift := None\<rparr>"
  define rp2 where "rp2 = lease_acquire (started still_clock)"
  define s2 where "s2 = with_replica 0 rp2 s1"
  have rp2: "rp2 = (started still_clock)\<lparr>rp_phase := Ph_acquiring, rp_reads := 2, rp_call := Some (Acq_read ?a)\<rparr>"
    by (simp add: rp2_def lease_acquire_def started_def lease_read_def still_clock_def)
  have "sy_replica s1 0 = started still_clock" by (simp add: s1_def id_start_def)
  then have st2: "id_step run_options s1 s2" using acquires [of run_options s1 0] by (simp add: s2_def rp2_def)
  let ?l = "ks_nextLease ks" and ?ks3 = "ks\<lparr>ks_leases := ks_nextLease ks # ks_leases ks, ks_nextLease := ks_nextLease ks + 1\<rparr>"
  obtain n rest where free: "freeOldestFirst ?ks3 = (n, ks_node ks n) # rest" "n \<in> set leased_nodes"
    using first_free(2) [OF ks(3), of ?ks3] by auto
  have n: "1 \<le> n" "n \<le> 254" using free(2) by (simp_all add: leased_nodes_def LEASED_NODE_MIN_def LEASED_NODE_MAX_def id_layout)
  define rp3 where "rp3 = rp2\<lparr>rp_pendingLease := Some ?l, rp_call := Some (Acq_claim ?a ?l ((n, ks_node ks n) # rest))\<rparr>"
  define s3 where "s3 = with_round_trip 0 (rp3, ?ks3) s2"
  have r2: "sy_replica s2 0 = rp2" "sy_keys s2 = ks" by (simp_all add: s2_def with_replica_def s1_def)
  have "acquire_read ?a rp2 ks = (rp3, ?ks3)"
    using first_free(1) [OF ks(3), of ?ks3 ?l] ks(2) free(1)
    by (simp add: acquire_read_def Let_def rp3_def) (simp add: rp2 started_def)
  then have st3: "id_step run_options s2 s3" using acquire_reads [of s2 0 ?a run_options] r2 rp2 by (simp add: s3_def)
  have fl: "en_owner (ks_node ks n) = None" "floorOf (ks_node ks n) = Some 1700000000000"
    using ks(3) free(2) by (auto simp: lifted_def empty_keys_def floorOf_def split: option.splits)
  define grant where "grant = \<lparr>lg_nodeId = n, lg_generation = ks_revision ks + 1, lg_floorMs = Some 1700000000000,
    lg_leaseUntilMs = 1800000000010, lg_nowMs = 1800000000000\<rparr>"
  define rp4 where "rp4 = rp3\<lparr>rp_call := Some (Acq_granted ?a grant), rp_pendingLease := None\<rparr>"
  obtain ks4 where "claim_txn (lo_holder (run_options 0)) ?l 10 1800000000000 (n, ks_node ks n) ?ks3 = (Some grant, ks4)"
    using fl by (simp add: claim_txn_def Let_def grant_def)
  then have cl: "acquire_claim (run_options 0) 1800000000000 ?a ?l ((n, ks_node ks n) # rest) 0 rp3 ?ks3 = (rp4, ks4)"
    by (simp add: acquire_claim_def run_options_def rp4_def)
  have r3: "sy_replica s3 0 = rp3" "sy_keys s3 = ?ks3" by (simp_all add: s3_def with_round_trip_def)
  define s4 where "s4 = with_round_trip 0 (rp4, ks4) s3"
  have st4: "id_step run_options s3 s4"
    using acquire_claims [of s3 0 ?a ?l "(n, ks_node ks n) # rest" 0 run_options 1800000000000] r3 cl by (simp add: s4_def rp3_def)
  define rp5 where "rp5 = lease_granted (run_options 0) ?a grant rp4"
  define s5 where "s5 = with_replica 0 rp5 s4"
  have st5: "id_step run_options s4 s5"
    using granted [of s4 0 ?a grant run_options] by (simp add: s4_def s5_def rp5_def rp4_def with_round_trip_def)
  have c4: "rp_clock rp4 = still_clock" "rp_retiredLastMs rp4 = 0" by (simp_all add: rp4_def rp3_def rp2 started_def)
  have "ready n (-1) rp5"
    using n c4 by (simp add: rp5_def lease_granted_def grant_def run_options_def new_generator_def still_clock_def id_layout ready_def Let_def)
  then have "ready n (-1) (sy_replica s5 0)" by (simp add: s5_def with_replica_def)
  moreover have "sy_minted s5 = []"
    by (simp add: s5_def s4_def s3_def s2_def s1_def id_start_def with_replica_def with_round_trip_def)
  moreover have "(id_step run_options)\<^sup>*\<^sup>* ?s0 s5"
    using ks(1) st2 st3 st4 st5 unfolding s1_def [symmetric] by (meson rtranclp.rtrancl_into_rtrancl)
  ultimately show ?thesis by blast
qed

text \<open> C3: no id is ever handed out twice. Let any number of replicas share the keyspace, with clocks that
  stand still, jump or step back (only a process's monotonic clock does not run backwards); let requests
  and answers be lost, leases expire at any moment, processes crash and start again, and the floors be
  lifted in between: all ids ever returned, by all of them together, are different. \<close>

theorem ids_never_repeat:
  assumes "(id_step opts)\<^sup>*\<^sup>* (id_start clks) s" and "\<And>i. lease_options_ok (opts i)" and "\<And>i. clock_runs (clks i) 0"
  shows "distinct (map (\<lambda>(node, generation, x). x) (sy_minted s))"
  using inv_parts(2) [OF reachable_inv [OF assms]] by (simp add: ids_ok_def)

theorem ids_never_repeat_witness:
  "\<exists>s n g h x y. (id_step run_options)\<^sup>*\<^sup>* (id_start (\<lambda>_. still_clock)) s \<and> sy_minted s = [(n, g, x), (n, h, y)] \<and> x \<noteq> y"
proof -
  obtain s n where s: "(id_step run_options)\<^sup>*\<^sup>* (id_start (\<lambda>_. still_clock)) s" "ready n (-1) (sy_replica s 0)" "sy_minted s = []"
    using run_acquires by blast
  obtain h y rp where m1: "rp_held (sy_replica s 0) = Some h" "lease_generate (run_options 0) (sy_replica s 0) = (Inr y, rp)" "ready n 0 rp"
    using ready_mints [OF s(2), of 0] by auto
  let ?s1 = "(with_replica 0 rp s)\<lparr>sy_minted := (hl_nodeId h, hl_generation h, y) # sy_minted s\<rparr>"
  have r1: "sy_replica ?s1 0 = rp" by (simp add: with_replica_def)
  obtain k x rp2 where m2: "rp_held rp = Some k" "lease_generate (run_options 0) rp = (Inr x, rp2)"
    using ready_mints [OF m1(3), of 0] by auto
  let ?s2 = "(with_replica 0 rp2 ?s1)\<lparr>sy_minted := (hl_nodeId k, hl_generation k, x) # sy_minted ?s1\<rparr>"
  have "id_step run_options s ?s1" using mints m1 by blast
  moreover have "id_step run_options ?s1 ?s2" using mints [of ?s1 0 k run_options x rp2] m2 unfolding r1 by blast
  ultimately have run: "(id_step run_options)\<^sup>*\<^sup>* (id_start (\<lambda>_. still_clock)) ?s2"
    using s(1) by (meson rtranclp.rtrancl_into_rtrancl)
  have "distinct (map (\<lambda>(node, generation, x). x) (sy_minted ?s2))"
    by (rule ids_never_repeat [OF run])
      (simp_all add: lease_options_ok_def run_options_def clock_runs_def still_clock_def)
  moreover have "hl_nodeId k = hl_nodeId h"
    using generate_cases [OF m1(2)] m1(1) m2(1) by (auto simp: mint_moves_def)
  ultimately show ?thesis using run s(3) by (intro exI conjI) (assumption, auto simp: with_replica_def)
qed

end
