(* ===== verification/Outbox_Relay.thy ===== *)
theory Outbox_Relay
  imports Snowflake_Codec "HOL-Library.Multiset"
begin

text \<open>
  The outbox of a service and the relay that empties it into the queues
  (\<^verbatim>\<open>src/packages/messaging/src/outbox\<close>, \<^verbatim>\<open>routing\<close> and the job envelope of \<^verbatim>\<open>queue\<close>). A queue is known here
  only by what it answers to an \<open>add\<close> and by the log of the jobs it took; both depend on the environment
  of a tick, as do the connection, the rows other instances hold, the clock and the fate of the commit.
\<close>


section \<open>Events on their way\<close>

record queue_spec =
  qs_name :: string
  qs_dlq :: string

text \<open>A row; its payload is of any type.\<close>

record 'p ob_row =
  ob_id :: string
  ob_aggregateType :: string
  ob_aggregateId :: string
  ob_eventType :: string
  ob_payload :: 'p
  ob_traceparent :: "string option"
  ob_attempts :: nat
  ob_createdAt :: int
  ob_publishedAt :: "int option"

text \<open>The envelope; \<open>jb_occurredAt\<close> is the instant its text parses to, if it does.\<close>

record 'p event_job =
  jb_outboxId :: string
  jb_aggregateType :: string
  jb_aggregateId :: string
  jb_eventType :: string
  jb_payload :: 'p
  jb_occurredAt :: "int option"
  jb_traceparent :: "string option"

definition isWellFormedEnvelope :: "'p event_job option \<Rightarrow> bool" where
  "isWellFormedEnvelope job \<longleftrightarrow> (case job of None \<Rightarrow> False | Some j \<Rightarrow> isRoutableId (jb_outboxId j) \<and> jb_eventType j \<noteq> [])"

definition jobIdFor :: "string \<Rightarrow> string" where
  "jobIdFor outboxId = ''msg-'' @ outboxId"

type_synonym event_routes = "(string \<times> queue_spec) list"

definition routeOf :: "event_routes \<Rightarrow> string \<Rightarrow> queue_spec option" where
  "routeOf routes eventType = map_of routes eventType"

text \<open>Every queue once, in the order first routed to; \<open>Inl\<close> when two routes disagree on its dead letters.\<close>

fun destinations :: "queue_spec list \<Rightarrow> event_routes \<Rightarrow> string + queue_spec list" where
  "destinations known [] = Inr known"
| "destinations known ((t, spec) # routes) =
     (case find_where (\<lambda>k. qs_name k = qs_name spec) known of
        None \<Rightarrow> destinations (known @ [spec]) routes
      | Some k \<Rightarrow> if qs_dlq k \<noteq> qs_dlq spec then Inl (qs_name spec) else destinations known routes)"

definition destinationsOf :: "event_routes \<Rightarrow> string + queue_spec list" where
  "destinationsOf routes = destinations [] routes"


section \<open>Writing\<close>

record 'p ob_record =
  rc_aggregateType :: string
  rc_aggregateId :: string
  rc_eventType :: string
  rc_payload :: 'p

datatype outbox_error = Unrouted_event string

text \<open>\<open>append\<close>: the row it inserts, in the caller's transaction; \<open>minted\<close> is the id given or minted.\<close>

definition outbox_append ::
    "event_routes \<Rightarrow> string \<Rightarrow> string option \<Rightarrow> int \<Rightarrow> 'p ob_record \<Rightarrow> outbox_error + 'p ob_row" where
  "outbox_append routes minted traceparent now rc =
     (if routeOf routes (rc_eventType rc) = None then Inl (Unrouted_event (rc_eventType rc))
      else Inr \<lparr>ob_id = minted, ob_aggregateType = rc_aggregateType rc, ob_aggregateId = rc_aggregateId rc,
        ob_eventType = rc_eventType rc, ob_payload = rc_payload rc, ob_traceparent = traceparent, ob_attempts = 0,
        ob_createdAt = now, ob_publishedAt = None\<rparr>)"


section \<open>The relay\<close>

definition MAX_REFUSALS_PER_TICK :: nat where "MAX_REFUSALS_PER_TICK = 3"

type_synonym 'p queue_log = "(queue_spec \<times> 'p event_job) list"

record 'p relay_env =
  re_routes :: event_routes
  re_connected :: bool
  re_locked :: "string \<Rightarrow> bool"
  re_opened :: "string \<Rightarrow> bool"
  re_accepts :: "queue_spec \<Rightarrow> 'p event_job \<Rightarrow> 'p queue_log \<Rightarrow> bool"
  re_traceparent :: "'p ob_row \<Rightarrow> string option"
  re_now :: int
  re_commits :: bool

definition job_of :: "'p relay_env \<Rightarrow> 'p ob_row \<Rightarrow> 'p event_job" where
  "job_of env row = \<lparr>jb_outboxId = ob_id row, jb_aggregateType = ob_aggregateType row, jb_aggregateId = ob_aggregateId row,
     jb_eventType = ob_eventType row, jb_payload = ob_payload row, jb_occurredAt = Some (ob_createdAt row),
     jb_traceparent = (case re_traceparent env row of None \<Rightarrow> ob_traceparent row | Some t \<Rightarrow> Some t)\<rparr>"

text \<open>The log afterwards, or \<open>None\<close> when the publish throws.\<close>

definition publish :: "'p relay_env \<Rightarrow> 'p ob_row \<Rightarrow> queue_spec \<Rightarrow> 'p queue_log \<Rightarrow> 'p queue_log option" where
  "publish env row route log =
     (if \<not> re_opened env (qs_name route) then None
      else if re_accepts env route (job_of env row) log then Some (log @ [(route, job_of env row)]) else None)"

definition lockUnpublished :: "'p relay_env \<Rightarrow> (string \<Rightarrow> bool) \<Rightarrow> nat \<Rightarrow> 'p ob_row list \<Rightarrow> 'p ob_row list" where
  "lockUnpublished env scope limit table =
     take limit (sort_key ob_createdAt (sort_key (\<lambda>r. nat_of_dec (ob_id r))
       (filter (\<lambda>r. ob_publishedAt r = None \<and> scope (ob_eventType r) \<and> \<not> re_locked env (ob_id r)) table)))"

definition charge :: "'p ob_row list \<Rightarrow> 'p ob_row list \<Rightarrow> 'p ob_row list" where
  "charge rows table = fold (\<lambda>row. update_where (\<lambda>r. ob_id r = ob_id row) (\<lambda>r. r\<lparr>ob_attempts := ob_attempts row + 1\<rparr>)) rows table"

record 'p relay_acc =
  ra_table :: "'p ob_row list"
  ra_log :: "'p queue_log"
  ra_refused :: "'p ob_row list"
  ra_unrouted :: "'p ob_row list"
  ra_published :: nat

fun relay_rows :: "'p relay_env \<Rightarrow> 'p ob_row list \<Rightarrow> 'p relay_acc \<Rightarrow> 'p relay_acc" where
  "relay_rows env [] acc = acc"
| "relay_rows env (row # rows) acc =
     (case routeOf (re_routes env) (ob_eventType row) of
        None \<Rightarrow> relay_rows env rows (acc\<lparr>ra_unrouted := ra_unrouted acc @ [row]\<rparr>)
      | Some route \<Rightarrow>
          (case publish env row route (ra_log acc) of
             None \<Rightarrow> let acc1 = acc\<lparr>ra_refused := ra_refused acc @ [row]\<rparr> in
               if MAX_REFUSALS_PER_TICK \<le> length (ra_refused acc1) then acc1 else relay_rows env rows acc1
           | Some log \<Rightarrow> relay_rows env rows (acc\<lparr>ra_log := log,
               ra_table := update_where (\<lambda>r. ob_id r = ob_id row) (\<lambda>r. r\<lparr>ob_publishedAt := Some (re_now env)\<rparr>) (ra_table acc),
               ra_published := ra_published acc + 1\<rparr>)))"

definition relay_batch :: "'p relay_env \<Rightarrow> nat \<Rightarrow> 'p ob_row list \<Rightarrow> 'p ob_row list" where
  "relay_batch env batchSize table =
     (let types = map fst (re_routes env);
          routed = (if types = [] then [] else lockUnpublished env (\<lambda>t. t \<in> set types) batchSize table)
      in routed @ (if length routed < batchSize
                   then lockUnpublished env (\<lambda>t. t \<notin> set types) (batchSize - length routed) table else []))"

text \<open>One tick: its summary, with the table and the queues' log after it. \<open>None\<close>: it did not commit.\<close>

definition runOnce ::
    "'p relay_env \<Rightarrow> nat \<Rightarrow> 'p ob_row list \<Rightarrow> 'p queue_log \<Rightarrow> (nat \<times> nat) option \<times> 'p ob_row list \<times> 'p queue_log" where
  "runOnce env batchSize table log =
     (if \<not> re_connected env then (Some (0, 0), table, log)
      else let acc = relay_rows env (relay_batch env batchSize table)
                 \<lparr>ra_table = table, ra_log = log, ra_refused = [], ra_unrouted = [], ra_published = 0\<rparr>;
               table1 = charge (ra_unrouted acc) (ra_table acc);
               table2 = (if 0 < ra_published acc then charge (ra_refused acc) table1 else table1)
           in if re_commits env
              then (Some (ra_published acc, length (ra_refused acc) + length (ra_unrouted acc)), table2, ra_log acc)
              else (None, table, ra_log acc))"

text \<open>
  One batch of the retention sweep: how many rows it deleted and what it left. \<open>chosen\<close>: the database stops
  scanning at the limit, so which of the old rows go first is its own business.
\<close>

definition sweep_published :: "int \<Rightarrow> int \<Rightarrow> nat \<Rightarrow> (string \<Rightarrow> bool) \<Rightarrow> 'p ob_row list \<Rightarrow> nat \<times> 'p ob_row list" where
  "sweep_published retentionMs now batchSize chosen table =
     (let cutoff = now - retentionMs;
          old = filter (\<lambda>r. case ob_publishedAt r of None \<Rightarrow> False | Some t \<Rightarrow> t < cutoff) table;
          doomed = map ob_id (take batchSize (filter (\<lambda>r. chosen (ob_id r)) old))
      in (length (filter (\<lambda>r. ob_id r \<in> set doomed) table), filter (\<lambda>r. ob_id r \<notin> set doomed) table))"

lemma sweep_published_keeps:
  assumes "r \<in> set table" "ob_publishedAt r = None" "distinct (map ob_id table)"
  shows "r \<in> set (snd (sweep_published retentionMs now batchSize chosen table))"
proof -
  let ?old = "filter (\<lambda>r. case ob_publishedAt r of None \<Rightarrow> False | Some t \<Rightarrow> t < now - retentionMs) table"
  have "x \<in> set table \<and> ob_publishedAt x \<noteq> None" if "x \<in> set (take batchSize (filter (\<lambda>r. chosen (ob_id r)) ?old))" for x
    using in_set_takeD [OF that] by (auto split: option.splits)
  then have old: "r \<noteq> x" if "x \<in> set (take batchSize (filter (\<lambda>r. chosen (ob_id r)) ?old))" for x using that assms(2) by blast
  have "ob_id r \<notin> set (map ob_id (take batchSize (filter (\<lambda>r. chosen (ob_id r)) ?old)))"
  proof
    assume "ob_id r \<in> set (map ob_id (take batchSize (filter (\<lambda>r. chosen (ob_id r)) ?old)))"
    then obtain x where x: "x \<in> set (take batchSize (filter (\<lambda>r. chosen (ob_id r)) ?old))" "ob_id x = ob_id r" by fastforce
    then have "x \<in> set table" using in_set_takeD by fastforce
    then have "x = r" using x(2) assms(1,3) by (metis distinct_map inj_onD)
    then show False using old x(1) by blast
  qed
  then show ?thesis using assms(1) by (simp add: sweep_published_def Let_def)
qed

section \<open>An event's content survives\<close>

definition same_event :: "'p ob_row \<Rightarrow> 'p ob_row \<Rightarrow> bool" where
  "same_event a r \<longleftrightarrow> ob_id r = ob_id a \<and> ob_aggregateType r = ob_aggregateType a \<and> ob_aggregateId r = ob_aggregateId a \<and>
     ob_eventType r = ob_eventType a \<and> ob_payload r = ob_payload a \<and> ob_createdAt r = ob_createdAt a"

definition carries :: "'p event_job \<Rightarrow> 'p ob_row \<Rightarrow> bool" where
  "carries j a \<longleftrightarrow> jb_outboxId j = ob_id a \<and> jb_aggregateType j = ob_aggregateType a \<and> jb_aggregateId j = ob_aggregateId a \<and>
     jb_eventType j = ob_eventType a \<and> jb_payload j = ob_payload a \<and> jb_occurredAt j = Some (ob_createdAt a)"

lemma same_event_refl [simp]: "same_event a a"
  by (simp add: same_event_def)

lemma job_carries: "same_event a r \<Longrightarrow> carries (job_of env r) a"
  by (simp add: same_event_def carries_def job_of_def)

text \<open>A job on a queue that is the row's event, on the queue the service's route table names for it.\<close>

definition addressed :: "event_routes \<Rightarrow> queue_spec \<times> 'p event_job \<Rightarrow> 'p ob_row \<Rightarrow> bool" where
  "addressed routes p a \<longleftrightarrow> carries (snd p) a \<and> routeOf routes (ob_eventType a) = Some (fst p)"

definition taken :: "event_routes \<Rightarrow> 'p queue_log \<Rightarrow> 'p ob_row \<Rightarrow> bool" where
  "taken routes log a \<longleftrightarrow> (\<exists>p \<in> set log. addressed routes p a)"

lemma addressed_same: "addressed routes p b \<Longrightarrow> same_event a b \<Longrightarrow> addressed routes p a"
  by (simp add: addressed_def same_event_def carries_def)

lemma taken_mono: "taken routes log a \<Longrightarrow> set log \<subseteq> set log' \<Longrightarrow> taken routes log' a"
  by (auto simp: taken_def)

lemma taken_same: "taken routes log r \<Longrightarrow> same_event a r \<Longrightarrow> taken routes log a"
  unfolding taken_def using addressed_same by blast

text \<open>The change a tick makes: attempts and marks only; what is newly marked was taken by its queue.\<close>

definition marks :: "event_routes \<Rightarrow> 'p ob_row list \<Rightarrow> 'p queue_log \<Rightarrow> 'p ob_row list \<Rightarrow> bool" where
  "marks routes table log table' \<longleftrightarrow> list_all2 (\<lambda>r r'. same_event r r' \<and>
     (ob_publishedAt r' \<noteq> ob_publishedAt r \<longrightarrow> taken routes log r)) table table'"

lemma marks_refl: "marks routes table log table"
  by (simp add: marks_def list_all2_same)

lemma same_event_trans: "same_event a b \<Longrightarrow> same_event b c \<Longrightarrow> same_event a c"
  by (simp add: same_event_def)

lemma marks_trans:
  assumes "marks routes t l1 t1" "marks routes t1 l2 t2" "set l1 \<subseteq> set l2"
  shows "marks routes t l2 t2"
  using assms(1,2) unfolding marks_def
proof (rule list_all2_trans [rotated])
  fix a b c
  assume "same_event a b \<and> (ob_publishedAt b \<noteq> ob_publishedAt a \<longrightarrow> taken routes l1 a)"
    and "same_event b c \<and> (ob_publishedAt c \<noteq> ob_publishedAt b \<longrightarrow> taken routes l2 b)"
  then show "same_event a c \<and> (ob_publishedAt c \<noteq> ob_publishedAt a \<longrightarrow> taken routes l2 a)"
    using assms(3) same_event_trans [of a b c] taken_same [of routes l2 b a] taken_mono [of routes l1 a l2] by metis
qed

lemma charge_marks: "marks routes table log (charge rows table)"
proof (induction rows arbitrary: table)
  case (Cons row rows)
  have "marks routes table log (update_where (\<lambda>r. ob_id r = ob_id row) (\<lambda>r. r\<lparr>ob_attempts := ob_attempts row + 1\<rparr>) table)"
    by (auto simp: marks_def update_where_def list_all2_conv_all_nth same_event_def)
  from marks_trans [OF this Cons.IH] show ?case by (simp add: charge_def)
qed (simp add: charge_def marks_refl)

lemma published_Some: "publish env row route log = Some log' \<Longrightarrow> log' = log @ [(route, job_of env row)]"
  by (auto simp: publish_def split: if_splits)

text \<open>Rows processed by a tick are rows of the table, ids being unique.\<close>

definition unique_ids :: "'p ob_row list \<Rightarrow> bool" where
  "unique_ids table \<longleftrightarrow> distinct (map ob_id table)"

lemma relay_rows_marks:
  assumes "relay_rows env rows acc = acc'" "unique_ids table" "set rows \<subseteq> set table" "marks routes table (ra_log acc) (ra_table acc)"
    "re_routes env = routes"
  shows "marks routes table (ra_log acc') (ra_table acc') \<and> set (ra_log acc) \<subseteq> set (ra_log acc') \<and>
    (\<forall>p \<in> set (ra_log acc') - set (ra_log acc). \<exists>r \<in> set table. addressed routes p r)"
  using assms
proof (induction rows arbitrary: acc)
  case (Cons row rows)
  show ?case
  proof (cases "routeOf (re_routes env) (ob_eventType row)")
    case None
    then show ?thesis using Cons.IH [of "acc\<lparr>ra_unrouted := ra_unrouted acc @ [row]\<rparr>"] Cons.prems by simp
  next
    case (Some route)
    show ?thesis
    proof (cases "publish env row route (ra_log acc)")
      case None
      then show ?thesis
        using Some Cons.IH [of "acc\<lparr>ra_refused := ra_refused acc @ [row]\<rparr>"] Cons.prems by (auto simp: Let_def split: if_splits)
    next
      case out: (Some log)
      let ?t = "update_where (\<lambda>r. ob_id r = ob_id row) (\<lambda>r. r\<lparr>ob_publishedAt := Some (re_now env)\<rparr>) (ra_table acc)"
      let ?acc = "acc\<lparr>ra_log := log, ra_table := ?t, ra_published := ra_published acc + 1\<rparr>"
      have log: "log = ra_log acc @ [(route, job_of env row)]" using published_Some [OF out] .
      have row: "row \<in> set table" using Cons.prems(3) by simp
      have m: "marks routes table log ?t"
        unfolding marks_def list_all2_conv_all_nth
      proof (intro conjI allI impI)
        have len: "length table = length (ra_table acc)" using Cons.prems(4) by (auto simp: marks_def dest: list_all2_lengthD)
        then show "length table = length ?t" by simp
        fix k assume k: "k < length table"
        have at: "same_event (table ! k) (ra_table acc ! k)"
            "ob_publishedAt (ra_table acc ! k) \<noteq> ob_publishedAt (table ! k) \<Longrightarrow> taken routes (ra_log acc) (table ! k)"
          using Cons.prems(4) k by (auto simp: marks_def list_all2_conv_all_nth)
        have new: "addressed routes (route, job_of env row) (table ! k)" if "ob_id (table ! k) = ob_id row"
        proof -
          have "table ! k = row" using Cons.prems(2) row k that unfolding unique_ids_def
            by (metis distinct_map inj_on_def nth_mem)
          then show ?thesis using Some Cons.prems(5) by (simp add: addressed_def job_carries)
        qed
        show "same_event (table ! k) (?t ! k)" using at(1) k len by (simp add: update_where_def same_event_def)
        show "taken routes log (table ! k)" if "ob_publishedAt (?t ! k) \<noteq> ob_publishedAt (table ! k)"
        proof (cases "ob_id (table ! k) = ob_id row")
          case True
          then show ?thesis using new log by (auto simp: taken_def)
        next
          case False
          then have "ob_id (ra_table acc ! k) \<noteq> ob_id row" using at(1) by (simp add: same_event_def)
          then have "?t ! k = ra_table acc ! k" using k len by (simp add: update_where_def)
          then show ?thesis using at(2) that log by (auto simp: taken_def)
        qed
      qed
      have "relay_rows env rows ?acc = acc'" using Cons.prems(1) Some out by simp
      from Cons.IH [OF this Cons.prems(2)] Cons.prems(3,5) m
      have ih: "marks routes table (ra_log acc') (ra_table acc')" "set log \<subseteq> set (ra_log acc')"
          "\<forall>p \<in> set (ra_log acc') - set log. \<exists>r \<in> set table. addressed routes p r" by simp_all
      have "\<exists>r \<in> set table. addressed routes p r" if "p \<in> set (ra_log acc')" "p \<notin> set (ra_log acc)" for p
      proof (cases "p \<in> set log")
        case True
        then have "p = (route, job_of env row)" using that(2) log by auto
        then show ?thesis using row Some Cons.prems(5) job_carries [of row row env] by (auto simp: addressed_def)
      next
        case False
        then show ?thesis using ih(3) that(1) by simp
      qed
      then show ?thesis using ih log by auto
    qed
  qed
qed auto

lemma batch_rows: "set (relay_batch env batchSize table) \<subseteq> set table"
  by (auto simp: relay_batch_def lockUnpublished_def Let_def dest!: in_set_takeD split: if_splits)

lemma tick_marks:
  assumes run: "runOnce env batchSize table log = (s, table', log')" and u: "unique_ids table" and routes: "re_routes env = routes"
  shows "marks routes table log' table' \<and> set log \<subseteq> set log' \<and>
    (\<forall>p \<in> set log' - set log. \<exists>r \<in> set table. addressed routes p r)"
proof (cases "re_connected env")
  case False
  then show ?thesis using run by (auto simp: runOnce_def marks_refl)
next
  case True
  define acc where "acc = relay_rows env (relay_batch env batchSize table)
    \<lparr>ra_table = table, ra_log = log, ra_refused = [], ra_unrouted = [], ra_published = 0\<rparr>"
  have m: "marks routes table (ra_log acc) (ra_table acc)" "set log \<subseteq> set (ra_log acc)"
      "\<forall>p \<in> set (ra_log acc) - set log. \<exists>r \<in> set table. addressed routes p r"
    using relay_rows_marks [OF acc_def [symmetric] u batch_rows _ routes] by (simp_all add: marks_refl)
  have c: "marks routes table (ra_log acc) (charge rows (ra_table acc))" for rows
    using marks_trans [OF m(1) charge_marks subset_refl] .
  have "log' = ra_log acc" "marks routes table (ra_log acc) table'"
    using run True c marks_trans [OF c charge_marks subset_refl]
    by (auto simp: runOnce_def Let_def marks_refl acc_def [symmetric] split: if_splits)
  then show ?thesis using m by blast
qed


section \<open>The outbox over time\<close>

text \<open>
  \<open>os_appended\<close>: every row ever committed, as it was inserted. One service, with its route table \<open>routes\<close>:
  the writer and every instance of the relay run the same build.
\<close>

record 'p ob_system =
  os_table :: "'p ob_row list"
  os_log :: "'p queue_log"
  os_appended :: "'p ob_row list"

inductive outbox_step :: "event_routes \<Rightarrow> 'p ob_system \<Rightarrow> 'p ob_system \<Rightarrow> bool" for routes where
  appends: "outbox_append routes minted traceparent now rc = Inr row \<Longrightarrow> minted \<notin> ob_id ` set (os_appended s) \<Longrightarrow>
    isRoutableId minted \<Longrightarrow>
    outbox_step routes s (s\<lparr>os_table := os_table s @ [row], os_appended := os_appended s @ [row]\<rparr>)"
| ticks: "runOnce env batchSize (os_table s) (os_log s) = (summary, table, log) \<Longrightarrow> re_routes env = routes \<Longrightarrow>
    outbox_step routes s (s\<lparr>os_table := table, os_log := log\<rparr>)"
| sweeps: "outbox_step routes s (s\<lparr>os_table := snd (sweep_published retentionMs now batchSize chosen (os_table s))\<rparr>)"

definition outbox_start :: "'p ob_system" where
  "outbox_start = \<lparr>os_table = [], os_log = [], os_appended = []\<rparr>"

definition outbox_inv :: "event_routes \<Rightarrow> 'p ob_system \<Rightarrow> bool" where
  "outbox_inv routes s \<longleftrightarrow> unique_ids (os_table s) \<and>
     (\<forall>r \<in> set (os_table s). \<exists>a \<in> set (os_appended s). same_event a r) \<and>
     (\<forall>r \<in> set (os_table s). ob_publishedAt r \<noteq> None \<longrightarrow> taken routes (os_log s) r) \<and>
     (\<forall>a \<in> set (os_appended s). taken routes (os_log s) a \<or> (\<exists>r \<in> set (os_table s). same_event a r \<and> ob_publishedAt r = None)) \<and>
     (\<forall>p \<in> set (os_log s). \<exists>a \<in> set (os_appended s). addressed routes p a) \<and>
     (\<forall>a \<in> set (os_appended s). isRoutableId (ob_id a))"

lemma same_event_sym: "same_event a r \<longleftrightarrow> same_event r a"
  by (auto simp: same_event_def)

lemma tick_inv:
  assumes s: "outbox_inv routes s" and run: "runOnce env batchSize (os_table s) (os_log s) = (summary, table, log)"
    and routes: "re_routes env = routes"
  shows "outbox_inv routes (s\<lparr>os_table := table, os_log := log\<rparr>)"
proof -
  have u: "unique_ids (os_table s)" using s by (simp add: outbox_inv_def)
  have m: "marks routes (os_table s) log table" "set (os_log s) \<subseteq> set log"
      "\<And>p. p \<in> set log \<Longrightarrow> p \<notin> set (os_log s) \<Longrightarrow> \<exists>r \<in> set (os_table s). addressed routes p r"
    using tick_marks [OF run u routes] by blast+
  have len: "length table = length (os_table s)" using m(1) by (auto simp: marks_def dest: list_all2_lengthD)
  have at: "same_event (os_table s ! k) (table ! k)"
    "ob_publishedAt (table ! k) \<noteq> ob_publishedAt (os_table s ! k) \<Longrightarrow> taken routes log (os_table s ! k)" if "k < length table" for k
    using m(1) len that by (auto simp: marks_def list_all2_conv_all_nth)
  have ids: "map ob_id table = map ob_id (os_table s)"
    by (rule nth_equalityI) (use len at(1) in \<open>auto simp: same_event_def\<close>)
  have old: "\<exists>k < length table. r = table ! k \<and> os_table s ! k \<in> set (os_table s)" if "r \<in> set table" for r
    using that len by (metis in_set_conv_nth nth_mem)
  have here: "\<exists>a \<in> set (os_appended s). same_event a r" if "r \<in> set table" for r
    using old [OF that] at(1) s same_event_trans unfolding outbox_inv_def by metis
  moreover have "taken routes log r" if r: "r \<in> set table" "ob_publishedAt r \<noteq> None" for r
  proof -
    obtain k where k: "k < length table" "r = table ! k" "os_table s ! k \<in> set (os_table s)" using old [OF r(1)] by blast
    have "taken routes log (os_table s ! k)"
    proof (cases "ob_publishedAt (os_table s ! k) = None")
      case True
      then show ?thesis using at(2) k r(2) by simp
    next
      case False
      then have "taken routes (os_log s) (os_table s ! k)" using s k unfolding outbox_inv_def by blast
      then show ?thesis using m(2) taken_mono by blast
    qed
    then show ?thesis using taken_same [of routes log "os_table s ! k" r] at(1) [OF k(1)] k(2) same_event_sym by blast
  qed
  moreover have "taken routes log a \<or> (\<exists>r \<in> set table. same_event a r \<and> ob_publishedAt r = None)" if a: "a \<in> set (os_appended s)" for a
  proof (cases "taken routes (os_log s) a")
    case True
    then show ?thesis using m(2) taken_mono by blast
  next
    case False
    then obtain r where r: "r \<in> set (os_table s)" "same_event a r" "ob_publishedAt r = None"
      using s a unfolding outbox_inv_def by blast
    then obtain k where k: "k < length table" "r = os_table s ! k" using len by (metis in_set_conv_nth)
    show ?thesis
    proof (cases "ob_publishedAt (table ! k) = None")
      case True
      then show ?thesis using at(1) [OF k(1)] k r same_event_trans nth_mem by blast
    next
      case False
      then have "taken routes log r" using at(2) [OF k(1)] k(2) r(3) by simp
      then show ?thesis using taken_same r(2) by blast
    qed
  qed
  moreover have "\<exists>a \<in> set (os_appended s). addressed routes p a" if j: "p \<in> set log" for p
  proof (cases "p \<in> set (os_log s)")
    case True
    then show ?thesis using s unfolding outbox_inv_def by blast
  next
    case False
    then obtain r where "r \<in> set (os_table s)" "addressed routes p r" using m(3) j by blast
    then show ?thesis using s addressed_same unfolding outbox_inv_def by metis
  qed
  moreover have "unique_ids table" using u ids by (simp add: unique_ids_def)
  ultimately show ?thesis using s unfolding outbox_inv_def by auto
qed

lemma outbox_step_inv:
  assumes "outbox_step routes s s'" and s: "outbox_inv routes s"
  shows "outbox_inv routes s'"
  using assms(1)
proof cases
  case (appends minted traceparent now rc row)
  then have row: "ob_id row = minted" "ob_publishedAt row = None" by (auto simp: outbox_append_def split: if_splits)
  have "minted \<notin> ob_id ` set (os_table s)" using s appends(3) by (force simp: outbox_inv_def same_event_def)
  then show ?thesis
    using s appends(1,4) row by (force simp: outbox_inv_def unique_ids_def)
next
  case (ticks env batchSize summary table log)
  then show ?thesis using tick_inv [OF s] by blast
next
  case (sweeps retentionMs now batchSize chosen)
  let ?left = "snd (sweep_published retentionMs now batchSize chosen (os_table s))"
  have d: "distinct (map ob_id (os_table s))" using s by (simp add: outbox_inv_def unique_ids_def)
  have sub: "set ?left \<subseteq> set (os_table s)" by (auto simp: sweep_published_def Let_def)
  have kept: "r \<in> set ?left" if "r \<in> set (os_table s)" "ob_publishedAt r = None" for r
    using sweep_published_keeps that d by blast
  have "unique_ids ?left"
    using d by (simp add: unique_ids_def sweep_published_def distinct_map_filter Let_def)
  then show ?thesis using s sub kept sweeps unfolding outbox_inv_def by (simp add: subset_eq) blast
qed

lemma outbox_reachable:
  assumes "(outbox_step routes)\<^sup>*\<^sup>* outbox_start s"
  shows "outbox_inv routes s"
  using assms
proof (induction rule: rtranclp_induct)
  case base
  then show ?case by (simp add: outbox_inv_def outbox_start_def unique_ids_def)
next
  case (step s s')
  then show ?case using outbox_step_inv by blast
qed


section \<open>A backlog drains\<close>

text \<open>The ids of the rows still to publish, among those of a kind.\<close>

definition open_ids :: "('p ob_row \<Rightarrow> bool) \<Rightarrow> 'p ob_row list \<Rightarrow> string set" where
  "open_ids P table = ob_id ` {r \<in> set table. ob_publishedAt r = None \<and> P r}"

text \<open>Kinds that a tick does not change: they look at the id and the type of a row only.\<close>

definition stable_kind :: "('p ob_row \<Rightarrow> bool) \<Rightarrow> bool" where
  "stable_kind P \<longleftrightarrow> (\<forall>r n t. P (r\<lparr>ob_attempts := n\<rparr>) = P r \<and> P (r\<lparr>ob_publishedAt := t\<rparr>) = P r)"

text \<open>A tick with the queue up: it takes every job but those of the rows \<open>bad\<close>.\<close>

definition working :: "event_routes \<Rightarrow> string set \<Rightarrow> 'p relay_env \<Rightarrow> bool" where
  "working routes bad env \<longleftrightarrow> re_routes env = routes \<and> re_connected env \<and> re_commits env \<and> (\<forall>i. \<not> re_locked env i) \<and>
     (\<forall>t route. routeOf routes t = Some route \<longrightarrow> re_opened env (qs_name route)) \<and>
     (\<forall>q j log. re_accepts env q j log \<longleftrightarrow> jb_outboxId j \<notin> bad)"

definition routed_in :: "event_routes \<Rightarrow> 'p ob_row \<Rightarrow> bool" where
  "routed_in routes r \<longleftrightarrow> routeOf routes (ob_eventType r) \<noteq> None"

lemma routed_types: "routed_in routes r \<longleftrightarrow> ob_eventType r \<in> set (map fst routes)"
  by (simp add: routed_in_def routeOf_def map_of_eq_None_iff)

lemma routed_stable: "stable_kind (\<lambda>r. routed_in routes r \<and> (ob_id r \<in> bad \<longleftrightarrow> b))"
  by (simp add: stable_kind_def routed_in_def)

lemma open_map:
  assumes "\<And>r. ob_id (g r) = ob_id r" "\<And>r. P (g r) = P r"
  shows "open_ids P (map g table) = ob_id ` {r \<in> set table. ob_publishedAt (g r) = None \<and> P r}"
proof -
  have "{r \<in> set (map g table). ob_publishedAt r = None \<and> P r} = g ` {r \<in> set table. ob_publishedAt (g r) = None \<and> P r}"
    using assms(2) by auto
  then show ?thesis unfolding open_ids_def image_image assms(1) by (simp add: image_image assms(1))
qed

lemma open_update:
  assumes "stable_kind P"
  shows "open_ids P (update_where (\<lambda>r. ob_id r = i) (\<lambda>r. r\<lparr>ob_publishedAt := Some t\<rparr>) table) = open_ids P table - {i}"
proof -
  have "open_ids P (update_where (\<lambda>r. ob_id r = i) (\<lambda>r. r\<lparr>ob_publishedAt := Some t\<rparr>) table) =
      ob_id ` {r \<in> set table. ob_publishedAt (if ob_id r = i then r\<lparr>ob_publishedAt := Some t\<rparr> else r) = None \<and> P r}"
    unfolding update_where_def by (rule open_map) (use assms in \<open>simp_all add: stable_kind_def\<close>)
  moreover have "{r \<in> set table. ob_publishedAt (if ob_id r = i then r\<lparr>ob_publishedAt := Some t\<rparr> else r) = None \<and> P r} =
      {r \<in> set table. ob_publishedAt r = None \<and> P r} - {r. ob_id r = i}" by auto
  ultimately show ?thesis by (auto simp: open_ids_def)
qed

lemma open_charge: "stable_kind P \<Longrightarrow> open_ids P (charge rows table) = open_ids P table"
proof (induction rows arbitrary: table)
  case (Cons row rows)
  have "open_ids P (update_where (\<lambda>r. ob_id r = ob_id row) (\<lambda>r. r\<lparr>ob_attempts := ob_attempts row + 1\<rparr>) table) =
      ob_id ` {r \<in> set table. ob_publishedAt (if ob_id r = ob_id row then r\<lparr>ob_attempts := ob_attempts row + 1\<rparr> else r) = None \<and> P r}"
    unfolding update_where_def by (rule open_map) (use Cons.prems in \<open>simp_all add: stable_kind_def\<close>)
  also have "\<dots> = open_ids P table" by (simp add: open_ids_def if_distrib cong: if_cong)
  finally show ?case using Cons by (simp add: charge_def)
qed (simp add: charge_def)

lemma working_publish:
  assumes "working routes bad env" "routeOf routes (ob_eventType row) = Some route"
  shows "publish env row route log = (if ob_id row \<in> bad then None else Some (log @ [(route, job_of env row)]))"
  using assms by (auto simp: working_def publish_def job_of_def)

text \<open>With fewer bad rows than end a tick, every healthy row of the batch is published.\<close>

lemma relay_rows_open:
  assumes w: "working routes bad env" and P: "stable_kind P"
    and few: "length (ra_refused acc) + length (filter (\<lambda>r. routed_in routes r \<and> ob_id r \<in> bad) rows) < MAX_REFUSALS_PER_TICK"
  shows "open_ids P (ra_table (relay_rows env rows acc)) =
    open_ids P (ra_table acc) - ob_id ` {r \<in> set rows. routed_in routes r \<and> ob_id r \<notin> bad}"
  using few
proof (induction rows arbitrary: acc)
  case (Cons row rows)
  have routes: "re_routes env = routes" using w by (simp add: working_def)
  show ?case
  proof (cases "routeOf routes (ob_eventType row)")
    case None
    then have "\<not> routed_in routes row" by (simp add: routed_in_def)
    then show ?thesis
      using None Cons.IH [of "acc\<lparr>ra_unrouted := ra_unrouted acc @ [row]\<rparr>"] Cons.prems routes by (auto split: if_splits)
  next
    case (Some route)
    then have r: "routed_in routes row" by (simp add: routed_in_def)
    show ?thesis
    proof (cases "ob_id row \<in> bad")
      case True
      then show ?thesis
        using Some r routes Cons.prems Cons.IH [of "acc\<lparr>ra_refused := ra_refused acc @ [row]\<rparr>"]
        by (auto simp: working_publish [OF w Some] Let_def)
    next
      case False
      let ?t = "update_where (\<lambda>r. ob_id r = ob_id row) (\<lambda>r. r\<lparr>ob_publishedAt := Some (re_now env)\<rparr>) (ra_table acc)"
      let ?acc = "acc\<lparr>ra_log := ra_log acc @ [(route, job_of env row)], ra_table := ?t, ra_published := ra_published acc + 1\<rparr>"
      have "relay_rows env (row # rows) acc = relay_rows env rows ?acc"
        using Some False routes by (simp add: working_publish [OF w Some])
      moreover have "open_ids P (ra_table (relay_rows env rows ?acc)) =
          open_ids P ?t - ob_id ` {r \<in> set rows. routed_in routes r \<and> ob_id r \<notin> bad}"
        using Cons.IH [of ?acc] Cons.prems False by simp
      moreover have "{x \<in> set (row # rows). routed_in routes x \<and> ob_id x \<notin> bad} =
          insert row {x \<in> set rows. routed_in routes x \<and> ob_id x \<notin> bad}" using r False by auto
      ultimately show ?thesis using open_update [OF P] by auto
    qed
  qed
qed simp

definition backlog :: "event_routes \<Rightarrow> 'p ob_row list \<Rightarrow> 'p ob_row list" where
  "backlog routes table = filter (\<lambda>r. ob_publishedAt r = None \<and> routed_in routes r) table"

lemma working_batch:
  assumes w: "working routes bad env"
  shows "\<exists>pile stray. relay_batch env n table = take n pile @ stray \<and> mset pile = mset (backlog routes table) \<and>
    (\<forall>r \<in> set stray. \<not> routed_in routes r)"
proof -
  define pile where "pile = sort_key ob_createdAt (sort_key (\<lambda>r. nat_of_dec (ob_id r)) (backlog routes table))"
  have r: "re_routes env = routes" "re_locked env i = False" for i using w by (simp_all add: working_def)
  have eq: "(if map fst routes = [] then [] else lockUnpublished env (\<lambda>t. t \<in> set (map fst routes)) n table) = take n pile"
    using r by (auto simp: lockUnpublished_def pile_def backlog_def routed_types)
  have "\<not> routed_in routes x" if "x \<in> set (lockUnpublished env (\<lambda>t. t \<notin> set (map fst routes)) k table)" for k x
    using that by (auto simp: lockUnpublished_def routed_types simp del: set_map dest!: in_set_takeD)
  moreover have "mset pile = mset (backlog routes table)" by (simp add: pile_def)
  moreover have "relay_batch env n table = take n pile @ (if length (take n pile) < n
      then lockUnpublished env (\<lambda>t. t \<notin> set (map fst routes)) (n - length (take n pile)) table else [])"
    by (simp only: relay_batch_def Let_def r(1) eq)
  ultimately show ?thesis
    by (intro exI [of _ pile] exI [of _ "if length (take n pile) < n
      then lockUnpublished env (\<lambda>t. t \<notin> set (map fst routes)) (n - length (take n pile)) table else []"])
      (auto split: if_splits)
qed

lemma filter_short:
  assumes "mset pile = mset xs"
  shows "length (filter P (take n pile)) \<le> length (filter P xs)"
proof -
  have "length (filter P (take n pile)) \<le> length (filter P (take n pile)) + length (filter P (drop n pile))" by simp
  also have "\<dots> = length (filter P pile)" by (metis append_take_drop_id filter_append length_append)
  also have "\<dots> = length (filter P xs)" by (metis assms mset_filter size_mset)
  finally show ?thesis .
qed

lemma filter_open:
  assumes "unique_ids table"
  shows "length (filter P (backlog routes table)) = card (open_ids (\<lambda>r. routed_in routes r \<and> P r) table)"
proof -
  have "length (filter P (backlog routes table)) = card (set (map ob_id (filter P (backlog routes table))))"
    using assms distinct_card [of "map ob_id (filter P (backlog routes table))"]
    by (simp add: unique_ids_def backlog_def distinct_map_filter)
  moreover have "set (map ob_id (filter P (backlog routes table))) = open_ids (\<lambda>r. routed_in routes r \<and> P r) table"
    by (auto simp: open_ids_def backlog_def)
  ultimately show ?thesis by (simp only: length_map)
qed

definition healthy_ids :: "event_routes \<Rightarrow> string set \<Rightarrow> 'p ob_row list \<Rightarrow> string set" where
  "healthy_ids routes bad table = open_ids (\<lambda>r. routed_in routes r \<and> ob_id r \<notin> bad) table"

definition stuck_ids :: "event_routes \<Rightarrow> string set \<Rightarrow> 'p ob_row list \<Rightarrow> string set" where
  "stuck_ids routes bad table = open_ids (\<lambda>r. routed_in routes r \<and> ob_id r \<in> bad) table"

lemma finite_open [simp]: "finite (open_ids P table)"
  by (simp add: open_ids_def)

lemma working_tick:
  assumes w: "working routes bad env" and u: "unique_ids table" and n: "MAX_REFUSALS_PER_TICK \<le> n"
    and few: "card (stuck_ids routes bad table) < MAX_REFUSALS_PER_TICK"
    and run: "runOnce env n table log = (s, table', log')"
  shows "unique_ids table'" "stuck_ids routes bad table' \<subseteq> stuck_ids routes bad table"
    "healthy_ids routes bad table' \<subseteq> healthy_ids routes bad table"
    "healthy_ids routes bad table \<noteq> {} \<Longrightarrow> healthy_ids routes bad table' \<subset> healthy_ids routes bad table"
proof -
  obtain pile stray where b: "relay_batch env n table = take n pile @ stray" "mset pile = mset (backlog routes table)"
    "\<forall>r \<in> set stray. \<not> routed_in routes r" using working_batch [OF w] by blast
  let ?bad = "\<lambda>r. ob_id r \<in> bad" and ?H = "\<lambda>r. routed_in routes r \<and> ob_id r \<notin> bad" and ?B = "\<lambda>r. routed_in routes r \<and> ob_id r \<in> bad"
  have st: "stable_kind ?H" "stable_kind ?B" using routed_stable [of routes bad False] routed_stable [of routes bad True] by simp_all
  have in_pile: "set pile = set (backlog routes table)" using b(2) by (metis set_mset_mset)
  have routed: "routed_in routes r" if "r \<in> set pile" for r using that in_pile by (simp add: backlog_def)
  have nb: "length (filter ?bad (take n pile)) \<le> card (stuck_ids routes bad table)"
    using filter_short [OF b(2)] filter_open [OF u] by (simp add: stuck_ids_def)
  have "filter ?B stray = []" using b(3) by (simp add: filter_empty_conv)
  moreover have "filter ?B (take n pile) = filter ?bad (take n pile)"
    using routed by (intro filter_cong) (auto dest: in_set_takeD)
  ultimately have bound: "length (filter ?B (relay_batch env n table)) < MAX_REFUSALS_PER_TICK"
    using nb few by (simp add: b(1))
  define acc where "acc = relay_rows env (relay_batch env n table)
    \<lparr>ra_table = table, ra_log = log, ra_refused = [], ra_unrouted = [], ra_published = 0\<rparr>"
  have con: "re_connected env" "re_commits env" using w by (simp_all add: working_def)
  have t': "open_ids P table' = open_ids P table - ob_id ` {r \<in> set (relay_batch env n table). ?H r}" if P: "stable_kind P" for P
    using run con relay_rows_open [OF w P, of "\<lparr>ra_table = table, ra_log = log, ra_refused = [], ra_unrouted = [], ra_published = 0\<rparr>"
        "relay_batch env n table"] bound open_charge [OF P]
    by (auto simp: runOnce_def Let_def acc_def [symmetric] split: if_splits)
  show "stuck_ids routes bad table' \<subseteq> stuck_ids routes bad table" "healthy_ids routes bad table' \<subseteq> healthy_ids routes bad table"
    using t' [OF st(1)] t' [OF st(2)] by (auto simp: stuck_ids_def healthy_ids_def)
  show "unique_ids table'"
  proof -
    have m: "marks routes table log' table'" using tick_marks [OF run u] w by (simp add: working_def)
    then have "map ob_id table' = map ob_id table"
      by (intro nth_equalityI) (auto simp: marks_def list_all2_conv_all_nth same_event_def)
    then show ?thesis using u by (simp add: unique_ids_def)
  qed
  show "healthy_ids routes bad table' \<subset> healthy_ids routes bad table" if ne: "healthy_ids routes bad table \<noteq> {}"
  proof -
    have "\<exists>r \<in> set (take n pile). ?H r"
    proof (rule ccontr)
      assume no: "\<not> (\<exists>r \<in> set (take n pile). ?H r)"
      then have "filter ?bad (take n pile) = take n pile" using routed by (auto simp: filter_id_conv dest: in_set_takeD)
      then have "length (take n pile) < n" using nb few n by simp
      then have "take n pile = pile" by simp
      moreover have "\<exists>r \<in> set pile. ?H r"
        using ne in_pile by (auto simp: healthy_ids_def open_ids_def backlog_def)
      ultimately show False using no by simp
    qed
    then obtain r where r: "r \<in> set (take n pile)" "?H r" by blast
    then have "r \<in> set (backlog routes table)" using in_pile by (auto dest: in_set_takeD)
    then have "ob_id r \<in> healthy_ids routes bad table" using r(2) by (auto simp: healthy_ids_def open_ids_def backlog_def)
    moreover have "ob_id r \<notin> healthy_ids routes bad table'"
      using t' [OF st(1)] r b(1) by (auto simp: healthy_ids_def)
    moreover have "healthy_ids routes bad table' \<subseteq> healthy_ids routes bad table" using t' [OF st(1)] by (auto simp: healthy_ids_def)
    ultimately show ?thesis by blast
  qed
qed

text \<open>Any tick, whatever fails in it, only takes rows off the backlog.\<close>

lemma relay_rows_shrink:
  assumes "stable_kind P"
  shows "open_ids P (ra_table (relay_rows env rows acc)) \<subseteq> open_ids P (ra_table acc)"
proof (induction rows arbitrary: acc)
  case (Cons row rows)
  have "open_ids P (ra_table (relay_rows env rows acc1)) \<subseteq> open_ids P (ra_table acc)"
    if "open_ids P (ra_table acc1) \<subseteq> open_ids P (ra_table acc)" for acc1
    using Cons.IH [of acc1] that by blast
  then show ?case using open_update [OF assms] by (auto simp: Let_def split: option.split)
qed simp

lemma tick_shrinks:
  assumes "stable_kind P" and "runOnce env n table log = (s, table', log')"
  shows "open_ids P table' \<subseteq> open_ids P table"
  using assms(2) relay_rows_shrink [OF assms(1), of env "relay_batch env n table"] open_charge [OF assms(1)]
  by (fastforce simp: runOnce_def Let_def split: if_splits)

lemma tick_ids:
  assumes "runOnce env n table log = (s, table', log')" and "unique_ids table"
  shows "unique_ids table'"
proof -
  have "marks (re_routes env) table log' table'" using tick_marks [OF assms refl] by blast
  then have "map ob_id table' = map ob_id table"
    by (intro nth_equalityI) (auto simp: marks_def list_all2_conv_all_nth same_event_def)
  then show ?thesis using assms(2) by (simp add: unique_ids_def)
qed

fun run_ticks :: "'p relay_env list \<Rightarrow> nat \<Rightarrow> 'p ob_row list \<Rightarrow> 'p queue_log \<Rightarrow> 'p ob_row list \<times> 'p queue_log" where
  "run_ticks [] n table log = (table, log)"
| "run_ticks (env # envs) n table log = (case runOnce env n table log of (s, table', log') \<Rightarrow> run_ticks envs n table' log')"

lemma ticks_drain:
  assumes "MAX_REFUSALS_PER_TICK \<le> n" "unique_ids table"
    and "card (stuck_ids routes bad table) < MAX_REFUSALS_PER_TICK"
    and "card (healthy_ids routes bad table) \<le> count_where (working routes bad) envs"
  shows "healthy_ids routes bad (fst (run_ticks envs n table log)) = {}"
  using assms
proof (induction envs arbitrary: table log)
  case Nil
  then show ?case by (simp add: healthy_ids_def row_simps)
next
  case (Cons env envs)
  obtain s table' log' where run: "runOnce env n table log = (s, table', log')" by (cases "runOnce env n table log") auto
  have ids: "unique_ids table'" using tick_ids [OF run Cons.prems(2)] .
  have fewer: "stuck_ids routes bad table' \<subseteq> stuck_ids routes bad table" "healthy_ids routes bad table' \<subseteq> healthy_ids routes bad table"
    using tick_shrinks [OF _ run] routed_stable [of routes bad True] routed_stable [of routes bad False]
    by (simp_all add: stuck_ids_def healthy_ids_def)
  have fin: "finite (stuck_ids routes bad table)" "finite (healthy_ids routes bad table)"
    by (simp_all add: stuck_ids_def healthy_ids_def)
  have stuck: "card (stuck_ids routes bad table') < MAX_REFUSALS_PER_TICK"
    using card_mono [OF fin(1) fewer(1)] Cons.prems(3) by simp
  have "card (healthy_ids routes bad table') \<le> count_where (working routes bad) envs"
  proof (cases "working routes bad env \<and> healthy_ids routes bad table \<noteq> {}")
    case True
    then have "card (healthy_ids routes bad table') < card (healthy_ids routes bad table)"
      using working_tick(4) [OF _ Cons.prems(2,1,3) run] by (intro psubset_card_mono [OF fin(2)]) simp
    then show ?thesis using Cons.prems(4) True by (simp add: row_simps)
  next
    case False
    then have "healthy_ids routes bad table = {} \<or> \<not> working routes bad env" by blast
    then show ?thesis using card_mono [OF fin(2) fewer(2)] Cons.prems(4) fewer(2) by (auto simp: row_simps)
  qed
  then have "healthy_ids routes bad (fst (run_ticks envs n table' log')) = {}"
    using Cons.IH [OF Cons.prems(1) ids stuck] by simp
  then show ?case using run by simp
qed


section \<open>Properties\<close>

definition ORDER_EVENTS :: queue_spec where
  "ORDER_EVENTS = \<lparr>qs_name = ''order-events'', qs_dlq = ''order-events-dlq''\<rparr>"

definition ORDER_EVENT_ROUTES :: event_routes where
  "ORDER_EVENT_ROUTES = [(''order.placed'', ORDER_EVENTS), (''order.paid'', ORDER_EVENTS), (''order.failed'', ORDER_EVENTS),
     (''order.expired'', ORDER_EVENTS), (''order.cancelled'', ORDER_EVENTS)]"

text \<open> C6: no event is lost, misdelivered or invented. Whatever the queues answer, whichever ticks fail to commit
  and however rows are locked or swept: every event once committed is still in the outbox, unpublished, or
  the queue that the service's route table names for its type has taken a job with exactly its content; and
  every job on any queue is such an event on the queue named for its type. \<close>

theorem no_event_lost:
  assumes "(outbox_step routes)\<^sup>*\<^sup>* outbox_start s"
  shows "(\<forall>a \<in> set (os_appended s).
      (\<exists>q j. routeOf routes (ob_eventType a) = Some q \<and> (q, j) \<in> set (os_log s) \<and> carries j a) \<or>
      (\<exists>r \<in> set (os_table s). same_event a r \<and> ob_publishedAt r = None)) \<and>
    (\<forall>(q, j) \<in> set (os_log s). routeOf routes (jb_eventType j) = Some q \<and> (\<exists>a \<in> set (os_appended s). carries j a))"
proof -
  have "(\<exists>q j. routeOf routes (ob_eventType a) = Some q \<and> (q, j) \<in> set (os_log s) \<and> carries j a) \<longleftrightarrow> taken routes (os_log s) a" for a
    unfolding taken_def addressed_def by force
  moreover have "addressed routes (q, j) a \<longleftrightarrow> carries j a \<and> routeOf routes (jb_eventType j) = Some q" for q j a
    by (auto simp: addressed_def carries_def)
  ultimately show ?thesis using outbox_reachable [OF assms] unfolding outbox_inv_def by blast
qed

definition sample_row :: "string \<Rightarrow> int \<Rightarrow> unit ob_row" where
  "sample_row i t = \<lparr>ob_id = i, ob_aggregateType = ''order'', ob_aggregateId = ''8591612313777884'', ob_eventType = ''order.paid'',
     ob_payload = (), ob_traceparent = None, ob_attempts = 0, ob_createdAt = t, ob_publishedAt = None\<rparr>"

lemma sample_simps [simp]:
  "ob_id (sample_row i t) = i" "ob_publishedAt (sample_row i t) = None" "ob_createdAt (sample_row i t) = t"
  "ob_eventType (sample_row i t) = ''order.paid''" "jb_outboxId (job_of env (sample_row i t)) = i"
  "routeOf ORDER_EVENT_ROUTES ''order.paid'' = Some ORDER_EVENTS" "''order.paid'' \<in> fst ` set ORDER_EVENT_ROUTES"
  by (simp_all add: sample_row_def job_of_def routeOf_def ORDER_EVENT_ROUTES_def)

definition sample_env :: "string set \<Rightarrow> unit relay_env" where
  "sample_env bad = \<lparr>re_routes = ORDER_EVENT_ROUTES, re_connected = True, re_locked = (\<lambda>_. False), re_opened = (\<lambda>_. True),
     re_accepts = (\<lambda>q j log. jb_outboxId j \<notin> bad), re_traceparent = (\<lambda>_. None), re_now = 9, re_commits = True\<rparr>"

text \<open>An event appended, then published by a tick that does not commit.\<close>

lemma sample_run:
  "\<exists>s. (outbox_step ORDER_EVENT_ROUTES)\<^sup>*\<^sup>* outbox_start s \<and> os_appended s = [sample_row ''8591612313777883'' 7] \<and>
     os_table s = [sample_row ''8591612313777883'' 7] \<and> length (os_log s) = 1"
proof -
  let ?r = "sample_row ''8591612313777883'' 7"
  let ?s1 = "\<lparr>os_table = [?r], os_log = [], os_appended = [?r]\<rparr>"
  let ?env = "(sample_env {})\<lparr>re_commits := False\<rparr>"
  have "isRoutableId ''8591612313777883''"
    by (simp add: isRoutableId_def toRoutable_def CANONICAL_DECIMAL_def nat_of_dec_def MIN_ROUTABLE_ID_def MAX_VALUE_def
        TIMESTAMP_SHIFT_def SEQUENCE_BITS_def NODE_BITS_def digit_val_def is_digit_def list_all_iff)
  then have new: "\<And>s row. outbox_append ORDER_EVENT_ROUTES ''8591612313777883'' None 7 \<lparr>rc_aggregateType = ''order'',
      rc_aggregateId = ''8591612313777884'', rc_eventType = ''order.paid'', rc_payload = ()\<rparr> = Inr row \<Longrightarrow>
      os_appended s = [] \<Longrightarrow> outbox_step ORDER_EVENT_ROUTES s (s\<lparr>os_table := os_table s @ [row], os_appended := os_appended s @ [row]\<rparr>)"
    by (intro outbox_step.appends) simp_all
  have "outbox_append ORDER_EVENT_ROUTES ''8591612313777883'' None 7 \<lparr>rc_aggregateType = ''order'',
      rc_aggregateId = ''8591612313777884'', rc_eventType = ''order.paid'', rc_payload = ()\<rparr> = Inr ?r"
    by (simp add: outbox_append_def routeOf_def ORDER_EVENT_ROUTES_def sample_row_def)
  from new [OF this, of outbox_start] have s1: "outbox_step ORDER_EVENT_ROUTES outbox_start ?s1" by (simp add: outbox_start_def)
  have "runOnce ?env 5 [?r] [] = (None, [?r], [(ORDER_EVENTS, job_of ?env ?r)])"
    by (simp add: runOnce_def relay_batch_def lockUnpublished_def sample_env_def sample_row_def ORDER_EVENT_ROUTES_def routeOf_def
        publish_def Let_def)
  then have "outbox_step ORDER_EVENT_ROUTES ?s1 (?s1\<lparr>os_table := [?r], os_log := [(ORDER_EVENTS, job_of ?env ?r)]\<rparr>)"
    using outbox_step.ticks [of ?env 5 ?s1] by (simp add: sample_env_def)
  then show ?thesis using s1 by (intro exI conjI) (erule converse_rtranclp_into_rtranclp [OF _ r_into_rtranclp], auto)
qed

theorem no_event_lost_witness:
  "\<exists>s. (outbox_step ORDER_EVENT_ROUTES)\<^sup>*\<^sup>* outbox_start s \<and> length (os_log s) = 1 \<and>
     (\<forall>(q, j) \<in> set (os_log s). q = ORDER_EVENTS \<and> carries j (sample_row ''8591612313777883'' 7))"
proof -
  obtain s where s: "(outbox_step ORDER_EVENT_ROUTES)\<^sup>*\<^sup>* outbox_start s" "os_appended s = [sample_row ''8591612313777883'' 7]" "length (os_log s) = 1"
    using sample_run by blast
  have "\<forall>(q, j) \<in> set (os_log s). routeOf ORDER_EVENT_ROUTES (jb_eventType j) = Some q \<and> carries j (sample_row ''8591612313777883'' 7)"
    using no_event_lost [OF s(1)] s(2) by auto
  then show ?thesis using s by (intro exI [of _ s]) (auto simp: carries_def)
qed



text \<open>
  Three refused rows at the head are enough to stop every row behind them: no attempt is charged, so
  nothing tells them apart from an outage.
\<close>

lemma three_refused_block:
  "runOnce (sample_env {''1'', ''2'', ''3''}) 5 [sample_row ''1'' 1, sample_row ''2'' 2, sample_row ''3'' 3, sample_row ''4'' 4] [] =
     (Some (0, 3), [sample_row ''1'' 1, sample_row ''2'' 2, sample_row ''3'' 3, sample_row ''4'' 4], [])"
proof -
  let ?t = "[sample_row ''1'' 1, sample_row ''2'' 2, sample_row ''3'' 3, sample_row ''4'' 4]" and ?e = "sample_env {''1'', ''2'', ''3''}"
  have env: "re_routes ?e = ORDER_EVENT_ROUTES" "re_connected ?e" "\<not> re_locked ?e i" "re_commits ?e" "re_opened ?e n"
    "re_accepts ?e q j log = (jb_outboxId j \<notin> {''1'', ''2'', ''3''})" for i n q j log by (simp_all add: sample_env_def)
  have keys: "sort_key (\<lambda>r. nat_of_dec (ob_id r)) ?t = ?t" "sort_key ob_createdAt ?t = ?t"
    by (simp_all add: sort_key_id_if_sorted nat_of_dec_def digit_val_def)
  have "filter (\<lambda>r. ob_publishedAt r = None \<and> ob_eventType r \<in> fst ` set ORDER_EVENT_ROUTES \<and> \<not> re_locked ?e (ob_id r)) ?t = ?t"
    "filter (\<lambda>r. ob_publishedAt r = None \<and> ob_eventType r \<notin> fst ` set ORDER_EVENT_ROUTES \<and> \<not> re_locked ?e (ob_id r)) ?t = []"
    using env(3) by simp_all
  then have "relay_batch ?e 5 ?t = ?t"
    using keys by (simp add: relay_batch_def lockUnpublished_def env(1) Let_def) (simp add: ORDER_EVENT_ROUTES_def)
  then show ?thesis
    using env by (simp add: runOnce_def publish_def Let_def MAX_REFUSALS_PER_TICK_def charge_def)
qed

end
