(* ===== verification/Inbox_Consumer.thy ===== *)
theory Inbox_Consumer
  imports Outbox_Relay
begin

text \<open>
  The consumer's side of messaging (\<^verbatim>\<open>queue/domain-event.processor.ts\<close>, \<^verbatim>\<open>queue/dead-letter.ts\<close>,
  \<^verbatim>\<open>queue/dead-letter.replay.ts\<close> and \<^verbatim>\<open>inbox\<close> under \<^verbatim>\<open>src/packages/messaging/src\<close>): the inbox claim that shares
  a transaction with the effect, the sweep that ages claims out, and the decision to replay a dead letter.
  The handlers, the service's data and the world outside are arguments.
\<close>


section \<open>The inbox\<close>

record inbox_row =
  ib_id :: string
  ib_consumer :: string
  ib_messageId :: string
  ib_eventType :: string
  ib_processedAt :: int

datatype msg_error = Permanent_error string | Unhandled_event string | Other_error string

definition has_claim :: "string \<Rightarrow> string \<Rightarrow> inbox_row list \<Rightarrow> bool" where
  "has_claim consumer messageId inbox \<longleftrightarrow> (\<exists>r \<in> set inbox. ib_consumer r = consumer \<and> ib_messageId r = messageId)"

text \<open>\<open>minted\<close>: what the id service answers, asked before the insert.\<close>

definition inbox_claim :: "msg_error + string \<Rightarrow> string \<Rightarrow> string \<Rightarrow> string \<Rightarrow> int \<Rightarrow> (inbox_row list, msg_error, bool) act" where
  "inbox_claim minted consumer messageId eventType now =
     act_bind (act_lift minted) (\<lambda>i. (\<lambda>inbox.
       if has_claim consumer messageId inbox then (Inr False, inbox)
       else if i \<in> ib_id ` set inbox then (Inl (Other_error ''inbox_pkey''), inbox)
       else (Inr True, inbox @ [\<lparr>ib_id = i, ib_consumer = consumer, ib_messageId = messageId, ib_eventType = eventType,
               ib_processedAt = now\<rparr>])))"


section \<open>One delivery\<close>

type_synonym ('d, 'w) tx_step = "('d, msg_error, ('w \<Rightarrow> 'w) option) act"

record ('p, 'd, 'w) dispatcher =
  dp_handles :: "string \<Rightarrow> bool"
  dp_prepare :: "'p event_job \<Rightarrow> 'w \<Rightarrow> (msg_error + ('d, 'w) tx_step) \<times> 'w"

record ('d, 'w) consumer_state =
  cs_inbox :: "inbox_row list"
  cs_data :: 'd
  cs_world :: 'w

datatype consume_result = Processed | Duplicate

text \<open>A commit is confirmed, fails, or takes effect without its answer.\<close>

datatype commit_fate = Commit_ok | Commit_failed | Commit_unanswered

definition consume_tx ::
    "msg_error + string \<Rightarrow> string \<Rightarrow> 'p event_job \<Rightarrow> int \<Rightarrow> msg_error + ('d, 'w) tx_step \<Rightarrow>
     (inbox_row list \<times> 'd, msg_error, consume_result \<times> ('w \<Rightarrow> 'w) option) act" where
  "consume_tx minted consumer job now prepared =
     in_tx (\<lambda>(inbox, d).
       case inbox_claim minted consumer (jb_outboxId job) (jb_eventType job) now inbox of
         (Inl e, inbox1) \<Rightarrow> (Inl e, (inbox1, d))
       | (Inr claimed, inbox1) \<Rightarrow>
           if \<not> claimed then (Inr (Duplicate, None), (inbox1, d))
           else case prepared of
               Inl e \<Rightarrow> (Inl e, (inbox1, d))
             | Inr step \<Rightarrow> (case step d of
                   (Inl e, d1) \<Rightarrow> (Inl e, (inbox1, d1))
                 | (Inr effect, d1) \<Rightarrow> (Inr (Processed, effect), (inbox1, d1))))"

definition process ::
    "string \<Rightarrow> ('p, 'd, 'w) dispatcher \<Rightarrow> msg_error + string \<Rightarrow> commit_fate \<Rightarrow> int \<Rightarrow> 'p event_job option \<Rightarrow>
     (('d, 'w) consumer_state, msg_error, consume_result) act" where
  "process consumer dispatcher minted fate now job st =
     (case job of
        None \<Rightarrow> (Inl (Permanent_error ''Malformed domain event envelope''), st)
      | Some j \<Rightarrow>
          if \<not> isWellFormedEnvelope job then (Inl (Permanent_error ''Malformed domain event envelope''), st)
          else let (prepared, w1) = dp_prepare dispatcher j (cs_world st);
                   st1 = st\<lparr>cs_world := w1\<rparr>
               in case consume_tx minted consumer j now prepared (cs_inbox st, cs_data st) of
                    (Inl e, _) \<Rightarrow> (Inl e, st1)
                  | (Inr (outcome, effect), (inbox1, d1)) \<Rightarrow>
                      (case fate of
                         Commit_failed \<Rightarrow> (Inl (Other_error ''commit''), st1)
                       | Commit_unanswered \<Rightarrow> (Inl (Other_error ''commit''), st1\<lparr>cs_inbox := inbox1, cs_data := d1\<rparr>)
                       | Commit_ok \<Rightarrow> (Inr outcome, st1\<lparr>cs_inbox := inbox1, cs_data := d1,
                           cs_world := (case effect of None \<Rightarrow> w1 | Some run \<Rightarrow> run w1)\<rparr>)))"


section \<open>Retention and dead letters\<close>

definition REMOVE_ON_FAIL_AGE_SEC :: int where "REMOVE_ON_FAIL_AGE_SEC = 604800"
definition DAY_MS :: int where "DAY_MS = 86400000"
definition SEC_PER_DAY :: int where "SEC_PER_DAY = 86400"

definition assertClearsRedeliveryHorizon :: "int \<Rightarrow> bool" where
  "assertClearsRedeliveryHorizon days \<longleftrightarrow> \<not> days * SEC_PER_DAY < REMOVE_ON_FAIL_AGE_SEC"

text \<open>One batch: how many claims it deleted and what it left; \<open>chosen\<close> as for the outbox.\<close>

definition sweep_inbox :: "int \<Rightarrow> int \<Rightarrow> nat \<Rightarrow> (string \<Rightarrow> bool) \<Rightarrow> inbox_row list \<Rightarrow> nat \<times> inbox_row list" where
  "sweep_inbox days now batchSize chosen inbox =
     (let cutoff = now - days * DAY_MS;
          doomed = map ib_id (take batchSize (filter (\<lambda>r. chosen (ib_id r)) (filter (\<lambda>r. ib_processedAt r < cutoff) inbox)))
      in (length (filter (\<lambda>r. ib_id r \<in> set doomed) inbox), filter (\<lambda>r. ib_id r \<notin> set doomed) inbox))"

lemma sweep_inbox_keeps:
  assumes "r \<in> set inbox" "\<not> ib_processedAt r < now - days * DAY_MS" "distinct (map ib_id inbox)"
  shows "r \<in> set (snd (sweep_inbox days now batchSize chosen inbox))"
proof -
  let ?old = "filter (\<lambda>r. chosen (ib_id r)) (filter (\<lambda>r. ib_processedAt r < now - days * DAY_MS) inbox)"
  have "x \<in> set inbox \<and> ib_processedAt x < now - days * DAY_MS" if "x \<in> set (take batchSize ?old)" for x
    using in_set_takeD [OF that] by auto
  then have old: "r \<noteq> x" if "x \<in> set (take batchSize ?old)" for x using that assms(2) by blast
  have "ib_id r \<notin> set (map ib_id (take batchSize ?old))"
  proof
    assume "ib_id r \<in> set (map ib_id (take batchSize ?old))"
    then obtain x where x: "x \<in> set (take batchSize ?old)" "ib_id x = ib_id r" by fastforce
    then have "x \<in> set inbox" using in_set_takeD by fastforce
    then have "x = r" using x(2) assms(1,3) by (metis distinct_map inj_onD)
    then show False using old x(1) by blast
  qed
  then show ?thesis using assms(1) by (simp add: sweep_inbox_def Let_def)
qed

datatype dead_letter_reason = Reason_permanent | Reason_attempts_exhausted

record 'p dead_letter =
  dl_job :: "'p event_job"
  dl_failedReason :: string
  dl_attemptsMade :: nat
  dl_failedAt :: int

text \<open>\<open>None\<close>: the queue will retry. Otherwise the entry for the dead-letter queue and its slot there.\<close>

definition route_failed ::
    "bool \<Rightarrow> bool \<Rightarrow> string \<Rightarrow> 'p event_job \<Rightarrow> string \<Rightarrow> nat \<Rightarrow> int \<Rightarrow> (dead_letter_reason \<times> string \<times> 'p dead_letter) option" where
  "route_failed finished unrecoverable jobId job message attemptsMade now =
     (if \<not> finished then None
      else Some (if unrecoverable then Reason_permanent else Reason_attempts_exhausted,
        if jb_outboxId job = [] then jobId else jobIdFor (jb_outboxId job),
        \<lparr>dl_job = job, dl_failedReason = message, dl_attemptsMade = attemptsMade, dl_failedAt = now\<rparr>))"

datatype replay_skip = Skip_malformed | Skip_applied int | Skip_too_old | Skip_dry_run | Skip_dry_run_forced

definition olderThanRetention :: "int \<Rightarrow> int \<Rightarrow> 'p event_job \<Rightarrow> bool" where
  "olderThanRetention now inboxRetentionMs job \<longleftrightarrow>
     (case jb_occurredAt job of None \<Rightarrow> True | Some t \<Rightarrow> inboxRetentionMs < now - t)"

text \<open>Up to the point where a replay puts traffic on the queue: \<open>None\<close> is to go ahead.\<close>

definition replay_decide ::
    "(string \<Rightarrow> int option) \<Rightarrow> int \<Rightarrow> int \<Rightarrow> bool \<Rightarrow> bool \<Rightarrow> 'p event_job option \<Rightarrow> replay_skip option" where
  "replay_decide inboxLookup inboxRetentionMs now force dryRun job =
     (case job of
        None \<Rightarrow> Some Skip_malformed
      | Some j \<Rightarrow>
          if \<not> isWellFormedEnvelope job then Some Skip_malformed
          else case inboxLookup (jb_outboxId j) of
              Some appliedAt \<Rightarrow> Some (Skip_applied appliedAt)
            | None \<Rightarrow>
                if olderThanRetention now inboxRetentionMs j \<and> \<not> force then Some Skip_too_old
                else if dryRun
                     then Some (if force \<and> olderThanRetention now inboxRetentionMs j then Skip_dry_run_forced else Skip_dry_run)
                     else None)"

definition inbox_lookup :: "string \<Rightarrow> inbox_row list \<Rightarrow> string \<Rightarrow> int option" where
  "inbox_lookup consumer inbox messageId =
     map_option ib_processedAt (find_where (\<lambda>r. ib_consumer r = consumer \<and> ib_messageId r = messageId) inbox)"


section \<open>What one delivery changes\<close>

text \<open>A delivery applies its message, claim and data together, or leaves both alone.\<close>

definition applied_row :: "inbox_row list \<Rightarrow> inbox_row list \<Rightarrow> string \<Rightarrow> string \<Rightarrow> int \<Rightarrow> bool" where
  "applied_row inbox inbox' consumer messageId now \<longleftrightarrow> (\<exists>r. inbox' = inbox @ [r] \<and> ib_consumer r = consumer \<and>
     ib_messageId r = messageId \<and> ib_processedAt r = now \<and> ib_id r \<notin> ib_id ` set inbox) \<and> \<not> has_claim consumer messageId inbox"

lemmas consume_unfold = consume_tx_def inbox_claim_def in_tx_def act_bind_def act_lift_def

lemma consume_tx_cases:
  assumes "consume_tx minted consumer job now prepared (inbox, d) = (r, (inbox', d'))"
  shows "(inbox' = inbox \<and> d' = d \<and> (\<forall>e. r \<noteq> Inr (Processed, e))) \<or>
    (\<exists>e. r = Inr (Processed, e)) \<and> applied_row inbox inbox' consumer (jb_outboxId job) now"
proof (cases minted)
  case (Inl e)
  then show ?thesis using assms by (auto simp: consume_unfold)
next
  case (Inr i)
  show ?thesis
  proof (cases "has_claim consumer (jb_outboxId job) inbox \<or> i \<in> ib_id ` set inbox")
    case True
    then show ?thesis using assms Inr by (cases "has_claim consumer (jb_outboxId job) inbox") (auto simp: consume_unfold)
  next
    case new: False
    show ?thesis
    proof (cases prepared)
      case (Inl e)
      then show ?thesis using assms Inr new by (auto simp: consume_unfold)
    next
      case run: (Inr step)
      obtain y d1 where "step d = (y, d1)" by force
      then show ?thesis using assms Inr new run by (cases y) (auto simp: consume_unfold applied_row_def)
    qed
  qed
qed

lemma process_cases:
  assumes "process consumer dispatcher minted fate now job st = (r, st')"
  shows "(cs_inbox st' = cs_inbox st \<and> cs_data st' = cs_data st \<and> r \<noteq> Inr Processed) \<or>
    (\<exists>j. job = Some j \<and> isWellFormedEnvelope job \<and> (\<forall>x. r = Inr x \<longrightarrow> x = Processed) \<and>
      applied_row (cs_inbox st) (cs_inbox st') consumer (jb_outboxId j) now)"
proof (cases "\<exists>j. job = Some j \<and> isWellFormedEnvelope job")
  case False
  then have "st' = st" "r \<noteq> Inr Processed" using assms by (auto simp: process_def split: option.splits)
  then show ?thesis by simp
next
  case True
  then obtain j where j: "job = Some j" "isWellFormedEnvelope job" by blast
  obtain p w1 where p: "dp_prepare dispatcher j (cs_world st) = (p, w1)" by force
  obtain x i1 d1 where tx: "consume_tx minted consumer j now p (cs_inbox st, cs_data st) = (x, (i1, d1))"
    by (cases "consume_tx minted consumer j now p (cs_inbox st, cs_data st)") auto
  show ?thesis
  proof (cases x)
    case (Inl e)
    then have "r = Inl e" "st' = st\<lparr>cs_world := w1\<rparr>" using assms j p tx by (simp_all add: process_def)
    then show ?thesis by simp
  next
    case (Inr y)
    obtain outcome effect where y: "y = (outcome, effect)" by force
    have c: "(i1 = cs_inbox st \<and> d1 = cs_data st \<and> outcome \<noteq> Processed) \<or>
        outcome = Processed \<and> applied_row (cs_inbox st) i1 consumer (jb_outboxId j) now"
      using consume_tx_cases [OF tx] Inr y by auto
    show ?thesis
    proof (cases fate)
      case Commit_failed
      then show ?thesis using assms j p tx Inr y by (auto simp: process_def)
    next
      case Commit_unanswered
      then show ?thesis using assms j p tx Inr y c by (auto simp: process_def)
    next
      case Commit_ok
      then show ?thesis using assms j p tx Inr y c by (auto simp: process_def)
    qed
  qed
qed


section \<open>Deliveries over time\<close>

text \<open>
  \<open>hs_delivered\<close>: everything handed to a consumer. \<open>hs_applied\<close>: every delivery that changed the claims or
  the service's data. Nothing is assumed of the queue: a message is delivered as often as it likes and as
  late as it likes - retries, jobs re-run by hand, rows published again, replays asked with force.
\<close>

record ('p, 'd, 'w) history =
  hs_state :: "('d, 'w) consumer_state"
  hs_delivered :: "'p event_job option list"
  hs_applied :: "(string \<times> string \<times> int) list"
  hs_now :: int

inductive consumer_step :: "int \<Rightarrow> ('p, 'd, 'w) history \<Rightarrow> ('p, 'd, 'w) history \<Rightarrow> bool" for days :: int where
  delivers: "process consumer dispatcher minted fate now (Some j) (hs_state s) = (r, st') \<Longrightarrow> hs_now s \<le> now \<Longrightarrow>
    consumer_step days s \<lparr>hs_state = st', hs_delivered = hs_delivered s @ [Some j],
      hs_applied = hs_applied s @ (if cs_inbox st' = cs_inbox (hs_state s) \<and> cs_data st' = cs_data (hs_state s)
        then [] else [(consumer, jb_outboxId j, now)]),
      hs_now = now\<rparr>"
| unreadable: "process consumer dispatcher minted fate now job (hs_state s) = (r, st') \<Longrightarrow> job = None \<Longrightarrow>
    consumer_step days s (s\<lparr>hs_state := st', hs_delivered := hs_delivered s @ [job]\<rparr>)"
| sweeps: "hs_now s \<le> now \<Longrightarrow>
    consumer_step days s (s\<lparr>hs_state := (hs_state s)\<lparr>cs_inbox := snd (sweep_inbox days now batchSize chosen (cs_inbox (hs_state s)))\<rparr>, hs_now := now\<rparr>)"

definition history_start :: "'d \<Rightarrow> 'w \<Rightarrow> int \<Rightarrow> ('p, 'd, 'w) history" where
  "history_start d w now = \<lparr>hs_state = \<lparr>cs_inbox = [], cs_data = d, cs_world = w\<rparr>, hs_delivered = [], hs_applied = [], hs_now = now\<rparr>"

text \<open>Two effects of one message on one consumer lie further apart than the retention of its claim.\<close>

definition kept_apart :: "int \<Rightarrow> (string \<times> string \<times> int) list \<Rightarrow> bool" where
  "kept_apart gap applied \<longleftrightarrow> sorted_wrt (\<lambda>(c, m, t) (c', m', t'). c = c' \<and> m = m' \<longrightarrow> gap < t' - t) applied"

text \<open>Every claim applied is in the inbox, or older than the retention.\<close>

definition still_claimed :: "inbox_row list \<Rightarrow> string \<Rightarrow> string \<Rightarrow> int \<Rightarrow> bool" where
  "still_claimed inbox c m t \<longleftrightarrow> (\<exists>r \<in> set inbox. ib_consumer r = c \<and> ib_messageId r = m \<and> t \<le> ib_processedAt r)"

definition history_inv :: "int \<Rightarrow> ('p, 'd, 'w) history \<Rightarrow> bool" where
  "history_inv days s \<longleftrightarrow> distinct (map ib_id (cs_inbox (hs_state s))) \<and> kept_apart (days * DAY_MS) (hs_applied s) \<and>
     (\<forall>(c, m, t) \<in> set (hs_applied s). t \<le> hs_now s \<and>
        (still_claimed (cs_inbox (hs_state s)) c m t \<or> t < hs_now s - days * DAY_MS))"

lemma kept_apart_append:
  assumes "kept_apart gap applied" and "\<And>t. (c, m, t) \<in> set applied \<Longrightarrow> gap < now - t"
  shows "kept_apart gap (applied @ [(c, m, now)])"
  using assms by (auto simp: kept_apart_def sorted_wrt_append)

lemma still_claimed_has: "still_claimed inbox c m t \<Longrightarrow> has_claim c m inbox"
  by (auto simp: still_claimed_def has_claim_def)

lemma history_step:
  assumes "consumer_step days s s'" and s: "history_inv days s"
  shows "history_inv days s'"
  using assms(1)
proof cases
  case (delivers consumer dispatcher minted fate now j r st')
  let ?inbox = "cs_inbox (hs_state s)"
  have later: "t \<le> now \<and> (still_claimed ?inbox c m t \<or> t < now - days * DAY_MS)" if "(c, m, t) \<in> set (hs_applied s)" for c m t
    using s that delivers(3) unfolding history_inv_def by fastforce
  have base: "kept_apart (days * DAY_MS) (hs_applied s)" "distinct (map ib_id ?inbox)" using s by (simp_all add: history_inv_def)
  from process_cases [OF delivers(2)] consider
    "cs_inbox st' = ?inbox \<and> cs_data st' = cs_data (hs_state s)" | "applied_row ?inbox (cs_inbox st') consumer (jb_outboxId j) now"
    by blast
  then show ?thesis
  proof cases
    case 1
    then show ?thesis using delivers(1) later base unfolding history_inv_def by auto
  next
    case 2
    then obtain row where row: "cs_inbox st' = ?inbox @ [row]" "ib_consumer row = consumer" "ib_messageId row = jb_outboxId j"
        "ib_processedAt row = now" "ib_id row \<notin> ib_id ` set ?inbox" and none: "\<not> has_claim consumer (jb_outboxId j) ?inbox"
      by (auto simp: applied_row_def)
    have s': "s' = \<lparr>hs_state = st', hs_delivered = hs_delivered s @ [Some j],
        hs_applied = hs_applied s @ [(consumer, jb_outboxId j, now)], hs_now = now\<rparr>"
      using delivers(1) row(1) by simp
    have "days * DAY_MS < now - t" if "(consumer, jb_outboxId j, t) \<in> set (hs_applied s)" for t
      using later [OF that] none still_claimed_has by fastforce
    then have "kept_apart (days * DAY_MS) (hs_applied s')" using kept_apart_append base(1) s' by simp
    moreover have "still_claimed (cs_inbox st') c m t" if "still_claimed ?inbox c m t" for c m t
      using that row(1) by (auto simp: still_claimed_def)
    moreover have "still_claimed (cs_inbox st') consumer (jb_outboxId j) now" using row by (auto simp: still_claimed_def)
    ultimately show ?thesis using later base(2) row s' unfolding history_inv_def by fastforce
  qed
next
  case (unreadable consumer dispatcher minted fate now job r st')
  then have "st' = hs_state s" by (simp add: process_def)
  then show ?thesis using unreadable s by (simp add: history_inv_def)
next
  case (sweeps now batchSize chosen)
  let ?inbox = "cs_inbox (hs_state s)"
  let ?kept = "snd (sweep_inbox days now batchSize chosen ?inbox)"
  have keys: "distinct (map ib_id ?inbox)" using s by (simp add: history_inv_def)
  have kept: "r \<in> set ?kept \<or> ib_processedAt r < now - days * DAY_MS" if "r \<in> set ?inbox" for r
    using sweep_inbox_keeps that keys by blast
  have "t \<le> now \<and> (still_claimed ?kept c m t \<or> t < now - days * DAY_MS)" if "(c, m, t) \<in> set (hs_applied s)" for c m t
    using s that sweeps(2) kept unfolding history_inv_def still_claimed_def by fastforce
  moreover have "distinct (map ib_id ?kept)" using keys by (simp add: sweep_inbox_def Let_def distinct_map_filter)
  ultimately show ?thesis using sweeps(1) s unfolding history_inv_def by fastforce
qed

lemma history_reachable:
  assumes "(consumer_step days)\<^sup>*\<^sup>* (history_start d w now) s"
  shows "history_inv days s"
  using assms
proof (induction rule: rtranclp_induct)
  case base
  then show ?case by (simp add: history_inv_def history_start_def kept_apart_def)
next
  case (step s s')
  then show ?case using history_step by blast
qed


section \<open>Exactly once\<close>

definition sample_job :: "string \<Rightarrow> unit event_job" where
  "sample_job i = \<lparr>jb_outboxId = i, jb_aggregateType = ''order'', jb_aggregateId = ''8591612313777884'',
     jb_eventType = ''order.paid'', jb_payload = (), jb_occurredAt = Some 5, jb_traceparent = None\<rparr>"

definition counting :: "(unit, nat, nat) dispatcher" where
  "counting = \<lparr>dp_handles = (\<lambda>_. True), dp_prepare = (\<lambda>_ w. (Inr (\<lambda>d. (Inr None, Suc d)), w))\<rparr>"

definition once_claimed :: "(nat, nat) consumer_state" where
  "once_claimed = \<lparr>cs_inbox = [\<lparr>ib_id = ''1'', ib_consumer = ''mail'', ib_messageId = ''8591612313777883'',
     ib_eventType = ''order.paid'', ib_processedAt = 10\<rparr>], cs_data = 1, cs_world = 0\<rparr>"

lemma sample_routable: "isRoutableId ''8591612313777883''"
  by (simp add: isRoutableId_def toRoutable_def CANONICAL_DECIMAL_def nat_of_dec_def MIN_ROUTABLE_ID_def MAX_VALUE_def
      TIMESTAMP_SHIFT_def SEQUENCE_BITS_def NODE_BITS_def digit_val_def is_digit_def list_all_iff)

lemma sample_well_formed: "isWellFormedEnvelope (Some (sample_job ''8591612313777883''))"
  using sample_routable by (simp add: isWellFormedEnvelope_def sample_job_def)

lemma first_delivery:
  "process ''mail'' counting (Inr ''1'') Commit_ok 10 (Some (sample_job ''8591612313777883''))
     \<lparr>cs_inbox = [], cs_data = 0, cs_world = 0\<rparr> = (Inr Processed, once_claimed)"
  using sample_well_formed
  by (simp add: process_def counting_def consume_unfold has_claim_def once_claimed_def) (simp add: sample_job_def)

lemma second_delivery:
  "process ''mail'' counting (Inr ''2'') Commit_ok 20 (Some (sample_job ''8591612313777883'')) once_claimed = (Inr Duplicate, once_claimed)"
  using sample_well_formed
  by (simp add: process_def counting_def consume_unfold has_claim_def once_claimed_def) (simp add: sample_job_def)

definition twice_delivered :: "(unit, nat, nat) history" where
  "twice_delivered = \<lparr>hs_state = once_claimed,
     hs_delivered = [Some (sample_job ''8591612313777883''), Some (sample_job ''8591612313777883'')],
     hs_applied = [(''mail'', ''8591612313777883'', 10)], hs_now = 20\<rparr>"

lemma sample_history: "(consumer_step 7)\<^sup>*\<^sup>* (history_start 0 0 0) twice_delivered"
proof -
  let ?j = "sample_job ''8591612313777883''"
  let ?s1 = "\<lparr>hs_state = once_claimed, hs_delivered = [Some ?j], hs_applied = [(''mail'', ''8591612313777883'', 10)], hs_now = 10\<rparr>"
  have id: "jb_outboxId ?j = ''8591612313777883''" by (simp add: sample_job_def)
  have "consumer_step 7 (history_start 0 0 0) ?s1"
    using consumer_step.delivers [of "''mail''" counting "Inr ''1''" Commit_ok 10 ?j "history_start 0 0 0" "Inr Processed" once_claimed 7]
      first_delivery id by (simp add: history_start_def once_claimed_def)
  moreover have "consumer_step 7 ?s1 twice_delivered"
    using consumer_step.delivers [of "''mail''" counting "Inr ''2''" Commit_ok 20 ?j ?s1 "Inr Duplicate" once_claimed 7]
      second_delivery id by (simp add: twice_delivered_def)
  ultimately show ?thesis by (meson converse_rtranclp_into_rtranclp r_into_rtranclp)
qed

text \<open> C5: a message takes effect once for as long as its claim is kept. However often and however late messages
  are delivered - retried, re-run, published again or replayed with force - and whatever the handlers, failed
  and unanswered commits and sweeps do in between, two deliveries of one message that both changed a
  consumer's claims or data lie further apart than the inbox retention, which the boot check makes at
  least the queue's failed-job retention. \<close>

theorem effect_applied_once:
  assumes "(consumer_step days)\<^sup>*\<^sup>* (history_start d w now) s" and "assertClearsRedeliveryHorizon days"
    and "i < k" and "k < length (hs_applied s)"
    and "hs_applied s ! i = (consumer, message, first)" and "hs_applied s ! k = (consumer, message, second)"
  shows "days * DAY_MS < second - first \<and> REMOVE_ON_FAIL_AGE_SEC * 1000 < second - first"
proof -
  have "kept_apart (days * DAY_MS) (hs_applied s)" using history_reachable [OF assms(1)] by (simp add: history_inv_def)
  then have "days * DAY_MS < second - first"
    using assms(3-6) unfolding kept_apart_def sorted_wrt_iff_nth_less by fastforce
  then show ?thesis
    using assms(2) by (simp add: assertClearsRedeliveryHorizon_def REMOVE_ON_FAIL_AGE_SEC_def SEC_PER_DAY_def DAY_MS_def)
qed

text \<open>The claim swept after eight days, and the message replayed with force: the effect comes again, eight days later.\<close>

definition replayed_late :: "(unit, nat, nat) history" where
  "replayed_late = \<lparr>hs_state = \<lparr>cs_inbox = [\<lparr>ib_id = ''1'', ib_consumer = ''mail'', ib_messageId = ''8591612313777883'',
       ib_eventType = ''order.paid'', ib_processedAt = 8 * DAY_MS\<rparr>], cs_data = 2, cs_world = 0\<rparr>,
     hs_delivered = hs_delivered twice_delivered @ [Some (sample_job ''8591612313777883'')],
     hs_applied = [(''mail'', ''8591612313777883'', 10), (''mail'', ''8591612313777883'', 8 * DAY_MS)], hs_now = 8 * DAY_MS\<rparr>"

lemma late_history: "(consumer_step 7)\<^sup>*\<^sup>* (history_start 0 0 0) replayed_late"
proof -
  let ?j = "sample_job ''8591612313777883''"
  let ?swept = "twice_delivered\<lparr>hs_state := \<lparr>cs_inbox = [], cs_data = 1, cs_world = 0\<rparr>, hs_now := 8 * DAY_MS\<rparr>"
  have "snd (sweep_inbox 7 (8 * DAY_MS) 5 (\<lambda>_. True) (cs_inbox once_claimed)) = []"
    by (simp add: sweep_inbox_def once_claimed_def DAY_MS_def)
  then have swept: "consumer_step 7 twice_delivered ?swept"
    using consumer_step.sweeps [of twice_delivered "8 * DAY_MS" 7 5 "\<lambda>_. True"]
    by (simp add: twice_delivered_def once_claimed_def DAY_MS_def)
  have id: "jb_outboxId ?j = ''8591612313777883''" "jb_eventType ?j = ''order.paid''" by (simp_all add: sample_job_def)
  have "process ''mail'' counting (Inr ''1'') Commit_ok (8 * DAY_MS) (Some ?j) (hs_state ?swept) = (Inr Processed, hs_state replayed_late)"
    using sample_well_formed id
    by (simp add: process_def counting_def consume_unfold has_claim_def replayed_late_def)
  from consumer_step.delivers [OF this] have "consumer_step 7 ?swept replayed_late"
    using id by (simp add: replayed_late_def twice_delivered_def)
  then show ?thesis using sample_history swept by (meson rtranclp.rtrancl_into_rtrancl)
qed

theorem effect_applied_once_witness:
  "hs_applied replayed_late = [(''mail'', ''8591612313777883'', 10), (''mail'', ''8591612313777883'', 8 * DAY_MS)] \<and>
     hs_delivered replayed_late = replicate 3 (Some (sample_job ''8591612313777883'')) \<and> 7 * DAY_MS < 8 * DAY_MS - 10"
  using effect_applied_once [OF late_history, of 0 1 "''mail''" "''8591612313777883''" 10 "8 * DAY_MS"]
  by (simp add: assertClearsRedeliveryHorizon_def REMOVE_ON_FAIL_AGE_SEC_def SEC_PER_DAY_def replayed_late_def twice_delivered_def
      numeral_3_eq_3)

text \<open> C39: a replay never doubles an effect. When the replay of a dead letter, asked without force and with the
  inbox retention as its horizon, decides to put the message back on its queue, its consumer has never
  applied that message, even if the claim would have been swept since. The event's own stamp is no later
  than any delivery that applied it. \<close>

theorem replay_never_doubles:
  assumes "(consumer_step days)\<^sup>*\<^sup>* (history_start d w start) s" and "assertClearsRedeliveryHorizon days"
    and "replay_decide (inbox_lookup consumer (cs_inbox (hs_state s))) (days * DAY_MS) now False dryRun (Some j) = None"
    and "hs_now s \<le> now"
    and "\<And>occurred t. jb_occurredAt j = Some occurred \<Longrightarrow> (consumer, jb_outboxId j, t) \<in> set (hs_applied s) \<Longrightarrow> occurred \<le> t"
  shows "(consumer, jb_outboxId j, t) \<notin> set (hs_applied s)"
proof
  assume a: "(consumer, jb_outboxId j, t) \<in> set (hs_applied s)"
  have none: "inbox_lookup consumer (cs_inbox (hs_state s)) (jb_outboxId j) = None"
    and young: "\<not> olderThanRetention now (days * DAY_MS) j"
    using assms(3) by (auto simp: replay_decide_def split: if_splits option.splits)
  obtain occurred where occ: "jb_occurredAt j = Some occurred" "\<not> days * DAY_MS < now - occurred"
    using young by (auto simp: olderThanRetention_def split: option.splits)
  have "\<not> (\<exists>r \<in> set (cs_inbox (hs_state s)). ib_consumer r = consumer \<and> ib_messageId r = jb_outboxId j)"
    using none by (auto simp: inbox_lookup_def find_where_None)
  then have "t < hs_now s - days * DAY_MS"
    using history_reachable [OF assms(1)] a unfolding history_inv_def still_claimed_def by blast
  then show False using assms(4) assms(5) [OF occ(1) a] occ(2) by simp
qed

theorem replay_never_doubles_witness:
  "replay_decide (inbox_lookup ''mail'' (cs_inbox (hs_state twice_delivered))) (7 * DAY_MS) 30 False False
       (Some (sample_job ''8591612313777885'')) = None \<and>
     (''mail'', ''8591612313777885'', 10) \<notin> set (hs_applied twice_delivered) \<and> hs_applied twice_delivered \<noteq> []"
proof -
  have "isRoutableId ''8591612313777885''"
    by (simp add: isRoutableId_def toRoutable_def CANONICAL_DECIMAL_def nat_of_dec_def MIN_ROUTABLE_ID_def MAX_VALUE_def
        TIMESTAMP_SHIFT_def SEQUENCE_BITS_def NODE_BITS_def digit_val_def is_digit_def list_all_iff)
  then have d: "replay_decide (inbox_lookup ''mail'' (cs_inbox (hs_state twice_delivered))) (7 * DAY_MS) 30 False False
      (Some (sample_job ''8591612313777885'')) = None"
    by (simp add: replay_decide_def isWellFormedEnvelope_def sample_job_def inbox_lookup_def twice_delivered_def once_claimed_def
        row_simps olderThanRetention_def DAY_MS_def)
  have id: "jb_outboxId (sample_job ''8591612313777885'') = ''8591612313777885''" by (simp add: sample_job_def)
  have "(''mail'', jb_outboxId (sample_job ''8591612313777885''), 10) \<notin> set (hs_applied twice_delivered)"
    by (rule replay_never_doubles [OF sample_history _ d])
      (simp_all add: id twice_delivered_def assertClearsRedeliveryHorizon_def REMOVE_ON_FAIL_AGE_SEC_def SEC_PER_DAY_def)
  then show ?thesis using d id by (simp add: twice_delivered_def)
qed

text \<open>A failed delivery leaves no trace. Unless the failure is a commit that took effect without its answer,
  a delivery that fails changes neither the claims nor the service's data, so the redelivery is as good as new. \<close>

lemma failed_delivery_changes_nothing:
  assumes "process consumer dispatcher minted fate now job st = (Inl e, st')" and "fate \<noteq> Commit_unanswered"
  shows "cs_inbox st' = cs_inbox st \<and> cs_data st' = cs_data st"
  using assms by (auto simp: process_def Let_def split: option.splits prod.splits sum.splits if_splits commit_fate.splits)

end
