(* ===== verification/User_Store.thy ===== *)
theory User_Store
  imports Kernel_Values Snowflake_Codec
begin

text \<open>
  The user-service's tables (\<^verbatim>\<open>infrastructure/schema/user.schema.ts\<close> under
  \<^verbatim>\<open>src/apps/user-service/src/modules/user\<close>) and its repositories: accounts, refresh tokens, the two kinds of
  single-use token, session epochs. Every method is an atomic statement or transaction; ids are minted before it,
  and the moment it reads the clock is an argument.
\<close>


section \<open>Tables\<close>

datatype user_role = Role_ADMIN | Role_CUSTOMER

datatype user_error =
    Unauthorized string
  | Forbidden string
  | Bad_request string
  | Email_taken
  | Invalid_email string
  | Id_unavailable
  | Db_error string
  | Epoch_not_published string int
  | Service_unavailable string
  | Reader_error string

record user_row =
  us_id :: string
  us_email :: string
  us_passwordHash :: string
  us_role :: user_role
  us_emailVerifiedAt :: "int option"
  us_tokenEpoch :: int
  us_createdAt :: int
  us_updatedAt :: int

record refresh_token =
  rt_id :: string
  rt_userId :: string
  rt_tokenHash :: string
  rt_familyId :: string
  rt_replacedBy :: "string option"
  rt_expiresAt :: int
  rt_revokedAt :: "int option"
  rt_createdAt :: int

record single_use =
  su_id :: string
  su_userId :: string
  su_tokenHash :: string
  su_expiresAt :: int
  su_consumedAt :: "int option"
  su_createdAt :: int

record user_db =
  ud_users :: "user_row list"
  ud_tokens :: "refresh_token list"
  ud_resets :: "single_use list"
  ud_verifs :: "single_use list"

type_synonym 'a user_act = "(user_db, user_error, 'a) act"

definition isEmailVerified :: "user_row \<Rightarrow> bool" where
  "isEmailVerified u \<longleftrightarrow> us_emailVerifiedAt u \<noteq> None"

definition find_user :: "string \<Rightarrow> user_db \<Rightarrow> user_row option" where
  "find_user userId db = find_where (\<lambda>u. us_id u = userId) (ud_users db)"

definition update_user :: "(user_row \<Rightarrow> bool) \<Rightarrow> int \<Rightarrow> (user_row \<Rightarrow> user_row) \<Rightarrow> user_db \<Rightarrow> user_db" where
  "update_user p now f db = db\<lparr>ud_users := update_where p (\<lambda>u. (f u)\<lparr>us_updatedAt := now\<rparr>) (ud_users db)\<rparr>"


section \<open>Accounts\<close>

definition findByEmail :: "string \<Rightarrow> user_db \<Rightarrow> user_row option" where
  "findByEmail email db = find_where (\<lambda>u. us_email u = email) (ud_users db)"

text \<open>\<open>None\<close>: the e-mail is taken. No role given is the column's default.\<close>

definition user_create :: "string \<Rightarrow> string \<Rightarrow> string \<Rightarrow> user_role option \<Rightarrow> int \<Rightarrow> user_row option user_act" where
  "user_create i email passwordHash role now db =
     (if \<exists>u \<in> set (ud_users db). us_email u = email then (Inr None, db)
      else if \<exists>u \<in> set (ud_users db). us_id u = i then (Inl (Db_error ''users_pkey''), db)
      else let row = \<lparr>us_id = i, us_email = email, us_passwordHash = passwordHash,
             us_role = (case role of None \<Rightarrow> Role_CUSTOMER | Some r \<Rightarrow> r), us_emailVerifiedAt = None, us_tokenEpoch = 0,
             us_createdAt = now, us_updatedAt = now\<rparr>
           in (Inr (Some row), db\<lparr>ud_users := ud_users db @ [row]\<rparr>))"

definition markEmailVerified :: "string \<Rightarrow> int \<Rightarrow> unit user_act" where
  "markEmailVerified userId now =
     act_modify (update_user (\<lambda>u. us_id u = userId \<and> us_emailVerifiedAt u = None) now (\<lambda>u. u\<lparr>us_emailVerifiedAt := Some now\<rparr>))"


section \<open>Refresh tokens\<close>

definition insert_token :: "refresh_token \<Rightarrow> unit user_act" where
  "insert_token r db =
     (if \<exists>q \<in> set (ud_tokens db). rt_id q = rt_id r then (Inl (Db_error ''refresh_tokens_pkey''), db)
      else if \<exists>q \<in> set (ud_tokens db). rt_tokenHash q = rt_tokenHash r then (Inl (Db_error ''refresh_tokens_token_hash_unique''), db)
      else if find_user (rt_userId r) db = None then (Inl (Db_error ''refresh_tokens_user_id_fk''), db)
      else (Inr (), db\<lparr>ud_tokens := ud_tokens db @ [r]\<rparr>))"

datatype create_outcome = Created user_role int | Credentials_changed

definition rt_create :: "string \<Rightarrow> string \<Rightarrow> string \<Rightarrow> string \<Rightarrow> int \<Rightarrow> string \<Rightarrow> int \<Rightarrow> create_outcome user_act" where
  "rt_create i userId tokenHash familyId expiresAt verifiedPasswordHash now = in_tx (\<lambda>db.
     case find_user userId db of
       None \<Rightarrow> (Inr Credentials_changed, db)
     | Some owner \<Rightarrow>
         if us_passwordHash owner \<noteq> verifiedPasswordHash then (Inr Credentials_changed, db)
         else act_bind (insert_token \<lparr>rt_id = i, rt_userId = userId, rt_tokenHash = tokenHash, rt_familyId = familyId,
                  rt_replacedBy = None, rt_expiresAt = expiresAt, rt_revokedAt = None, rt_createdAt = now\<rparr>)
                (\<lambda>_. act_return (Created (us_role owner) (us_tokenEpoch owner))) db)"

record token_owner =
  to_userId :: string
  to_familyId :: string
  to_rotatable :: bool

definition findOwner :: "string \<Rightarrow> int \<Rightarrow> user_db \<Rightarrow> token_owner option" where
  "findOwner tokenHash now db = map_option (\<lambda>r. \<lparr>to_userId = rt_userId r, to_familyId = rt_familyId r,
       to_rotatable = (rt_revokedAt r = None \<and> rt_replacedBy r = None \<and> now < rt_expiresAt r)\<rparr>)
     (find_where (\<lambda>r. rt_tokenHash r = tokenHash) (ud_tokens db))"

record rotate_input =
  ri_presentedTokenHash :: string
  ri_expectedUserId :: string
  ri_successorId :: "string option"
  ri_newTokenHash :: string
  ri_newExpiresAt :: int
  ri_reuseGraceMs :: int

datatype rotate_outcome = Rotated string user_role int | Rot_invalid | Reuse string string bool | Replayed

definition revoke_where :: "(refresh_token \<Rightarrow> bool) \<Rightarrow> int \<Rightarrow> user_db \<Rightarrow> user_db" where
  "revoke_where p now db = db\<lparr>ud_tokens := update_where (\<lambda>r. p r \<and> rt_revokedAt r = None) (\<lambda>r. r\<lparr>rt_revokedAt := Some now\<rparr>) (ud_tokens db)\<rparr>"

definition some_live :: "(refresh_token \<Rightarrow> bool) \<Rightarrow> user_db \<Rightarrow> bool" where
  "some_live p db \<longleftrightarrow> (\<exists>r \<in> set (ud_tokens db). p r \<and> rt_revokedAt r = None)"

definition rotate_live :: "rotate_input \<Rightarrow> int \<Rightarrow> refresh_token \<Rightarrow> rotate_outcome user_act" where
  "rotate_live inp now record =
     (if rt_expiresAt record \<le> now
      then act_bind (act_modify (\<lambda>db. db\<lparr>ud_tokens := update_where (\<lambda>r. rt_id r = rt_id record) (\<lambda>r. r\<lparr>rt_revokedAt := Some now\<rparr>) (ud_tokens db)\<rparr>))
        (\<lambda>_. act_return Rot_invalid)
      else case ri_successorId inp of
        None \<Rightarrow> act_return Rot_invalid
      | Some successor \<Rightarrow>
          act_bind (act_get (find_user (rt_userId record))) (\<lambda>owner.
          act_bind (insert_token \<lparr>rt_id = successor, rt_userId = rt_userId record, rt_tokenHash = ri_newTokenHash inp,
            rt_familyId = rt_familyId record, rt_replacedBy = None, rt_expiresAt = ri_newExpiresAt inp, rt_revokedAt = None,
            rt_createdAt = now\<rparr>) (\<lambda>_.
          act_bind (act_modify (\<lambda>db. db\<lparr>ud_tokens := update_where (\<lambda>r. rt_id r = rt_id record)
            (\<lambda>r. r\<lparr>rt_revokedAt := Some now, rt_replacedBy := Some successor\<rparr>) (ud_tokens db)\<rparr>)) (\<lambda>_.
          case owner of
            None \<Rightarrow> act_throw (Db_error ''owner is undefined'')
          | Some u \<Rightarrow> act_return (Rotated (rt_userId record) (us_role u) (us_tokenEpoch u))))))"

definition rotate_token :: "rotate_input \<Rightarrow> int \<Rightarrow> rotate_outcome user_act" where
  "rotate_token inp now = in_tx (\<lambda>db.
     case find_where (\<lambda>r. rt_tokenHash r = ri_presentedTokenHash inp) (ud_tokens db) of
       None \<Rightarrow> (Inr Rot_invalid, db)
     | Some record \<Rightarrow>
         if rt_userId record \<noteq> ri_expectedUserId inp then (Inr Rot_invalid, db)
         else if rt_replacedBy record \<noteq> None \<and> (case rt_revokedAt record of None \<Rightarrow> False | Some t \<Rightarrow> now - t \<le> ri_reuseGraceMs inp)
         then (Inr Replayed, db)
         else if rt_revokedAt record \<noteq> None \<or> rt_replacedBy record \<noteq> None
         then (Inr (Reuse (rt_userId record) (rt_familyId record) (some_live (\<lambda>r. rt_familyId r = rt_familyId record) db)),
               revoke_where (\<lambda>r. rt_familyId r = rt_familyId record) now db)
         else rotate_live inp now record db)"

text \<open>
  The bump, the new hash and the revoke in one transaction. \<open>replacement\<close>: the new hash, with the hash the caller
  verified. \<open>None\<close>: nothing was written.
\<close>

definition replaces :: "string \<Rightarrow> (string \<times> string option) option \<Rightarrow> user_row \<Rightarrow> bool" where
  "replaces userId replacement u \<longleftrightarrow> us_id u = userId \<and>
     (case replacement of Some (_, Some verified) \<Rightarrow> us_passwordHash u = verified | _ \<Rightarrow> True)"

definition bumped :: "(string \<times> string option) option \<Rightarrow> user_row \<Rightarrow> user_row" where
  "bumped replacement u = u\<lparr>us_tokenEpoch := us_tokenEpoch u + 1,
     us_passwordHash := (case replacement of None \<Rightarrow> us_passwordHash u | Some (h, _) \<Rightarrow> h)\<rparr>"

definition revokeAllForUser :: "string \<Rightarrow> (string \<times> string option) option \<Rightarrow> int \<Rightarrow> int option user_act" where
  "revokeAllForUser userId replacement now = in_tx (\<lambda>db.
     let db1 = update_user (replaces userId replacement) now (bumped replacement) db
     in case find_where (replaces userId replacement) (ud_users db) of
          None \<Rightarrow> (Inr None, db1)
        | Some u \<Rightarrow> (Inr (Some (us_tokenEpoch u + 1)), revoke_where (\<lambda>r. rt_userId r = userId) now db1))"

definition revokeFamily :: "string \<Rightarrow> string \<Rightarrow> int \<Rightarrow> bool user_act" where
  "revokeFamily userId familyId now = in_tx (\<lambda>db.
     (Inr (some_live (\<lambda>r. rt_userId r = userId \<and> rt_familyId r = familyId) db),
      revoke_where (\<lambda>r. rt_userId r = userId \<and> rt_familyId r = familyId) now db))"

record active_session =
  as_id :: string
  as_createdAt :: int
  as_expiresAt :: int
  as_current :: bool

definition listActiveSessions :: "string \<Rightarrow> string option \<Rightarrow> int \<Rightarrow> user_db \<Rightarrow> active_session list" where
  "listActiveSessions userId currentTokenHash now db =
     map (\<lambda>r. \<lparr>as_id = rt_familyId r, as_createdAt = rt_createdAt r, as_expiresAt = rt_expiresAt r,
         as_current = (currentTokenHash = Some (rt_tokenHash r))\<rparr>)
       (sort_key (\<lambda>r. - rt_createdAt r) (filter (\<lambda>r. rt_userId r = userId \<and> rt_revokedAt r = None \<and> now < rt_expiresAt r) (ud_tokens db)))"

text \<open>One batch of the sweep; \<open>chosen\<close>: which of the doomed rows the LIMIT reaches first.\<close>

definition deleteCollectable :: "int \<Rightarrow> int \<Rightarrow> nat \<Rightarrow> (string \<Rightarrow> bool) \<Rightarrow> nat user_act" where
  "deleteCollectable expiredBefore revokedBefore limit chosen db =
     (let doomed = map rt_id (take limit (filter (\<lambda>r. chosen (rt_id r) \<and>
            (case rt_revokedAt r of None \<Rightarrow> rt_expiresAt r < expiredBefore | Some t \<Rightarrow> t < revokedBefore)) (ud_tokens db)))
      in (Inr (length (filter (\<lambda>r. rt_id r \<in> set doomed) (ud_tokens db))),
          db\<lparr>ud_tokens := filter (\<lambda>r. rt_id r \<notin> set doomed) (ud_tokens db)\<rparr>))"


section \<open>Single-use tokens\<close>

text \<open>The password-reset and the e-mail-verification repositories are the same code over two tables.\<close>

definition single_create :: "string \<Rightarrow> string \<Rightarrow> string \<Rightarrow> int \<Rightarrow> int \<Rightarrow> user_db \<Rightarrow> single_use list \<Rightarrow> user_error + single_use list" where
  "single_create i userId tokenHash expiresAt now db tokens =
     (if \<exists>t \<in> set tokens. su_id t = i \<or> su_tokenHash t = tokenHash then Inl (Db_error ''unique'')
      else if find_user userId db = None then Inl (Db_error ''user_id_fk'')
      else Inr (tokens @ [\<lparr>su_id = i, su_userId = userId, su_tokenHash = tokenHash, su_expiresAt = expiresAt,
             su_consumedAt = None, su_createdAt = now\<rparr>]))"

definition consumable :: "string \<Rightarrow> int \<Rightarrow> single_use \<Rightarrow> bool" where
  "consumable tokenHash now t \<longleftrightarrow> su_tokenHash t = tokenHash \<and> su_consumedAt t = None \<and> now < su_expiresAt t"

definition single_consume :: "string \<Rightarrow> int \<Rightarrow> single_use list \<Rightarrow> string option \<times> single_use list" where
  "single_consume tokenHash now tokens =
     (map_option su_userId (find_where (consumable tokenHash now) tokens),
      update_where (consumable tokenHash now) (\<lambda>t. t\<lparr>su_consumedAt := Some now\<rparr>) tokens)"

definition single_invalidate :: "string \<Rightarrow> string \<Rightarrow> int \<Rightarrow> single_use list \<Rightarrow> single_use list" where
  "single_invalidate userId keptTokenHash now =
     update_where (\<lambda>t. su_userId t = userId \<and> su_consumedAt t = None \<and> su_tokenHash t \<noteq> keptTokenHash)
       (\<lambda>t. t\<lparr>su_consumedAt := Some now\<rparr>)"

definition single_sweep :: "int \<Rightarrow> nat \<Rightarrow> (string \<Rightarrow> bool) \<Rightarrow> single_use list \<Rightarrow> nat \<times> single_use list" where
  "single_sweep cutoff limit chosen tokens =
     (let doomed = map su_id (take limit (filter (\<lambda>t. chosen (su_id t) \<and>
            (su_expiresAt t < cutoff \<or> (case su_consumedAt t of None \<Rightarrow> False | Some c \<Rightarrow> c < cutoff))) tokens))
      in (length (filter (\<lambda>t. su_id t \<in> set doomed) tokens), filter (\<lambda>t. su_id t \<notin> set doomed) tokens))"

definition reset_create :: "string \<Rightarrow> string \<Rightarrow> string \<Rightarrow> int \<Rightarrow> int \<Rightarrow> unit user_act" where
  "reset_create i userId tokenHash expiresAt now =
     act_try (\<lambda>db. map_sum id (\<lambda>ts. db\<lparr>ud_resets := ts\<rparr>) (single_create i userId tokenHash expiresAt now db (ud_resets db)))"

definition reset_consume :: "string \<Rightarrow> int \<Rightarrow> string option user_act" where
  "reset_consume tokenHash now =
     act_state (\<lambda>db. map_prod id (\<lambda>ts. db\<lparr>ud_resets := ts\<rparr>) (single_consume tokenHash now (ud_resets db)))"

definition reset_invalidateOthers :: "string \<Rightarrow> string \<Rightarrow> int \<Rightarrow> unit user_act" where
  "reset_invalidateOthers userId keptTokenHash now =
     act_modify (\<lambda>db. db\<lparr>ud_resets := single_invalidate userId keptTokenHash now (ud_resets db)\<rparr>)"

definition reset_sweep :: "int \<Rightarrow> nat \<Rightarrow> (string \<Rightarrow> bool) \<Rightarrow> nat user_act" where
  "reset_sweep cutoff limit chosen =
     act_state (\<lambda>db. map_prod id (\<lambda>ts. db\<lparr>ud_resets := ts\<rparr>) (single_sweep cutoff limit chosen (ud_resets db)))"

definition verif_create :: "string \<Rightarrow> string \<Rightarrow> string \<Rightarrow> int \<Rightarrow> int \<Rightarrow> unit user_act" where
  "verif_create i userId tokenHash expiresAt now =
     act_try (\<lambda>db. map_sum id (\<lambda>ts. db\<lparr>ud_verifs := ts\<rparr>) (single_create i userId tokenHash expiresAt now db (ud_verifs db)))"

definition verif_consume :: "string \<Rightarrow> int \<Rightarrow> string option user_act" where
  "verif_consume tokenHash now =
     act_state (\<lambda>db. map_prod id (\<lambda>ts. db\<lparr>ud_verifs := ts\<rparr>) (single_consume tokenHash now (ud_verifs db)))"

definition verif_invalidateOthers :: "string \<Rightarrow> string \<Rightarrow> int \<Rightarrow> unit user_act" where
  "verif_invalidateOthers userId keptTokenHash now =
     act_modify (\<lambda>db. db\<lparr>ud_verifs := single_invalidate userId keptTokenHash now (ud_verifs db)\<rparr>)"

definition verif_sweep :: "int \<Rightarrow> nat \<Rightarrow> (string \<Rightarrow> bool) \<Rightarrow> nat user_act" where
  "verif_sweep cutoff limit chosen =
     act_state (\<lambda>db. map_prod id (\<lambda>ts. db\<lparr>ud_verifs := ts\<rparr>) (single_sweep cutoff limit chosen (ud_verifs db)))"


section \<open>Session epochs\<close>

definition epoch_current :: "string \<Rightarrow> user_db \<Rightarrow> int option" where
  "epoch_current userId db = map_option us_tokenEpoch (find_user userId db)"

text \<open>The bump's own statement; \<open>None\<close> for a missing user.\<close>

definition epoch_bump :: "string \<Rightarrow> int \<Rightarrow> int option user_act" where
  "epoch_bump userId now db =
     (Inr (map_option (\<lambda>u. us_tokenEpoch u + 1) (find_user userId db)),
      update_user (\<lambda>u. us_id u = userId) now (\<lambda>u. u\<lparr>us_tokenEpoch := us_tokenEpoch u + 1\<rparr>) db)"

text \<open>A change is a user with its stamp; the cursor is the stamp and the id, ids ordered as bigints.\<close>

definition past_cursor :: "(int \<times> string) option \<Rightarrow> int \<Rightarrow> user_row \<Rightarrow> bool" where
  "past_cursor after since u \<longleftrightarrow>
     (case after of
        None \<Rightarrow> since \<le> us_updatedAt u
      | Some (t, i) \<Rightarrow> t \<le> us_updatedAt u \<and> (t < us_updatedAt u \<or> nat_of_dec i < nat_of_dec (us_id u)))"

definition listChanges :: "int \<Rightarrow> (int \<times> string) option \<Rightarrow> nat \<Rightarrow> user_db \<Rightarrow> user_row list" where
  "listChanges since after limit db =
     take limit (sort_key us_updatedAt (sort_key (\<lambda>u. nat_of_dec (us_id u)) (filter (past_cursor after since) (ud_users db))))"

end
