(* ===== verification/User_Accounts.thy ===== *)
theory User_Accounts
  imports User_Store
begin

text \<open>
  Accounts and sessions: the use cases and services of the user-service (\<^verbatim>\<open>application\<close> under
  \<^verbatim>\<open>src/apps/user-service/src/modules/user\<close>), the epochs and the denylist it keeps in Redis, and the access-token
  verifier every service runs (\<^verbatim>\<open>src/packages/auth-verifier/src\<close>). Hashes, signatures, random tokens, minted ids,
  Redis and the clock are arguments.
\<close>


section \<open>Redis\<close>

text \<open>A command is confirmed, fails, or takes effect without its answer.\<close>

datatype call_fate = Call_ok | Call_failed | Call_unanswered

type_synonym epochs = "string \<Rightarrow> int option"

definition raise_epoch :: "int \<Rightarrow> int option \<Rightarrow> int" where
  "raise_epoch proposed current = (case current of None \<Rightarrow> proposed | Some c \<Rightarrow> if proposed \<le> c then c else proposed)"

definition MAX_ATTEMPTS :: nat where "MAX_ATTEMPTS = 3"

text \<open>With \<open>left\<close> attempts left; the attempt made is \<open>MAX_ATTEMPTS + 1 - left\<close>.\<close>

fun publish_attempts :: "nat \<Rightarrow> (nat \<Rightarrow> call_fate) \<Rightarrow> string \<Rightarrow> int \<Rightarrow> epochs \<Rightarrow> (user_error + int) \<times> epochs" where
  "publish_attempts 0 fates userId epoch published = (Inl (Service_unavailable ''session epoch publish failed''), published)"
| "publish_attempts (Suc left) fates userId epoch published =
     (let raised = published(userId \<mapsto> raise_epoch epoch (published userId))
      in case fates (MAX_ATTEMPTS - left) of
           Call_ok \<Rightarrow> (Inr (raise_epoch epoch (published userId)), raised)
         | Call_failed \<Rightarrow> publish_attempts left fates userId epoch published
         | Call_unanswered \<Rightarrow> publish_attempts left fates userId epoch raised)"

definition publish_epoch :: "(nat \<Rightarrow> call_fate) \<Rightarrow> string \<Rightarrow> int \<Rightarrow> epochs \<Rightarrow> (user_error + int) \<times> epochs" where
  "publish_epoch = publish_attempts MAX_ATTEMPTS"

record user_sys =
  sy_db :: user_db
  sy_epochs :: epochs
  sy_denied :: "string \<Rightarrow> int option"

type_synonym 'a sys_act = "(user_sys, user_error, 'a) act"

definition on_db :: "'a user_act \<Rightarrow> 'a sys_act" where
  "on_db m = (\<lambda>s. case m (sy_db s) of (r, db) \<Rightarrow> (r, s\<lparr>sy_db := db\<rparr>))"

definition publish_sys :: "(nat \<Rightarrow> call_fate) \<Rightarrow> string \<Rightarrow> int \<Rightarrow> int sys_act" where
  "publish_sys fates userId epoch = (\<lambda>s. case publish_epoch fates userId epoch (sy_epochs s) of (r, e) \<Rightarrow> (r, s\<lparr>sy_epochs := e\<rparr>))"

definition publishEpochOrRaise :: "(nat \<Rightarrow> call_fate) \<Rightarrow> string \<Rightarrow> int \<Rightarrow> unit sys_act" where
  "publishEpochOrRaise fates userId epoch = (\<lambda>s. case publish_sys fates userId epoch s of
     (Inl _, s1) \<Rightarrow> (Inl (Epoch_not_published userId epoch), s1)
   | (Inr _, s1) \<Rightarrow> (Inr (), s1))"

definition denylist :: "call_fate \<Rightarrow> string \<Rightarrow> int \<Rightarrow> int \<Rightarrow> unit sys_act" where
  "denylist fate jti expiresAt now = (\<lambda>s.
     if expiresAt - now \<le> 0 then (Inr (), s)
     else case fate of
         Call_ok \<Rightarrow> (Inr (), s\<lparr>sy_denied := (sy_denied s)(jti \<mapsto> expiresAt)\<rparr>)
       | Call_failed \<Rightarrow> (Inl (Service_unavailable ''redis''), s)
       | Call_unanswered \<Rightarrow> (Inl (Service_unavailable ''redis''), s\<lparr>sy_denied := (sy_denied s)(jti \<mapsto> expiresAt)\<rparr>))"

definition isDenylisted :: "string \<Rightarrow> int \<Rightarrow> user_sys \<Rightarrow> bool" where
  "isDenylisted jti now s = (case sy_denied s jti of None \<Rightarrow> False | Some expiresAt \<Rightarrow> now < expiresAt)"


section \<open>The environment of a call\<close>

text \<open>
  \<open>ue_gap k\<close>: what other requests did before the call's \<open>k\<close>-th transaction. \<open>ue_clock k\<close>, \<open>ue_mint k\<close>: the clock
  and the id service at the call's \<open>k\<close>-th step. \<open>ue_verify\<close>: argon2 over a stored hash and a password.
\<close>

record access_claims =
  ac_sub :: string
  ac_role :: user_role
  ac_jti :: string
  ac_epoch :: int

record user_env =
  ue_gap :: "nat \<Rightarrow> user_sys \<Rightarrow> user_sys"
  ue_clock :: "nat \<Rightarrow> int"
  ue_mint :: "nat \<Rightarrow> user_error + string"
  ue_raw :: string
  ue_jti :: string
  ue_sha256 :: "string \<Rightarrow> string"
  ue_hash :: "string \<Rightarrow> string"
  ue_verify :: "string \<Rightarrow> string \<Rightarrow> bool"
  ue_sign :: "access_claims \<Rightarrow> int \<Rightarrow> string"
  ue_redis :: "nat \<Rightarrow> call_fate"
  ue_refreshTtlMs :: int
  ue_singleTtlMs :: int
  ue_reuseGraceMs :: int
  ue_requireVerifiedEmail :: bool

definition gap :: "user_env \<Rightarrow> nat \<Rightarrow> unit sys_act" where
  "gap env k = act_modify (ue_gap env k)"

text \<open>Its \<open>expiresIn\<close> is a constant of the signer.\<close>

record auth_tokens =
  at_accessToken :: string
  at_refreshToken :: string

record issued_refresh =
  ir_raw :: string
  ir_hash :: string
  ir_expiresAt :: int

definition newRefreshToken :: "user_env \<Rightarrow> int \<Rightarrow> issued_refresh" where
  "newRefreshToken env now = \<lparr>ir_raw = ue_raw env, ir_hash = ue_sha256 env (ue_raw env), ir_expiresAt = now + ue_refreshTtlMs env\<rparr>"

definition signAccess :: "user_env \<Rightarrow> string \<Rightarrow> user_role \<Rightarrow> int \<Rightarrow> int \<Rightarrow> string" where
  "signAccess env sub role epoch now = ue_sign env \<lparr>ac_sub = sub, ac_role = role, ac_jti = ue_jti env, ac_epoch = epoch\<rparr> now"

definition issuePair :: "user_env \<Rightarrow> user_row \<Rightarrow> auth_tokens option sys_act" where
  "issuePair env user =
     (let refresh = newRefreshToken env (ue_clock env 1) in
      act_bind (act_lift (ue_mint env 0)) (\<lambda>familyId.
      act_bind (act_lift (ue_mint env 1)) (\<lambda>i.
      act_bind (gap env 1) (\<lambda>_.
      act_bind (on_db (rt_create i (us_id user) (ir_hash refresh) familyId (ir_expiresAt refresh) (us_passwordHash user) (ue_clock env 2))) (\<lambda>stored.
        case stored of
          Credentials_changed \<Rightarrow> act_return None
        | Created role epoch \<Rightarrow> act_return (Some
            \<lparr>at_accessToken = signAccess env (us_id user) role epoch (ue_clock env 3), at_refreshToken = ir_raw refresh\<rparr>))))))"


section \<open>Signing in\<close>

definition at_char :: char where "at_char = CHR ''@''"

text \<open>\<^verbatim>\<open>/^[^@\s]+@[^@\s]+\.[^@\s]+$/\<close>\<close>

definition email_pattern :: "string \<Rightarrow> bool" where
  "email_pattern s \<longleftrightarrow>
     (let plain = (\<lambda>c. c \<noteq> at_char \<and> \<not> is_space c); local = takeWhile plain s; rest = drop (length local) s
      in local \<noteq> [] \<and> rest \<noteq> [] \<and> hd rest = at_char \<and> list_all plain (tl rest) \<and> CHR ''.'' \<in> set (butlast (tl (tl rest))))"

definition Email_of :: "string \<Rightarrow> user_error + string" where
  "Email_of raw = (let value = normalizeEmail raw in if email_pattern value then Inr value else Inl (Invalid_email raw))"

definition login_execute :: "user_env \<Rightarrow> string \<Rightarrow> string \<Rightarrow> auth_tokens sys_act" where
  "login_execute env rawEmail password =
     act_bind (act_lift (Email_of rawEmail)) (\<lambda>email.
     act_bind (act_get (\<lambda>s. findByEmail email (sy_db s))) (\<lambda>user.
       case user of
         None \<Rightarrow> act_throw (Unauthorized ''Invalid credentials'')
       | Some u \<Rightarrow>
           if \<not> ue_verify env (us_passwordHash u) password then act_throw (Unauthorized ''Invalid credentials'')
           else if ue_requireVerifiedEmail env \<and> \<not> isEmailVerified u then act_throw (Forbidden ''Email not verified'')
           else act_bind (issuePair env u) (\<lambda>tokens.
             case tokens of None \<Rightarrow> act_throw (Unauthorized ''Invalid credentials'') | Some t \<Rightarrow> act_return t)))"

text \<open>The account registered; its verification mail is sent in the background, by \<open>verification_issue\<close>.\<close>

definition register_execute :: "user_env \<Rightarrow> string \<Rightarrow> string \<Rightarrow> user_row sys_act" where
  "register_execute env rawEmail password =
     act_bind (act_lift (Email_of rawEmail)) (\<lambda>email.
     act_bind (act_lift (ue_mint env 0)) (\<lambda>i.
     act_bind (gap env 0) (\<lambda>_.
     act_bind (on_db (user_create i email (ue_hash env password) None (ue_clock env 0))) (\<lambda>user.
       case user of
         None \<Rightarrow> act_throw Email_taken
       | Some u \<Rightarrow> act_bind (gap env 1) (\<lambda>_. (\<lambda>s. (Inr u, snd (publish_sys (ue_redis env) (us_id u) (us_tokenEpoch u) s))))))))"

definition INVALID_REFRESH_TOKEN :: user_error where
  "INVALID_REFRESH_TOKEN = Unauthorized ''Invalid refresh token''"

definition bump :: "user_env \<Rightarrow> string \<Rightarrow> int \<Rightarrow> int sys_act" where
  "bump env userId now =
     act_bind (on_db (epoch_bump userId now)) (\<lambda>row.
       case row of
         None \<Rightarrow> act_return 0
       | Some epoch \<Rightarrow> act_bind (gap env 2) (\<lambda>_. act_bind (publishEpochOrRaise (ue_redis env) userId epoch) (\<lambda>_. act_return epoch)))"

definition refresh_execute :: "user_env \<Rightarrow> string \<Rightarrow> auth_tokens sys_act" where
  "refresh_execute env rawRefreshToken =
     (let presented = ue_sha256 env rawRefreshToken in
      act_bind (act_get (\<lambda>s. findOwner presented (ue_clock env 0) (sy_db s))) (\<lambda>owner.
        case owner of
          None \<Rightarrow> act_throw INVALID_REFRESH_TOKEN
        | Some ow \<Rightarrow>
            act_bind (if to_rotatable ow then act_bind (act_lift (ue_mint env 0)) (\<lambda>i. act_return (Some i)) else act_return None) (\<lambda>successorId.
            act_bind (gap env 0) (\<lambda>_.
            let successor = newRefreshToken env (ue_clock env 1) in
            act_bind (on_db (rotate_token \<lparr>ri_presentedTokenHash = presented, ri_expectedUserId = to_userId ow, ri_successorId = successorId,
               ri_newTokenHash = ir_hash successor, ri_newExpiresAt = ir_expiresAt successor, ri_reuseGraceMs = ue_reuseGraceMs env\<rparr>
               (ue_clock env 2))) (\<lambda>outcome.
              case outcome of
                Replayed \<Rightarrow> act_throw INVALID_REFRESH_TOKEN
              | Reuse userId familyId replaced \<Rightarrow>
                  act_bind (gap env 1) (\<lambda>_.
                  act_bind (if replaced then bump env userId (ue_clock env 3) else act_return 0) (\<lambda>_. act_throw INVALID_REFRESH_TOKEN))
              | Rot_invalid \<Rightarrow> act_throw INVALID_REFRESH_TOKEN
              | Rotated userId role epoch \<Rightarrow> act_return
                  \<lparr>at_accessToken = signAccess env userId role epoch (ue_clock env 3), at_refreshToken = ir_raw successor\<rparr>)))))"


section \<open>Signing out and replacing a password\<close>

definition publish_if :: "user_env \<Rightarrow> string \<Rightarrow> int option \<Rightarrow> unit sys_act" where
  "publish_if env userId epoch =
     (case epoch of None \<Rightarrow> act_return () | Some e \<Rightarrow> act_bind (gap env 2) (\<lambda>_. publishEpochOrRaise (ue_redis env) userId e))"

definition revokeAll :: "user_env \<Rightarrow> string \<Rightarrow> unit sys_act" where
  "revokeAll env userId =
     act_bind (on_db (revokeAllForUser userId None (ue_clock env 0))) (\<lambda>epoch. publish_if env userId epoch)"

definition replacePassword :: "user_env \<Rightarrow> string \<Rightarrow> string \<Rightarrow> string option \<Rightarrow> bool sys_act" where
  "replacePassword env userId newPasswordHash verified =
     act_bind (on_db (revokeAllForUser userId (Some (newPasswordHash, verified)) (ue_clock env 0))) (\<lambda>epoch.
     act_bind (publish_if env userId epoch) (\<lambda>_. act_return (epoch \<noteq> None)))"

definition revokeSession :: "user_env \<Rightarrow> string \<Rightarrow> string \<Rightarrow> bool sys_act" where
  "revokeSession env userId sessionId = on_db (revokeFamily userId sessionId (ue_clock env 0))"

definition changePassword_execute :: "user_env \<Rightarrow> string \<Rightarrow> string \<Rightarrow> string \<Rightarrow> unit sys_act" where
  "changePassword_execute env userId currentPassword newPassword =
     act_bind (act_get (\<lambda>s. find_user userId (sy_db s))) (\<lambda>user.
       case user of
         None \<Rightarrow> act_throw (Unauthorized ''Invalid credentials'')
       | Some u \<Rightarrow>
           if \<not> ue_verify env (us_passwordHash u) currentPassword then act_throw (Unauthorized ''Current password is incorrect'')
           else act_bind (gap env 0) (\<lambda>_.
             act_bind (replacePassword env (us_id u) (ue_hash env newPassword) (Some (us_passwordHash u))) (\<lambda>replaced.
               if \<not> replaced then act_throw (Unauthorized ''Current password is incorrect'') else act_return ())))"

text \<open>\<open>live\<close>: what the reader finds in the bearer token, its jti and expiry in seconds. The two writes run side by side.\<close>

definition logout_execute :: "user_env \<Rightarrow> string \<Rightarrow> (string \<times> int) option \<Rightarrow> string option sys_act" where
  "logout_execute env rawRefreshToken live =
     act_bind (act_get (\<lambda>s. findOwner (ue_sha256 env rawRefreshToken) (ue_clock env 0) (sy_db s))) (\<lambda>owner.
     act_bind (gap env 0) (\<lambda>_. (\<lambda>s.
       let (denied, s1) = (case live of None \<Rightarrow> (Inr (), s) | Some (jti, exp) \<Rightarrow> denylist (ue_redis env 0) jti (exp * 1000) (ue_clock env 1) s);
           s2 = ue_gap env 1 s1;
           (revoked, s3) = (case owner of None \<Rightarrow> (Inr False, s2) | Some ow \<Rightarrow> on_db (revokeFamily (to_userId ow) (to_familyId ow) (ue_clock env 2)) s2)
       in (case denied of Inl e \<Rightarrow> Inl e
           | Inr _ \<Rightarrow> (case revoked of Inl e \<Rightarrow> Inl e | Inr _ \<Rightarrow> Inr (map_option to_userId owner)), s3))))"


section \<open>Mailed tokens\<close>

text \<open>The address is known: a reset is to be issued in the background, by \<open>reset_issue\<close>.\<close>

definition forgot_execute :: "string \<Rightarrow> user_row option sys_act" where
  "forgot_execute rawEmail =
     act_bind (act_lift (Email_of rawEmail)) (\<lambda>email. act_get (\<lambda>s. findByEmail email (sy_db s)))"

definition resend_execute :: "string \<Rightarrow> user_row option sys_act" where
  "resend_execute rawEmail =
     act_bind (act_lift (Email_of rawEmail)) (\<lambda>email.
     act_bind (act_get (\<lambda>s. findByEmail email (sy_db s))) (\<lambda>user.
       act_return (case user of None \<Rightarrow> None | Some u \<Rightarrow> if isEmailVerified u then None else Some u)))"

definition reset_issue :: "user_env \<Rightarrow> string \<Rightarrow> string sys_act" where
  "reset_issue env userId =
     (let tokenHash = ue_sha256 env (ue_raw env) in
      act_bind (act_lift (ue_mint env 0)) (\<lambda>i.
      act_bind (gap env 0) (\<lambda>_.
      act_bind (on_db (reset_create i userId tokenHash (ue_clock env 0 + ue_singleTtlMs env) (ue_clock env 1))) (\<lambda>_.
      act_bind (gap env 1) (\<lambda>_.
      act_bind (on_db (reset_invalidateOthers userId tokenHash (ue_clock env 2))) (\<lambda>_. act_return (ue_raw env)))))))"

definition verification_issue :: "user_env \<Rightarrow> string \<Rightarrow> string sys_act" where
  "verification_issue env userId =
     (let tokenHash = ue_sha256 env (ue_raw env) in
      act_bind (act_lift (ue_mint env 0)) (\<lambda>i.
      act_bind (gap env 0) (\<lambda>_.
      act_bind (on_db (verif_create i userId tokenHash (ue_clock env 0 + ue_singleTtlMs env) (ue_clock env 1))) (\<lambda>_.
      act_bind (gap env 1) (\<lambda>_.
      act_bind (on_db (verif_invalidateOthers userId tokenHash (ue_clock env 2))) (\<lambda>_. act_return (ue_raw env)))))))"

definition reset_password :: "user_env \<Rightarrow> string \<Rightarrow> string \<Rightarrow> string sys_act" where
  "reset_password env rawToken newPassword =
     act_bind (on_db (reset_consume (ue_sha256 env rawToken) (ue_clock env 1))) (\<lambda>outcome.
       case outcome of
         None \<Rightarrow> act_throw (Bad_request ''Invalid or expired password-reset token'')
       | Some userId \<Rightarrow> act_bind (gap env 0) (\<lambda>_.
           act_bind (replacePassword env userId (ue_hash env newPassword) None) (\<lambda>_. act_return userId)))"

definition verify_email :: "user_env \<Rightarrow> string \<Rightarrow> string sys_act" where
  "verify_email env rawToken =
     act_bind (on_db (verif_consume (ue_sha256 env rawToken) (ue_clock env 0))) (\<lambda>outcome.
       case outcome of
         None \<Rightarrow> act_throw (Bad_request ''Invalid or expired verification token'')
       | Some userId \<Rightarrow> act_bind (gap env 0) (\<lambda>_.
           act_bind (on_db (markEmailVerified userId (ue_clock env 1))) (\<lambda>_. act_return userId)))"


section \<open>Epochs for other services\<close>

definition fillSessionEpoch_execute :: "user_env \<Rightarrow> string \<Rightarrow> int option sys_act" where
  "fillSessionEpoch_execute env userId =
     act_bind (act_get (\<lambda>s. epoch_current userId (sy_db s))) (\<lambda>epoch.
       case epoch of
         None \<Rightarrow> act_return None
       | Some e \<Rightarrow> act_bind (gap env 0) (\<lambda>_. act_bind (publish_sys (ue_redis env) userId e) (\<lambda>p. act_return (Some p))))"

text \<open>
  A key that is missing asks the user-service. \<open>asked\<close>: its answer, \<open>Inr None\<close> when there is no such user.
  A key that is not a number is refused; keys only ever hold epochs here.
\<close>

definition reader_current :: "int option \<Rightarrow> user_error + int option \<Rightarrow> user_error + int option" where
  "reader_current stored asked =
     (case stored of
        Some e \<Rightarrow> Inr (Some e)
      | None \<Rightarrow> (case asked of Inl _ \<Rightarrow> Inl (Service_unavailable ''Service unavailable'') | Inr x \<Rightarrow> Inr x))"

datatype jwt_number = Num_absent | Num int | Num_other

record jwt_payload =
  jp_sub :: "string option"
  jp_jti :: "string option"
  jp_exp :: jwt_number
  jp_role :: "string option"
  jp_epoch :: jwt_number

definition isRole :: "string option \<Rightarrow> user_role option" where
  "isRole value = (if value = Some ''ADMIN'' then Some Role_ADMIN else if value = Some ''CUSTOMER'' then Some Role_CUSTOMER else None)"

definition toClaims :: "jwt_payload \<Rightarrow> (access_claims \<times> int) option" where
  "toClaims p =
     (case (jp_sub p, jp_jti p, jp_exp p, isRole (jp_role p)) of
        (Some sub, Some jti, Num exp, Some role) \<Rightarrow>
          if \<not> isRoutableId sub then None
          else (case jp_epoch p of
              Num_other \<Rightarrow> None
            | Num_absent \<Rightarrow> Some (\<lparr>ac_sub = sub, ac_role = role, ac_jti = jti, ac_epoch = 0\<rparr>, exp)
            | Num e \<Rightarrow> Some (\<lparr>ac_sub = sub, ac_role = role, ac_jti = jti, ac_epoch = e\<rparr>, exp))
      | _ \<Rightarrow> None)"

text \<open>
  \<open>payload\<close>: what the signature check makes of the token, an error for a forged, expired or unreadable one (or for
  keys that cannot be fetched).
\<close>

definition verify_access ::
    "(user_error + jwt_payload) option \<Rightarrow> (string \<Rightarrow> bool) \<Rightarrow> (string \<Rightarrow> user_error + int option) \<Rightarrow> user_error + access_claims \<times> int" where
  "verify_access token denied current =
     (case token of
        None \<Rightarrow> Inl (Unauthorized ''Unauthorized'')
      | Some (Inl (Service_unavailable e)) \<Rightarrow> Inl (Service_unavailable e)
      | Some (Inl _) \<Rightarrow> Inl (Unauthorized ''Unauthorized'')
      | Some (Inr payload) \<Rightarrow>
          (case toClaims payload of
             None \<Rightarrow> Inl (Unauthorized ''Unauthorized'')
           | Some (claims, exp) \<Rightarrow>
               if denied (ac_jti claims) then Inl (Unauthorized ''Token has been revoked'')
               else (case current (ac_sub claims) of
                   Inl e \<Rightarrow> Inl e
                 | Inr None \<Rightarrow> Inl (Unauthorized ''Session has been revoked'')
                 | Inr (Some epoch) \<Rightarrow>
                     if ac_epoch claims < epoch then Inl (Unauthorized ''Session has been revoked'')
                     else Inr (claims, exp))))"


section \<open>The reconciler\<close>

definition MIN_FIRST_PASS_LOOKBACK_MS :: int where "MIN_FIRST_PASS_LOOKBACK_MS = 15 * 60000"
definition OVERLAP_MS :: int where "OVERLAP_MS = 30000"
definition PAGE_SIZE :: nat where "PAGE_SIZE = 500"

text \<open>One page's publishes; a failed one aborts the pass. \<open>fates\<close>: Redis, by user.\<close>

fun publish_page :: "(string \<Rightarrow> nat \<Rightarrow> call_fate) \<Rightarrow> user_row list \<Rightarrow> epochs \<Rightarrow> bool \<times> epochs" where
  "publish_page fates [] published = (True, published)"
| "publish_page fates (u # us) published =
     (case publish_epoch (fates (us_id u)) (us_id u) (us_tokenEpoch u) published of
        (Inl _, published1) \<Rightarrow> (False, published1)
      | (Inr _, published1) \<Rightarrow> publish_page fates us published1)"

definition last_cursor :: "user_row list \<Rightarrow> (int \<times> string) option" where
  "last_cursor page = Some (us_updatedAt (last page), us_id (last page))"

lemma listChanges_past: "u \<in> set (listChanges since after limit db) \<Longrightarrow> u \<in> set (ud_users db) \<and> past_cursor after since u"
  by (auto simp: listChanges_def dest: in_set_takeD)

lemma past_last:
  assumes "past_cursor after since v" "past_cursor (Some (us_updatedAt v, us_id v)) since u"
  shows "past_cursor after since u"
  using assms by (auto simp: past_cursor_def split: option.splits)

lemma fewer_past:
  assumes "listChanges since after limit db \<noteq> []"
  shows "length (filter (past_cursor (last_cursor (listChanges since after limit db)) since) (ud_users db)) <
    length (filter (past_cursor after since) (ud_users db))"
proof -
  let ?v = "last (listChanges since after limit db)"
  have v: "?v \<in> set (ud_users db)" "past_cursor after since ?v" using listChanges_past [OF last_in_set [OF assms]] by blast+
  have n: "\<not> past_cursor (last_cursor (listChanges since after limit db)) since ?v" by (simp add: past_cursor_def last_cursor_def)
  have "length (filter q xs) < length (filter p xs)"
    if "?v \<in> set xs" "p ?v" "\<not> q ?v" "\<And>u. q u \<Longrightarrow> p u" for p q :: "user_row \<Rightarrow> bool" and xs
    using that(1)
  proof (induction xs)
    case (Cons x xs)
    have "length (filter q ys) \<le> length (filter p ys)" for ys using that(4) by (induction ys) auto
    then show ?case using Cons that(2-4) by (auto simp: less_Suc_eq_le le_imp_less_Suc)
  qed simp
  then show ?thesis using v n past_last [OF v(2)] by (simp add: last_cursor_def)
qed

text \<open>The pages of one pass, over the table as it stands during the pass.\<close>

function reconcile_pages ::
    "(string \<Rightarrow> nat \<Rightarrow> call_fate) \<Rightarrow> user_db \<Rightarrow> int \<Rightarrow> (int \<times> string) option \<Rightarrow> epochs \<Rightarrow> bool \<times> epochs" where
  "reconcile_pages fates db since after published =
     (let page = listChanges since after PAGE_SIZE db;
          (ok, published1) = publish_page fates page published
      in if \<not> ok then (False, published1)
         else if length page < PAGE_SIZE then (True, published1)
         else reconcile_pages fates db since (last_cursor page) published1)"
  by pat_completeness auto
termination
proof (relation "measure (\<lambda>(fates, db, since, after, published). length (filter (past_cursor after since) (ud_users db)))")
  fix fates db since after published page x ok published1
  assume a: "page = listChanges since after PAGE_SIZE db" "\<not> length page < PAGE_SIZE"
  then have "page \<noteq> []" by (auto simp: PAGE_SIZE_def)
  with a show "((fates, db, since, last_cursor page, published1), (fates, db, since, after, published)) \<in>
      measure (\<lambda>(fates, db, since, after, published). length (filter (past_cursor after since) (ud_users db)))"
    using fewer_past [of since after PAGE_SIZE db] by simp
qed simp

declare reconcile_pages.simps [simp del]

text \<open>One pass: the watermark it leaves, with the published epochs.\<close>

definition reconcileOnce ::
    "(string \<Rightarrow> nat \<Rightarrow> call_fate) \<Rightarrow> int \<Rightarrow> user_db \<Rightarrow> int \<Rightarrow> int option \<Rightarrow> epochs \<Rightarrow> int option \<times> epochs" where
  "reconcileOnce fates accessTtlMs db now watermark published =
     (let firstPassLookbackMs = max MIN_FIRST_PASS_LOOKBACK_MS accessTtlMs;
          since = (case watermark of None \<Rightarrow> now - firstPassLookbackMs | Some w \<Rightarrow> w) - OVERLAP_MS;
          (clean, published1) = reconcile_pages fates db since None published
      in (if clean then Some now else watermark, published1))"

end
