(* ===== verification/User_Sessions.thy ===== *)
theory User_Sessions
  imports User_Accounts
begin

text \<open>
  What sessions and access tokens guarantee however requests interleave. \<open>user_tx F\<close> is one committed
  transaction of the user-service, or one write of its to Redis (\<open>user_call\<close> tells sign-ins and password
  replacements apart); every use case, with any others committing in
  its gaps, is a sequence of them. \<open>F\<close> holds the family ids minted so far, which the id service never
  mints again.
\<close>


section \<open>Transactions\<close>

definition families :: "user_db \<Rightarrow> string set" where
  "families db = rt_familyId ` set (ud_tokens db)"

text \<open>A sign-in with the hash it verified, a password replacement with the new hash, or anything else.\<close>

datatype user_call = Call_login string string | Call_replace string string | Call_other

definition replacing :: "string \<Rightarrow> (string \<times> string option) option \<Rightarrow> user_call" where
  "replacing userId replacement = (case replacement of None \<Rightarrow> Call_other | Some (h, _) \<Rightarrow> Call_replace userId h)"

inductive user_call_tx :: "string set \<Rightarrow> user_call \<Rightarrow> user_sys \<Rightarrow> user_sys \<Rightarrow> bool" for F where
  call_register: "on_db (user_create i email passwordHash role now) s = (r, s') \<Longrightarrow> user_call_tx F Call_other s s'"
| call_verified: "on_db (markEmailVerified userId now) s = (r, s') \<Longrightarrow> user_call_tx F Call_other s s'"
| call_login: "on_db (rt_create i userId h familyId expiresAt verified now) s = (r, s') \<Longrightarrow>
    familyId \<notin> F \<Longrightarrow> familyId \<notin> families (sy_db s) \<Longrightarrow> user_call_tx F (Call_login userId verified) s s'"
| call_rotate: "on_db (rotate_token inp now) s = (r, s') \<Longrightarrow> user_call_tx F Call_other s s'"
| call_revoke_all: "on_db (revokeAllForUser userId replacement now) s = (r, s') \<Longrightarrow>
    user_call_tx F (replacing userId replacement) s s'"
| call_revoke_family: "on_db (revokeFamily userId familyId now) s = (r, s') \<Longrightarrow> user_call_tx F Call_other s s'"
| call_collect: "on_db (deleteCollectable expiredBefore revokedBefore limit chosen) s = (r, s') \<Longrightarrow> user_call_tx F Call_other s s'"
| call_bump: "on_db (epoch_bump userId now) s = (r, s') \<Longrightarrow> user_call_tx F Call_other s s'"
| call_mailed: "ud_users db = ud_users (sy_db s) \<Longrightarrow> ud_tokens db = ud_tokens (sy_db s) \<Longrightarrow> user_call_tx F Call_other s (s\<lparr>sy_db := db\<rparr>)"
| call_publish: "find_user userId (sy_db s) = Some u \<Longrightarrow> epoch \<le> us_tokenEpoch u \<Longrightarrow>
    user_call_tx F Call_other s (s\<lparr>sy_epochs := (sy_epochs s)(userId \<mapsto> raise_epoch epoch (sy_epochs s userId))\<rparr>)"
| call_deny: "user_call_tx F Call_other s (s\<lparr>sy_denied := denied\<rparr>)"

definition user_tx :: "string set \<Rightarrow> user_sys \<Rightarrow> user_sys \<Rightarrow> bool" where
  "user_tx F s s' \<longleftrightarrow> (\<exists>c. user_call_tx F c s s')"

lemma tx_register: "on_db (user_create i email passwordHash role now) s = (r, s') \<Longrightarrow> user_tx F s s'"
  unfolding user_tx_def using call_register by blast

lemma tx_verified: "on_db (markEmailVerified userId now) s = (r, s') \<Longrightarrow> user_tx F s s'"
  unfolding user_tx_def using call_verified by blast

lemma tx_login: "on_db (rt_create i userId h familyId expiresAt verified now) s = (r, s') \<Longrightarrow>
    familyId \<notin> F \<Longrightarrow> familyId \<notin> families (sy_db s) \<Longrightarrow> user_tx F s s'"
  unfolding user_tx_def using call_login by blast

lemma tx_rotate: "on_db (rotate_token inp now) s = (r, s') \<Longrightarrow> user_tx F s s'"
  unfolding user_tx_def using call_rotate by blast

lemma tx_revoke_all: "on_db (revokeAllForUser userId replacement now) s = (r, s') \<Longrightarrow> user_tx F s s'"
  unfolding user_tx_def using call_revoke_all by blast

lemma tx_revoke_family: "on_db (revokeFamily userId familyId now) s = (r, s') \<Longrightarrow> user_tx F s s'"
  unfolding user_tx_def using call_revoke_family by blast

lemma tx_collect: "on_db (deleteCollectable expiredBefore revokedBefore limit chosen) s = (r, s') \<Longrightarrow> user_tx F s s'"
  unfolding user_tx_def using call_collect by blast

lemma tx_bump: "on_db (epoch_bump userId now) s = (r, s') \<Longrightarrow> user_tx F s s'"
  unfolding user_tx_def using call_bump by blast

lemma tx_mailed: "ud_users db = ud_users (sy_db s) \<Longrightarrow> ud_tokens db = ud_tokens (sy_db s) \<Longrightarrow> user_tx F s (s\<lparr>sy_db := db\<rparr>)"
  unfolding user_tx_def using call_mailed by blast

lemma tx_publish: "find_user userId (sy_db s) = Some u \<Longrightarrow> epoch \<le> us_tokenEpoch u \<Longrightarrow>
    user_tx F s (s\<lparr>sy_epochs := (sy_epochs s)(userId \<mapsto> raise_epoch epoch (sy_epochs s userId))\<rparr>)"
  unfolding user_tx_def using call_publish by blast

lemma tx_deny: "user_tx F s (s\<lparr>sy_denied := denied\<rparr>)"
  unfolding user_tx_def using call_deny by blast

text \<open>What all of them have in common: how tokens, users' epochs and published epochs change.\<close>

definition from_family :: "user_db \<Rightarrow> refresh_token \<Rightarrow> bool" where
  "from_family db r' \<longleftrightarrow> (\<exists>r \<in> set (ud_tokens db). rt_familyId r' = rt_familyId r \<and> rt_userId r' = rt_userId r \<and>
     (rt_revokedAt r' = None \<longrightarrow> rt_revokedAt r = None))"

text \<open>A family belongs to one user.\<close>

definition one_owner :: "user_db \<Rightarrow> bool" where
  "one_owner db \<longleftrightarrow> (\<forall>r \<in> set (ud_tokens db). \<forall>q \<in> set (ud_tokens db). rt_familyId r = rt_familyId q \<longrightarrow> rt_userId r = rt_userId q)"

definition tokens_step :: "string set \<Rightarrow> user_db \<Rightarrow> user_db \<Rightarrow> bool" where
  "tokens_step F db db' \<longleftrightarrow> (\<forall>r' \<in> set (ud_tokens db'). from_family db r' \<or> rt_familyId r' \<notin> F \<union> families db) \<and>
     (one_owner db \<longrightarrow> one_owner db')"

definition epochs_step :: "user_sys \<Rightarrow> user_sys \<Rightarrow> bool" where
  "epochs_step s s' \<longleftrightarrow>
     (\<forall>i u. find_user i (sy_db s) = Some u \<longrightarrow> (\<exists>u'. find_user i (sy_db s') = Some u' \<and> us_tokenEpoch u \<le> us_tokenEpoch u')) \<and>
     (\<forall>i p. sy_epochs s i = Some p \<longrightarrow> (\<exists>p'. sy_epochs s' i = Some p' \<and> p \<le> p')) \<and>
     (distinct (map us_id (ud_users (sy_db s))) \<longrightarrow> distinct (map us_id (ud_users (sy_db s'))))"

definition user_grows :: "string set \<Rightarrow> user_sys \<Rightarrow> user_sys \<Rightarrow> bool" where
  "user_grows F s s' \<longleftrightarrow> tokens_step F (sy_db s) (sy_db s') \<and> epochs_step s s'"

lemma from_family_self: "r \<in> set (ud_tokens db) \<Longrightarrow> from_family db r"
  by (auto simp: from_family_def)

lemma tokens_inherited:
  assumes "\<And>r'. r' \<in> set (ud_tokens db') \<Longrightarrow> from_family db r'"
  shows "tokens_step F db db'"
proof -
  have "one_owner db'" if "one_owner db"
    using assms that unfolding one_owner_def from_family_def by metis
  then show ?thesis using assms by (simp add: tokens_step_def)
qed

lemma from_family_revoked:
  "from_family db q \<Longrightarrow> rt_familyId r' = rt_familyId q \<Longrightarrow> rt_userId r' = rt_userId q \<Longrightarrow> rt_revokedAt r' \<noteq> None \<Longrightarrow> from_family db r'"
  by (auto simp: from_family_def)

lemma tokens_subset: "set (ud_tokens db') \<subseteq> set (ud_tokens db) \<Longrightarrow> tokens_step F db db'"
  by (auto intro: tokens_inherited from_family_self)

lemma tokens_updated:
  assumes "ud_tokens db' = update_where p f (ud_tokens db)"
    and "\<And>r. rt_familyId (f r) = rt_familyId r \<and> rt_userId (f r) = rt_userId r \<and> rt_revokedAt (f r) \<noteq> None"
  shows "tokens_step F db db'"
proof -
  have "from_family db r'" if "r' \<in> set (ud_tokens db')" for r'
  proof -
    obtain q where q: "q \<in> set (ud_tokens db)" "r' = (if p q then f q else q)"
      using \<open>r' \<in> set (ud_tokens db')\<close> assms(1) by (auto simp: set_update_where)
    then show ?thesis using assms(2) [of q] unfolding from_family_def by (intro bexI [of _ q]) auto
  qed
  then show ?thesis by (rule tokens_inherited)
qed

lemma tokens_revoked: "tokens_step F db (revoke_where p now db)"
  by (rule tokens_updated) (auto simp: revoke_where_def)

lemma insert_token_cases:
  assumes "insert_token r db = (x, db')"
  obtains "db' = db" "\<And>u. x \<noteq> Inr u" | "db' = db\<lparr>ud_tokens := ud_tokens db @ [r]\<rparr>" "x = Inr ()"
  using assms by (auto simp: insert_token_def split: if_splits)

lemma tokens_appended:
  assumes "ud_tokens db' = ud_tokens db @ [r]" "from_family db r \<or> rt_familyId r \<notin> F \<union> families db"
  shows "tokens_step F db db'"
proof (cases "from_family db r")
  case True
  show ?thesis by (rule tokens_inherited) (use True assms(1) in \<open>auto intro: from_family_self\<close>)
next
  case False
  then have "\<forall>q \<in> set (ud_tokens db). rt_familyId q \<noteq> rt_familyId r" using assms(2) by (simp add: families_def) (metis image_eqI)
  moreover have "set (ud_tokens db') = insert r (set (ud_tokens db))" using assms(1) by simp
  ultimately have "one_owner db \<Longrightarrow> one_owner db'" unfolding one_owner_def by (metis insert_iff)
  moreover have "from_family db q \<or> rt_familyId q \<notin> F \<union> families db" if "q \<in> set (ud_tokens db')" for q
    using that assms from_family_self by (cases "q = r") auto
  ultimately show ?thesis by (simp add: tokens_step_def)
qed

lemma users_same: "ud_users (sy_db s') = ud_users (sy_db s) \<Longrightarrow> sy_epochs s' = sy_epochs s \<Longrightarrow> epochs_step s s'"
  by (simp add: epochs_step_def find_user_def)

lemma users_updated:
  assumes "ud_users (sy_db s') = ud_users (update_user p now f (sy_db s))" "sy_epochs s' = sy_epochs s"
    and "\<And>u. us_id (f u) = us_id u" "\<And>u. us_tokenEpoch u \<le> us_tokenEpoch (f u)"
  shows "epochs_step s s'"
proof -
  have "find_user i (sy_db s') = map_option (\<lambda>u. if p u then (f u)\<lparr>us_updatedAt := now\<rparr> else u) (find_user i (sy_db s))" for i
    using assms(1,3) by (simp add: find_user_def update_user_def find_update_where)
  moreover have "map us_id (ud_users (sy_db s')) = map us_id (ud_users (sy_db s))"
    using assms(1,3) by (simp add: update_user_def map_update_where)
  ultimately show ?thesis using assms(2,4) by (simp add: epochs_step_def)
qed


text \<open>Each transaction is such a change.\<close>

lemma on_db_result: "on_db m s = (r, s') \<Longrightarrow> \<exists>db'. m (sy_db s) = (r, db') \<and> s' = s\<lparr>sy_db := db'\<rparr>"
  by (auto simp: on_db_def split: prod.splits)

lemma grows_tokens:
  assumes "tokens_step F (sy_db s) db'" "ud_users db' = ud_users (sy_db s)"
  shows "user_grows F s (s\<lparr>sy_db := db'\<rparr>)"
  using assms by (simp add: user_grows_def users_same)

lemma grows_epochs:
  assumes "epochs_step s s'" "ud_tokens (sy_db s') = ud_tokens (sy_db s)"
  shows "user_grows F s s'"
  using assms by (simp add: user_grows_def tokens_subset)

lemma grows_refl: "user_grows F s s"
  by (rule grows_epochs) (simp_all add: users_same)

lemma create_grows:
  assumes "rt_create i userId h familyId expiresAt verified now db = (r, db')"
    and "familyId \<notin> F" "familyId \<notin> families db"
  shows "tokens_step F db db' \<and> ud_users db' = ud_users db"
proof -
  let ?row = "\<lparr>rt_id = i, rt_userId = userId, rt_tokenHash = h, rt_familyId = familyId, rt_replacedBy = None, rt_expiresAt = expiresAt,
    rt_revokedAt = None, rt_createdAt = now\<rparr>"
  obtain x db1 where ins: "insert_token ?row db = (x, db1)" by force
  have "db' = db \<or> db' = db1"
    using assms(1) ins by (auto simp: rt_create_def in_tx_def act_bind_def split: option.splits if_splits sum.splits)
  moreover have "tokens_step F db db1 \<and> ud_users db1 = ud_users db"
    using insert_token_cases [OF ins] assms(2,3) by (metis tokens_appended tokens_subset order_refl UnE
        refresh_token.select_convs(4) user_db.select_convs(1,2) user_db.surjective user_db.update_convs(2))
  ultimately show ?thesis by (auto intro: tokens_subset)
qed

lemma rotate_live_grows:
  assumes "rotate_live inp now record db = (r, db')" and "record \<in> set (ud_tokens db)" and "rt_revokedAt record = None"
  shows "tokens_step F db db' \<and> ud_users db' = ud_users db"
proof (cases "rt_expiresAt record \<le> now")
  case True
  then have db': "db' = db\<lparr>ud_tokens := update_where (\<lambda>r. rt_id r = rt_id record) (\<lambda>r. r\<lparr>rt_revokedAt := Some now\<rparr>) (ud_tokens db)\<rparr>"
    using assms(1) by (simp add: rotate_live_def)
  show ?thesis
    using tokens_updated [of db' "\<lambda>r. rt_id r = rt_id record" "\<lambda>r. r\<lparr>rt_revokedAt := Some now\<rparr>" db] by (simp add: db')
next
  case fresh: False
  show ?thesis
  proof (cases "ri_successorId inp")
    case None
    then show ?thesis using assms(1) fresh by (simp add: rotate_live_def tokens_subset)
  next
    case (Some sid)
    let ?row = "\<lparr>rt_id = sid, rt_userId = rt_userId record, rt_tokenHash = ri_newTokenHash inp,
            rt_familyId = rt_familyId record, rt_replacedBy = None, rt_expiresAt = ri_newExpiresAt inp, rt_revokedAt = None,
            rt_createdAt = now\<rparr>"
    obtain x db1 where ins: "insert_token ?row db = (x, db1)" by force
    show ?thesis using ins
    proof (cases rule: insert_token_cases)
      case 1
      then obtain e where "x = Inl e" by (cases x) auto
      then have "db' = db" using assms(1) fresh Some ins 1 by (simp add: rotate_live_def)
      then show ?thesis by (simp add: tokens_subset)
    next
      case 2
      let ?f = "\<lambda>r. r\<lparr>rt_revokedAt := Some now, rt_replacedBy := Some sid\<rparr>"
      have db': "db' = db1\<lparr>ud_tokens := update_where (\<lambda>r. rt_id r = rt_id record) ?f (ud_tokens db1)\<rparr>"
        using assms(1) fresh Some ins 2(2)
        by (cases "find_user (rt_userId record) db") (simp_all add: rotate_live_def)
      have new: "from_family db ?row" using assms(2,3) by (auto simp: from_family_def intro!: bexI [of _ "record"])
      have "from_family db r'" if r': "r' \<in> set (ud_tokens db')" for r'
      proof -
        obtain q where q1: "q \<in> set (ud_tokens db1)" and q: "r' = (if rt_id q = rt_id record then ?f q else q)"
          using r' unfolding db' by (auto simp: set_update_where)
        have "q \<in> set (ud_tokens db) \<or> q = ?row" using q1 unfolding 2(1) by (simp, blast)
        then have "from_family db q" using new from_family_self by blast
        then show ?thesis using q from_family_revoked [of db q "?f q"] by (cases "rt_id q = rt_id record") simp_all
      qed
      moreover have "ud_users db' = ud_users db" by (simp add: db' 2(1))
      ultimately show ?thesis by (simp add: tokens_inherited)
    qed
  qed
qed

lemma rotate_grows:
  assumes "rotate_token inp now db = (r, db')"
  shows "tokens_step F db db' \<and> ud_users db' = ud_users db"
proof (cases "find_where (\<lambda>r. rt_tokenHash r = ri_presentedTokenHash inp) (ud_tokens db)")
  case None
  then show ?thesis using assms by (simp add: rotate_token_def in_tx_def tokens_subset)
next
  case (Some "record")
  obtain x db1 where live: "rotate_live inp now record db = (x, db1)" by force
  show ?thesis
  proof (cases "rt_revokedAt record = None \<and> rt_replacedBy record = None \<and> rt_userId record = ri_expectedUserId inp")
    case True
    then have "db' = db \<or> db' = db1"
      using assms Some live by (cases x) (simp_all add: rotate_token_def in_tx_def)
    then show ?thesis
      using rotate_live_grows [OF live] find_where_Some [OF Some] True by (auto intro: tokens_subset)
  next
    case False
    then have "db' = db \<or> (\<exists>p. db' = revoke_where p now db)"
      using assms Some by (auto simp: rotate_token_def in_tx_def split: if_splits)
    then show ?thesis using tokens_revoked by (auto simp: revoke_where_def intro: tokens_subset)
  qed
qed

lemma revoke_all_result:
  assumes "revokeAllForUser userId replacement now db = (r, db')"
  obtains p f where "ud_users db' = ud_users (update_user p now f db)" "\<And>u. us_id (f u) = us_id u"
    "\<And>u. us_tokenEpoch u \<le> us_tokenEpoch (f u)" "tokens_step F db db'"
proof -
  let ?db1 = "update_user (replaces userId replacement) now (bumped replacement) db"
  have "db' = ?db1 \<or> db' = revoke_where (\<lambda>r. rt_userId r = userId) now ?db1"
    using assms by (simp add: revokeAllForUser_def in_tx_def Let_def split: option.splits)
  moreover have "tokens_step F db (revoke_where (\<lambda>r. rt_userId r = userId) now ?db1)"
    by (rule tokens_updated [of _ "\<lambda>r. rt_userId r = userId \<and> rt_revokedAt r = None" "\<lambda>r. r\<lparr>rt_revokedAt := Some now\<rparr>"])
      (simp_all add: revoke_where_def update_user_def)
  moreover have "tokens_step F db ?db1" by (rule tokens_subset) (simp add: update_user_def)
  ultimately have "ud_users db' = ud_users ?db1" "tokens_step F db db'" by (auto simp: revoke_where_def)
  then show ?thesis using that [of "replaces userId replacement" "bumped replacement"] by (simp add: bumped_def)
qed


lemma call_grows:
  assumes "user_call_tx F c s s'"
  shows "user_grows F s s'"
  using assms
proof cases
  case (call_register i email passwordHash role now r)
  then obtain db' where u: "user_create i email passwordHash role now (sy_db s) = (r, db')" "s' = s\<lparr>sy_db := db'\<rparr>"
    using on_db_result by blast
  have "ud_tokens db' = ud_tokens (sy_db s)"
    and "db' = sy_db s \<or> (\<exists>row. ud_users db' = ud_users (sy_db s) @ [row] \<and> us_id row \<notin> us_id ` set (ud_users (sy_db s)))"
    using u(1) by (auto simp: user_create_def Let_def split: if_splits)
  then show ?thesis
    by (intro grows_epochs) (auto simp: epochs_step_def find_user_def find_where_append u(2))
next
  case (call_verified userId now r)
  then obtain db' where u: "markEmailVerified userId now (sy_db s) = (r, db')" "s' = s\<lparr>sy_db := db'\<rparr>"
    using on_db_result by blast
  let ?p = "\<lambda>u. us_id u = userId \<and> us_emailVerifiedAt u = None" and ?f = "\<lambda>u. u\<lparr>us_emailVerifiedAt := Some now\<rparr>"
  have "db' = update_user ?p now ?f (sy_db s)"
    using u(1) by (simp add: markEmailVerified_def)
  then have "epochs_step s s'" using users_updated [of s' ?p now ?f s] u(2) by simp
  then show ?thesis using u \<open>db' = _\<close> by (intro grows_epochs) (simp_all add: update_user_def)
next
  case (call_login i userId h familyId expiresAt verified now r)
  then show ?thesis using on_db_result create_grows grows_tokens by metis
next
  case (call_rotate inp now r)
  then show ?thesis using on_db_result rotate_grows grows_tokens by metis
next
  case (call_revoke_all userId replacement now r)
  then obtain db' where u: "revokeAllForUser userId replacement now (sy_db s) = (r, db')" "s' = s\<lparr>sy_db := db'\<rparr>"
    using on_db_result by blast
  show ?thesis
    by (rule revoke_all_result [OF u(1), of F]) (use u(2) in \<open>auto simp: user_grows_def intro: users_updated\<close>)
next
  case (call_revoke_family userId familyId now r)
  then obtain db' where u: "revokeFamily userId familyId now (sy_db s) = (r, db')" "s' = s\<lparr>sy_db := db'\<rparr>"
    using on_db_result by blast
  then have "db' = revoke_where (\<lambda>r. rt_userId r = userId \<and> rt_familyId r = familyId) now (sy_db s)"
    by (simp add: revokeFamily_def in_tx_def)
  then have "tokens_step F (sy_db s) db'" "ud_users db' = ud_users (sy_db s)"
    using tokens_revoked by (simp_all only:) (simp add: revoke_where_def)
  then show ?thesis using u(2) by (simp add: grows_tokens)
next
  case (call_collect expiredBefore revokedBefore limit chosen r)
  then obtain db' where u: "deleteCollectable expiredBefore revokedBefore limit chosen (sy_db s) = (r, db')" "s' = s\<lparr>sy_db := db'\<rparr>"
    using on_db_result by blast
  then have "set (ud_tokens db') \<subseteq> set (ud_tokens (sy_db s))" "ud_users db' = ud_users (sy_db s)"
    by (auto simp: deleteCollectable_def Let_def)
  then show ?thesis using u(2) by (simp add: grows_tokens tokens_subset)
next
  case (call_bump userId now r)
  then obtain db' where u: "epoch_bump userId now (sy_db s) = (r, db')" "s' = s\<lparr>sy_db := db'\<rparr>"
    using on_db_result by blast
  let ?p = "\<lambda>u. us_id u = userId" and ?f = "\<lambda>u. u\<lparr>us_tokenEpoch := us_tokenEpoch u + 1\<rparr>"
  have db': "db' = update_user ?p now ?f (sy_db s)" using u(1) by (simp add: epoch_bump_def)
  then have "epochs_step s s'" using users_updated [of s' ?p now ?f s] u(2) by simp
  then show ?thesis using u db' by (intro grows_epochs) (simp_all add: update_user_def)
next
  case (call_mailed db)
  then show ?thesis by (intro grows_epochs users_same | simp)+
next
  case (call_publish userId u epoch)
  have "epochs_step s s'"
    using call_publish(2) by (auto simp: epochs_step_def raise_epoch_def find_user_def split: option.splits)
  then show ?thesis using call_publish(2) by (intro grows_epochs) simp_all
next
  case (call_deny denied)
  then show ?thesis by (intro grows_epochs users_same) simp_all
qed

lemma user_tx_grows: "user_tx F s s' \<Longrightarrow> user_grows F s s'"
  unfolding user_tx_def using call_grows by blast

text \<open>Over any number of them.\<close>

lemma epochs_trans: "epochs_step s s1 \<Longrightarrow> epochs_step s1 s2 \<Longrightarrow> epochs_step s s2"
  unfolding epochs_step_def by (meson order_trans)

lemma epochs_run: "(user_tx F)\<^sup>*\<^sup>* s s' \<Longrightarrow> epochs_step s s'"
proof (induction rule: rtranclp_induct)
  case base
  show ?case by (simp add: users_same)
next
  case (step s1 s2)
  then show ?case using user_tx_grows epochs_trans unfolding user_grows_def by blast
qed

text \<open>An ended family: every token of it is revoked.\<close>

definition over :: "user_db \<Rightarrow> string \<Rightarrow> bool" where
  "over db f \<longleftrightarrow> (\<forall>r \<in> set (ud_tokens db). rt_familyId r = f \<longrightarrow> rt_revokedAt r \<noteq> None)"

lemma over_step:
  assumes "tokens_step F db db'" "over db f" "f \<in> F"
  shows "over db' f"
  using assms unfolding over_def tokens_step_def from_family_def by (metis UnI1)

lemma over_run:
  assumes "(user_tx F)\<^sup>*\<^sup>* s s'" "over (sy_db s) f" "f \<in> F"
  shows "over (sy_db s') f"
  using assms(1)
proof (induction rule: rtranclp_induct)
  case base
  show ?case by (rule assms(2))
next
  case (step s1 s2)
  then show ?case using user_tx_grows over_step assms(3) unfolding user_grows_def by blast
qed


section \<open>Use cases as runs\<close>

text \<open>The gaps of a call hold only transactions.\<close>

definition gaps_run :: "string set \<Rightarrow> user_env \<Rightarrow> bool" where
  "gaps_run F env \<longleftrightarrow> (\<forall>k s. (user_tx F)\<^sup>*\<^sup>* s (ue_gap env k s))"

definition runs :: "string set \<Rightarrow> 'a sys_act \<Rightarrow> bool" where
  "runs F m \<longleftrightarrow> (\<forall>s r s'. m s = (r, s') \<longrightarrow> (user_tx F)\<^sup>*\<^sup>* s s')"

named_theorems run_intros "calls whose effect is a run of transactions"

lemma user_runs_bind [run_intros]: "runs F m \<Longrightarrow> (\<And>a. runs F (f a)) \<Longrightarrow> runs F (act_bind m f)"
  unfolding runs_def act_bind_def by (fastforce split: prod.splits sum.splits intro: rtranclp_trans)

lemma runs_pure [run_intros]: "runs F (act_return a)" "runs F (act_throw e)" "runs F (act_get g)" "runs F (act_lift x)"
  by (simp_all add: runs_def)

lemma runs_gap [run_intros]: "gaps_run F env \<Longrightarrow> runs F (gap env k)"
  by (auto simp: runs_def gap_def gaps_run_def)

lemma user_runs_tx: "(\<And>s r s'. m s = (r, s') \<Longrightarrow> user_tx F s s') \<Longrightarrow> runs F m"
  by (auto simp: runs_def)

lemma runs_rotate [run_intros]: "runs F (on_db (rotate_token inp now))"
  by (rule user_runs_tx) (rule tx_rotate)

lemma runs_revoke_all [run_intros]: "runs F (on_db (revokeAllForUser userId replacement now))"
  by (rule user_runs_tx) (rule tx_revoke_all)

lemma runs_revoke_family [run_intros]: "runs F (on_db (revokeFamily userId familyId now))"
  by (rule user_runs_tx) (rule tx_revoke_family)

lemma runs_register [run_intros]: "runs F (on_db (user_create i email passwordHash role now))"
  by (rule user_runs_tx) (rule tx_register)

lemma runs_verified [run_intros]: "runs F (on_db (markEmailVerified userId now))"
  by (rule user_runs_tx) (rule tx_verified)

lemma runs_bump [run_intros]: "runs F (on_db (epoch_bump userId now))"
  by (rule user_runs_tx) (rule tx_bump)

lemma runs_mailed:
  assumes "\<And>db r db'. m db = (r, db') \<Longrightarrow> ud_users db' = ud_users db \<and> ud_tokens db' = ud_tokens db"
  shows "runs F (on_db m)"
proof (rule user_runs_tx)
  fix s r s'
  assume "on_db m s = (r, s')"
  then obtain db' where "m (sy_db s) = (r, db')" "s' = s\<lparr>sy_db := db'\<rparr>" using on_db_result by blast
  then show "user_tx F s s'" using tx_mailed assms by blast
qed

lemma runs_mail [run_intros]:
  "runs F (on_db (reset_create i userId h e now))" "runs F (on_db (reset_consume h now))"
  "runs F (on_db (reset_invalidateOthers userId h now))" "runs F (on_db (reset_sweep cutoff limit chosen))"
  "runs F (on_db (verif_create i userId h e now))" "runs F (on_db (verif_consume h now))"
  "runs F (on_db (verif_invalidateOthers userId h now))" "runs F (on_db (verif_sweep cutoff limit chosen))"
  by (rule runs_mailed, auto simp: reset_create_def reset_consume_def reset_invalidateOthers_def reset_sweep_def
      verif_create_def verif_consume_def verif_invalidateOthers_def verif_sweep_def act_try_def map_sum_def
      split: sum.splits)+

text \<open>Publishing an epoch the user has (or had) is a run too: an attempt that may have landed raises the key.\<close>

definition has_epoch :: "string \<Rightarrow> int \<Rightarrow> user_sys \<Rightarrow> bool" where
  "has_epoch userId epoch s \<longleftrightarrow> (\<exists>u. find_user userId (sy_db s) = Some u \<and> epoch \<le> us_tokenEpoch u)"

lemma has_epoch_run: "(user_tx F)\<^sup>*\<^sup>* s s' \<Longrightarrow> has_epoch userId epoch s \<Longrightarrow> has_epoch userId epoch s'"
  using epochs_run [of F s s'] unfolding has_epoch_def epochs_step_def by (meson order_trans)

lemma attempts_run:
  assumes "publish_attempts n fates userId epoch (sy_epochs s) = (r, e')" and "has_epoch userId epoch s"
  shows "(user_tx F)\<^sup>*\<^sup>* s (s\<lparr>sy_epochs := e'\<rparr>)"
  using assms
proof (induction n arbitrary: s)
  case 0
  then show ?case by auto
next
  case (Suc n)
  let ?s1 = "s\<lparr>sy_epochs := (sy_epochs s)(userId \<mapsto> raise_epoch epoch (sy_epochs s userId))\<rparr>"
  have t: "user_tx F s ?s1" using Suc.prems(2) tx_publish unfolding has_epoch_def by blast
  show ?case
  proof (cases "fates (MAX_ATTEMPTS - n)")
    case Call_ok
    then show ?thesis using Suc.prems(1) t by (auto simp: Let_def)
  next
    case Call_failed
    then show ?thesis using Suc by (simp add: Let_def)
  next
    case Call_unanswered
    have "has_epoch userId epoch ?s1" using Suc.prems(2) by (simp add: has_epoch_def)
    moreover have "publish_attempts n fates userId epoch (sy_epochs ?s1) = (r, e')"
      using Suc.prems(1) Call_unanswered by (simp add: Let_def del: fun_upd_apply)
    ultimately have "(user_tx F)\<^sup>*\<^sup>* ?s1 (?s1\<lparr>sy_epochs := e'\<rparr>)" using Suc.IH by blast
    then show ?thesis using t by (simp add: converse_rtranclp_into_rtranclp)
  qed
qed

lemma publish_run:
  assumes "publish_sys fates userId epoch s = (r, s')" and "has_epoch userId epoch s"
  shows "(user_tx F)\<^sup>*\<^sup>* s s'"
  using assms attempts_run by (fastforce simp: publish_sys_def publish_epoch_def split: prod.splits)

lemma publish_raise_run:
  assumes "publishEpochOrRaise fates userId epoch s = (r, s')" and "has_epoch userId epoch s"
  shows "(user_tx F)\<^sup>*\<^sup>* s s'"
  using assms publish_run by (fastforce simp: publishEpochOrRaise_def split: prod.splits sum.splits)

lemma published_at_least:
  assumes "publish_attempts n fates userId epoch e = (Inr p, e')"
  shows "\<exists>q. e' userId = Some q \<and> epoch \<le> q"
  using assms
  by (induction n arbitrary: e) (auto simp: Let_def raise_epoch_def split: call_fate.splits option.splits)


lemma publish_if_runs:
  assumes "publish_if env userId epoch s = (r, s')" and "gaps_run F env" and "\<And>e. epoch = Some e \<Longrightarrow> has_epoch userId e s"
  shows "(user_tx F)\<^sup>*\<^sup>* s s'"
proof (cases epoch)
  case None
  then show ?thesis using assms(1) by (simp add: publish_if_def)
next
  case (Some e)
  let ?s1 = "ue_gap env 2 s"
  have g: "(user_tx F)\<^sup>*\<^sup>* s ?s1" using assms(2) by (simp add: gaps_run_def)
  moreover have "publishEpochOrRaise (ue_redis env) userId e ?s1 = (r, s')"
    using assms(1) Some by (simp add: publish_if_def gap_def)
  ultimately show ?thesis
    using publish_raise_run has_epoch_run [OF g] assms(3) [OF Some] by (meson rtranclp_trans)
qed

lemma revoke_all_epoch:
  assumes "revokeAllForUser userId replacement now db = (Inr (Some e), db')" and "distinct (map us_id (ud_users db))"
  shows "\<exists>u u'. find_user userId db = Some u \<and> find_user userId db' = Some u' \<and> e = us_tokenEpoch u + 1 \<and> us_tokenEpoch u' = e"
proof -
  obtain u where u: "find_where (replaces userId replacement) (ud_users db) = Some u" and e: "e = us_tokenEpoch u + 1"
    and db': "db' = revoke_where (\<lambda>r. rt_userId r = userId) now (update_user (replaces userId replacement) now (bumped replacement) db)"
    using assms(1) by (auto simp: revokeAllForUser_def in_tx_def Let_def split: option.splits)
  have w: "replaces userId replacement u" "u \<in> set (ud_users db)" "us_id u = userId"
    using find_where_Some [OF u] by (auto simp: replaces_def)
  then have f: "find_user userId db = Some u"
    using find_where_key [OF assms(2) w(2)] by (simp add: find_user_def)
  have "find_user userId db' = Some ((bumped replacement u)\<lparr>us_updatedAt := now\<rparr>)"
    using f w(1) by (simp add: find_user_def db' revoke_where_def update_user_def find_update_where bumped_def)
  then show ?thesis using f e by (simp add: bumped_def)
qed

lemma over_revoked:
  assumes "ud_tokens db' = ud_tokens (revoke_where p now db)" and "\<And>q. q \<in> set (ud_tokens db) \<Longrightarrow> rt_familyId q = f \<Longrightarrow> p q"
  shows "over db' f"
proof -
  have "rt_revokedAt q' \<noteq> None" if q': "q' \<in> set (ud_tokens db')" "rt_familyId q' = f" for q'
  proof -
    obtain q where q: "q \<in> set (ud_tokens db)" "q' = (if p q \<and> rt_revokedAt q = None then q\<lparr>rt_revokedAt := Some now\<rparr> else q)"
      using q'(1) assms(1) by (auto simp: revoke_where_def set_update_where)
    then have "rt_familyId q = f" using q'(2) by (simp split: if_splits)
    then have "p q" using assms(2) q(1) by blast
    then show ?thesis using q(2) by simp
  qed
  then show ?thesis by (auto simp: over_def)
qed

lemma owner_of:
  "one_owner db \<Longrightarrow> r \<in> set (ud_tokens db) \<Longrightarrow> q \<in> set (ud_tokens db) \<Longrightarrow> rt_familyId q = rt_familyId r \<Longrightarrow> rt_userId q = rt_userId r"
  unfolding one_owner_def by blast

lemma revoke_all_over:
  assumes "revokeAllForUser userId replacement now db = (Inr (Some e), db')" and "one_owner db"
    and "r \<in> set (ud_tokens db)" "rt_userId r = userId"
  shows "over db' (rt_familyId r)"
proof (rule over_revoked)
  show "ud_tokens db' = ud_tokens (revoke_where (\<lambda>q. rt_userId q = userId) now db)"
    using assms(1) by (auto simp: revokeAllForUser_def in_tx_def Let_def revoke_where_def update_user_def split: option.splits)
  show "rt_userId q = userId" if "q \<in> set (ud_tokens db)" "rt_familyId q = rt_familyId r" for q
    using owner_of [OF assms(2,3) that] assms(4) by simp
qed

lemma revoke_family_over:
  assumes "revokeFamily userId f now db = (x, db')" and "one_owner db" and "r \<in> set (ud_tokens db)" "rt_userId r = userId" "rt_familyId r = f"
  shows "over db' f"
proof (rule over_revoked)
  show "ud_tokens db' = ud_tokens (revoke_where (\<lambda>q. rt_userId q = userId \<and> rt_familyId q = f) now db)"
    using assms(1) by (simp add: revokeFamily_def in_tx_def)
  show "rt_userId q = userId \<and> rt_familyId q = f" if "q \<in> set (ud_tokens db)" "rt_familyId q = f" for q
    using owner_of [OF assms(2,3)] assms(4,5) that by simp
qed

text \<open>Only a live token rotates.\<close>

lemma rotated_was_live:
  assumes "rotate_token inp now db = (Inr (Rotated u ro e), db')"
  shows "\<exists>r. find_where (\<lambda>r. rt_tokenHash r = ri_presentedTokenHash inp) (ud_tokens db) = Some r \<and> rt_revokedAt r = None"
  using assms by (auto simp: rotate_token_def in_tx_def split: option.splits if_splits)

lemma over_never_rotates:
  assumes "over db f" "find_where (\<lambda>r. rt_tokenHash r = ri_presentedTokenHash inp) (ud_tokens db) = Some r" "rt_familyId r = f"
  shows "fst (rotate_token inp now db) \<noteq> Inr (Rotated u ro e)"
proof
  assume "fst (rotate_token inp now db) = Inr (Rotated u ro e)"
  then obtain db' where "rotate_token inp now db = (Inr (Rotated u ro e), db')" by (metis prod.collapse)
  then have "rt_revokedAt r = None" using rotated_was_live assms(2) by fastforce
  then show False using assms(1,3) find_where_Some [OF assms(2)] by (auto simp: over_def)
qed


section \<open>Reachable states\<close>

definition no_users :: user_sys where
  "no_users = \<lparr>sy_db = \<lparr>ud_users = [], ud_tokens = [], ud_resets = [], ud_verifs = []\<rparr>, sy_epochs = Map.empty, sy_denied = Map.empty\<rparr>"

definition users_reach :: "user_sys \<Rightarrow> bool" where
  "users_reach s \<longleftrightarrow> (user_tx {})\<^sup>*\<^sup>* no_users s"

lemma reach_ok:
  assumes "users_reach s"
  shows "one_owner (sy_db s) \<and> distinct (map us_id (ud_users (sy_db s)))"
proof -
  have "one_owner (sy_db s)" using assms unfolding users_reach_def
  proof (induction rule: rtranclp_induct)
    case base
    show ?case by (simp add: one_owner_def no_users_def)
  next
    case (step s1 s2)
    then show ?case using user_tx_grows unfolding user_grows_def tokens_step_def by blast
  qed
  moreover have "distinct (map us_id (ud_users (sy_db s)))"
    using epochs_run [of "{}" no_users s] assms by (simp add: users_reach_def epochs_step_def no_users_def)
  ultimately show ?thesis ..
qed


section \<open>The use cases are runs\<close>

lemma runs_let: "(\<And>x. runs F (f x)) \<Longrightarrow> runs F (let x = a in f x)"
  by simp

lemma bump_run:
  assumes "gaps_run F env" "bump env userId now s = (r, s')"
  shows "(user_tx F)\<^sup>*\<^sup>* s s'"
proof (cases "find_user userId (sy_db s)")
  case None
  then have "on_db (epoch_bump userId now) s = (Inr None, s') \<or> s' = s"
    using assms(2) by (auto simp: bump_def on_db_def epoch_bump_def act_bind_def split: prod.splits)
  then show ?thesis using tx_bump by blast
next
  case (Some u)
  obtain db1 where b: "epoch_bump userId now (sy_db s) = (Inr (Some (us_tokenEpoch u + 1)), db1)"
    and db1: "db1 = update_user (\<lambda>u. us_id u = userId) now (\<lambda>u. u\<lparr>us_tokenEpoch := us_tokenEpoch u + 1\<rparr>) (sy_db s)"
    by (simp add: epoch_bump_def Some)
  let ?s1 = "s\<lparr>sy_db := db1\<rparr>" and ?e = "us_tokenEpoch u + 1"
  have od: "on_db (epoch_bump userId now) s = (Inr (Some ?e), ?s1)" using b by (simp add: on_db_def)
  then have t: "user_tx F s ?s1" by (rule tx_bump)
  have "us_id u = userId" using find_where_Some Some unfolding find_user_def by fastforce
  then have h: "has_epoch userId ?e ?s1"
    using Some by (simp add: has_epoch_def db1 find_user_def update_user_def find_update_where)
  have g: "(user_tx F)\<^sup>*\<^sup>* ?s1 (ue_gap env 2 ?s1)" using assms(1) by (simp add: gaps_run_def)
  obtain x s2 where p: "publishEpochOrRaise (ue_redis env) userId ?e (ue_gap env 2 ?s1) = (x, s2)" by force
  have "s' = s2" using assms(2) od p by (cases x) (simp_all add: bump_def gap_def)
  then have "(user_tx F)\<^sup>*\<^sup>* (ue_gap env 2 ?s1) s'" using publish_raise_run [OF p has_epoch_run [OF g h]] by simp
  then show ?thesis using t g by (meson converse_rtranclp_into_rtranclp rtranclp_trans)
qed

lemma runs_bump_call [run_intros]: "gaps_run F env \<Longrightarrow> runs F (bump env userId now)"
  using bump_run unfolding runs_def by blast

lemma refresh_runs: "gaps_run F env \<Longrightarrow> runs F (refresh_execute env raw)"
  unfolding refresh_execute_def Let_def by (auto intro!: run_intros split: option.splits rotate_outcome.splits)

lemma mailed_runs:
  "gaps_run F env \<Longrightarrow> runs F (reset_issue env userId)"
  "gaps_run F env \<Longrightarrow> runs F (verification_issue env userId)"
  "gaps_run F env \<Longrightarrow> runs F (verify_email env raw)"
  unfolding reset_issue_def verification_issue_def verify_email_def Let_def by (auto intro!: run_intros split: option.splits)

text \<open>A sign-in is one when the family id it mints is new.\<close>

lemma login_runs:
  assumes "gaps_run F env" and "\<And>f s. ue_mint env 0 = Inr f \<Longrightarrow> f \<notin> F \<and> f \<notin> families (sy_db (ue_gap env 1 s))"
  shows "runs F (login_execute env email password)"
proof -
  have "runs F (issuePair env u)" for u
  proof -
    have "(user_tx F)\<^sup>*\<^sup>* s s'" if i: "issuePair env u s = (r, s')" for s r s'
    proof (cases "\<exists>f i. ue_mint env 0 = Inr f \<and> ue_mint env 1 = Inr i")
      case False
      then have "s' = s" using i by (cases "ue_mint env 0"; cases "ue_mint env 1") (auto simp: issuePair_def Let_def)
      then show ?thesis by simp
    next
      case True
      then obtain f i where m: "ue_mint env 0 = Inr f" "ue_mint env 1 = Inr i" by blast
      let ?rf = "newRefreshToken env (ue_clock env 1)" and ?s1 = "ue_gap env 1 s"
      obtain x s2 where c: "on_db (rt_create i (us_id u) (ir_hash ?rf) f (ir_expiresAt ?rf) (us_passwordHash u) (ue_clock env 2)) ?s1 = (x, s2)" by force
      have "s' = s2" using i m c by (cases x) (auto simp: issuePair_def Let_def gap_def split: create_outcome.splits)
      moreover have "user_tx F ?s1 s2" using tx_login [OF c] assms(2) [OF m(1)] by blast
      moreover have "(user_tx F)\<^sup>*\<^sup>* s ?s1" using assms(1) by (simp add: gaps_run_def)
      ultimately show ?thesis by simp
    qed
    then show ?thesis by (simp add: runs_def)
  qed
  then show ?thesis unfolding login_execute_def by (auto intro!: run_intros split: option.splits)
qed

lemma revoke_publish_run:
  assumes "users_reach s" "gaps_run F env"
    and "revokeAllForUser userId replacement now (sy_db s) = (Inr epoch, db')"
    and "publish_if env userId epoch (s\<lparr>sy_db := db'\<rparr>) = (r, s')"
  shows "(user_tx F)\<^sup>*\<^sup>* s s'"
proof -
  let ?s1 = "s\<lparr>sy_db := db'\<rparr>"
  have t: "user_tx F s ?s1" by (rule tx_revoke_all [of userId replacement now s "Inr epoch"]) (simp add: on_db_def assms(3))
  have "has_epoch userId e ?s1" if "epoch = Some e" for e
    using revoke_all_epoch assms(3) reach_ok [OF assms(1)] that by (fastforce simp: has_epoch_def)
  then have "(user_tx F)\<^sup>*\<^sup>* ?s1 s'" using publish_if_runs assms(2,4) by blast
  then show ?thesis using t by (rule converse_rtranclp_into_rtranclp [rotated])
qed


lemma published_if:
  assumes "publish_if env userId (Some e) s = (Inr (), s')"
  shows "\<exists>q. sy_epochs s' userId = Some q \<and> e \<le> q"
proof -
  obtain x s1 where p: "publish_sys (ue_redis env) userId e (ue_gap env 2 s) = (x, s1)" by force
  then obtain q where "x = Inr q" "s' = s1" using assms by (cases x) (auto simp: publish_if_def gap_def publishEpochOrRaise_def)
  then show ?thesis using p published_at_least by (fastforce simp: publish_sys_def publish_epoch_def split: prod.splits)
qed

text \<open>Both calls are the same transaction and publish.\<close>

lemma revoke_call:
  assumes "revokeAll env userId s = (Inr (), s1) \<or> replacePassword env userId newHash verified s = (Inr True, s1)"
    and "find_user userId (sy_db s) = Some u"
  shows "\<exists>replacement db' e. revokeAllForUser userId replacement (ue_clock env 0) (sy_db s) = (Inr (Some e), db') \<and>
    publish_if env userId (Some e) (s\<lparr>sy_db := db'\<rparr>) = (Inr (), s1)"
  using assms(1)
proof
  assume c: "revokeAll env userId s = (Inr (), s1)"
  have "replaces userId None = (\<lambda>u. us_id u = userId)" by (simp add: replaces_def fun_eq_iff)
  then obtain db' where "revokeAllForUser userId None (ue_clock env 0) (sy_db s) = (Inr (Some (us_tokenEpoch u + 1)), db')"
    using assms(2) by (simp add: revokeAllForUser_def in_tx_def find_user_def Let_def)
  then show ?thesis using c by (auto simp: revokeAll_def on_db_def)
next
  assume c: "replacePassword env userId newHash verified s = (Inr True, s1)"
  obtain x db' where rv: "revokeAllForUser userId (Some (newHash, verified)) (ue_clock env 0) (sy_db s) = (x, db')" by force
  obtain epoch where x: "x = Inr epoch" using c rv by (cases x) (auto simp: replacePassword_def on_db_def)
  obtain y s2 where p: "publish_if env userId epoch (s\<lparr>sy_db := db'\<rparr>) = (y, s2)" by force
  have "y = Inr ()" "s2 = s1" "epoch \<noteq> None" using c rv x p by (cases y; auto simp: replacePassword_def on_db_def)+
  then show ?thesis using rv x p by auto
qed


section \<open>A sample account\<close>

definition ann :: string where "ann = ''8591612313777883''"

definition ann_row :: "int \<Rightarrow> int \<Rightarrow> user_row" where
  "ann_row epoch updated = \<lparr>us_id = ann, us_email = ''a@b.c'', us_passwordHash = ''h'', us_role = Role_CUSTOMER,
     us_emailVerifiedAt = None, us_tokenEpoch = epoch, us_createdAt = 1, us_updatedAt = updated\<rparr>"

definition ann_token :: "int option \<Rightarrow> refresh_token" where
  "ann_token revoked = \<lparr>rt_id = ''11'', rt_userId = ann, rt_tokenHash = ''t'', rt_familyId = ''21'', rt_replacedBy = None,
     rt_expiresAt = 900, rt_revokedAt = revoked, rt_createdAt = 2\<rparr>"

definition ann_db :: "user_row \<Rightarrow> refresh_token \<Rightarrow> user_db" where
  "ann_db u r = \<lparr>ud_users = [u], ud_tokens = [r], ud_resets = [], ud_verifs = []\<rparr>"

definition signed_in :: user_sys where
  "signed_in = no_users\<lparr>sy_db := ann_db (ann_row 0 1) (ann_token None)\<rparr>"

lemma ann_simps [simp]:
  "us_id (ann_row e t) = ann" "us_passwordHash (ann_row e t) = ''h''" "us_tokenEpoch (ann_row e t) = e" "us_role (ann_row e t) = Role_CUSTOMER"
  "rt_userId (ann_token v) = ann" "rt_familyId (ann_token v) = ''21''" "rt_revokedAt (ann_token v) = v" "rt_tokenHash (ann_token v) = ''t''"
  "ud_users (ann_db u r) = [u]" "ud_tokens (ann_db u r) = [r]"
  by (simp_all add: ann_row_def ann_token_def ann_db_def)

lemma signed_in_reached: "users_reach signed_in"
proof -
  let ?s1 = "no_users\<lparr>sy_db := \<lparr>ud_users = [ann_row 0 1], ud_tokens = [], ud_resets = [], ud_verifs = []\<rparr>\<rparr>"
  have "on_db (user_create ann ''a@b.c'' ''h'' None 1) no_users = (Inr (Some (ann_row 0 1)), ?s1)"
    by (simp add: on_db_def user_create_def no_users_def ann_row_def Let_def)
  then have "user_tx {} no_users ?s1" by (rule tx_register)
  moreover have "on_db (rt_create ''11'' ann ''t'' ''21'' 900 ''h'' 2) ?s1 = (Inr (Created Role_CUSTOMER 0), signed_in)"
    by (simp add: on_db_def rt_create_def in_tx_def act_bind_def insert_token_def find_user_def row_simps signed_in_def ann_token_def ann_db_def)
  then have "user_tx {} ?s1 signed_in" by (rule tx_login) (simp_all add: families_def)
  ultimately show ?thesis unfolding users_reach_def by (meson converse_rtranclp_into_rtranclp r_into_rtranclp)
qed

definition quiet :: user_env where
  "quiet = \<lparr>ue_gap = (\<lambda>_ s. s), ue_clock = (\<lambda>_. 5), ue_mint = (\<lambda>_. Inl Id_unavailable), ue_raw = ''raw'', ue_jti = ''j'',
     ue_sha256 = (\<lambda>x. x), ue_hash = (\<lambda>x. x), ue_verify = (\<lambda>h p. h = p), ue_sign = (\<lambda>c now. ''''), ue_redis = (\<lambda>_. Call_ok),
     ue_refreshTtlMs = 900, ue_singleTtlMs = 90, ue_reuseGraceMs = 10, ue_requireVerifiedEmail = False\<rparr>"

definition ann_payload :: jwt_payload where
  "ann_payload = \<lparr>jp_sub = Some ann, jp_jti = Some ''j'', jp_exp = Num 99, jp_role = Some ''CUSTOMER'', jp_epoch = Num 0\<rparr>"

lemma ann_claims: "toClaims ann_payload = Some (\<lparr>ac_sub = ann, ac_role = Role_CUSTOMER, ac_jti = ''j'', ac_epoch = 0\<rparr>, 99)"
proof -
  have "isRoutableId ann"
    by (simp add: ann_def isRoutableId_def toRoutable_def CANONICAL_DECIMAL_def nat_of_dec_def MIN_ROUTABLE_ID_def MAX_VALUE_def
        TIMESTAMP_SHIFT_def SEQUENCE_BITS_def NODE_BITS_def digit_val_def is_digit_def list_all_iff)
  then show ?thesis by (simp add: toClaims_def ann_payload_def isRole_def)
qed


section \<open>Sessions end for good\<close>

text \<open>
  A retired token of the session is presented for its owner; within the grace after its own rotation that is
  taken for a lost answer, later for theft.
\<close>

definition late_replay :: "rotate_input \<Rightarrow> int \<Rightarrow> string \<Rightarrow> user_db \<Rightarrow> bool" where
  "late_replay inp now f db \<longleftrightarrow> (\<exists>r. find_where (\<lambda>r. rt_tokenHash r = ri_presentedTokenHash inp) (ud_tokens db) = Some r \<and>
     rt_familyId r = f \<and> rt_userId r = ri_expectedUserId inp \<and> (rt_revokedAt r \<noteq> None \<or> rt_replacedBy r \<noteq> None) \<and>
     (\<forall>t. rt_replacedBy r \<noteq> None \<and> rt_revokedAt r = Some t \<longrightarrow> ri_reuseGraceMs inp < now - t))"

text \<open>The ways a session ends: its stolen token is replayed, it is signed out, or everything of its owner is.\<close>

definition session_ends :: "user_db \<Rightarrow> user_db \<Rightarrow> string \<Rightarrow> bool" where
  "session_ends db db' f \<longleftrightarrow>
     (\<exists>inp now x. late_replay inp now f db \<and> rotate_token inp now db = (x, db')) \<or>
     (\<exists>r \<in> set (ud_tokens db). rt_familyId r = f \<and>
        ((\<exists>now x. revokeFamily (rt_userId r) f now db = (x, db')) \<or>
         (\<exists>replacement now e. revokeAllForUser (rt_userId r) replacement now db = (Inr (Some e), db'))))"

lemma late_replay_over:
  assumes "late_replay inp now f db" and "rotate_token inp now db = (x, db')"
  shows "over db' f"
proof -
  obtain r where r: "find_where (\<lambda>r. rt_tokenHash r = ri_presentedTokenHash inp) (ud_tokens db) = Some r" "rt_familyId r = f"
      "rt_userId r = ri_expectedUserId inp" "rt_revokedAt r \<noteq> None \<or> rt_replacedBy r \<noteq> None"
      "\<And>t. rt_replacedBy r \<noteq> None \<Longrightarrow> rt_revokedAt r = Some t \<Longrightarrow> ri_reuseGraceMs inp < now - t"
    using assms(1) unfolding late_replay_def by blast
  then have "\<not> (rt_replacedBy r \<noteq> None \<and> (case rt_revokedAt r of None \<Rightarrow> False | Some t \<Rightarrow> now - t \<le> ri_reuseGraceMs inp))"
    by (fastforce split: option.splits)
  then have "db' = revoke_where (\<lambda>r. rt_familyId r = f) now db"
    using assms(2) r(1-4) by (auto simp: rotate_token_def in_tx_def)
  then show ?thesis by (intro over_revoked [of _ "\<lambda>r. rt_familyId r = f"]) simp_all
qed

text \<open> C9: a session that ended stays ended. Once a retired token of a session was presented again for its
  owner and past the reuse grace (within it the code takes the replay for a lost answer and ends nothing),
  or its owner signed it out, or signed out everywhere, or replaced the password, no interleaving of later
  requests brings it back: every refresh token of it is revoked in every later state, and presenting one
  never yields a new pair. Family ids are minted once. \<close>

theorem ended_session_stays_ended:
  assumes "users_reach s" and "session_ends (sy_db s) db' f" and "f \<in> F" and "(user_tx F)\<^sup>*\<^sup>* (s\<lparr>sy_db := db'\<rparr>) s'"
  shows "(\<forall>r \<in> set (ud_tokens (sy_db s')). rt_familyId r = f \<longrightarrow> rt_revokedAt r \<noteq> None) \<and>
    (\<forall>inp now r. find_where (\<lambda>r. rt_tokenHash r = ri_presentedTokenHash inp) (ud_tokens (sy_db s')) = Some r \<and> rt_familyId r = f \<longrightarrow>
       (\<forall>u ro e. fst (rotate_token inp now (sy_db s')) \<noteq> Inr (Rotated u ro e)))"
proof -
  have "over db' f"
    using assms(2) reach_ok [OF assms(1)] unfolding session_ends_def
    by (auto intro: late_replay_over revoke_all_over revoke_family_over)
  then have "over (sy_db s') f" using over_run [OF assms(4)] assms(3) by simp
  then show ?thesis using over_never_rotates unfolding over_def by blast
qed

theorem ended_session_stays_ended_witness:
  "revokeFamily ann ''21'' 5 (sy_db signed_in) = (Inr True, ann_db (ann_row 0 1) (ann_token (Some 5))) \<and>
     fst (rotate_token \<lparr>ri_presentedTokenHash = ''t'', ri_expectedUserId = ann, ri_successorId = Some ''12'', ri_newTokenHash = ''t2'',
       ri_newExpiresAt = 950, ri_reuseGraceMs = 10\<rparr> 6 (ann_db (ann_row 0 1) (ann_token (Some 5)))) \<noteq> Inr (Rotated ann Role_CUSTOMER 0)"
proof -
  let ?db = "ann_db (ann_row 0 1) (ann_token (Some 5))"
  have r: "revokeFamily ann ''21'' 5 (sy_db signed_in) = (Inr True, ?db)"
    by (simp add: revokeFamily_def in_tx_def some_live_def revoke_where_def signed_in_def row_simps)
      (simp add: ann_db_def ann_token_def)
  then have e: "session_ends (sy_db signed_in) ?db ''21''"
    unfolding session_ends_def by (intro disjI2 bexI [of _ "ann_token None"]) (auto simp: signed_in_def)
  have "\<forall>inp now r. find_where (\<lambda>r. rt_tokenHash r = ri_presentedTokenHash inp) (ud_tokens ?db) = Some r \<and> rt_familyId r = ''21'' \<longrightarrow>
       (\<forall>u ro e. fst (rotate_token inp now ?db) \<noteq> Inr (Rotated u ro e))"
    using ended_session_stays_ended [OF signed_in_reached e, of "{''21''}" "signed_in\<lparr>sy_db := ?db\<rparr>"] by simp
  then show ?thesis using r by (simp add: row_simps)
qed

section \<open>A replaced password opens nothing\<close>

text \<open>
  Requests among which an account's sign-ins verified only hashes of \<open>old\<close> - they read the password before it
  was replaced - and none stores such a hash again.
\<close>

definition stale_call :: "string \<Rightarrow> string set \<Rightarrow> user_call \<Rightarrow> bool" where
  "stale_call userId old c \<longleftrightarrow>
     (case c of
        Call_login i verified \<Rightarrow> i = userId \<longrightarrow> verified \<in> old
      | Call_replace i h \<Rightarrow> i = userId \<longrightarrow> h \<notin> old
      | Call_other \<Rightarrow> True)"

definition stale_tx :: "string set \<Rightarrow> string \<Rightarrow> string set \<Rightarrow> user_sys \<Rightarrow> user_sys \<Rightarrow> bool" where
  "stale_tx F userId old s s' \<longleftrightarrow> (\<exists>c. user_call_tx F c s s' \<and> stale_call userId old c)"

definition locked_out :: "string \<Rightarrow> string set \<Rightarrow> user_db \<Rightarrow> bool" where
  "locked_out userId old db \<longleftrightarrow> (\<exists>u. find_user userId db = Some u \<and> us_passwordHash u \<notin> old) \<and>
     (\<forall>q \<in> set (ud_tokens db). rt_userId q = userId \<longrightarrow> rt_revokedAt q \<noteq> None)"

lemma hash_kept:
  assumes "ud_users db' = ud_users (update_user p now f db)" "\<And>u. us_id (f u) = us_id u"
    and "find_user userId db = Some u" "us_passwordHash u \<notin> old" "p u \<Longrightarrow> us_passwordHash (f u) \<notin> old"
  shows "\<exists>u'. find_user userId db' = Some u' \<and> us_passwordHash u' \<notin> old"
proof -
  have "find_user userId db' = Some (if p u then (f u)\<lparr>us_updatedAt := now\<rparr> else u)"
    using assms(1-3) by (simp add: find_user_def update_user_def find_update_where)
  then show ?thesis using assms(4,5) by auto
qed

lemma stale_login:
  assumes "rt_create i v h f e verified now db = (r, db')" and "locked_out userId old db" and "v = userId \<Longrightarrow> verified \<in> old"
  shows "locked_out userId old db'"
proof (cases "v = userId")
  case True
  then obtain u where "find_user v db = Some u" "us_passwordHash u \<noteq> verified" using assms(2,3) by (auto simp: locked_out_def)
  then have "db' = db" using assms(1) by (simp add: rt_create_def in_tx_def)
  then show ?thesis using assms(2) by simp
next
  case False
  let ?row = "\<lparr>rt_id = i, rt_userId = v, rt_tokenHash = h, rt_familyId = f, rt_replacedBy = None, rt_expiresAt = e,
    rt_revokedAt = None, rt_createdAt = now\<rparr>"
  obtain x db1 where ins: "insert_token ?row db = (x, db1)" by force
  have "db' = db \<or> db' = db1"
    using assms(1) ins by (auto simp: rt_create_def in_tx_def act_bind_def split: option.splits if_splits sum.splits)
  then have "db' = db \<or> db' = db\<lparr>ud_tokens := ud_tokens db @ [?row]\<rparr>" using insert_token_cases [OF ins] by metis
  then show ?thesis using assms(2) False by (auto simp: locked_out_def find_user_def)
qed

lemma quiet_call: "user_call_tx F c s s' \<Longrightarrow> (\<And>i v. c \<noteq> Call_login i v) \<Longrightarrow> user_call_tx UNIV c s s'"
  by (erule user_call_tx.cases) (auto intro: user_call_tx.intros)

lemma stale_step:
  assumes "stale_tx F userId old s s'" and s: "locked_out userId old (sy_db s)"
  shows "locked_out userId old (sy_db s')"
proof -
  obtain c where c: "user_call_tx F c s s'" "stale_call userId old c" using assms(1) unfolding stale_tx_def by blast
  obtain u where u: "find_user userId (sy_db s) = Some u" "us_passwordHash u \<notin> old" using s by (auto simp: locked_out_def)
  show ?thesis
  proof (cases "\<exists>i v. c = Call_login i v")
    case True
    then obtain i v where "c = Call_login i v" by blast
    then show ?thesis
      using c s by (auto elim!: user_call_tx.cases dest!: on_db_result simp: stale_call_def replacing_def
          split: option.splits prod.splits intro: stale_login)
  next
    case False
    then have "tokens_step UNIV (sy_db s) (sy_db s')" using call_grows [OF quiet_call [OF c(1)]] by (simp add: user_grows_def)
    then have inherited: "from_family (sy_db s) q" if "q \<in> set (ud_tokens (sy_db s'))" for q
      using that by (simp add: tokens_step_def)
    then have "rt_revokedAt q \<noteq> None" if "q \<in> set (ud_tokens (sy_db s'))" "rt_userId q = userId" for q
      using that s unfolding from_family_def locked_out_def by metis
    moreover have "\<exists>u'. find_user userId (sy_db s') = Some u' \<and> us_passwordHash u' \<notin> old"
      using c(1)
    proof cases
      case (call_register i email h role now r)
      then show ?thesis
        using u on_db_result [OF call_register(2)]
        by (auto simp: user_create_def Let_def find_user_def find_where_append split: if_splits)
    next
      case (call_verified i now r)
      let ?p = "\<lambda>u. us_id u = i \<and> us_emailVerifiedAt u = None" and ?f = "\<lambda>u. u\<lparr>us_emailVerifiedAt := Some now\<rparr>"
      have "sy_db s' = update_user ?p now ?f (sy_db s)"
        using on_db_result [OF call_verified(2)] by (auto simp: markEmailVerified_def)
      then show ?thesis using hash_kept [of "sy_db s'" ?p now ?f "sy_db s"] u by simp
    next
      case (call_login i v h f e verified now r)
      then show ?thesis using False by blast
    next
      case (call_rotate inp now r)
      then show ?thesis using u on_db_result rotate_grows find_user_def by (metis user_sys.select_convs(1) user_sys.surjective user_sys.update_convs(1))
    next
      case (call_revoke_all i replacement now r)
      then obtain db' where rv: "revokeAllForUser i replacement now (sy_db s) = (r, db')" "s' = s\<lparr>sy_db := db'\<rparr>" using on_db_result by blast
      have "ud_users db' = ud_users (update_user (replaces i replacement) now (bumped replacement) (sy_db s))"
        using rv(1) by (auto simp: revokeAllForUser_def in_tx_def Let_def revoke_where_def split: option.splits)
      moreover have "us_passwordHash (bumped replacement u) \<notin> old" if "replaces i replacement u"
        using that u c(2) call_revoke_all(1) find_where_Some [OF u(1) [unfolded find_user_def]]
        by (cases replacement) (auto simp: bumped_def stale_call_def replacing_def replaces_def)
      ultimately show ?thesis
        using hash_kept [of db' "replaces i replacement" now "bumped replacement" "sy_db s"] u rv(2) by (simp add: bumped_def)
    next
      case (call_revoke_family i f now r)
      then show ?thesis using u on_db_result [OF call_revoke_family(2)]
        by (auto simp: revokeFamily_def in_tx_def revoke_where_def find_user_def)
    next
      case (call_collect expiredBefore revokedBefore limit chosen r)
      then show ?thesis using u on_db_result [OF call_collect(2)]
        by (auto simp: deleteCollectable_def Let_def find_user_def)
    next
      case (call_bump i now r)
      let ?p = "\<lambda>u. us_id u = i" and ?f = "\<lambda>u. u\<lparr>us_tokenEpoch := us_tokenEpoch u + 1\<rparr>"
      have "sy_db s' = update_user ?p now ?f (sy_db s)" using on_db_result [OF call_bump(2)] by (auto simp: epoch_bump_def)
      then show ?thesis using hash_kept [of "sy_db s'" ?p now ?f "sy_db s"] u by simp
    qed (use u in \<open>simp_all add: find_user_def\<close>)
    ultimately show ?thesis by (simp add: locked_out_def)
  qed
qed

lemma stale_run: "(stale_tx F userId old)\<^sup>*\<^sup>* s s' \<Longrightarrow> locked_out userId old (sy_db s) \<Longrightarrow> locked_out userId old (sy_db s')"
  by (induction rule: rtranclp_induct) (simp_all add: stale_step)

text \<open>The replacement itself locks the old password out, and what its call does afterwards keeps it so.\<close>

lemma replaced_locks:
  assumes "revokeAllForUser userId (Some (newHash, verified)) now db = (Inr (Some e), db')" and "newHash \<notin> old"
    and "distinct (map us_id (ud_users db))"
  shows "locked_out userId old db'"
proof -
  let ?rp = "Some (newHash, verified)"
  obtain u where u: "find_where (replaces userId ?rp) (ud_users db) = Some u"
    and db': "db' = revoke_where (\<lambda>r. rt_userId r = userId) now (update_user (replaces userId ?rp) now (bumped ?rp) db)"
    using assms(1) by (auto simp: revokeAllForUser_def in_tx_def Let_def split: option.splits)
  have w: "replaces userId ?rp u" "u \<in> set (ud_users db)" "us_id u = userId"
    using find_where_Some [OF u] by (auto simp: replaces_def)
  then have f: "find_user userId db = Some u" using find_where_key [OF assms(3) w(2)] by (simp add: find_user_def)
  have "find_user userId db' = Some ((bumped ?rp u)\<lparr>us_updatedAt := now\<rparr>)"
    using f w(1) by (simp add: find_user_def db' revoke_where_def update_user_def find_update_where bumped_def)
  then have "\<exists>u'. find_user userId db' = Some u' \<and> us_passwordHash u' \<notin> old" using assms(2) by (simp add: bumped_def)
  moreover have "rt_revokedAt q' \<noteq> None" if q': "q' \<in> set (ud_tokens db')" "rt_userId q' = userId" for q'
  proof -
    have "ud_tokens db' = ud_tokens (revoke_where (\<lambda>r. rt_userId r = userId) now db)"
      by (simp add: db' revoke_where_def update_user_def)
    then obtain q where q: "q' = (if rt_userId q = userId \<and> rt_revokedAt q = None then q\<lparr>rt_revokedAt := Some now\<rparr> else q)"
      using q'(1) by (auto simp: revoke_where_def set_update_where)
    then have "rt_userId q = userId" using q'(2) by (simp split: if_splits)
    then show ?thesis using q by simp
  qed
  ultimately show ?thesis by (simp add: locked_out_def)
qed

lemma publish_keeps_db: "publish_if env userId (Some e) s = (r, s') \<Longrightarrow> sy_db s' = sy_db (ue_gap env 2 s)"
  by (auto simp: publish_if_def gap_def publishEpochOrRaise_def publish_sys_def split: prod.splits sum.splits)

lemma replace_locks:
  assumes "replacePassword env userId newHash verified s = (Inr True, s1)" and "newHash \<notin> old"
    and "distinct (map us_id (ud_users (sy_db s)))" and "\<And>k t. (stale_tx F userId old)\<^sup>*\<^sup>* t (ue_gap env k t)"
  shows "locked_out userId old (sy_db s1)"
proof -
  obtain x db' where rv: "revokeAllForUser userId (Some (newHash, verified)) (ue_clock env 0) (sy_db s) = (x, db')" by force
  obtain epoch where x: "x = Inr epoch" using assms(1) rv by (cases x) (auto simp: replacePassword_def on_db_def)
  obtain y s2 where p: "publish_if env userId epoch (s\<lparr>sy_db := db'\<rparr>) = (y, s2)" by force
  have "y = Inr ()" "s2 = s1" "epoch \<noteq> None" using assms(1) rv x p by (cases y; auto simp: replacePassword_def on_db_def)+
  then obtain e where e: "epoch = Some e" "publish_if env userId (Some e) (s\<lparr>sy_db := db'\<rparr>) = (Inr (), s1)" using p by auto
  have "locked_out userId old db'" using replaced_locks rv x e(1) assms(2,3) by simp
  then have "locked_out userId old (sy_db (ue_gap env 2 (s\<lparr>sy_db := db'\<rparr>)))"
    using stale_run [OF assms(4), of "s\<lparr>sy_db := db'\<rparr>" 2] by simp
  then show ?thesis using publish_keeps_db [OF e(2)] by simp
qed

text \<open> C7: signing out everywhere, or replacing the password, locks every earlier credential out. Once the call
  answered, whatever other requests did meanwhile and do later: no session the account had at the call has a
  live refresh token left; every access token signed for the account from an epoch read before the call is
  refused by every service's verifier; and after a password replacement, while the account's sign-ins are only
  ones that verified an old password (they raced the replacement), the account has no live refresh token at
  all, of whatever session. Sessions opened later by a sign-in with the password then current are of course
  not affected. Family ids are minted once; published epochs are not lost. \<close>

theorem signed_out_everywhere:
  assumes "users_reach s" and "gaps_run F env" and "find_user userId (sy_db s) = Some u"
    and "\<And>r. r \<in> set (ud_tokens (sy_db s)) \<Longrightarrow> rt_userId r = userId \<Longrightarrow> rt_familyId r \<in> F"
    and "revokeAll env userId s = (Inr (), s1) \<or> replacePassword env userId newHash verified s = (Inr True, s1)"
    and "(user_tx F)\<^sup>*\<^sup>* s1 s2"
    and "toClaims payload = Some (claims, exp)" "ac_sub claims = userId" "ac_epoch claims \<le> us_tokenEpoch u"
  shows "(\<forall>r \<in> set (ud_tokens (sy_db s)). rt_userId r = userId \<longrightarrow>
      (\<forall>q \<in> set (ud_tokens (sy_db s2)). rt_familyId q = rt_familyId r \<longrightarrow> rt_revokedAt q \<noteq> None)) \<and>
    (\<exists>message. verify_access (Some (Inr payload)) denied (\<lambda>i. reader_current (sy_epochs s2 i) (asked i)) = Inl (Unauthorized message)) \<and>
    (\<forall>old. replacePassword env userId newHash verified s = (Inr True, s1) \<and> newHash \<notin> old \<and>
       (\<forall>k t. (stale_tx F userId old)\<^sup>*\<^sup>* t (ue_gap env k t)) \<and> (stale_tx F userId old)\<^sup>*\<^sup>* s1 s2 \<longrightarrow>
       (\<forall>q \<in> set (ud_tokens (sy_db s2)). rt_userId q = userId \<longrightarrow> rt_revokedAt q \<noteq> None))"
proof (intro conjI allI impI)
  have ok: "one_owner (sy_db s)" "distinct (map us_id (ud_users (sy_db s)))" using reach_ok [OF assms(1)] by auto
  obtain replacement db' e where rv: "revokeAllForUser userId replacement (ue_clock env 0) (sy_db s) = (Inr (Some e), db')"
    and pub: "publish_if env userId (Some e) (s\<lparr>sy_db := db'\<rparr>) = (Inr (), s1)"
    using revoke_call [OF assms(5,3)] by blast
  have "(user_tx F)\<^sup>*\<^sup>* (s\<lparr>sy_db := db'\<rparr>) s1"
    using publish_if_runs [OF pub assms(2)] revoke_all_epoch [OF rv ok(2)] by (fastforce simp: has_epoch_def)
  then have run: "(user_tx F)\<^sup>*\<^sup>* (s\<lparr>sy_db := db'\<rparr>) s2" using assms(6) by (rule rtranclp_trans)
  have "over (sy_db s2) (rt_familyId r)" if "r \<in> set (ud_tokens (sy_db s))" "rt_userId r = userId" for r
    using over_run [OF run] revoke_all_over [OF rv ok(1)] assms(4) that by simp
  then show "\<forall>r \<in> set (ud_tokens (sy_db s)). rt_userId r = userId \<longrightarrow>
      (\<forall>q \<in> set (ud_tokens (sy_db s2)). rt_familyId q = rt_familyId r \<longrightarrow> rt_revokedAt q \<noteq> None)"
    unfolding over_def by blast
  have "e = us_tokenEpoch u + 1" using revoke_all_epoch [OF rv ok(2)] assms(3) by auto
  moreover obtain q where "sy_epochs s1 userId = Some q" "e \<le> q" using published_if [OF pub] by blast
  moreover have "epochs_step s1 s2" using epochs_run assms(6) by blast
  ultimately have "\<exists>p. sy_epochs s2 userId = Some p \<and> ac_epoch claims < p" using assms(9) unfolding epochs_step_def by fastforce
  then show "\<exists>message. verify_access (Some (Inr payload)) denied (\<lambda>i. reader_current (sy_epochs s2 i) (asked i)) = Inl (Unauthorized message)"
    using assms(7,8) by (auto simp: verify_access_def reader_current_def)
  fix old
  assume a: "replacePassword env userId newHash verified s = (Inr True, s1) \<and> newHash \<notin> old \<and>
     (\<forall>k t. (stale_tx F userId old)\<^sup>*\<^sup>* t (ue_gap env k t)) \<and> (stale_tx F userId old)\<^sup>*\<^sup>* s1 s2"
  then have "locked_out userId old (sy_db s1)" using replace_locks [of env userId newHash verified s s1 old F] ok(2) by blast
  then show "\<forall>q \<in> set (ud_tokens (sy_db s2)). rt_userId q = userId \<longrightarrow> rt_revokedAt q \<noteq> None"
    using stale_run a unfolding locked_out_def by blast
qed

text \<open>The password replaced, then a sign-in that had verified the old one.\<close>

definition reset_ann :: user_sys where
  "reset_ann = snd (replacePassword quiet ann ''h2'' None signed_in)"

theorem signed_out_everywhere_witness:
  "fst (replacePassword quiet ann ''h2'' None signed_in) = Inr True \<and>
     fst (on_db (rt_create ''12'' ann ''t2'' ''22'' 900 ''h'' 6) reset_ann) = Inr Credentials_changed \<and>
     filter (\<lambda>q. rt_userId q = ann \<and> rt_revokedAt q = None)
       (ud_tokens (sy_db (snd (on_db (rt_create ''12'' ann ''t2'' ''22'' 900 ''h'' 6) reset_ann)))) = [] \<and>
     (\<exists>message. verify_access (Some (Inr ann_payload)) (\<lambda>_. False)
        (\<lambda>i. reader_current (sy_epochs (snd (on_db (rt_create ''12'' ann ''t2'' ''22'' 900 ''h'' 6) reset_ann)) i) (Inr None)) = Inl (Unauthorized message))"
proof -
  let ?late = "on_db (rt_create ''12'' ann ''t2'' ''22'' 900 ''h'' 6) reset_ann"
  have f: "find_user ann (sy_db signed_in) = Some (ann_row 0 1)" by (simp add: find_user_def signed_in_def row_simps)
  have r: "replacePassword quiet ann ''h2'' None signed_in = (Inr True, reset_ann) \<and>
      sy_db reset_ann = \<lparr>ud_users = [(ann_row 1 5)\<lparr>us_passwordHash := ''h2''\<rparr>], ud_tokens = [ann_token (Some 5)], ud_resets = [], ud_verifs = []\<rparr>"
    unfolding reset_ann_def
    by (simp add: replacePassword_def on_db_def revokeAllForUser_def in_tx_def act_bind_def quiet_def publish_if_def gap_def signed_in_def
        replaces_def bumped_def row_simps Let_def publishEpochOrRaise_def publish_sys_def publish_epoch_def MAX_ATTEMPTS_def numeral_3_eq_3
        update_user_def revoke_where_def ann_db_def ann_row_def ann_token_def)
  have l: "fst ?late = Inr Credentials_changed"
    using r by (simp add: on_db_def rt_create_def in_tx_def find_user_def row_simps)
  have login: "user_call_tx {''21''} (Call_login ann ''h'') reset_ann (snd ?late)"
    by (rule call_login [of "''12''" ann "''t2''" "''22''" 900 "''h''" 6 reset_ann "fst ?late"])
       (use r in \<open>simp_all add: families_def\<close>)
  then have "user_tx {''21''} reset_ann (snd ?late)" unfolding user_tx_def by blast
  then have run: "(user_tx {''21''})\<^sup>*\<^sup>* reset_ann (snd ?late)" by (rule r_into_rtranclp)
  have "stale_tx {''21''} ann {''h''} reset_ann (snd ?late)"
    unfolding stale_tx_def by (intro exI conjI, rule login) (simp add: stale_call_def)
  then have stale: "(stale_tx {''21''} ann {''h''})\<^sup>*\<^sup>* reset_ann (snd ?late)" by (rule r_into_rtranclp)
  have g: "gaps_run {''21''} quiet" by (simp add: gaps_run_def quiet_def)
  have c: "revokeAll quiet ann signed_in = (Inr (), reset_ann) \<or> replacePassword quiet ann ''h2'' None signed_in = (Inr True, reset_ann)"
    using r by blast
  have fam: "\<And>q. q \<in> set (ud_tokens (sy_db signed_in)) \<Longrightarrow> rt_userId q = ann \<Longrightarrow> rt_familyId q \<in> {''21''}"
    by (simp add: signed_in_def)
  have q: "\<forall>k t. (stale_tx {''21''} ann {''h''})\<^sup>*\<^sup>* t (ue_gap quiet k t)" by (simp add: quiet_def)
  note out = signed_out_everywhere [OF signed_in_reached g f fam c run ann_claims, of "\<lambda>_. False" "\<lambda>_. Inr None"]
  have "\<forall>q \<in> set (ud_tokens (sy_db (snd ?late))). rt_userId q = ann \<longrightarrow> rt_revokedAt q \<noteq> None"
    using conjunct2 [OF conjunct2 [OF signed_out_everywhere [OF signed_in_reached g f fam c run ann_claims]], rule_format, of "{''h''}"]
      r stale q by simp
  then have "filter (\<lambda>q. rt_userId q = ann \<and> rt_revokedAt q = None) (ud_tokens (sy_db (snd ?late))) = []"
    by (simp add: filter_empty_conv)
  moreover have "\<exists>message. verify_access (Some (Inr ann_payload)) (\<lambda>_. False)
      (\<lambda>i. reader_current (sy_epochs (snd ?late) i) (Inr None)) = Inl (Unauthorized message)"
    using out by simp
  ultimately show ?thesis using r l by simp
qed


section \<open>The reconciler\<close>

definition published_for :: "epochs \<Rightarrow> user_row \<Rightarrow> bool" where
  "published_for e u \<longleftrightarrow> (\<exists>q. e (us_id u) = Some q \<and> us_tokenEpoch u \<le> q)"

lemma attempts_raise:
  assumes "publish_attempts n fates i epoch e = (r, e')" "e j = Some p"
  shows "\<exists>q. e' j = Some q \<and> p \<le> q"
  using assms
proof (induction n arbitrary: e p)
  case (Suc n)
  let ?e1 = "e(i \<mapsto> raise_epoch epoch (e i))"
  have "\<exists>p1. ?e1 j = Some p1 \<and> p \<le> p1" using Suc.prems(2) by (cases "j = i") (auto simp: raise_epoch_def)
  then obtain p1 where p1: "?e1 j = Some p1" "p \<le> p1" by blast
  show ?case
  proof (cases "fates (MAX_ATTEMPTS - n)")
    case Call_ok
    then show ?thesis using Suc.prems p1 by (auto simp: Let_def)
  next
    case Call_failed
    then show ?thesis using Suc by (simp add: Let_def)
  next
    case Call_unanswered
    then have "publish_attempts n fates i epoch ?e1 = (r, e')" using Suc.prems(1) by (simp add: Let_def del: fun_upd_apply)
    then show ?thesis using Suc.IH p1 by (meson order_trans)
  qed
qed auto

lemma published_kept: "publish_epoch fates i epoch e = (r, e') \<Longrightarrow> published_for e u \<Longrightarrow> published_for e' u"
  using attempts_raise unfolding publish_epoch_def published_for_def by (meson order_trans)

lemma page_published:
  assumes "publish_page fates us e = (ok, e')"
  shows "(\<forall>u. published_for e u \<longrightarrow> published_for e' u) \<and> (ok \<longrightarrow> (\<forall>u \<in> set us. published_for e' u))"
  using assms
proof (induction us arbitrary: e)
  case (Cons v us)
  obtain x e1 where p: "publish_epoch (fates (us_id v)) (us_id v) (us_tokenEpoch v) e = (x, e1)" by force
  have k: "\<forall>u. published_for e u \<longrightarrow> published_for e1 u" using published_kept [OF p] by blast
  show ?case
  proof (cases x)
    case (Inl y)
    then show ?thesis using Cons.prems p k by simp
  next
    case (Inr y)
    then have "published_for e1 v" using p published_at_least unfolding publish_epoch_def published_for_def by blast
    moreover have "publish_page fates us e1 = (ok, e')" using Cons.prems Inr p by simp
    ultimately show ?thesis using Cons.IH k by (metis set_ConsD)
  qed
qed simp

text \<open>A page that is not the last ends at the cursor: every other change lies past it.\<close>

lemma page_or_past:
  assumes "u \<in> set (ud_users db)" "past_cursor after since u" and "length (listChanges since after limit db) = limit" "0 < limit"
    and ids: "inj_on (\<lambda>u. nat_of_dec (us_id u)) (set (ud_users db))"
  shows "u \<in> set (listChanges since after limit db) \<or> past_cursor (last_cursor (listChanges since after limit db)) since u"
proof (cases "u \<in> set (listChanges since after limit db)")
  case False
  let ?xs = "sort_key (\<lambda>u. nat_of_dec (us_id u)) (filter (past_cursor after since) (ud_users db))"
  let ?ys = "sort_key us_updatedAt ?xs" and ?v = "last (listChanges since after limit db)"
  have page: "listChanges since after limit db = take limit ?ys" by (simp only: listChanges_def)
  have "take limit ?ys \<noteq> []" using assms(3,4) unfolding page by (metis length_0_conv less_numeral_extra(3))
  then have v: "?v \<in> set (take limit ?ys)" unfolding page by (rule last_in_set)
  have "u \<in> set ?ys" using assms(1,2) by simp
  moreover have u: "u \<notin> set (take limit ?ys)" using False unfolding page .
  ultimately have d: "u \<in> set (drop limit ?ys)" by (metis append_take_drop_id Un_iff set_append)
  have "sorted (map us_updatedAt (take limit ?ys @ drop limit ?ys))" by simp
  then have le: "us_updatedAt ?v \<le> us_updatedAt u"
    using v d unfolding map_append sorted_append by auto
  have "nat_of_dec (us_id ?v) < nat_of_dec (us_id u)" if eq: "us_updatedAt ?v = us_updatedAt u"
  proof -
    let ?same = "\<lambda>w. us_updatedAt w = us_updatedAt u"
    have "filter ?same (take limit ?ys) @ filter ?same (drop limit ?ys) = filter ?same ?ys"
      by (metis append_take_drop_id filter_append)
    also have "\<dots> = filter ?same ?xs" by (rule sort_key_stable)
    finally have split: "filter ?same (take limit ?ys) @ filter ?same (drop limit ?ys) = filter ?same ?xs" .
    have "sorted (map (\<lambda>u. nat_of_dec (us_id u)) (filter ?same ?xs))" by (intro sorted_filter) simp
    then have "nat_of_dec (us_id ?v) \<le> nat_of_dec (us_id u)"
      using v d eq unfolding split [symmetric] map_append sorted_append by auto
    moreover have "nat_of_dec (us_id ?v) \<noteq> nat_of_dec (us_id u)"
    proof
      assume "nat_of_dec (us_id ?v) = nat_of_dec (us_id u)"
      moreover have "?v \<in> set (ud_users db)" using in_set_takeD [OF v] by simp
      ultimately have "?v = u" using ids assms(1) by (meson inj_onD)
      then show False using v u by simp
    qed
    ultimately show ?thesis by simp
  qed
  then show ?thesis using le
    by (cases "us_updatedAt ?v = us_updatedAt u") (simp_all add: past_cursor_def last_cursor_def)
qed simp

text \<open>A clean pass published every change since its start: what a failed publish left behind is repaired.\<close>

lemma reconcile_covers:
  assumes "reconcile_pages fates db since after e = (True, e')"
    and "inj_on (\<lambda>u. nat_of_dec (us_id u)) (set (ud_users db))"
  shows "(\<forall>u. published_for e u \<longrightarrow> published_for e' u) \<and>
    (\<forall>u \<in> set (ud_users db). past_cursor after since u \<longrightarrow> published_for e' u)"
  using assms
proof (induction fates db since after e rule: reconcile_pages.induct)
  case (1 fates db since after e)
  let ?page = "listChanges since after PAGE_SIZE db"
  obtain ok e1 where p: "publish_page fates ?page e = (ok, e1)" by force
  have ok: "ok" using "1.prems"(1) p by (cases ok) (simp_all add: reconcile_pages.simps [of fates db since after e])
  note page = page_published [OF p]
  have le: "length ?page \<le> PAGE_SIZE" by (simp add: listChanges_def)
  show ?case
  proof (cases "length ?page < PAGE_SIZE")
    case True
    then have "e' = e1" using "1.prems"(1) p ok by (simp add: reconcile_pages.simps [of fates db since after e])
    moreover have "u \<in> set ?page" if "u \<in> set (ud_users db)" "past_cursor after since u" for u
      using True that by (simp add: listChanges_def)
    ultimately show ?thesis using page ok by blast
  next
    case False
    then have rest: "reconcile_pages fates db since (last_cursor ?page) e1 = (True, e')"
      using "1.prems"(1) p ok by (simp add: reconcile_pages.simps [of fates db since after e])
    have "(\<forall>u. published_for e1 u \<longrightarrow> published_for e' u) \<and>
        (\<forall>u \<in> set (ud_users db). past_cursor (last_cursor ?page) since u \<longrightarrow> published_for e' u)"
      by (rule "1.IH" [OF refl p [symmetric] _ _ _ rest "1.prems"(2)]) (use ok False in auto)
    moreover have "u \<in> set ?page \<or> past_cursor (last_cursor ?page) since u" if "u \<in> set (ud_users db)" "past_cursor after since u" for u
      using page_or_past [OF that _ _ "1.prems"(2)] False le by (simp add: PAGE_SIZE_def)
    ultimately show ?thesis using page ok by blast
  qed
qed

end
